(* ===== verification/Prelude.thy ===== *)
theory Prelude
  imports Main "HOL-Library.Monad_Syntax" "HOL-Library.Word"
begin

text \<open>
  What every component of the model shares: memory as a list of bytes, the C string
  functions over it, the character classes of \<^verbatim>\<open>ctype.h\<close>, decimal printing, and the
  theorem collections that the component proofs use.

  A block of memory is a \<^typ>\<open>string\<close> (a list of 8-bit characters) and a pointer into it
  is an offset. An access outside the block is undefined behaviour in C: every operation
  that could make one returns an option, and \<^term>\<open>None\<close> stands for undefined
  behaviour. NULL is \<^term>\<open>None\<close> of a pointer type \<open>nat option\<close>.
\<close>

unbundle bit_operations_syntax

named_theorems mem_simps \<open>memory primitives, unfolded\<close>
named_theorems ext_simps \<open>an operation on a block gives the same result on a longer block\<close>
named_theorems frame_simps \<open>what an operation leaves unchanged\<close>

type_synonym mem = string
type_synonym 'a ub = "'a option"

abbreviation NUL :: char where "NUL \<equiv> CHR 0x00"
abbreviation SP :: char where "SP \<equiv> CHR 0x20"
abbreviation TAB :: char where "TAB \<equiv> CHR 0x09"
abbreviation CR :: char where "CR \<equiv> CHR 0x0D"
abbreviation LF :: char where "LF \<equiv> CHR 0x0A"
abbreviation CRLF :: string where "CRLF \<equiv> [CR, LF]"

section \<open>Reading and writing memory\<close>

definition peek :: "mem \<Rightarrow> nat \<Rightarrow> char ub" where
  "peek m i = (if i < length m then Some (m ! i) else None)"

definition poke :: "mem \<Rightarrow> nat \<Rightarrow> char \<Rightarrow> mem ub" where
  "poke m i c = (if i < length m then Some (m[i := c]) else None)"

lemma peek_Some [simp]: "peek m i = Some c \<longleftrightarrow> i < length m \<and> m ! i = c"
  by (auto simp: peek_def)

lemma poke_Some [simp]: "poke m i c = Some m' \<longleftrightarrow> i < length m \<and> m' = m[i := c]"
  by (auto simp: poke_def)

lemma peek_in [mem_simps]: "i < length m \<Longrightarrow> peek m i = Some (m ! i)"
  by simp

lemma poke_in [mem_simps]: "i < length m \<Longrightarrow> poke m i c = Some (m[i := c])"
  by simp

lemma takeWhile_shorter: "x \<in> set xs \<Longrightarrow> \<not> P x \<Longrightarrow> length (takeWhile P xs) < length xs"
  by (induction xs) auto

lemma takeWhile_stop: "(\<And>c. c \<in> set s \<Longrightarrow> P c) \<Longrightarrow> \<not> P x \<Longrightarrow> takeWhile P (s @ x # post) = s"
  by (induction s) auto

text \<open>
  The scanning loop \<^verbatim>\<open>for (; i < n && !P(m[i]); i++)\<close> with the block's length as its
  bound.
\<close>

function scan_until :: "(char \<Rightarrow> bool) \<Rightarrow> mem \<Rightarrow> nat \<Rightarrow> nat" where
  "scan_until P m i = (if i < length m \<and> \<not> P (m ! i) then scan_until P m (Suc i) else i)"
  by pat_completeness auto
termination by (relation "measure (\<lambda>(P, m, i). length m - i)") auto

declare scan_until.simps [simp del]

lemma scan_until_ge: "i \<le> scan_until P m i"
proof (induction P m i rule: scan_until.induct)
  case (1 P m i)
  then show ?case by (subst scan_until.simps) (auto intro: Suc_leD)
qed

lemma scan_until_eq: "scan_until P m i = i + length (takeWhile (\<lambda>c. \<not> P c) (drop i m))"
proof (induction P m i rule: scan_until.induct)
  case (1 P m i)
  show ?case
  proof (cases "i < length m \<and> \<not> P (m ! i)")
    case True
    then have "drop i m = m ! i # drop (Suc i) m" by (simp add: Cons_nth_drop_Suc)
    with True 1 show ?thesis by (simp add: scan_until.simps [of P m i])
  next
    case False
    then show ?thesis
      by (cases "drop i m") (auto simp: scan_until.simps [of P m i] hd_drop_conv_nth [symmetric])
  qed
qed

lemma scan_until_bound: "i \<le> length m \<Longrightarrow> scan_until P m i \<le> length m"
  using length_takeWhile_le [of "\<lambda>c. \<not> P c" "drop i m"] by (simp add: scan_until_eq)

lemma scan_until_le: "i \<le> z \<Longrightarrow> z < length m \<Longrightarrow> P (m ! z) \<Longrightarrow> scan_until P m i \<le> z"
proof (induction P m i rule: scan_until.induct)
  case (1 P m i)
  show ?case
  proof (cases "i < length m \<and> \<not> P (m ! i)")
    case True
    then have "i \<noteq> z" using "1.prems" by auto
    with True "1.IH" "1.prems" show ?thesis by (simp add: scan_until.simps [of P m i])
  qed (use "1.prems" in \<open>auto simp: scan_until.simps [of P m i]\<close>)
qed

lemma scan_until_hit: "scan_until P m i < length m \<Longrightarrow> P (m ! scan_until P m i)"
proof (induction P m i rule: scan_until.induct)
  case (1 P m i)
  then show ?case
    by (cases "i < length m \<and> \<not> P (m ! i)") (auto simp: scan_until.simps [of P m i])
qed

lemma scan_until_before: "i \<le> j \<Longrightarrow> j < scan_until P m i \<Longrightarrow> \<not> P (m ! j)"
proof (induction P m i rule: scan_until.induct)
  case (1 P m i)
  have "i < length m \<and> \<not> P (m ! i)"
    using "1.prems" by (auto simp: scan_until.simps [of P m i] split: if_splits)
  with 1 show ?case
    by (cases "i = j") (auto simp: scan_until.simps [of P m i])
qed

lemma scan_until_append [ext_simps]:
  "scan_until P m i < length m \<Longrightarrow> scan_until P (m @ bs) i = scan_until P m i"
proof (induction P m i rule: scan_until.induct)
  case (1 P m i)
  show ?case
  proof (cases "i < length m \<and> \<not> P (m ! i)")
    case True
    with 1 show ?thesis
      by (simp add: scan_until.simps [of P m i] scan_until.simps [of P "m @ bs" i] nth_append)
  next
    case False
    with 1 show ?thesis
      by (auto simp: scan_until.simps [of P m i] scan_until.simps [of P "m @ bs" i] nth_append)
  qed
qed

text \<open>A scan that ran off the end resumes where it stopped when the block has grown.\<close>

lemma scan_until_resume:
  "i \<le> length m \<Longrightarrow> scan_until P m i = length m \<Longrightarrow>
   scan_until P (m @ bs) i = scan_until P (m @ bs) (length m)"
proof (induction P m i rule: scan_until.induct)
  case (1 P m i)
  show ?case
  proof (cases "i < length m \<and> \<not> P (m ! i)")
    case True
    with 1 show ?thesis
      by (simp add: scan_until.simps [of P m i] scan_until.simps [of P "m @ bs" i] nth_append)
  next
    case False
    with 1 show ?thesis by (auto simp: scan_until.simps [of P m i])
  qed
qed

section \<open>C strings\<close>

text \<open>
  The string at \<open>p\<close>: the bytes up to the first NUL. Without a NUL inside the block the
  reading functions of \<^verbatim>\<open>string.h\<close> run off it.
\<close>

definition cstr :: "mem \<Rightarrow> nat \<Rightarrow> string ub" where
  "cstr m p = (if NUL \<in> set (drop p m)
     then Some (takeWhile (\<lambda>c. c \<noteq> NUL) (drop p m)) else None)"

definition strchr :: "mem \<Rightarrow> nat \<Rightarrow> char \<Rightarrow> nat option ub" where
  "strchr m p c = do {
     s \<leftarrow> cstr m p;
     let k = length (takeWhile (\<lambda>x. x \<noteq> c) s);
     Some (if k < length s then Some (p + k) else None) }"

text \<open>\<^verbatim>\<open>memcmp(p, t, sizeof(t) - 1) == 0\<close>, the source's \<open>bufscmp\<close>.\<close>

definition bufscmp :: "mem \<Rightarrow> nat \<Rightarrow> string \<Rightarrow> bool ub" where
  "bufscmp m p t = (if p + length t \<le> length m then Some (take (length t) (drop p m) = t) else None)"

lemma cstr_append [ext_simps]: "cstr m p = Some s \<Longrightarrow> cstr (m @ bs) p = Some s"
  by (auto simp: cstr_def takeWhile_append1 split: if_splits)

lemma strchr_append [ext_simps]: "strchr m p c = Some q \<Longrightarrow> strchr (m @ bs) p c = Some q"
  by (auto simp: strchr_def bind_eq_Some_conv cstr_append)

lemma bufscmp_append [ext_simps]: "bufscmp m p t = Some b \<Longrightarrow> bufscmp (m @ bs) p t = Some b"
  by (auto simp: bufscmp_def split: if_splits)

lemma peek_append [ext_simps]: "peek m p = Some b \<Longrightarrow> peek (m @ bs) p = Some b"
  by (auto simp: nth_append)

lemma poke_append [ext_simps]: "poke m p c = Some m' \<Longrightarrow> poke (m @ bs) p c = Some (m' @ bs)"
  by (auto simp: list_update_append1)

lemma cstr_no_nul: "cstr m p = Some s \<Longrightarrow> NUL \<notin> set s"
  by (auto simp: cstr_def split: if_splits dest: set_takeWhileD)

lemma cstr_length: "cstr m p = Some s \<Longrightarrow> p + length s < length m"
proof -
  assume a: "cstr m p = Some s"
  then have n: "NUL \<in> set (drop p m)" and s: "s = takeWhile (\<lambda>c. c \<noteq> NUL) (drop p m)"
    by (auto simp: cstr_def split: if_splits)
  from n have "length s < length (drop p m)"
    unfolding s by (intro takeWhile_shorter) auto
  then show ?thesis by simp
qed

lemma cstr_nul: "cstr m p = Some s \<Longrightarrow> m ! (p + length s) = NUL"
proof -
  assume a: "cstr m p = Some s"
  then have l: "p + length s < length m" by (rule cstr_length)
  from a have "s = takeWhile (\<lambda>c. c \<noteq> NUL) (drop p m)" by (auto simp: cstr_def split: if_splits)
  with l show ?thesis
    using nth_length_takeWhile [of "\<lambda>c. c \<noteq> NUL" "drop p m"] by simp
qed

lemma cstr_take: "cstr m p = Some s \<Longrightarrow> take (length s) (drop p m) = s"
  by (metis cstr_def option.distinct(1) option.inject takeWhile_eq_take)

lemma cstr_nth: "cstr m p = Some s \<Longrightarrow> i < length s \<Longrightarrow> m ! (p + i) = s ! i"
proof -
  assume a: "cstr m p = Some s" "i < length s"
  then have "take (length s) (drop p m) ! i = s ! i" by (simp add: cstr_take)
  with a cstr_length [OF a(1)] show ?thesis by simp
qed

lemma cstr_exists: "p \<le> i \<Longrightarrow> i < length m \<Longrightarrow> m ! i = NUL \<Longrightarrow> \<exists>s. cstr m p = Some s"
proof -
  assume "p \<le> i" "i < length m" "m ! i = NUL"
  then have "drop p m ! (i - p) = NUL" "i - p < length (drop p m)" by auto
  then have "NUL \<in> set (drop p m)" by (metis nth_mem)
  then show ?thesis by (simp add: cstr_def)
qed

text \<open>The string at \<open>p\<close>, read off a block whose layout around \<open>p\<close> is known.\<close>

lemma cstr_at: "NUL \<notin> set s \<Longrightarrow> p = length pre \<Longrightarrow> cstr (pre @ s @ NUL # post) p = Some s"
  by (auto simp: cstr_def intro!: takeWhile_stop)

lemma cstr_Cons_iff:
  "cstr m p = Some s \<longleftrightarrow> p < length m \<and>
     (if m ! p = NUL then s = [] else \<exists>t. s = m ! p # t \<and> cstr m (p + 1) = Some t)"
proof (cases "p < length m")
  case True
  then have "drop p m = m ! p # drop (Suc p) m" by (simp add: Cons_nth_drop_Suc)
  with True show ?thesis by (auto simp: cstr_def)
qed (simp add: cstr_def)

text \<open>Inside the string at \<open>p\<close>: the two parts around an offset.\<close>

lemma cstr_split:
  assumes "cstr m p = Some (a @ x # z)"
  shows "p + length a < length m" "m ! (p + length a) = x" "cstr m (p + length a + 1) = Some z"
    "cstr (m[p + length a := NUL]) p = Some a" "x \<noteq> NUL \<Longrightarrow> m[p + length a := NUL, p + length a := x] = m"
    "cstr (m[p + length a := NUL]) (p + length a + 1) = Some z"
proof -
  show l: "p + length a < length m" using cstr_length [OF assms] by simp
  show x: "m ! (p + length a) = x" using cstr_nth [OF assms, of "length a"] by simp
  have tw: "takeWhile (\<lambda>c. c \<noteq> NUL) (drop p m) = a @ x # z" and n: "NUL \<in> set (drop p m)"
    using assms by (simp_all add: cstr_def split: if_splits)
  have "takeWhile (\<lambda>c. c \<noteq> NUL) (drop p m) @ dropWhile (\<lambda>c. c \<noteq> NUL) (drop p m) = drop p m"
    by (rule takeWhile_dropWhile_id)
  then have d: "drop p m = a @ x # z @ dropWhile (\<lambda>c. c \<noteq> NUL) (drop p m)"
    unfolding tw by (metis append.assoc append_Cons)
  let ?t = "dropWhile (\<lambda>c. c \<noteq> NUL) (drop p m)"
  have nul: "NUL \<notin> set a" "NUL \<notin> set z" "x \<noteq> NUL" using cstr_no_nul [OF assms] by auto
  from n have "?t \<noteq> []" by auto
  from hd_dropWhile [OF this] have "hd ?t = NUL" by simp
  with \<open>?t \<noteq> []\<close> have t: "?t = NUL # tl ?t" by (metis list.collapse)
  define t where "t = tl ?t"
  from t have t: "?t = NUL # t" by (simp only: t_def)
  from d have "drop p m = a @ x # z @ NUL # t" unfolding t .
  with append_take_drop_id [of p m] have m: "m = take p m @ a @ x # z @ NUL # t" by (metis append_take_drop_id)
  have p: "length (take p m) = p" using l by simp
  have "cstr ((take p m @ a @ [x]) @ z @ NUL # t) (p + length a + 1) = Some z"
    using nul p by (intro cstr_at) auto
  with m show "cstr m (p + length a + 1) = Some z" by simp
  have u: "m[p + length a := NUL] = take p m @ a @ NUL # z @ NUL # t"
    using p by (subst m) (simp add: list_update_append)
  from nul p show "cstr (m[p + length a := NUL]) p = Some a" unfolding u by (intro cstr_at) auto
  have "cstr ((take p m @ a @ [NUL]) @ z @ NUL # t) (p + length a + 1) = Some z"
    using nul p by (intro cstr_at) auto
  with u show "cstr (m[p + length a := NUL]) (p + length a + 1) = Some z" by simp
  show "m[p + length a := NUL, p + length a := x] = m" if "x \<noteq> NUL" using x by auto
qed

lemma cstr_next:
  "cstr m p = Some z \<Longrightarrow> peek m p = Some (if z = [] then NUL else hd z)"
  by (auto simp: cstr_Cons_iff [of m p] peek_def split: if_splits)

lemma cstr_drop: "cstr m p = Some s \<Longrightarrow> k \<le> length s \<Longrightarrow> cstr m (p + k) = Some (drop k s)"
proof (induction k arbitrary: p s)
  case (Suc k)
  then obtain x s' where s: "s = x # s'" by (cases s) auto
  with Suc.prems(1) have "cstr m (p + 1) = Some s'" by (auto simp: cstr_Cons_iff [of m p] split: if_splits)
  from Suc.IH [OF this] Suc.prems(2) s show ?case by simp
qed simp

lemma cstr_take_mono:
  "cstr (take k m) x = Some s \<Longrightarrow> k \<le> k' \<Longrightarrow> take k m' = take k m \<Longrightarrow> cstr (take k' m') x = Some s"
  using cstr_append [of "take k m" x s "drop k (take k' m')"]
  by (metis append_take_drop_id min.absorb1 take_take)

text \<open>The block around a string.\<close>

lemma cstr_decomp: "cstr m p = Some s \<Longrightarrow> \<exists>t. drop p m = s @ NUL # t"
proof -
  assume "cstr m p = Some s"
  then have s: "s = takeWhile (\<lambda>c. c \<noteq> NUL) (drop p m)" and n: "NUL \<in> set (drop p m)"
    by (auto simp: cstr_def split: if_splits)
  let ?t = "dropWhile (\<lambda>c. c \<noteq> NUL) (drop p m)"
  from n have "?t \<noteq> []" by auto
  with hd_dropWhile [OF this] have "?t = NUL # tl ?t" by (metis list.collapse)
  moreover have "drop p m = s @ ?t" unfolding s by (rule takeWhile_dropWhile_id [symmetric])
  ultimately show ?thesis by metis
qed

lemma cstr_take_in: "cstr m p = Some s \<Longrightarrow> p + length s < k \<Longrightarrow> cstr (take k m) p = Some s"
proof -
  assume a: "cstr m p = Some s" "p + length s < k"
  from cstr_decomp [OF a(1)] obtain t where d: "drop p m = s @ NUL # t" by blast
  from cstr_length [OF a(1)] have l: "length (take p m) = p" by simp
  have "m = take p m @ s @ NUL # t" by (metis append_take_drop_id d)
  then have "take k m = take k (take p m @ s @ NUL # t)" by argo
  also have "\<dots> = take p m @ s @ NUL # take (k - p - length s - 1) t"
    using a(2) l by (simp add: take_Cons')
  finally show ?thesis using cstr_at [of s p "take p m"] cstr_no_nul [OF a(1)] l by simp
qed

text \<open>A string that lies below \<open>k\<close> is read in any block that agrees up to \<open>k\<close>.\<close>

lemma cstr_same_prefix:
  "cstr m p = Some s \<Longrightarrow> p + length s < k \<Longrightarrow> take k m' = take k m \<Longrightarrow> cstr m' p = Some s"
  using cstr_take_in [of m p s k] cstr_append [of "take k m" p s "drop k m'"]
  by (metis append_take_drop_id)

lemma cstr_update_below: "i < p \<Longrightarrow> cstr (m[i := x]) p = cstr m p"
  by (simp add: cstr_def)

lemma scan_cstr: "cstr m p = Some s \<Longrightarrow> P NUL \<Longrightarrow> scan_until P m p = p + length (takeWhile (\<lambda>c. \<not> P c) s)"
proof -
  assume "cstr m p = Some s" "P NUL"
  with cstr_decomp [of m p s] obtain t where "drop p m = s @ NUL # t" by blast
  moreover have "takeWhile (\<lambda>c. \<not> P c) (s @ NUL # t) = takeWhile (\<lambda>c. \<not> P c) s"
    using \<open>P NUL\<close> by (induction s) auto
  ultimately show ?thesis by (simp add: scan_until_eq)
qed

lemma strchr_some:
  "strchr m p c = Some (Some q) \<Longrightarrow> p \<le> q \<and> q < length m \<and> m ! q = c"
proof -
  assume "strchr m p c = Some (Some q)"
  then obtain s where s: "cstr m p = Some s" and
    k: "length (takeWhile (\<lambda>x. x \<noteq> c) s) < length s" and q: "q = p + length (takeWhile (\<lambda>x. x \<noteq> c) s)"
    by (auto simp: strchr_def bind_eq_Some_conv Let_def split: if_splits)
  from k have "s ! length (takeWhile (\<lambda>x. x \<noteq> c) s) = c"
    using nth_length_takeWhile by fastforce
  with s k q cstr_nth cstr_length show ?thesis by fastforce
qed

section \<open>Writing into a block\<close>

text \<open>
  \<open>mem_write m off w\<close> stores the bytes \<open>w\<close> at offset \<open>off\<close>. A block that has more
  room than initialised bytes is a list of the initialised bytes with its size kept
  beside it; \<open>off\<close> is then at most the number of initialised bytes.
\<close>

definition mem_write :: "mem \<Rightarrow> nat \<Rightarrow> string \<Rightarrow> mem" where
  "mem_write m off w = take off m @ w @ drop (off + length w) m"

text \<open>\<^verbatim>\<open>memcpy\<close> into a block of \<open>block\<close> bytes.\<close>

definition memcpy_at :: "nat \<Rightarrow> mem \<Rightarrow> nat \<Rightarrow> string \<Rightarrow> mem ub" where
  "memcpy_at block m off w = (if off + length w \<le> block then Some (mem_write m off w) else None)"

text \<open>
  \<^verbatim>\<open>vsnprintf(m + off, n, fmt, ap)\<close> where \<open>out\<close> is what the format renders: at most
  \<open>n - 1\<close> characters and the terminating NUL are stored, nothing when \<open>n\<close> is 0;
  the call returns \<open>length out\<close>.
\<close>

definition vsnprintf_at :: "nat \<Rightarrow> mem \<Rightarrow> nat \<Rightarrow> nat \<Rightarrow> string \<Rightarrow> mem ub" where
  "vsnprintf_at block m off n out =
     (if n = 0 then Some m else memcpy_at block m off (take (n - 1) out @ [NUL]))"

text \<open>The conversion of a signed 64-bit value to \<^verbatim>\<open>size_t\<close>.\<close>

definition size_t_of :: "int \<Rightarrow> nat" where
  "size_t_of i = nat (i mod 2 ^ 64)"

lemma take_mem_write [simp]: "off \<le> length m \<Longrightarrow> take off (mem_write m off w) = take off m"
  by (simp add: mem_write_def)

lemma take_mem_write_end [simp]:
  "off \<le> length m \<Longrightarrow> k = off + length w \<Longrightarrow> take k (mem_write m off w) = take off m @ w"
  by (simp add: mem_write_def)

lemma length_mem_write: "off \<le> length m \<Longrightarrow> length (mem_write m off w) = max (length m) (off + length w)"
  by (auto simp: mem_write_def)

lemma drop_mem_write: "off \<le> length m \<Longrightarrow> off + length w \<le> k \<Longrightarrow> drop k (mem_write m off w) = drop k m"
  by (simp add: mem_write_def)

lemma size_t_of_small [simp]: "0 \<le> i \<Longrightarrow> i < 2 ^ 64 \<Longrightarrow> size_t_of i = nat i"
  by (simp add: size_t_of_def)

lemma size_t_of_negative: "- (2 ^ 63) \<le> i \<Longrightarrow> i < 0 \<Longrightarrow> 2 ^ 63 \<le> size_t_of i"
proof -
  assume a: "- (2 ^ 63) \<le> i" "i < 0"
  then have "(i + 2 ^ 64) mod 2 ^ 64 = i + 2 ^ 64" by (intro mod_pos_pos_trivial) auto
  then have "i mod 2 ^ 64 = i + 2 ^ 64" by simp
  with a show ?thesis by (simp add: size_t_of_def le_nat_iff)
qed

section \<open>Character classes and numbers\<close>

text \<open>\<^verbatim>\<open>ctype.h\<close> in the C locale (the program never calls \<^verbatim>\<open>setlocale\<close>).\<close>

definition isprint :: "char \<Rightarrow> bool" where
  "isprint c \<longleftrightarrow> 32 \<le> (of_char c :: nat) \<and> (of_char c :: nat) \<le> 126"

definition isdigit :: "char \<Rightarrow> bool" where
  "isdigit c \<longleftrightarrow> 48 \<le> (of_char c :: nat) \<and> (of_char c :: nat) \<le> 57"

definition isspace :: "char \<Rightarrow> bool" where
  "isspace c \<longleftrightarrow> c = SP \<or> (9 \<le> (of_char c :: nat) \<and> (of_char c :: nat) \<le> 13)"

definition tolower :: "char \<Rightarrow> char" where
  "tolower c = (let n = (of_char c :: nat) in if 65 \<le> n \<and> n \<le> 90 then char_of (n + 32) else c)"

definition hex_val :: "char \<Rightarrow> nat option" where
  "hex_val c = (let n = (of_char c :: nat) in
     if 48 \<le> n \<and> n \<le> 57 then Some (n - 48)
     else if 65 \<le> n \<and> n \<le> 70 then Some (n - 55)
     else if 97 \<le> n \<and> n \<le> 102 then Some (n - 87)
     else None)"

definition isxdigit :: "char \<Rightarrow> bool" where
  "isxdigit c \<longleftrightarrow> hex_val c \<noteq> None"

definition strcasecmp_eq :: "string \<Rightarrow> string \<Rightarrow> bool" where
  "strcasecmp_eq s t \<longleftrightarrow> map tolower s = map tolower t"

definition digit_char :: "nat \<Rightarrow> char" where
  "digit_char d = char_of (48 + d)"

definition digit_val :: "char \<Rightarrow> nat" where
  "digit_val c = of_char c - 48"

fun dec_nat :: "nat \<Rightarrow> string" where
  "dec_nat n = (if n < 10 then [digit_char n] else dec_nat (n div 10) @ [digit_char (n mod 10)])"

declare dec_nat.simps [simp del]

text \<open>The conversion of \<^verbatim>\<open>%ld\<close>.\<close>

definition dec_int :: "int \<Rightarrow> string" where
  "dec_int i = (if i < 0 then CHR ''-'' # dec_nat (nat (- i)) else dec_nat (nat i))"

definition digits_val :: "string \<Rightarrow> nat" where
  "digits_val s = foldl (\<lambda>a c. 10 * a + digit_val c) 0 s"

lemma of_char_digit_char [simp]: "d < 10 \<Longrightarrow> (of_char (digit_char d) :: nat) = 48 + d"
  by (simp add: digit_char_def)

lemma digit_val_digit_char [simp]: "d < 10 \<Longrightarrow> digit_val (digit_char d) = d"
  by (simp add: digit_val_def)

lemma isdigit_digit_char [simp]: "d < 10 \<Longrightarrow> isdigit (digit_char d)"
  by (simp add: isdigit_def)

lemma dec_nat_digits: "c \<in> set (dec_nat n) \<Longrightarrow> isdigit c"
proof (induction n rule: dec_nat.induct)
  case (1 n)
  then show ?case by (auto simp: dec_nat.simps [of n] split: if_splits)
qed

lemma dec_nat_nonempty [simp]: "dec_nat n \<noteq> []"
  by (subst dec_nat.simps) simp

lemma digits_val_dec_nat [simp]: "digits_val (dec_nat n) = n"
proof (induction n rule: dec_nat.induct)
  case (1 n)
  then show ?case
    by (auto simp: dec_nat.simps [of n] digits_val_def)
qed

end
