(* ===== verification/Buffer.thy ===== *)
theory Buffer
  imports Prelude
begin

text \<open>
  The growable response buffer of \<^verbatim>\<open>src/buffer.c\<close> (\<open>buffer_t\<close>). Beside the fields of
  the struct the record keeps the real size of the heap block (\<open>b_block\<close>), which the C
  code does not store: a write beyond it is undefined behaviour. What an allocation
  returns is the parameter \<open>ok\<close>: \<open>ok n\<close> says that a request for \<open>n\<close> bytes succeeds.
  \<open>contents b\<close> is the abstract value of a buffer, the bytes appended so far.
\<close>

record buffer =
  b_buf :: mem
  b_len :: int
  b_max :: int
  b_block :: nat

definition BUFFER_INCREMENT :: int where
  "BUFFER_INCREMENT = 256"

definition kitserv_buffer_init :: "(nat \<Rightarrow> bool) \<Rightarrow> buffer \<Rightarrow> int \<Rightarrow> int \<times> buffer" where
  "kitserv_buffer_init ok b initial_size =
     (if ok (size_t_of initial_size)
      then (0, b\<lparr>b_buf := [], b_block := size_t_of initial_size, b_len := 0, b_max := initial_size\<rparr>)
      else (-1, b\<lparr>b_buf := [], b_block := 0\<rparr>))"

definition kitserv_buffer_free :: "buffer \<Rightarrow> buffer" where
  "kitserv_buffer_free b = b\<lparr>b_buf := [], b_block := 0\<rparr>"

text \<open>\<^verbatim>\<open>realloc\<close> keeps the bytes that fit; on failure the old block stays as it is.\<close>

definition realloc_to :: "buffer \<Rightarrow> nat \<Rightarrow> buffer" where
  "realloc_to b n = b\<lparr>b_buf := take n (b_buf b), b_block := n\<rparr>"

definition kitserv_buffer_reset :: "(nat \<Rightarrow> bool) \<Rightarrow> buffer \<Rightarrow> int \<Rightarrow> buffer" where
  "kitserv_buffer_reset ok b sz =
     (let b = b\<lparr>b_len := 0\<rparr>
      in if b_max b > sz then
           (if ok (size_t_of sz) then (realloc_to b (size_t_of sz))\<lparr>b_max := sz\<rparr> else b)
         else b)"

text \<open>
  The result is the address \<^verbatim>\<open>&buffer->buf[buffer->len]\<close> as an offset, or NULL. The
  request to \<^verbatim>\<open>realloc\<close> is for \<open>n\<close> bytes, as the code has it.
\<close>

definition kitserv_buffer_ensure_space ::
    "(nat \<Rightarrow> bool) \<Rightarrow> buffer \<Rightarrow> int \<Rightarrow> buffer \<times> nat option" where
  "kitserv_buffer_ensure_space ok b n =
     (if b_len b + n \<ge> b_max b then
        let new_max = (n div BUFFER_INCREMENT + 1) * BUFFER_INCREMENT
        in if ok (size_t_of n)
           then ((realloc_to b (size_t_of n))\<lparr>b_max := new_max\<rparr>, Some (nat (b_len b)))
           else (b, None)
      else (b, Some (nat (b_len b))))"

definition kitserv_buffer_append ::
    "(nat \<Rightarrow> bool) \<Rightarrow> buffer \<Rightarrow> string \<Rightarrow> int \<Rightarrow> (int \<times> buffer) ub" where
  "kitserv_buffer_append ok b elems n =
     (case kitserv_buffer_ensure_space ok b n of
        (b, None) \<Rightarrow> Some (-1, b)
      | (b, Some loc) \<Rightarrow>
          (if size_t_of n \<le> length elems then do {
             m \<leftarrow> memcpy_at (b_block b) (b_buf b) loc (take (size_t_of n) elems);
             Some (0, b\<lparr>b_buf := m, b_len := b_len b + n\<rparr>) }
           else None))"

text \<open>
  \<open>out\<close> is what the format renders, \<open>out2\<close> what the second call renders from the
  already consumed argument list. The result of the inner \<open>ensure_space\<close> is ignored.
\<close>

definition kitserv_buffer_appendva ::
    "(nat \<Rightarrow> bool) \<Rightarrow> buffer \<Rightarrow> string \<Rightarrow> string \<Rightarrow> (int \<times> buffer) ub" where
  "kitserv_buffer_appendva ok b out out2 = do {
     m \<leftarrow> vsnprintf_at (b_block b) (b_buf b) (nat (b_len b)) (size_t_of (b_max b - b_len b)) out;
     let b = b\<lparr>b_buf := m\<rparr>;
     let rc = int (length out);
     if rc > b_max b - b_len b then do {
       let b = fst (kitserv_buffer_ensure_space ok b rc);
       m \<leftarrow> vsnprintf_at (b_block b) (b_buf b) (nat (b_len b)) (size_t_of (b_max b - b_len b)) out2;
       let b = b\<lparr>b_buf := m\<rparr>;
       let rc = int (length out2);
       if rc > b_max b - b_len b then Some (-1, b) else Some (0, b\<lparr>b_len := b_len b + rc\<rparr>) }
     else Some (0, b\<lparr>b_len := b_len b + rc\<rparr>) }"

definition kitserv_buffer_appendf ::
    "(nat \<Rightarrow> bool) \<Rightarrow> buffer \<Rightarrow> string \<Rightarrow> string \<Rightarrow> (int \<times> buffer) ub" where
  "kitserv_buffer_appendf ok b out out2 = kitserv_buffer_appendva ok b out out2"

section \<open>The invariant and the abstract value\<close>

definition contents :: "buffer \<Rightarrow> string" where
  "contents b = take (nat (b_len b)) (b_buf b)"

definition buffer_ok :: "buffer \<Rightarrow> bool" where
  "buffer_ok b \<longleftrightarrow> 0 \<le> b_len b \<and> b_len b < b_max b \<and> b_max b = int (b_block b)
     \<and> nat (b_len b) \<le> length (b_buf b) \<and> length (b_buf b) \<le> b_block b \<and> b_block b < 2 ^ 63"

lemma buffer_okD:
  assumes "buffer_ok b"
  shows "0 \<le> b_len b" "b_len b < b_max b" "b_max b = int (b_block b)"
    "nat (b_len b) \<le> length (b_buf b)" "length (b_buf b) \<le> b_block b" "b_block b < 2 ^ 63"
  using assms by (auto simp: buffer_ok_def)

lemma length_contents: "buffer_ok b \<Longrightarrow> length (contents b) = nat (b_len b)"
  by (simp add: contents_def buffer_ok_def)

lemma buffer_init_ok:
  "ok (nat n) \<Longrightarrow> 0 < n \<Longrightarrow> n < 2 ^ 63 \<Longrightarrow>
   \<exists>b'. kitserv_buffer_init ok b n = (0, b') \<and> buffer_ok b' \<and> contents b' = []"
  by (simp add: kitserv_buffer_init_def buffer_ok_def contents_def)

lemma buffer_reset_ok:
  "buffer_ok b \<Longrightarrow> 0 < n \<Longrightarrow> n < 2 ^ 63 \<Longrightarrow>
   buffer_ok (kitserv_buffer_reset ok b n) \<and> contents (kitserv_buffer_reset ok b n) = []"
  by (auto simp: kitserv_buffer_reset_def buffer_ok_def contents_def realloc_to_def Let_def)

lemma buffer_reset_len [simp]: "b_len (kitserv_buffer_reset ok b n) = 0"
  by (simp add: kitserv_buffer_reset_def realloc_to_def Let_def)

text \<open>With room to spare, an append adds exactly its bytes and keeps the invariant.\<close>

lemma buffer_append_fits:
  assumes ok: "buffer_ok b" and fits: "b_len b + int (length s) < b_max b"
  shows "\<exists>b'. kitserv_buffer_append alloc b s (int (length s)) = Some (0, b') \<and>
     buffer_ok b' \<and> contents b' = contents b @ s \<and> b_len b' = b_len b + int (length s) \<and>
     b_max b' = b_max b"
proof -
  note b = buffer_okD [OF ok]
  have "size_t_of (int (length s)) = length s" using b fits by simp
  with b fits show ?thesis
    by (auto simp: kitserv_buffer_append_def kitserv_buffer_ensure_space_def memcpy_at_def
        buffer_ok_def contents_def length_mem_write nat_add_distrib)
qed

text \<open>An allocation that fails leaves the buffer as it was and is reported.\<close>

lemma buffer_append_no_memory:
  "b_max b \<le> b_len b + n \<Longrightarrow> \<not> alloc (size_t_of n) \<Longrightarrow>
   kitserv_buffer_append alloc b s n = Some (-1, b)"
  by (simp add: kitserv_buffer_append_def kitserv_buffer_ensure_space_def)

text \<open>A formatted append that leaves room for its terminator adds exactly what it renders.\<close>

lemma buffer_appendva_fits:
  assumes ok: "buffer_ok b" and fits: "b_len b + int (length out) < b_max b"
  shows "\<exists>b'. kitserv_buffer_appendva alloc b out out2 = Some (0, b') \<and>
     buffer_ok b' \<and> contents b' = contents b @ out \<and> b_len b' = b_len b + int (length out)"
proof -
  note b = buffer_okD [OF ok]
  have sz: "size_t_of (b_max b - b_len b) = nat (b_max b - b_len b)" using b by simp
  have tk: "take (nat (b_max b - b_len b) - 1) out = out" using b fits by simp
  have room: "nat (b_len b) + length (out @ [NUL]) \<le> b_block b" using b fits by simp
  let ?m = "mem_write (b_buf b) (nat (b_len b)) (out @ [NUL])"
  have "kitserv_buffer_appendva alloc b out out2 =
      Some (0, b\<lparr>b_buf := ?m, b_len := b_len b + int (length out)\<rparr>)"
    using b fits room
    by (simp add: kitserv_buffer_appendva_def vsnprintf_at_def sz tk memcpy_at_def)
  moreover have "take (nat (b_len b + int (length out))) ?m = take (nat (b_len b)) (b_buf b) @ out"
    using b by (simp add: mem_write_def nat_add_distrib)
  moreover have "buffer_ok (b\<lparr>b_buf := ?m, b_len := b_len b + int (length out)\<rparr>)"
    using b fits by (auto simp: buffer_ok_def length_mem_write)
  ultimately show ?thesis by (simp add: contents_def)
qed

section \<open>Growth\<close>

text \<open>
  \<^verbatim>\<open>realloc(buffer->buf, n)\<close> asks for the size of the addition alone. Growing a
  buffer that already holds something therefore writes outside the block, and growing
  an empty one leaves a block smaller than the recorded capacity.
\<close>

lemma ensure_space_grows:
  assumes ok: "buffer_ok b" and n: "0 < n" "n < 2 ^ 63" "b_max b \<le> b_len b + n" "alloc (nat n)"
  shows "kitserv_buffer_ensure_space alloc b n =
    (b\<lparr>b_buf := take (nat n) (b_buf b), b_block := nat n,
        b_max := (n div 256 + 1) * 256\<rparr>, Some (nat (b_len b)))"
  using n by (simp add: kitserv_buffer_ensure_space_def realloc_to_def BUFFER_INCREMENT_def Let_def)

lemma new_max_exceeds: "(n :: int) < (n div 256 + 1) * 256"
  by presburger

section \<open>Properties\<close>

text \<open>
  Appending to a buffer with room to spare adds exactly the given bytes to its contents
  and keeps the invariant and the capacity, whatever the allocator does.
\<close>

theorem append_within_capacity:
  assumes "buffer_ok b" "b_len b + int (length s) < b_max b"
  shows "\<exists>b'. kitserv_buffer_append alloc b s (int (length s)) = Some (0, b') \<and> buffer_ok b' \<and>
    contents b' = contents b @ s \<and> b_max b' = b_max b"
  using buffer_append_fits [OF assms, of alloc] by blast

lemma append_within_capacity_witness:
  defines "b \<equiv> \<lparr>b_buf = ''ab'', b_len = 2, b_max = 8, b_block = 8\<rparr>"
  shows "\<exists>b'. kitserv_buffer_append (\<lambda>n. False) b ''cd'' (int (length ''cd'')) = Some (0, b') \<and> buffer_ok b' \<and>
    contents b' = contents b @ ''cd'' \<and> b_max b' = b_max b"
  by (rule append_within_capacity) (simp_all add: b_def buffer_ok_def)

text \<open>
  C39: an append that has to grow the buffer. \<^verbatim>\<open>realloc\<close> is asked for the size of the
  addition alone, so that with anything in the buffer already the copy leaves the block
  (undefined behaviour); growing an empty one leaves a block smaller than the recorded
  capacity.
\<close>

theorem append_growth:
  assumes ok: "buffer_ok b" and n: "s \<noteq> []" "b_max b \<le> b_len b + int (length s)" "length s < 2 ^ 62"
    and a: "alloc (length s)"
  shows "if b_len b = 0
    then \<exists>b'. kitserv_buffer_append alloc b s (int (length s)) = Some (0, b') \<and> contents b' = s \<and>
      int (b_block b') < b_max b'
    else kitserv_buffer_append alloc b s (int (length s)) = None"
proof -
  have "0 < int (length s)" "int (length s) < 2 ^ 63" "alloc (nat (int (length s)))" using n a by simp_all
  from ensure_space_grows [where alloc = alloc, OF ok this(1,2) n(2) this(3)]
  show ?thesis using n buffer_okD [OF ok] new_max_exceeds [of "int (length s)"]
    by (auto simp: kitserv_buffer_append_def memcpy_at_def contents_def mem_write_def)
qed

lemma append_growth_witness:
  defines "b \<equiv> \<lparr>b_buf = ''ab'', b_len = 2, b_max = 4, b_block = 4\<rparr>"
  shows "kitserv_buffer_append (\<lambda>n. True) b ''cd'' (int (length ''cd'')) = None"
  using append_growth [of b "''cd''" "\<lambda>n. True"] by (simp add: b_def buffer_ok_def)

end
