(* ===== verification/Http_Types.thy ===== *)
theory Http_Types
  imports Buffer
begin

text \<open>
  The data of \<^verbatim>\<open>src/include/http.h\<close> and \<^verbatim>\<open>include/kitserv.h\<close>: the enumerations, the
  transaction (\<open>struct http_transaction\<close>), the client (\<open>struct kitserv_client\<close>), the
  configuration records, and the operating system as one connection sees it.

  A pointer into \<open>req_headers\<close> is an offset (\<^typ>\<open>nat\<close>), and NULL is \<^term>\<open>None\<close>.
  \<open>req_headers\<close> holds the bytes received so far, at most \<open>HTTP_BUFSZ\<close> of them: its
  length is the field \<open>req_headers_len\<close> of the C struct, and reading beyond it is a read
  of memory that the current connection has not written.
\<close>

definition HTTP_BUFSZ :: nat where "HTTP_BUFSZ = 4096"
definition HTTP_BUFSZ_SMALL :: nat where "HTTP_BUFSZ_SMALL = 256"
definition HTTP_MAX_COOKIES :: nat where "HTTP_MAX_COOKIES = 50"
definition PATH_MAX :: int where "PATH_MAX = 4096"
definition SERVER_NAME :: string where "SERVER_NAME = ''kitserv''"

section \<open>Enumerations\<close>

datatype http_transaction_state =
  HTTP_STATE_READ | HTTP_STATE_SERVE | HTTP_STATE_PREPARE_RESPONSE | HTTP_STATE_SEND
| HTTP_STATE_SEND_FILE | HTTP_STATE_DONE

datatype http_parse_state =
  HTTP_PS_NEW | HTTP_PS_REQ_METHOD | HTTP_PS_REQ_PATH | HTTP_PS_REQ_VERSION
| HTTP_PS_REQ_VERSION_LF | HTTP_PS_REQ_HEAD | HTTP_PS_REQ_HEAD_LF

datatype http_version = HTTP_1_1 | HTTP_1_0

text \<open>
  Methods are bit flags: \<open>HTTP_HEAD\<close> overlaps \<open>HTTP_GET\<close>, so that both answer to
  \<open>method AND HTTP_GET\<close>. A zeroed transaction holds 0, which is no method.
\<close>

type_synonym http_method = "32 word"

abbreviation HTTP_GET :: http_method where "HTTP_GET \<equiv> 1"
abbreviation HTTP_PUT :: http_method where "HTTP_PUT \<equiv> 2"
abbreviation HTTP_HEAD :: http_method where "HTTP_HEAD \<equiv> 4 OR 1"
abbreviation HTTP_POST :: http_method where "HTTP_POST \<equiv> 8"
abbreviation HTTP_DELETE :: http_method where "HTTP_DELETE \<equiv> 16"

text \<open>
  Response statuses. \<open>HTTP_NUM n\<close> stands for an integer stored in the enumeration that
  is none of its enumerators; the \<^verbatim>\<open>default\<close> branches of the code are for it.
\<close>

datatype http_status =
  HTTP_X_RESP_STATUS_UNSET | HTTP_X_HANGUP | HTTP_200_OK | HTTP_204_NO_CONTENT
| HTTP_206_PARTIAL_CONTENT | HTTP_304_NOT_MODIFIED | HTTP_400_BAD_REQUEST
| HTTP_403_PERMISSION_DENIED | HTTP_404_NOT_FOUND | HTTP_405_METHOD_NOT_ALLOWED
| HTTP_408_REQUEST_TIMEOUT | HTTP_413_CONTENT_TOO_LARGE | HTTP_414_URI_TOO_LONG
| HTTP_416_RANGE_NOT_SATISFIABLE | HTTP_431_REQUEST_HEADER_FIELDS_TOO_LARGE
| HTTP_500_INTERNAL_ERROR | HTTP_501_NOT_IMPLEMENTED | HTTP_503_SERVICE_UNAVAILABLE
| HTTP_505_VERSION_NOT_SUPPORTED | HTTP_507_INSUFFICIENT_STORAGE | HTTP_NUM int

fun status_code :: "http_status \<Rightarrow> int" where
  "status_code HTTP_X_RESP_STATUS_UNSET = 0"
| "status_code HTTP_X_HANGUP = 1"
| "status_code HTTP_200_OK = 200"
| "status_code HTTP_204_NO_CONTENT = 204"
| "status_code HTTP_206_PARTIAL_CONTENT = 206"
| "status_code HTTP_304_NOT_MODIFIED = 304"
| "status_code HTTP_400_BAD_REQUEST = 400"
| "status_code HTTP_403_PERMISSION_DENIED = 403"
| "status_code HTTP_404_NOT_FOUND = 404"
| "status_code HTTP_405_METHOD_NOT_ALLOWED = 405"
| "status_code HTTP_408_REQUEST_TIMEOUT = 408"
| "status_code HTTP_413_CONTENT_TOO_LARGE = 413"
| "status_code HTTP_414_URI_TOO_LONG = 414"
| "status_code HTTP_416_RANGE_NOT_SATISFIABLE = 416"
| "status_code HTTP_431_REQUEST_HEADER_FIELDS_TOO_LARGE = 431"
| "status_code HTTP_500_INTERNAL_ERROR = 500"
| "status_code HTTP_501_NOT_IMPLEMENTED = 501"
| "status_code HTTP_503_SERVICE_UNAVAILABLE = 503"
| "status_code HTTP_505_VERSION_NOT_SUPPORTED = 505"
| "status_code HTTP_507_INSUFFICIENT_STORAGE = 507"
| "status_code (HTTP_NUM n) = n"

definition status_is_error :: "http_status \<Rightarrow> bool" where
  "status_is_error s \<longleftrightarrow> status_code s \<ge> 400"

text \<open>The states of a transaction in the order of their numbers, which is the order it runs in.\<close>

fun state_num :: "http_transaction_state \<Rightarrow> nat" where
  "state_num HTTP_STATE_READ = 0"
| "state_num HTTP_STATE_SERVE = 1"
| "state_num HTTP_STATE_PREPARE_RESPONSE = 2"
| "state_num HTTP_STATE_SEND = 3"
| "state_num HTTP_STATE_SEND_FILE = 4"
| "state_num HTTP_STATE_DONE = 5"

lemma state_num_inj: "state_num a = state_num b \<Longrightarrow> a = b"
  by (cases a; cases b) auto

instantiation http_transaction_state :: linorder
begin

definition less_eq_http_transaction_state ::
    "http_transaction_state \<Rightarrow> http_transaction_state \<Rightarrow> bool" where
  "less_eq_http_transaction_state a b \<longleftrightarrow> state_num a \<le> state_num b"

definition less_http_transaction_state ::
    "http_transaction_state \<Rightarrow> http_transaction_state \<Rightarrow> bool" where
  "less_http_transaction_state a b \<longleftrightarrow> state_num a < state_num b"

instance
  by standard (auto simp: less_eq_http_transaction_state_def less_http_transaction_state_def
      intro: state_num_inj)

end

section \<open>Transactions and clients\<close>

record http_cookie =
  key :: nat
  val :: nat
  keylen :: int

record iovec =
  iov_base :: nat
  iov_len :: nat

text \<open>
  \<open>resp_bufs\<close> is an array of three vectors, here three fields: start line, headers, body.
  \<open>api_endpoint_hit\<close> is a function pointer and \<open>api_internal_data\<close> a \<^verbatim>\<open>void*\<close> of the
  application; both are opaque to the server, so each is a number or NULL.
\<close>

record http_transaction =
  state :: http_transaction_state
  parse_state :: http_parse_state
  req_method :: http_method
  req_version :: http_version
  req_payload :: nat
  req_payload_pos :: int
  req_payload_len :: int
  req_content_len :: int
  req_parse_blk :: "nat option"
  req_parse_iter :: "nat option"
  req_path :: "nat option"
  req_query :: "nat option"
  req_mimetype :: "nat option"
  req_range :: "nat option"
  req_disposition :: "nat option"
  req_modified_since :: "nat option"
  req_fresh_cookies :: "nat option"
  req_num_cookies :: nat
  resp_status :: http_status
  resp_buf0 :: iovec
  resp_buf1 :: iovec
  resp_buf2 :: iovec
  resp_fd :: int
  resp_body_pos :: int
  resp_body_end :: int
  range_requested :: bool
  preserve_headers_on_error :: bool
  preserve_body_on_error :: bool
  api_endpoint_hit :: "nat option"
  api_internal_data :: "nat option"
  api_allow_flags :: http_method

record kitserv_client =
  req_headers :: mem
  req_cookies :: "http_cookie list"
  resp_start :: mem
  resp_headers :: mem
  resp_body :: buffer
  ta :: http_transaction
  sockfd :: int

text \<open>\<^verbatim>\<open>memset(&client->ta, 0, sizeof(struct http_transaction))\<close>.\<close>

definition zero_iovec :: iovec where
  "zero_iovec = \<lparr>iov_base = 0, iov_len = 0\<rparr>"

definition zero_ta :: http_transaction where
  "zero_ta = \<lparr>state = HTTP_STATE_READ, parse_state = HTTP_PS_NEW, req_method = 0,
     req_version = HTTP_1_1, req_payload = 0, req_payload_pos = 0, req_payload_len = 0,
     req_content_len = 0, req_parse_blk = None, req_parse_iter = None, req_path = None,
     req_query = None, req_mimetype = None, req_range = None, req_disposition = None,
     req_modified_since = None, req_fresh_cookies = None, req_num_cookies = 0,
     resp_status = HTTP_X_RESP_STATUS_UNSET, resp_buf0 = zero_iovec, resp_buf1 = zero_iovec,
     resp_buf2 = zero_iovec, resp_fd = 0, resp_body_pos = 0, resp_body_end = 0,
     range_requested = False, preserve_headers_on_error = False,
     preserve_body_on_error = False, api_endpoint_hit = None, api_internal_data = None,
     api_allow_flags = 0\<rparr>"

abbreviation set_status :: "http_status \<Rightarrow> kitserv_client \<Rightarrow> kitserv_client" where
  "set_status s c \<equiv> c\<lparr>ta := (ta c)\<lparr>resp_status := s\<rparr>\<rparr>"

abbreviation set_state :: "http_transaction_state \<Rightarrow> kitserv_client \<Rightarrow> kitserv_client" where
  "set_state s c \<equiv> c\<lparr>ta := (ta c)\<lparr>state := s\<rparr>\<rparr>"

section \<open>Configuration\<close>

record kitserv_request_context =
  root :: "string option"
  root_fallback :: "string option"
  fallback :: "string option"
  use_http_append_fallback :: bool

record kitserv_api_entry =
  prefix :: string
  prefix_length :: int
  emethod :: http_method
  handler :: nat
  finishes_path :: bool

datatype kitserv_api_tree =
  Api_Tree (tprefix: string) (tprefix_length: int) (subtrees: "kitserv_api_tree list")
    (entries: "kitserv_api_entry list")

section \<open>The operating system, seen from one connection\<close>

text \<open>
  \<open>errno\<close> values the program tests or sets; \<open>EWOULDBLOCK\<close> is \<open>EAGAIN\<close> on Linux.
\<close>

datatype errno = ENONE | EAGAIN | EACCES | ENAMETOOLONG | ENOMEM | EINVAL | ENOTSUP | EOTHER int

text \<open>
  What the peer does, as the sequence of results \<^verbatim>\<open>read\<close> sees: bytes that arrive
  together, a moment with nothing to read, an error; the end of the list is the end of
  the stream. What the kernel accepts is the script \<open>os_wr\<close>: each \<^verbatim>\<open>writev\<close> or
  \<^verbatim>\<open>sendfile\<close> takes at most the number of bytes named, would block, or fails; past the
  end of the script everything offered is taken. \<open>os_out\<close> collects the bytes handed to
  the peer, \<open>os_fds\<close> the descriptors of served files that are open, \<open>os_log\<close> the lines
  printed to the standard output.
\<close>

datatype rd_event = Chunk string | Block | Err errno
datatype wr_event = Takes nat | WBlock | WErr errno

record os =
  os_in :: "rd_event list"
  os_wr :: "wr_event list"
  os_out :: string
  os_fds :: "int list"
  os_errno :: errno
  os_log :: "string list"

text \<open>
  \<^verbatim>\<open>read(fd, buf, n)\<close>: the bytes read, or the error. A read of 0 bytes returns 0 and
  takes nothing.
\<close>

fun sock_read :: "nat \<Rightarrow> rd_event list \<Rightarrow> (errno + string) \<times> rd_event list" where
  "sock_read n [] = (Inr [], [])"
| "sock_read n (Chunk bs # evs) =
     (if n = 0 then (Inr [], Chunk bs # evs)
      else if bs = [] then sock_read n evs
      else if length bs \<le> n then (Inr bs, evs)
      else (Inr (take n bs), Chunk (drop n bs) # evs))"
| "sock_read n (Block # evs) = (if n = 0 then (Inr [], Block # evs) else (Inl EAGAIN, evs))"
| "sock_read n (Err e # evs) = (if n = 0 then (Inr [], Err e # evs) else (Inl e, evs))"

end
