(* ===== verification/Http_Util.thy ===== *)
theory Http_Util
  imports Http_Types
begin

text \<open>
  The string helpers of \<^verbatim>\<open>src/http.c\<close>: \<open>strtonum\<close>, \<open>str_append\<close>, the path traversal
  check, the MIME table and the in-place URL decoder, with what each computes. \<open>sink\<close> is
  the contract that the appending routines of the server share.
\<close>

section \<open>Numbers\<close>

text \<open>
  \<^verbatim>\<open>strtoll(s, &end, 10)\<close>: the value, the rest of the string at \<open>end\<close>, and whether
  \<^verbatim>\<open>errno\<close> was set to ERANGE.
\<close>

definition strtoll :: "string \<Rightarrow> int \<times> string \<times> bool" where
  "strtoll s =
     (let s1 = dropWhile isspace s;
          neg = (s1 \<noteq> [] \<and> hd s1 = CHR ''-'');
          s2 = (if s1 \<noteq> [] \<and> (hd s1 = CHR ''-'' \<or> hd s1 = CHR ''+'') then tl s1 else s1);
          ds = takeWhile isdigit s2;
          rest = dropWhile isdigit s2;
          v = (if neg then - int (digits_val ds) else int (digits_val ds))
      in if ds = [] then (0, s, False)
         else if v > 2 ^ 63 - 1 then (2 ^ 63 - 1, rest, True)
         else if v < - (2 ^ 63) then (- (2 ^ 63), rest, True)
         else (v, rest, False))"

text \<open>The result code and what is stored in \<open>*dest\<close>, which is written either way.\<close>

definition strtonum :: "string \<Rightarrow> int \<times> int" where
  "strtonum str = (case strtoll str of (v, endptr, erange) \<Rightarrow>
     (if erange \<or> endptr \<noteq> [] then -1 else 0, v))"

lemma strtonum_range: "strtonum s = (rc, v) \<Longrightarrow> - (2 ^ 63) \<le> v \<and> v < 2 ^ 63"
  by (auto simp: strtonum_def strtoll_def Let_def split: if_splits)

lemma isdigit_not_space [simp]: "isdigit c \<Longrightarrow> \<not> isspace c"
  by (auto simp: isdigit_def isspace_def)

lemma isdigit_not_sign [simp]: "isdigit c \<Longrightarrow> c \<noteq> CHR ''-'' \<and> c \<noteq> CHR ''+''"
  by (auto simp: isdigit_def)

text \<open>A nonempty string of digits is read as the number it denotes, if that fits 63 bits.\<close>

lemma strtonum_digits:
  assumes "s \<noteq> []" and d: "\<forall>c \<in> set s. isdigit c"
  shows "strtonum s = (if digits_val s < 2 ^ 63 then (0, int (digits_val s)) else (-1, 2 ^ 63 - 1))"
proof -
  from assms have h: "dropWhile isspace s = s" "isdigit (hd s)"
    by (cases s; simp)+
  have tw: "takeWhile isdigit s = s" "dropWhile isdigit s = []" using d by auto
  from isdigit_not_sign [OF h(2)] \<open>s \<noteq> []\<close> show ?thesis
    by (auto simp: strtonum_def strtoll_def Let_def tw h(1)
        simp del: takeWhile_eq_all_conv dropWhile_eq_Nil_conv)
qed

lemma strtonum_dec_nat: "n < 2 ^ 63 \<Longrightarrow> strtonum (dec_nat n) = (0, int n)"
  by (subst strtonum_digits) (auto simp: dec_nat_digits)

section \<open>Bounded appends\<close>

text \<open>
  The contract of an appending routine: what fits (with the byte that its terminator or
  its strict comparison costs) is appended exactly, and the room shrinks by it.
\<close>

locale sink =
  fixes inv :: "'s \<Rightarrow> bool"
    and content :: "'s \<Rightarrow> string"
    and room :: "'s \<Rightarrow> nat"
    and put :: "'s \<Rightarrow> string \<Rightarrow> 's option"
  assumes put_fits: "inv s \<Longrightarrow> length w < room s \<Longrightarrow>
    \<exists>s'. put s w = Some s' \<and> inv s' \<and> content s' = content s @ w \<and> room s' = room s - length w"
begin

fun puts :: "'s \<Rightarrow> string list \<Rightarrow> 's option" where
  "puts s [] = Some s"
| "puts s (w # ws) = (case put s w of None \<Rightarrow> None | Some s' \<Rightarrow> puts s' ws)"

lemma puts_fit:
  "inv s \<Longrightarrow> length (concat ws) < room s \<Longrightarrow>
   \<exists>s'. puts s ws = Some s' \<and> inv s' \<and> content s' = content s @ concat ws \<and>
     room s' = room s - length (concat ws)"
proof (induction ws arbitrary: s)
  case Nil
  then show ?case by simp
next
  case (Cons w ws)
  from Cons.prems have "length w < room s" by simp
  from put_fits [OF Cons.prems(1) this] obtain s' where s':
    "put s w = Some s'" "inv s'" "content s' = content s @ w" "room s' = room s - length w" by blast
  with Cons.prems have "length (concat ws) < room s'" by simp
  from Cons.IH [OF s'(2) this] s' show ?case by auto
qed

end

text \<open>
  \<open>str_appendva\<close>: the destination is the block \<open>m\<close> of \<open>block\<close> bytes, the offset is
  returned incremented on success and as it was on failure.
\<close>

definition str_appendva :: "nat \<Rightarrow> mem \<Rightarrow> nat \<Rightarrow> nat \<Rightarrow> string \<Rightarrow> (int \<times> mem \<times> nat) ub" where
  "str_appendva block m offset mx out = do {
     let n = size_t_of (int mx - int offset);
     m \<leftarrow> vsnprintf_at block m offset n out;
     if length out \<ge> n then Some (-1, m, offset)
     else Some (0, m, offset + length out) }"

definition str_append :: "nat \<Rightarrow> mem \<Rightarrow> nat \<Rightarrow> nat \<Rightarrow> string \<Rightarrow> (int \<times> mem \<times> nat) ub" where
  "str_append block m offset mx out = str_appendva block m offset mx out"

text \<open>An append at an offset inside the buffer never leaves the block.\<close>

lemma str_append_cases:
  assumes "off \<le> length m" "off \<le> mx" "mx \<le> block" "mx < 2 ^ 63"
  shows "(length out < mx - off \<and> str_append block m off mx out
            = Some (0, mem_write m off (out @ [NUL]), off + length out)) \<or>
         (mx - off \<le> length out \<and> (\<exists>m'. str_append block m off mx out = Some (-1, m', off)
            \<and> off \<le> length m' \<and> take off m' = take off m))"
proof -
  have n: "size_t_of (int mx - int off) = mx - off" using assms by (simp add: nat_diff_distrib)
  show ?thesis
  proof (cases "length out < mx - off")
    case True
    with assms have "take (mx - off - 1) out = out" "off + length (out @ [NUL]) \<le> block" by auto
    moreover from True have "mx - off \<noteq> 0" by auto
    ultimately show ?thesis using True
      by (simp only: str_append_def str_appendva_def n vsnprintf_at_def memcpy_at_def) simp
  next
    case False
    let ?w = "take (mx - off - 1) out @ [NUL]"
    from False assms have "0 < mx - off \<Longrightarrow> off + length ?w \<le> block" by auto
    with False assms show ?thesis
      by (cases "mx - off = 0")
         (auto simp: str_append_def str_appendva_def n vsnprintf_at_def memcpy_at_def
           length_mem_write)
  qed
qed

section \<open>Path traversal\<close>

text \<open>\<^verbatim>\<open>strstr(path, "..")\<close>, as the offset of the first occurrence.\<close>

fun strstr_dotdot :: "string \<Rightarrow> nat option" where
  "strstr_dotdot (a # b # t) =
     (if a = CHR ''.'' \<and> b = CHR ''.'' then Some 0 else map_option Suc (strstr_dotdot (b # t)))"
| "strstr_dotdot s = None"

definition attempted_path_traversal :: "string \<Rightarrow> bool" where
  "attempted_path_traversal path =
     (case strstr_dotdot path of
        None \<Rightarrow> False
      | Some found \<Rightarrow>
          (found + 2 = length path \<or> path ! (found + 2) = CHR ''/'') \<and>
          (found = 0 \<or> path ! (found - 1) = CHR ''/''))"

text \<open>The components of a path, and what the check is for: one of them is \<open>..\<close>.\<close>

fun components :: "string \<Rightarrow> string list" where
  "components [] = [[]]"
| "components (c # s) =
     (if c = CHR ''/'' then [] # components s
      else (case components s of [] \<Rightarrow> [[c]] | w # ws \<Rightarrow> (c # w) # ws))"

definition has_dotdot :: "string \<Rightarrow> bool" where
  "has_dotdot path \<longleftrightarrow> ''..'' \<in> set (components path)"

lemma components_nonempty [simp]: "components s \<noteq> []"
  by (induction s) (auto split: list.splits)

lemma components_append_slash:
  "components (a @ CHR ''/'' # b) = components a @ components b"
  by (induction a) (auto split: list.splits)

lemma components_no_slash: "CHR ''/'' \<notin> set a \<Longrightarrow> components a = [a]"
  by (induction a) auto

lemma strstr_dotdot_split:
  "strstr_dotdot s = Some k \<Longrightarrow> \<exists>a b. s = a @ ''..'' @ b \<and> length a = k"
proof (induction s arbitrary: k rule: strstr_dotdot.induct)
  case (1 a b t)
  show ?case
  proof (cases "a = CHR ''.'' \<and> b = CHR ''.''")
    case True
    with "1.prems" show ?thesis by auto
  next
    case False
    with "1.prems" obtain k' where "strstr_dotdot (b # t) = Some k'" "k = Suc k'" by auto
    with "1.IH" [OF False this(1)] show ?thesis by (metis append_Cons length_Cons)
  qed
qed auto

text \<open>The check never rejects a path without a \<open>..\<close> component.\<close>

lemma traversal_sound: "attempted_path_traversal s \<Longrightarrow> has_dotdot s"
proof -
  assume t: "attempted_path_traversal s"
  then obtain k where k: "strstr_dotdot s = Some k"
    by (auto simp: attempted_path_traversal_def split: option.splits)
  from strstr_dotdot_split [OF k] obtain a b where s: "s = a @ ''..'' @ b" and a: "length a = k"
    by blast
  from t k have e: "b = [] \<or> hd b = CHR ''/''" and f: "a = [] \<or> last a = CHR ''/''"
    using a s by (cases b; cases a rule: rev_cases; auto simp: attempted_path_traversal_def nth_append)+
  from e have cb: "components (''..'' @ b) = ''..'' # (if b = [] then [] else components (tl b))"
    using components_append_slash [of "''..''" "tl b"] by (cases b) auto
  show ?thesis
  proof (cases "a = []")
    case True
    with s cb show ?thesis by (simp add: has_dotdot_def)
  next
    case False
    with f have "s = butlast a @ CHR ''/'' # ''..'' @ b" using s
      by (metis append_Cons append_butlast_last_id append_eq_append_conv2 append_self_conv2 append.assoc)
    with cb show ?thesis by (simp only: has_dotdot_def components_append_slash) simp
  qed
qed

text \<open>Where \<open>..\<close> occurs once only, the check decides the component.\<close>

lemma strstr_dotdot_None: "strstr_dotdot s = None \<Longrightarrow> s \<noteq> a @ ''..'' @ b"
proof (induction s arbitrary: a rule: strstr_dotdot.induct)
  case (1 x y t)
  then show ?case by (cases a) (auto split: if_splits)
qed auto

section \<open>MIME types\<close>

definition guess_mime_type :: "string option \<Rightarrow> string" where
  "guess_mime_type extension =
     (case extension of None \<Rightarrow> ''application/octet-stream''
      | Some e \<Rightarrow>
          if strcasecmp_eq e ''.js'' then ''text/javascript''
          else if strcasecmp_eq e ''.html'' then ''text/html''
          else if strcasecmp_eq e ''.htm'' then ''text/html''
          else if strcasecmp_eq e ''.css'' then ''text/css''
          else if strcasecmp_eq e ''.json'' then ''application/json''
          else if strcasecmp_eq e ''.svg'' then ''image/svg+xml''
          else if strcasecmp_eq e ''.png'' then ''image/png''
          else if strcasecmp_eq e ''.jpg'' then ''image/jpeg''
          else if strcasecmp_eq e ''.jpeg'' then ''image/jpeg''
          else if strcasecmp_eq e ''.txt'' then ''text/plain''
          else if strcasecmp_eq e ''.md'' then ''text/plain''
          else if strcasecmp_eq e ''.gif'' then ''image/gif''
          else if strcasecmp_eq e ''.mp4'' then ''video/mp4''
          else if strcasecmp_eq e ''.zip'' then ''applicaton/zip''
          else ''application/octet-stream'')"

lemma guess_mime_type_length: "length (guess_mime_type e) \<le> 24"
  by (simp add: guess_mime_type_def split: option.splits)

section \<open>Descriptors\<close>

definition KITSERV_FD_HEAD :: int where "KITSERV_FD_HEAD = -1"
definition KITSERV_FD_DISABLE :: int where "KITSERV_FD_DISABLE = 0"

text \<open>\<^verbatim>\<open>close_fd_to_zero(&client->ta.resp_fd)\<close>; a closed descriptor leaves \<open>os_fds\<close>.\<close>

definition close_fd_to_zero :: "kitserv_client \<Rightarrow> os \<Rightarrow> kitserv_client \<times> os" where
  "close_fd_to_zero c w =
     (if resp_fd (ta c) > 0
      then (c\<lparr>ta := (ta c)\<lparr>resp_fd := 0\<rparr>\<rparr>, w\<lparr>os_fds := remove1 (resp_fd (ta c)) (os_fds w)\<rparr>)
      else (c, w))"

text \<open>A component of a path is a stretch between slashes.\<close>

lemma components_split:
  "components s = v # vs \<Longrightarrow> (\<exists>y. s = v @ y \<and> (y = [] \<or> hd y = CHR ''/'')) \<and>
   (\<forall>w \<in> set vs. \<exists>x y. s = x @ CHR ''/'' # w @ y \<and> (y = [] \<or> hd y = CHR ''/''))"
proof (induction s arbitrary: v vs)
  case (Cons c s)
  obtain v' vs' where c: "components s = v' # vs'" by (cases "components s") auto
  note ih = Cons.IH [OF c]
  show ?case
  proof (cases "c = CHR ''/''")
    case True
    with Cons.prems c have v: "v = []" "vs = v' # vs'" by simp_all
    have "\<exists>x y. c # s = x @ CHR ''/'' # w @ y \<and> (y = [] \<or> hd y = CHR ''/'')" if "w \<in> set vs" for w
    proof (cases "w = v'")
      case w: True
      from ih obtain y where "s = v' @ y" "y = [] \<or> hd y = CHR ''/''" by blast
      with True w show ?thesis by (intro exI [of _ "[]"] exI [of _ y]) simp
    next
      case False
      with v that have "w \<in> set vs'" by simp
      with ih obtain x y where "s = x @ CHR ''/'' # w @ y" "y = [] \<or> hd y = CHR ''/''" by meson
      then show ?thesis by (intro exI [of _ "c # x"] exI [of _ y]) simp
    qed
    with True v show ?thesis by simp
  next
    case False
    with Cons.prems c have v: "v = c # v'" "vs = vs'" by auto
    have "\<exists>x y. c # s = x @ CHR ''/'' # w @ y \<and> (y = [] \<or> hd y = CHR ''/'')" if "w \<in> set vs" for w
    proof -
      from v(2) that have "w \<in> set vs'" by simp
      with ih obtain x y where "s = x @ CHR ''/'' # w @ y" "y = [] \<or> hd y = CHR ''/''" by meson
      then show ?thesis by (intro exI [of _ "c # x"] exI [of _ y]) simp
    qed
    with ih v show ?thesis by simp
  qed
qed simp

lemma dotdot_split:
  assumes "has_dotdot s"
  obtains x y where "s = x @ ''..'' @ y" "x = [] \<or> last x = CHR ''/''" "y = [] \<or> hd y = CHR ''/''"
proof -
  obtain v vs where c: "components s = v # vs" by (cases "components s") auto
  with assms consider "v = ''..''" | "''..'' \<in> set vs" by (auto simp: has_dotdot_def)
  then show thesis
  proof cases
    case 1
    with components_split [OF c] obtain y where "s = ''..'' @ y" "y = [] \<or> hd y = CHR ''/''" by blast
    with that [of "[]" y] show thesis by simp
  next
    case 2
    with components_split [OF c] obtain x y where "s = x @ CHR ''/'' # ''..'' @ y" "y = [] \<or> hd y = CHR ''/''" by blast
    with that [of "x @ ''/''" y] show thesis by simp
  qed
qed

text \<open>An occurrence of \<open>..\<close> is the first one when none starts later.\<close>

lemma strstr_dotdot_least: "strstr_dotdot (a @ ''..'' @ b) = Some k \<Longrightarrow> k \<le> length a"
proof (induction a arbitrary: k)
  case (Cons c a)
  show ?case
  proof (cases "a @ ''..'' @ b")
    case (Cons d t)
    with Cons.prems Cons.IH show ?thesis by (auto split: if_splits)
  qed simp
qed (simp split: if_splits)

lemma only_dotdot:
  assumes "strstr_dotdot (x @ ''..'' @ y) = Some k" "strstr_dotdot (drop (Suc k) (x @ ''..'' @ y)) = None"
  shows "k = length x"
proof (rule ccontr)
  assume "k \<noteq> length x"
  with strstr_dotdot_least [OF assms(1)] have "Suc k \<le> length x" by simp
  then have "drop (Suc k) (x @ ''..'' @ y) = drop (Suc k) x @ ''..'' @ y" by simp
  with strstr_dotdot_None [OF assms(2)] show False by blast
qed

text \<open>Where \<open>..\<close> occurs no more than once, the check is exact.\<close>

lemma traversal_exact:
  assumes "\<forall>k. strstr_dotdot s = Some k \<longrightarrow> strstr_dotdot (drop (Suc k) s) = None"
  shows "attempted_path_traversal s \<longleftrightarrow> has_dotdot s"
proof
  assume "has_dotdot s"
  then obtain x y where s: "s = x @ ''..'' @ y" "x = [] \<or> last x = CHR ''/''" "y = [] \<or> hd y = CHR ''/''"
    by (rule dotdot_split)
  then obtain k where k: "strstr_dotdot s = Some k" using strstr_dotdot_None [of s x y] by fastforce
  from only_dotdot k assms s(1) have "k = length x" by blast
  with k s show "attempted_path_traversal s"
    by (cases x rule: rev_cases; cases y) (auto simp: attempted_path_traversal_def nth_append)
qed (rule traversal_sound)

section \<open>Properties\<close>

text \<open>
  C38: the path traversal check decides the presence of a \<open>..\<close> component whenever \<open>..\<close> occurs
  in the path no more than once: such a path is rejected exactly when a component of it is
  \<open>..\<close>, and names like \<open>hello..world\<close> pass.
\<close>

theorem traversal_check_single:
  assumes "\<forall>k. strstr_dotdot s = Some k \<longrightarrow> strstr_dotdot (drop (Suc k) s) = None"
  shows "attempted_path_traversal s \<longleftrightarrow> has_dotdot s"
  using assms by (rule traversal_exact)

lemma traversal_check_single_witness:
  "attempted_path_traversal ''/a/../b'' \<longleftrightarrow> has_dotdot ''/a/../b''"
  by (rule traversal_check_single) (simp split: if_splits)

text \<open>
  The check inspects only the first \<open>..\<close> of the path. A path with an earlier, harmless
  occurrence passes although a later component is \<open>..\<close>.
\<close>

theorem traversal_check_bypass:
  "\<not> attempted_path_traversal ''/a../../etc/passwd'' \<and> has_dotdot ''/a../../etc/passwd''"
  by (simp add: attempted_path_traversal_def has_dotdot_def)

text \<open>
  \<open>strtonum\<close> reads back every number of 64 bits, negative ones included, that is
  written in decimal.
\<close>

theorem strtonum_decimal:
  assumes "- (2 ^ 63) \<le> i" "i < 2 ^ 63"
  shows "strtonum (dec_int i) = (0, i)"
proof (cases "0 \<le> i")
  case True
  with assms have "nat i < 2 ^ 63" by simp
  from strtonum_dec_nat [OF this] True show ?thesis by (simp add: dec_int_def)
next
  case False
  let ?d = "dec_nat (nat (- i))"
  have d: "\<forall>c \<in> set ?d. isdigit c" using dec_nat_digits by blast
  then have tw: "takeWhile isdigit ?d = ?d" "dropWhile isdigit ?d = []" by auto
  have "dropWhile isspace (CHR ''-'' # ?d) = CHR ''-'' # ?d" by (simp add: isspace_def)
  with False assms show ?thesis
    by (simp add: strtonum_def strtoll_def dec_int_def tw del: takeWhile_eq_all_conv dropWhile_eq_Nil_conv)
qed

lemma strtonum_decimal_witness: "strtonum (dec_int (- 42)) = (0, - 42)"
  by (rule strtonum_decimal) simp_all

end
