(* ===== verification/Http_Url.thy ===== *)
theory Http_Url
  imports Http_Util
begin

text \<open>
  The in-place URL decoder of \<^verbatim>\<open>src/http.c\<close>. The loop runs a source pointer \<open>s\<close> and a
  result pointer \<open>r\<close> that chases it over the same block; \<open>url_decoded\<close> is the decoding of
  a string as a function. \<open>url_decode_spec\<close> shows that the loop computes it.
\<close>

text \<open>
  \<^verbatim>\<open>*s == '%' && isxdigit(s[1]) && isxdigit(s[2])\<close>, and the byte that
  \<^verbatim>\<open>sscanf(s + 1, "%2hhx", &x)\<close> then reads.
\<close>

definition hex_at :: "mem \<Rightarrow> nat \<Rightarrow> char option ub" where
  "hex_at m s = do {
     c \<leftarrow> peek m s;
     if c \<noteq> CHR ''%'' then Some None
     else do {
       a \<leftarrow> peek m (s + 1);
       (case hex_val a of
          None \<Rightarrow> Some None
        | Some x \<Rightarrow> do {
            b \<leftarrow> peek m (s + 2);
            Some (map_option (\<lambda>y. char_of (16 * x + y)) (hex_val b)) }) } }"

function url_decode_loop :: "mem \<Rightarrow> nat \<Rightarrow> nat \<Rightarrow> mem ub" where
  "url_decode_loop m s r =
     (if s < length m then
        if m ! s = NUL then poke m r NUL
        else (case hex_at m s of
                None \<Rightarrow> None
              | Some (Some x) \<Rightarrow> if r < length m then url_decode_loop (m[r := x]) (s + 3) (r + 1) else None
              | Some None \<Rightarrow> if r < length m then url_decode_loop (m[r := m ! s]) (s + 1) (r + 1) else None)
      else None)"
  by pat_completeness auto
termination by (relation "measure (\<lambda>(m, s, r). length m - s)") auto

declare url_decode_loop.simps [simp del]

definition url_decode :: "mem \<Rightarrow> nat \<Rightarrow> mem ub" where
  "url_decode m p = url_decode_loop m p p"

text \<open>The decoding of a string: every \<open>%XY\<close> with two hexadecimal digits is one byte.\<close>

fun url_decoded :: "string \<Rightarrow> string" where
  "url_decoded [] = []"
| "url_decoded (c # a # b # t) =
     (if c = CHR ''%'' \<and> isxdigit a \<and> isxdigit b
      then char_of (16 * the (hex_val a) + the (hex_val b)) # url_decoded t
      else c # url_decoded (a # b # t))"
| "url_decoded (c # t) = c # url_decoded t"

lemma url_decoded_length: "length (url_decoded s) \<le> length s"
  by (induction s rule: url_decoded.induct) auto

lemma url_decoded_plain: "CHR ''%'' \<notin> set s \<Longrightarrow> url_decoded s = s"
  by (induction s rule: url_decoded.induct) auto

lemma hex_val_NUL [simp]: "hex_val NUL = None"
  by (simp add: hex_val_def)

lemma cstr_step:
  "cstr m p = Some s \<longleftrightarrow>
     p < length m \<and> (if m ! p = NUL then s = [] else \<exists>t. s = m ! p # t \<and> cstr m (Suc p) = Some t)"
proof (cases "p < length m")
  case True
  then have "drop p m = m ! p # drop (Suc p) m" by (simp add: Cons_nth_drop_Suc)
  with True show ?thesis by (auto simp: cstr_def)
next
  case False
  then show ?thesis by (simp add: cstr_def)
qed

lemma mem_write_update:
  "r < length m \<Longrightarrow> mem_write (m[r := x]) (Suc r) w = mem_write m r (x # w)"
  by (simp add: mem_write_def take_Suc_conv_app_nth take_update_cancel)

text \<open>What one round of the loop sees, in terms of the string at \<open>s\<close>.\<close>

lemma hex_at_string:
  assumes "cstr m s = Some (c # t)"
  shows "hex_at m s = Some (case t of
     a # b # u \<Rightarrow> (if c = CHR ''%'' \<and> isxdigit a \<and> isxdigit b
        then Some (char_of (16 * the (hex_val a) + the (hex_val b))) else None)
   | _ \<Rightarrow> None)"
proof -
  from assms have s: "s < length m" "m ! s = c" "cstr m (Suc s) = Some t"
    by (auto simp: cstr_step [of m s] split: if_splits)
  show ?thesis
  proof (cases t)
    case Nil
    with s have "Suc s < length m" "m ! Suc s = NUL"
      by (auto simp: cstr_step [of m "Suc s"] split: if_splits)
    with s Nil show ?thesis by (simp add: hex_at_def peek_def)
  next
    case (Cons a u)
    with s have a: "Suc s < length m" "m ! Suc s = a" "cstr m (Suc (Suc s)) = Some u"
      by (auto simp: cstr_step [of m "Suc s"] split: if_splits)
    show ?thesis
    proof (cases u)
      case Nil
      with a have "Suc (Suc s) < length m" "m ! Suc (Suc s) = NUL"
        by (auto simp: cstr_step [of m "Suc (Suc s)"] split: if_splits)
      with s a Cons Nil show ?thesis by (auto simp: hex_at_def peek_def isxdigit_def split: option.splits)
    next
      case (Cons b v)
      with a have "Suc (Suc s) < length m" "m ! Suc (Suc s) = b"
        by (auto simp: cstr_step [of m "Suc (Suc s)"] split: if_splits)
      with s a \<open>t = a # u\<close> Cons show ?thesis
        by (auto simp: hex_at_def peek_def isxdigit_def split: option.splits)
    qed
  qed
qed

text \<open>The chase: writing at \<open>r \<le> s\<close> never disturbs what is still to be read.\<close>

lemma url_decode_loop_spec:
  "cstr m s = Some str \<Longrightarrow> r \<le> s \<Longrightarrow>
   url_decode_loop m s r = Some (mem_write m r (url_decoded str @ [NUL]))"
proof (induction m s r arbitrary: str rule: url_decode_loop.induct)
  case (1 m s r)
  then have s: "s < length m" by (auto simp: cstr_step [of m s])
  with "1.prems" have r: "r < length m" by simp
  show ?case
  proof (cases "m ! s = NUL")
    case True
    with "1.prems"(1) s have "str = []" by (auto simp: cstr_step [of m s])
    with True s r show ?thesis
      by (simp add: url_decode_loop.simps [of m s r] poke_def mem_write_def upd_conv_take_nth_drop)
  next
    case False
    with "1.prems"(1) s obtain t where t: "str = m ! s # t" "cstr m (Suc s) = Some t"
      by (auto simp: cstr_step [of m s])
    note h = hex_at_string [OF "1.prems"(1) [unfolded t(1)]]
    show ?thesis
    proof (cases "hex_at m s")
      case None
      with h show ?thesis by simp
    next
      case (Some h')
      show ?thesis
      proof (cases h')
        case None
        have "url_decode_loop (m[r := m ! s]) (s + 1) (r + 1) =
            Some (mem_write (m[r := m ! s]) (r + 1) (url_decoded t @ [NUL]))"
          using "1.IH"(1) [OF s False Some None r] t "1.prems"(2) by (simp add: cstr_update_below)
        moreover have "url_decoded str = m ! s # url_decoded t"
          using h Some None t by (auto split: list.splits if_splits)
        ultimately show ?thesis
          using s False Some None r
          by (simp add: url_decode_loop.simps [of m s r] mem_write_update)
      next
        case x: (Some x)
        with h Some obtain a b u where u: "t = a # b # u" "url_decoded str = x # url_decoded u"
          using t(1) by (auto split: list.splits if_splits)
        then have "cstr m (s + 3) = Some u"
          using t(2) by (auto simp: cstr_step [of m "Suc s"] cstr_step [of m "Suc (Suc s)"]
              numeral_3_eq_3 split: if_splits)
        then have "url_decode_loop (m[r := x]) (s + 3) (r + 1) =
            Some (mem_write (m[r := x]) (r + 1) (url_decoded u @ [NUL]))"
          using "1.IH"(2) [OF s False Some x r] "1.prems"(2) by (simp add: cstr_update_below)
        with s False Some x r u show ?thesis
          by (simp add: url_decode_loop.simps [of m s r] mem_write_update)
      qed
    qed
  qed
qed

lemma url_decode_eq:
  "cstr m p = Some s \<Longrightarrow> url_decode m p = Some (mem_write m p (url_decoded s @ [NUL]))"
  by (simp add: url_decode_def url_decode_loop_spec)

lemma url_decode_length: "cstr m p = Some s \<Longrightarrow> url_decode m p = Some m' \<Longrightarrow> length m' = length m"
  using cstr_length [of m p s] url_decoded_length [of s]
  by (auto simp: url_decode_eq length_mem_write)

text \<open>Outside the string, the block is untouched.\<close>

lemma mem_write_nth_below: "i < off \<Longrightarrow> off \<le> length m \<Longrightarrow> mem_write m off w ! i = m ! i"
  by (simp add: mem_write_def nth_append)

lemma mem_write_nth_above:
  "off + length w \<le> i \<Longrightarrow> i < length m \<Longrightarrow> mem_write m off w ! i = m ! i"
  by (auto simp: mem_write_def nth_append)

lemma mem_write_append: "off + length w \<le> length m \<Longrightarrow> mem_write (m @ bs) off w = mem_write m off w @ bs"
  by (simp add: mem_write_def)

lemma cstr_mem_write: "NUL \<notin> set s \<Longrightarrow> off \<le> length m \<Longrightarrow> cstr (mem_write m off (s @ [NUL])) off = Some s"
  by (simp add: mem_write_def cstr_at)

lemma hex_at_append [ext_simps]: "hex_at m s = Some x \<Longrightarrow> hex_at (m @ bs) s = Some x"
  by (auto simp: hex_at_def bind_eq_Some_conv nth_append split: if_splits option.splits)

lemma url_decode_loop_append:
  "url_decode_loop m s r = Some m' \<Longrightarrow> url_decode_loop (m @ bs) s r = Some (m' @ bs)"
proof (induction m s r rule: url_decode_loop.induct)
  case (1 m s r)
  from "1.prems" have s: "s < length m" by (auto simp: url_decode_loop.simps [of m s r] split: if_splits)
  show ?case
  proof (cases "m ! s = NUL")
    case True
    with "1.prems" s show ?thesis
      by (auto simp: url_decode_loop.simps [of m s r] url_decode_loop.simps [of "m @ bs" s r]
          nth_append list_update_append1)
  next
    case False
    with "1.prems" s obtain h where h: "hex_at m s = Some h"
      by (auto simp: url_decode_loop.simps [of m s r] split: option.splits)
    from "1.prems" s False h have r: "r < length m"
      by (auto simp: url_decode_loop.simps [of m s r] split: option.splits if_splits)
    note unf = url_decode_loop.simps [of m s r] url_decode_loop.simps [of "m @ bs" s r]
      hex_at_append [OF h]
    show ?thesis
    proof (cases h)
      case None
      with "1.IH"(1) [OF s False h None r] "1.prems" s False h r show ?thesis
        by (simp add: unf nth_append list_update_append1)
    next
      case (Some x)
      with "1.IH"(2) [OF s False h Some r] "1.prems" s False h r show ?thesis
        by (simp add: unf nth_append list_update_append1)
    qed
  qed
qed

lemma url_decode_append [ext_simps]:
  "url_decode m p = Some m' \<Longrightarrow> url_decode (m @ bs) p = Some (m' @ bs)"
  by (simp add: url_decode_def url_decode_loop_append)

section \<open>Properties\<close>

text \<open>
  C19: the in-place decoder turns the string at \<open>p\<close> into its decoding, never writes outside
  the string's own bytes and leaves the memory before it alone.
\<close>

theorem url_decode_correct:
  assumes "cstr m p = Some s"
  shows "\<exists>m'. url_decode m p = Some m' \<and> take (length (url_decoded s)) (drop p m') = url_decoded s \<and>
    m' ! (p + length (url_decoded s)) = NUL \<and> length m' = length m \<and> take p m' = take p m \<and>
    drop (p + length s) m' = drop (p + length s) m"
proof -
  note l = cstr_length [OF assms] url_decoded_length [of s]
  let ?w = "url_decoded s @ [NUL]"
  have "drop (p + length s) (mem_write m p ?w) = drop (p + length s) m"
  proof (cases "length (url_decoded s) = length s")
    case True
    have "drop (p + length s) m = NUL # drop (Suc (p + length s)) m"
      using l cstr_nul [OF assms] by (metis Cons_nth_drop_Suc)
    with True l show ?thesis by (simp add: mem_write_def)
  next
    case False
    with l have "p + length ?w \<le> p + length s" by simp
    with l show ?thesis by (intro drop_mem_write) simp_all
  qed
  moreover have "length (mem_write m p ?w) = length m" using l by (simp add: length_mem_write)
  moreover have "mem_write m p ?w ! (p + length (url_decoded s)) = NUL"
    using l by (simp add: mem_write_def nth_append)
  moreover have "take (length (url_decoded s)) (drop p (mem_write m p ?w)) = url_decoded s"
    using l by (simp add: mem_write_def)
  ultimately show ?thesis using url_decode_eq [OF assms] l by simp
qed

lemma url_decode_correct_witness:
  defines "m \<equiv> ''x/a%20b'' @ [NUL]"
  shows "\<exists>m'. url_decode m 1 = Some m' \<and> take (length (url_decoded ''/a%20b'')) (drop 1 m') = url_decoded ''/a%20b'' \<and>
    m' ! (1 + length (url_decoded ''/a%20b'')) = NUL \<and> length m' = length m \<and> take 1 m' = take 1 m \<and>
    drop (1 + length ''/a%20b'') m' = drop (1 + length ''/a%20b'') m"
  by (rule url_decode_correct) (simp add: m_def cstr_def)

end
