(* ===== verification/Resumable.thy ===== *)
theory Resumable
  imports Main
begin

text \<open>
  The contract of an incremental machine: it runs in steps over the input received so far,
  and when it needs more it stops in a state from which it can be resumed. \<open>grow m d\<close> is
  the machine with the bytes \<open>d\<close> received in addition. The laws say that a step that
  succeeded is not changed by later bytes, and that a machine that waits is equivalent to
  the one it waited in. From them: how the input is cut into pieces does not matter.
\<close>

datatype ('m, 'r) outcome = Cont 'm | Wait 'm | Stop 'r

locale resumable =
  fixes step :: "'m \<Rightarrow> ('m, 'r) outcome option"
    and run :: "'m \<Rightarrow> ('m, 'r) outcome option"
    and grow :: "'m \<Rightarrow> 'd list \<Rightarrow> 'm"
    and grow_res :: "'r \<Rightarrow> 'd list \<Rightarrow> 'r"
    and wf :: "'m \<Rightarrow> bool"
    and mu :: "'m \<Rightarrow> nat"
  assumes run_step: "wf m \<Longrightarrow> run m = (case step m of None \<Rightarrow> None
        | Some (Cont m') \<Rightarrow> run m' | Some (Wait m') \<Rightarrow> Some (Wait m') | Some (Stop x) \<Rightarrow> Some (Stop x))"
    and step_total: "wf m \<Longrightarrow> \<exists>out. step m = Some out"
    and step_cont: "wf m \<Longrightarrow> step m = Some (Cont m') \<Longrightarrow> wf m' \<and> mu m' < mu m"
    and step_cont_grow: "wf m \<Longrightarrow> step m = Some (Cont m') \<Longrightarrow> step (grow m d) = Some (Cont (grow m' d))"
    and step_wait: "wf m \<Longrightarrow> step m = Some (Wait m') \<Longrightarrow> wf m' \<and> step m' = Some (Wait m')"
    and step_wait_grow: "wf m \<Longrightarrow> step m = Some (Wait m') \<Longrightarrow> step (grow m d) = step (grow m' d)"
    and step_stop_grow: "wf m \<Longrightarrow> step m = Some (Stop x) \<Longrightarrow> step (grow m d) = Some (Stop (grow_res x d))"
    and wf_grow: "wf m \<Longrightarrow> wf (grow m d)"
    and grow_nil: "grow m [] = m"
    and grow_grow: "grow (grow m d) e = grow m (d @ e)"
begin

lemma run_total: "wf m \<Longrightarrow> (\<exists>m'. run m = Some (Wait m')) \<or> (\<exists>x. run m = Some (Stop x))"
proof (induction "mu m" arbitrary: m rule: less_induct)
  case less
  from step_total [OF less.prems] obtain out where s: "step m = Some out" by blast
  show ?case
  proof (cases out)
    case (Cont m')
    with s step_cont [OF less.prems] have "wf m'" "mu m' < mu m" by auto
    from less.hyps [OF this(2,1)] s Cont run_step [OF less.prems] show ?thesis by simp
  qed (use s run_step [OF less.prems] in auto)
qed

lemma run_wait:
  "wf m \<Longrightarrow> run m = Some (Wait m') \<Longrightarrow>
   wf m' \<and> run m' = Some (Wait m') \<and> run (grow m d) = run (grow m' d)"
proof (induction "mu m" arbitrary: m rule: less_induct)
  case less
  note r = run_step [OF less.prems(1)]
  from step_total [OF less.prems(1)] obtain out where s: "step m = Some out" by blast
  show ?case
  proof (cases out)
    case (Cont n)
    with s step_cont [OF less.prems(1)] have n: "wf n" "mu n < mu m" by auto
    from s Cont r less.prems(2) have "run n = Some (Wait m')" by simp
    from less.hyps [OF n(2,1) this] s Cont run_step [OF wf_grow [OF less.prems(1)]]
      step_cont_grow [OF less.prems(1)] show ?thesis by simp
  next
    case (Wait n)
    with s r less.prems(2) have n: "n = m'" by simp
    with s Wait step_wait [OF less.prems(1)] have "wf m'" "step m' = Some (Wait m')" by auto
    with s Wait n run_step [OF wf_grow [OF less.prems(1)]] run_step [OF wf_grow [OF \<open>wf m'\<close>]]
      run_step [OF \<open>wf m'\<close>] step_wait_grow [OF less.prems(1)] show ?thesis by simp
  qed (use s r less.prems(2) in auto)
qed

lemma run_stop:
  "wf m \<Longrightarrow> run m = Some (Stop x) \<Longrightarrow> run (grow m d) = Some (Stop (grow_res x d))"
proof (induction "mu m" arbitrary: m rule: less_induct)
  case less
  note r = run_step [OF less.prems(1)]
  from step_total [OF less.prems(1)] obtain out where s: "step m = Some out" by blast
  show ?case
  proof (cases out)
    case (Cont n)
    with s step_cont [OF less.prems(1)] have n: "wf n" "mu n < mu m" by auto
    from s Cont r less.prems(2) have "run n = Some (Stop x)" by simp
    from less.hyps [OF n(2,1) this] s Cont run_step [OF wf_grow [OF less.prems(1)]]
      step_cont_grow [OF less.prems(1)] show ?thesis by simp
  next
    case (Stop y)
    with s r less.prems(2) show ?thesis
      using run_step [OF wf_grow [OF less.prems(1)]] step_stop_grow [OF less.prems(1)] by simp
  qed (use s r less.prems(2) in auto)
qed

text \<open>
  An invariant of the machine's steps holds of the state it waits in; what every step
  from a state with the invariant establishes of a result holds of the final result.
\<close>

lemma run_invariant:
  assumes c: "\<And>m m'. wf m \<Longrightarrow> I m \<Longrightarrow> step m = Some (Cont m') \<Longrightarrow> I m'"
    and w: "\<And>m m'. wf m \<Longrightarrow> I m \<Longrightarrow> step m = Some (Wait m') \<Longrightarrow> I m'"
    and s: "\<And>m x. wf m \<Longrightarrow> I m \<Longrightarrow> step m = Some (Stop x) \<Longrightarrow> J x"
  shows "wf m \<Longrightarrow> I m \<Longrightarrow> run m = Some out \<Longrightarrow>
    (case out of Cont m' \<Rightarrow> True | Wait m' \<Rightarrow> I m' | Stop x \<Rightarrow> J x)"
proof (induction "mu m" arbitrary: m rule: less_induct)
  case less
  note r = run_step [OF less.prems(1)]
  from step_total [OF less.prems(1)] obtain o1 where o1: "step m = Some o1" by blast
  show ?case
  proof (cases o1)
    case (Cont n)
    with o1 step_cont [OF less.prems(1)] have n: "wf n" "mu n < mu m" by auto
    from o1 Cont r less.prems(3) have "run n = Some out" by simp
    from less.hyps [OF n(2,1) _ this] c [OF less.prems(1,2)] o1 Cont show ?thesis by simp
  next
    case (Wait n)
    with o1 r less.prems(3) w [OF less.prems(1,2)] show ?thesis by auto
  next
    case (Stop x)
    with o1 r less.prems(3) s [OF less.prems(1,2)] show ?thesis by auto
  qed
qed

text \<open>Feeding pieces one at a time, until the machine stops or the pieces run out.\<close>

fun feed :: "'m \<Rightarrow> 'd list list \<Rightarrow> (('m, 'r) outcome \<times> 'd list list) option" where
  "feed m [] = map_option (\<lambda>out. (out, [])) (run m)"
| "feed m (d # ds) = (case run m of
      Some (Wait m') \<Rightarrow> feed (grow m' d) ds
    | Some out \<Rightarrow> Some (out, d # ds)
    | None \<Rightarrow> None)"

theorem feed_stop:
  "wf m \<Longrightarrow> feed m ds = Some (Stop x, rest) \<Longrightarrow>
   run (grow m (concat ds)) = Some (Stop (grow_res x (concat rest)))"
proof (induction ds arbitrary: m)
  case Nil
  then show ?case using run_stop [of m x "[]"] by (auto simp: grow_nil)
next
  case (Cons d ds)
  show ?case
  proof (cases "\<exists>m'. run m = Some (Wait m')")
    case True
    then obtain m' where m': "run m = Some (Wait m')" ..
    with run_wait [OF Cons.prems(1)] have w: "wf m'" "run (grow m e) = run (grow m' e)" for e by auto
    from m' Cons.prems(2) have "feed (grow m' d) ds = Some (Stop x, rest)" by simp
    from Cons.IH [OF wf_grow [OF w(1)] this] w(2) [of "d @ concat ds"] show ?thesis
      by (simp add: grow_grow)
  next
    case False
    with run_total [OF Cons.prems(1)] Cons.prems(2) have
      "run m = Some (Stop x)" "rest = d # ds" by auto
    with run_stop [OF Cons.prems(1)] show ?thesis by simp
  qed
qed

theorem feed_complete:
  "wf m \<Longrightarrow> run (grow m (concat ds)) = Some (Stop y) \<Longrightarrow> \<exists>x rest. feed m ds = Some (Stop x, rest)"
proof (induction ds arbitrary: m)
  case Nil
  then show ?case by (simp add: grow_nil)
next
  case (Cons d ds)
  show ?case
  proof (cases "\<exists>m'. run m = Some (Wait m')")
    case True
    then obtain m' where m': "run m = Some (Wait m')" ..
    with run_wait [OF Cons.prems(1)] have w: "wf m'" "run (grow m e) = run (grow m' e)" for e by auto
    from Cons.prems(2) have "run (grow (grow m' d) (concat ds)) = Some (Stop y)"
      by (simp add: w(2) grow_grow)
    from Cons.IH [OF wf_grow [OF w(1)] this] m' show ?thesis by simp
  next
    case False
    with run_total [OF Cons.prems(1)] show ?thesis by auto
  qed
qed

end

end
