(* ===== verification/Http_Parse.thy ===== *)
theory Http_Parse
  imports Http_Url Resumable
begin

text \<open>
  The request parser of \<open>kitserv_http_recv_request\<close> (\<^verbatim>\<open>src/http.c\<close>): one definition per
  \<^verbatim>\<open>case\<close> label of its \<^verbatim>\<open>switch\<close>, and \<open>parse_step\<close> which dispatches on the label. The
  locals of the C function are the label, the start \<open>p\<close> of the unconsumed block and the
  iterator \<open>r\<close>; \<open>Cont\<close> is falling through to the next label (or the jump back to
  \<^verbatim>\<open>parse_header\<close>), \<open>Wait\<close> is \<^verbatim>\<open>goto read_more\<close> with the label stored in
  \<open>parse_state\<close>, \<open>Failed\<close> is \<^verbatim>\<open>return -1\<close> and \<open>Finished\<close> leaves the \<^verbatim>\<open>switch\<close>.
\<close>

datatype parse_end = Failed kitserv_client | Finished kitserv_client nat

type_synonym machine = "http_parse_state \<times> kitserv_client \<times> nat \<times> nat"
type_synonym parse_out = "(machine, parse_end) outcome"

definition past_end :: "kitserv_client \<Rightarrow> nat \<Rightarrow> bool" where
  "past_end c r \<longleftrightarrow> length (req_headers c) \<le> r"

definition bad_request :: "kitserv_client \<Rightarrow> parse_out ub" where
  "bad_request c = Some (Stop (Failed (set_status HTTP_400_BAD_REQUEST c)))"

section \<open>Header handlers\<close>

definition parse_header_cookie :: "kitserv_client \<Rightarrow> nat \<Rightarrow> (int \<times> kitserv_client) ub" where
  "parse_header_cookie c v = Some (0, c\<lparr>ta := (ta c)\<lparr>req_fresh_cookies := Some v\<rparr>\<rparr>)"

definition parse_header_range :: "kitserv_client \<Rightarrow> nat \<Rightarrow> (int \<times> kitserv_client) ub" where
  "parse_header_range c v = Some (0, c\<lparr>ta := (ta c)\<lparr>range_requested := True, req_range := Some v\<rparr>\<rparr>)"

definition parse_header_if_modified_since :: "kitserv_client \<Rightarrow> nat \<Rightarrow> (int \<times> kitserv_client) ub" where
  "parse_header_if_modified_since c v = Some (0, c\<lparr>ta := (ta c)\<lparr>req_modified_since := Some v\<rparr>\<rparr>)"

definition parse_header_content_length :: "kitserv_client \<Rightarrow> nat \<Rightarrow> (int \<times> kitserv_client) ub" where
  "parse_header_content_length c v = do {
     s \<leftarrow> cstr (req_headers c) v;
     let (rc, n) = strtonum s;
     let c = c\<lparr>ta := (ta c)\<lparr>req_content_len := n\<rparr>\<rparr>;
     if rc \<noteq> 0 \<or> n < 0 then Some (-1, set_status HTTP_400_BAD_REQUEST c)
     else Some (0, c) }"

definition parse_header_content_type :: "kitserv_client \<Rightarrow> nat \<Rightarrow> (int \<times> kitserv_client) ub" where
  "parse_header_content_type c v = Some (0, c\<lparr>ta := (ta c)\<lparr>req_mimetype := Some v\<rparr>\<rparr>)"

definition parse_header_content_disposition :: "kitserv_client \<Rightarrow> nat \<Rightarrow> (int \<times> kitserv_client) ub" where
  "parse_header_content_disposition c v = Some (0, c\<lparr>ta := (ta c)\<lparr>req_disposition := Some v\<rparr>\<rparr>)"

type_synonym header = "string \<times> nat \<times> (kitserv_client \<Rightarrow> nat \<Rightarrow> (int \<times> kitserv_client) ub)"

definition headers :: "header list" where
  "headers =
    [(''cookie'', 6, parse_header_cookie),
     (''range'', 5, parse_header_range),
     (''if-modified-since'', 17, parse_header_if_modified_since),
     (''content-length'', 14, parse_header_content_length),
     (''content-type'', 12, parse_header_content_type),
     (''content-disposition'', 19, parse_header_content_disposition)]"

text \<open>The loop over the table: the first entry whose length and name match is called.\<close>

fun dispatch_header ::
    "header list \<Rightarrow> kitserv_client \<Rightarrow> nat \<Rightarrow> nat \<Rightarrow> nat \<Rightarrow> (int \<times> kitserv_client) ub" where
  "dispatch_header [] c p s q = Some (0, c)"
| "dispatch_header ((name, len, func) # hs) c p s q = do {
     n \<leftarrow> cstr (req_headers c) p;
     if s - p = len \<and> strcasecmp_eq n name then func c q
     else dispatch_header hs c p s q }"

section \<open>The labels of the switch\<close>

definition method_at :: "mem \<Rightarrow> nat \<Rightarrow> nat \<Rightarrow> http_method option ub" where
  "method_at m p n =
     (if n = 3 then do {
        g \<leftarrow> bufscmp m p ''GET '';
        if g then Some (Some HTTP_GET)
        else do { b \<leftarrow> bufscmp m p ''PUT ''; Some (if b then Some HTTP_PUT else None) } }
      else if n = 4 then do {
        h \<leftarrow> bufscmp m p ''HEAD '';
        if h then Some (Some HTTP_HEAD)
        else do { b \<leftarrow> bufscmp m p ''POST ''; Some (if b then Some HTTP_POST else None) } }
      else if n = 6 then do {
        d \<leftarrow> bufscmp m p ''DELETE '';
        Some (if d then Some HTTP_DELETE else None) }
      else Some None)"

definition ps_req_method :: "kitserv_client \<Rightarrow> nat \<Rightarrow> nat \<Rightarrow> parse_out ub" where
  "ps_req_method c p r =
     (let r = scan_until (\<lambda>x. x = SP) (req_headers c) r
      in if past_end c r then Some (Wait (HTTP_PS_REQ_METHOD, c, p, r))
         else do {
           meth \<leftarrow> method_at (req_headers c) p (r - p);
           (case meth of
              None \<Rightarrow> Some (Stop (Failed (c\<lparr>ta := (ta c)\<lparr>resp_status := HTTP_501_NOT_IMPLEMENTED,
                                                       req_method := HTTP_GET\<rparr>\<rparr>)))
            | Some k \<Rightarrow> Some (Cont (HTTP_PS_REQ_PATH, c\<lparr>ta := (ta c)\<lparr>req_method := k\<rparr>\<rparr>, r + 1, r + 1))) })"

text \<open>The loop over the path: it stops at a byte that is not printable, else finds the query.\<close>

datatype path_found = Unprintable | Query "nat option"

function path_scan :: "mem \<Rightarrow> nat \<Rightarrow> nat \<Rightarrow> nat option \<Rightarrow> path_found ub" where
  "path_scan m q r s =
     (if q < r then do {
        c \<leftarrow> peek m q;
        if \<not> isprint c then Some Unprintable
        else path_scan m (q + 1) r (if s = None \<and> c = CHR ''?'' then Some q else s) }
      else Some (Query s))"
  by pat_completeness auto
termination by (relation "measure (\<lambda>(m, q, r, s). r - q)") auto

declare path_scan.simps [simp del]

definition ps_req_path :: "kitserv_client \<Rightarrow> nat \<Rightarrow> nat \<Rightarrow> parse_out ub" where
  "ps_req_path c p r =
     (let r = scan_until (\<lambda>x. x = SP) (req_headers c) r
      in if past_end c r then Some (Wait (HTTP_PS_REQ_PATH, c, p, r))
         else do {
           found \<leftarrow> path_scan (req_headers c) p r None;
           (case found of
              Unprintable \<Rightarrow> bad_request c
            | Query s \<Rightarrow> do {
                m \<leftarrow> poke (req_headers c) r NUL;
                (m, query) \<leftarrow>
                  (case s of
                     None \<Rightarrow> Some (m, req_query (ta c))
                   | Some s \<Rightarrow> do {
                       m \<leftarrow> poke m s NUL;
                       m \<leftarrow> url_decode m (s + 1);
                       Some (m, Some (s + 1)) });
                m \<leftarrow> url_decode m p;
                path \<leftarrow> cstr m p;
                let c = c\<lparr>req_headers := m, ta := (ta c)\<lparr>req_query := query, req_path := Some p\<rparr>\<rparr>;
                if attempted_path_traversal path then bad_request c
                else Some (Cont (HTTP_PS_REQ_VERSION, c, r + 1, r + 1)) }) })"

definition version_not_supported :: "kitserv_client \<Rightarrow> parse_out ub" where
  "version_not_supported c = Some (Stop (Failed (set_status HTTP_505_VERSION_NOT_SUPPORTED c)))"

definition ps_req_version :: "kitserv_client \<Rightarrow> nat \<Rightarrow> nat \<Rightarrow> parse_out ub" where
  "ps_req_version c p r =
     (let m = req_headers c; r = scan_until (\<lambda>x. x = CR) m r
      in if past_end c r then Some (Wait (HTTP_PS_REQ_VERSION, c, p, r))
         else if r - p < 5 then bad_request c
         else do {
           http \<leftarrow> bufscmp m p ''HTTP/'';
           if \<not> http then bad_request c
           else let p = p + 5 in
             if r - p = 3 then do {
               v11 \<leftarrow> bufscmp m p ''1.1'';
               if v11 then Some (Cont (HTTP_PS_REQ_VERSION_LF,
                                       c\<lparr>ta := (ta c)\<lparr>req_version := HTTP_1_1\<rparr>\<rparr>, r + 1, r + 1))
               else do {
                 v10 \<leftarrow> bufscmp m p ''1.0'';
                 if v10 then Some (Cont (HTTP_PS_REQ_VERSION_LF,
                                         c\<lparr>ta := (ta c)\<lparr>req_version := HTTP_1_0\<rparr>\<rparr>, r + 1, r + 1))
                 else version_not_supported c } }
             else version_not_supported c })"

definition ps_req_version_lf :: "kitserv_client \<Rightarrow> nat \<Rightarrow> nat \<Rightarrow> parse_out ub" where
  "ps_req_version_lf c p r =
     (if past_end c r then Some (Wait (HTTP_PS_REQ_VERSION_LF, c, p, r))
      else do {
        x \<leftarrow> peek (req_headers c) r;
        if x \<noteq> LF then bad_request c
        else Some (Cont (HTTP_PS_REQ_HEAD, c, r + 1, r + 1)) })"

definition ps_req_head :: "kitserv_client \<Rightarrow> nat \<Rightarrow> nat \<Rightarrow> parse_out ub" where
  "ps_req_head c p r =
     (let r = scan_until (\<lambda>x. x = CR) (req_headers c) r
      in if past_end c r then Some (Wait (HTTP_PS_REQ_HEAD, c, p, r))
         else if r \<noteq> p then do {
           m \<leftarrow> poke (req_headers c) r NUL;
           colon \<leftarrow> strchr m p (CHR '':'');
           (case colon of
              None \<Rightarrow> bad_request (c\<lparr>req_headers := m\<rparr>)
            | Some s \<Rightarrow> do {
                m \<leftarrow> poke m s NUL;
                let q = scan_until (\<lambda>x. x \<noteq> SP \<and> x \<noteq> TAB) m (s + 1);
                _ \<leftarrow> peek m q;
                (rc, c) \<leftarrow> dispatch_header headers (c\<lparr>req_headers := m\<rparr>) p s q;
                if rc \<noteq> 0 then Some (Stop (Failed c))
                else Some (Cont (HTTP_PS_REQ_HEAD_LF, c, r + 1, r + 1)) }) }
         else Some (Cont (HTTP_PS_REQ_HEAD_LF, c, p, r + 1)))"

definition ps_req_head_lf :: "kitserv_client \<Rightarrow> nat \<Rightarrow> nat \<Rightarrow> parse_out ub" where
  "ps_req_head_lf c p r =
     (if past_end c r then Some (Wait (HTTP_PS_REQ_HEAD_LF, c, p, r))
      else do {
        x \<leftarrow> peek (req_headers c) r;
        if x \<noteq> LF then bad_request c
        else if r = p then Some (Cont (HTTP_PS_REQ_HEAD, c, r + 1, r + 1))
        else Some (Stop (Finished c (r + 1))) })"

fun parse_step :: "machine \<Rightarrow> parse_out ub" where
  "parse_step (HTTP_PS_NEW, c, p, r) = Some (Cont (HTTP_PS_REQ_METHOD, c, 0, 0))"
| "parse_step (HTTP_PS_REQ_METHOD, c, p, r) = ps_req_method c p r"
| "parse_step (HTTP_PS_REQ_PATH, c, p, r) = ps_req_path c p r"
| "parse_step (HTTP_PS_REQ_VERSION, c, p, r) = ps_req_version c p r"
| "parse_step (HTTP_PS_REQ_VERSION_LF, c, p, r) = ps_req_version_lf c p r"
| "parse_step (HTTP_PS_REQ_HEAD, c, p, r) = ps_req_head c p r"
| "parse_step (HTTP_PS_REQ_HEAD_LF, c, p, r) = ps_req_head_lf c p r"

end
