(* ===== verification/Http_Parse_Laws.thy ===== *)
theory Http_Parse_Laws
  imports Http_Parse
begin

text \<open>
  The laws of the request parser: it never reads or writes outside the received bytes, it
  makes progress, it leaves what it has consumed alone, and its steps do not depend on
  bytes that arrive later. They make it an instance of the incremental machine of
  \<^theory_text>\<open>Resumable\<close>.
\<close>

abbreviation grow_c :: "kitserv_client \<Rightarrow> string \<Rightarrow> kitserv_client" where
  "grow_c c d \<equiv> c\<lparr>req_headers := req_headers c @ d\<rparr>"

fun grow :: "machine \<Rightarrow> string \<Rightarrow> machine" where
  "grow (pc, c, p, r) d = (pc, grow_c c d, p, r)"

fun grow_res :: "parse_end \<Rightarrow> string \<Rightarrow> parse_end" where
  "grow_res (Failed c) d = Failed (grow_c c d)"
| "grow_res (Finished c p) d = Finished (grow_c c d) p"

fun grow_out :: "parse_out \<Rightarrow> string \<Rightarrow> parse_out" where
  "grow_out (Cont m) d = Cont (grow m d)"
| "grow_out (Wait m) d = Wait (grow m d)"
| "grow_out (Stop x) d = Stop (grow_res x d)"

fun wf_machine :: "machine \<Rightarrow> bool" where
  "wf_machine (pc, c, p, r) \<longleftrightarrow> pc = HTTP_PS_NEW \<or> (p \<le> r \<and> r \<le> length (req_headers c))"

fun mu_machine :: "machine \<Rightarrow> nat" where
  "mu_machine (pc, c, p, r) =
     (if pc = HTTP_PS_NEW then Suc (length (req_headers c)) else length (req_headers c) - r)"

text \<open>
  What a step that found its delimiter at or after \<open>r\<close> keeps: the length of the block, the
  bytes before \<open>p\<close>, and a position that moved forward and is still inside.
\<close>

definition advanced :: "kitserv_client \<Rightarrow> nat \<Rightarrow> nat \<Rightarrow> parse_out \<Rightarrow> bool" where
  "advanced c p r out \<longleftrightarrow> (case out of
     Wait _ \<Rightarrow> False
   | Cont (pc', c', p', r') \<Rightarrow> pc' \<noteq> HTTP_PS_NEW \<and>
       length (req_headers c') = length (req_headers c) \<and> take p (req_headers c') = take p (req_headers c) \<and>
       p \<le> p' \<and> p' \<le> r' \<and> r < r' \<and> r' \<le> length (req_headers c)
   | Stop (Failed c') \<Rightarrow> length (req_headers c') = length (req_headers c)
   | Stop (Finished c' p') \<Rightarrow> length (req_headers c') = length (req_headers c) \<and>
       take p (req_headers c') = take p (req_headers c) \<and> r < p' \<and> p' \<le> length (req_headers c))"

section \<open>The method\<close>

lemma method_at_append: "p + n < length m \<Longrightarrow> method_at (m @ bs) p n = method_at m p n"
  by (simp add: method_at_def bufscmp_def)

lemma method_at_total: "p + n < length m \<Longrightarrow> \<exists>k. method_at m p n = Some k"
  by (auto simp: method_at_def bufscmp_def)

lemma ps_req_method_wait:
  "past_end c (scan_until (\<lambda>x. x = SP) (req_headers c) r) \<Longrightarrow>
   ps_req_method c p r = Some (Wait (HTTP_PS_REQ_METHOD, c, p, scan_until (\<lambda>x. x = SP) (req_headers c) r))"
  by (simp add: ps_req_method_def)

lemma ps_req_method_go:
  assumes "p \<le> r" "\<not> past_end c (scan_until (\<lambda>x. x = SP) (req_headers c) r)"
  shows "\<exists>out. ps_req_method c p r = Some out \<and> ps_req_method (grow_c c d) p r = Some (grow_out out d) \<and>
    advanced c p r out"
proof -
  let ?r = "scan_until (\<lambda>x. x = SP) (req_headers c) r"
  from assms have r: "?r < length (req_headers c)" "r \<le> ?r"
    by (auto simp: past_end_def scan_until_ge)
  with assms method_at_total [of p "?r - p" "req_headers c"] obtain k where
    k: "method_at (req_headers c) p (?r - p) = Some k" by auto
  from r have s: "scan_until (\<lambda>x. x = SP) (req_headers c @ d) r = ?r" by (simp add: ext_simps)
  show ?thesis
    using r assms
    by (cases k) (simp_all add: ps_req_method_def past_end_def Let_def s k method_at_append
        advanced_def)
qed

section \<open>The path\<close>

lemma path_scan_append [ext_simps]:
  "path_scan m q r s = Some x \<Longrightarrow> path_scan (m @ bs) q r s = Some x"
proof (induction m q r s rule: path_scan.induct)
  case (1 m q r s)
  show ?case
  proof (cases "q < r")
    case True
    with "1.prems" have q: "q < length m"
      by (auto simp: path_scan.simps [of m q r s] bind_eq_Some_conv)
    with True "1.prems" "1.IH" [OF True, of "m ! q"] show ?thesis
      by (auto simp: path_scan.simps [of m q r s] path_scan.simps [of "m @ bs" q r s]
          peek_def nth_append)
  next
    case False
    with "1.prems" show ?thesis
      by (simp add: path_scan.simps [of m q r s] path_scan.simps [of "m @ bs" q r s])
  qed
qed

lemma path_scan_total: "r \<le> length m \<Longrightarrow> \<exists>x. path_scan m q r s = Some x"
proof (induction m q r s rule: path_scan.induct)
  case (1 m q r s)
  then show ?case
    by (cases "q < r") (auto simp: path_scan.simps [of m q r s] peek_def)
qed

lemma path_scan_query:
  "path_scan m q r s = Some (Query (Some k)) \<Longrightarrow> s = Some k \<or> (q \<le> k \<and> k < r)"
proof (induction m q r s rule: path_scan.induct)
  case (1 m q r s)
  show ?case
  proof (cases "q < r")
    case True
    with "1.prems" have "q < length m" "isprint (m ! q)" and
      "path_scan m (q + 1) r (if s = None \<and> m ! q = CHR ''?'' then Some q else s) = Some (Query (Some k))"
      by (auto simp: path_scan.simps [of m q r s] bind_eq_Some_conv split: if_splits)
    with "1.IH" [OF True, of "m ! q"] have
      "(if s = None \<and> m ! q = CHR ''?'' then Some q else s) = Some k \<or> (q + 1 \<le> k \<and> k < r)"
      by simp
    with True show ?thesis by (auto split: if_splits)
  next
    case False
    with "1.prems" show ?thesis by (simp add: path_scan.simps [of m q r s])
  qed
qed

text \<open>Decoding a string that a NUL inside the block ends: it succeeds and stays inside.\<close>

lemma url_decode_in:
  assumes "p \<le> i" "i < length m" "m ! i = NUL"
  shows "\<exists>m' s. cstr m p = Some s \<and> url_decode m p = Some m' \<and> length m' = length m \<and>
    take p m' = take p m \<and> cstr m' p = Some (takeWhile (\<lambda>x. x \<noteq> NUL) (url_decoded s)) \<and>
    cstr (take (Suc i) m') p = Some (takeWhile (\<lambda>x. x \<noteq> NUL) (url_decoded s)) \<and>
    p + length s \<le> i \<and> drop (Suc i) m' = drop (Suc i) m"
proof -
  from cstr_exists [OF assms] obtain s where s: "cstr m p = Some s" ..
  let ?w = "url_decoded s @ [NUL]"
  have l: "p + length s < length m" using cstr_length [OF s] .
  have pi: "p + length s \<le> i"
  proof (rule ccontr)
    assume "\<not> p + length s \<le> i"
    with assms have "s ! (i - p) = NUL" using cstr_nth [OF s, of "i - p"] by simp
    then show False using cstr_no_nul [OF s] \<open>\<not> p + length s \<le> i\<close> assms(1)
      by (metis le_add_diff_inverse nat_add_left_cancel_less not_le nth_mem)
  qed
  let ?m = "mem_write m p ?w"
  have w: "p + length ?w \<le> Suc i" using pi url_decoded_length [of s] by simp
  have tw: "takeWhile (\<lambda>x. x \<noteq> NUL) (?w @ rest) = takeWhile (\<lambda>x. x \<noteq> NUL) (url_decoded s)" for rest
    by (simp add: takeWhile_tail)
  have d: "drop p ?m = ?w @ drop (p + length ?w) m" using l by (simp add: mem_write_def)
  have t: "drop p (take (Suc i) ?m) = ?w @ take (Suc i - p - length ?w) (drop (p + length ?w) m)"
    using w by (simp only: drop_take d take_append) simp
  have "cstr ?m p = Some (takeWhile (\<lambda>x. x \<noteq> NUL) (url_decoded s))"
    unfolding cstr_def d tw by simp
  moreover have "cstr (take (Suc i) ?m) p = Some (takeWhile (\<lambda>x. x \<noteq> NUL) (url_decoded s))"
    unfolding cstr_def t tw by simp
  moreover have "length ?m = length m" using w assms(2) by (simp add: length_mem_write)
  moreover have "drop (Suc i) ?m = drop (Suc i) m" using w l by (intro drop_mem_write) auto
  moreover have "take p ?m = take p m" using l by simp
  ultimately show ?thesis using s pi by (auto simp: url_decode_eq)
qed

lemma ps_req_path_wait:
  "past_end c (scan_until (\<lambda>x. x = SP) (req_headers c) r) \<Longrightarrow>
   ps_req_path c p r = Some (Wait (HTTP_PS_REQ_PATH, c, p, scan_until (\<lambda>x. x = SP) (req_headers c) r))"
  by (simp add: ps_req_path_def)

text \<open>The rewriting of the block by the path label: the query, then the path, decoded in place.\<close>

definition path_rewrite :: "mem \<Rightarrow> nat \<Rightarrow> nat \<Rightarrow> nat option \<Rightarrow> nat option \<Rightarrow> (mem \<times> nat option) ub" where
  "path_rewrite m p r q s = do {
     m \<leftarrow> poke m r NUL;
     (m, query) \<leftarrow>
       (case s of
          None \<Rightarrow> Some (m, q)
        | Some s \<Rightarrow> do {
            m \<leftarrow> poke m s NUL;
            m \<leftarrow> url_decode m (s + 1);
            Some (m, Some (s + 1)) });
     m \<leftarrow> url_decode m p;
     Some (m, query) }"

lemma ps_req_path_alt:
  "ps_req_path c p r =
     (let r = scan_until (\<lambda>x. x = SP) (req_headers c) r
      in if past_end c r then Some (Wait (HTTP_PS_REQ_PATH, c, p, r))
         else do {
           found \<leftarrow> path_scan (req_headers c) p r None;
           (case found of
              Unprintable \<Rightarrow> bad_request c
            | Query s \<Rightarrow> do {
                (m, query) \<leftarrow> path_rewrite (req_headers c) p r (req_query (ta c)) s;
                path \<leftarrow> cstr m p;
                let c = c\<lparr>req_headers := m, ta := (ta c)\<lparr>req_query := query, req_path := Some p\<rparr>\<rparr>;
                if attempted_path_traversal path then bad_request c
                else Some (Cont (HTTP_PS_REQ_VERSION, c, r + 1, r + 1)) }) })"
  by (auto simp: ps_req_path_def path_rewrite_def Let_def split: option.splits path_found.splits
      intro!: Option.bind_cong)

lemma path_rewrite_append:
  "path_rewrite m p r q s = Some (m', q') \<Longrightarrow> path_rewrite (m @ bs) p r q s = Some (m' @ bs, q')"
  by (cases s) (auto simp: path_rewrite_def bind_eq_Some_conv list_update_append1 poke_def
      url_decode_append split: if_splits)

text \<open>The rewriting succeeds, and both strings end inside what has been consumed.\<close>

lemma path_rewrite_total:
  assumes "p \<le> r" "r < length m" "\<And>k. s = Some k \<Longrightarrow> p \<le> k \<and> k < r"
  shows "\<exists>m' q'. path_rewrite m p r q s = Some (m', q') \<and> length m' = length m \<and>
    take p m' = take p m \<and> q' = (case s of None \<Rightarrow> q | Some k \<Rightarrow> Some (k + 1)) \<and>
    (\<exists>path. cstr (take (Suc r) m') p = Some path) \<and>
    (\<forall>k. s = Some k \<longrightarrow> (\<exists>qs. cstr (take (Suc r) m') (k + 1) = Some qs))"
proof (cases s)
  case None
  let ?m = "m[r := NUL]"
  from assms url_decode_in [of p r ?m] obtain m' t where
    "url_decode ?m p = Some m'" "length m' = length m" "take p m' = take p ?m"
    "cstr (take (Suc r) m') p = Some t" by auto
  with assms None show ?thesis by (auto simp: path_rewrite_def poke_def)
next
  case (Some k)
  with assms have k: "p \<le> k" "k < r" by auto
  let ?m = "m[r := NUL, k := NUL]"
  from assms k url_decode_in [of "k + 1" r ?m] obtain m1 t where
    m1: "url_decode ?m (k + 1) = Some m1" "length m1 = length m" "take (k + 1) m1 = take (k + 1) ?m"
    "cstr (take (Suc r) m1) (k + 1) = Some t" by auto
  have "m1 ! k = take (k + 1) m1 ! k" by simp
  with m1 k assms have "m1 ! k = NUL" by simp
  with assms k m1 url_decode_in [of p k m1] obtain m2 u where
    m2: "url_decode m1 p = Some m2" "length m2 = length m" "take p m2 = take p m1"
    "cstr (take (Suc k) m2) p = Some u" "drop (Suc k) m2 = drop (Suc k) m1" by auto
  have "take p m1 = take p (take (k + 1) m1)" using k by (simp add: min_def)
  also have "\<dots> = take p m" using m1 k by (simp add: min_def)
  finally have "take p m2 = take p m" using m2 by simp
  moreover have "take (Suc r) m2 = take (Suc k) m2 @ drop (Suc k) (take (Suc r) m2)" using k
    by (metis append_take_drop_id take_take min.absorb1 Suc_le_mono less_imp_le)
  with m2(4) have "cstr (take (Suc r) m2) p = Some u" by (metis cstr_append)
  moreover have "drop (Suc k) (take (Suc r) m2) = drop (Suc k) (take (Suc r) m1)"
    using m2(5) by (simp add: drop_take)
  with m1(4) have "cstr (take (Suc r) m2) (k + 1) = Some t"
    by (simp add: cstr_def split: if_splits)
  ultimately show ?thesis using assms k m1 m2 Some by (auto simp: path_rewrite_def poke_def)
qed

lemma ps_req_path_go:
  assumes "p \<le> r" "\<not> past_end c (scan_until (\<lambda>x. x = SP) (req_headers c) r)"
  shows "\<exists>out. ps_req_path c p r = Some out \<and> ps_req_path (grow_c c d) p r = Some (grow_out out d) \<and>
    advanced c p r out"
proof -
  let ?m = "req_headers c"
  define r1 where "r1 = scan_until (\<lambda>x. x = SP) ?m r"
  from assms have r: "r1 < length ?m" "r \<le> r1" by (auto simp: past_end_def scan_until_ge r1_def)
  then have s: "scan_until (\<lambda>x. x = SP) (?m @ d) r = r1" by (simp add: ext_simps r1_def)
  from path_scan_total [of r1 ?m p None] r obtain f where f: "path_scan ?m p r1 None = Some f" by auto
  note unf = ps_req_path_alt Let_def past_end_def s r1_def [symmetric]
  show ?thesis
  proof (cases f)
    case Unprintable
    with r f path_scan_append [OF f] show ?thesis
      by (simp add: unf bad_request_def advanced_def)
  next
    case (Query q)
    with f path_scan_query [of ?m p r1 None] have "q = Some k \<Longrightarrow> p \<le> k \<and> k < r1" for k by auto
    with path_rewrite_total [of p r1 ?m q "req_query (ta c)"] assms r obtain m' q' path where
      m': "path_rewrite ?m p r1 (req_query (ta c)) q = Some (m', q')" "length m' = length ?m"
        "take p m' = take p ?m" "cstr (take (Suc r1) m') p = Some path" by auto
    from cstr_append [OF m'(4), of "drop (Suc r1) m'"] have pa: "cstr m' p = Some path" by simp
    from r assms f Query m' pa show ?thesis
      by (simp add: unf path_scan_append [OF f] path_rewrite_append [OF m'(1)] cstr_append [OF pa]
          bad_request_def advanced_def)
  qed
qed

section \<open>The version\<close>

lemma ps_req_version_wait:
  "past_end c (scan_until (\<lambda>x. x = CR) (req_headers c) r) \<Longrightarrow>
   ps_req_version c p r = Some (Wait (HTTP_PS_REQ_VERSION, c, p, scan_until (\<lambda>x. x = CR) (req_headers c) r))"
  by (simp add: ps_req_version_def)

lemma ps_req_version_go:
  assumes "p \<le> r" "\<not> past_end c (scan_until (\<lambda>x. x = CR) (req_headers c) r)"
  shows "\<exists>out. ps_req_version c p r = Some out \<and> ps_req_version (grow_c c d) p r = Some (grow_out out d) \<and>
    advanced c p r out"
proof -
  let ?m = "req_headers c"
  define r1 where "r1 = scan_until (\<lambda>x. x = CR) ?m r"
  from assms have r: "r1 < length ?m" "r \<le> r1" by (auto simp: past_end_def scan_until_ge r1_def)
  then have s: "scan_until (\<lambda>x. x = CR) (?m @ d) r = r1" by (simp add: ext_simps r1_def)
  from r assms show ?thesis
    by (auto simp: ps_req_version_def Let_def past_end_def s r1_def [symmetric] bad_request_def
        version_not_supported_def advanced_def bufscmp_def)
qed

lemma ps_req_version_lf_wait:
  "past_end c r \<Longrightarrow> ps_req_version_lf c p r = Some (Wait (HTTP_PS_REQ_VERSION_LF, c, p, r))"
  by (simp add: ps_req_version_lf_def)

lemma ps_req_version_lf_go:
  assumes "p \<le> r" "\<not> past_end c r"
  shows "\<exists>out. ps_req_version_lf c p r = Some out \<and>
    ps_req_version_lf (grow_c c d) p r = Some (grow_out out d) \<and> advanced c p r out"
  using assms
  by (auto simp: ps_req_version_lf_def past_end_def peek_def bad_request_def advanced_def nth_append)

section \<open>The headers\<close>

lemma dispatch_header_go:
  assumes n: "cstr (req_headers c) p = Some n" and v: "cstr (req_headers c) q = Some v"
  shows "\<exists>rc c'. dispatch_header headers c p s q = Some (rc, c') \<and> req_headers c' = req_headers c \<and>
    dispatch_header headers (grow_c c d) p s q = Some (rc, grow_c c' d)"
proof -
  have "\<forall>(nm, l, f) \<in> set headers. \<exists>rc c'. f c q = Some (rc, c') \<and>
      req_headers c' = req_headers c \<and> f (grow_c c d) q = Some (rc, grow_c c' d)"
    using v cstr_append [OF v, of d]
    by (auto simp: headers_def parse_header_cookie_def parse_header_range_def
        parse_header_if_modified_since_def parse_header_content_length_def Let_def
        parse_header_content_type_def parse_header_content_disposition_def split: prod.splits)
  moreover have "\<forall>(nm, l, f) \<in> set hs. \<exists>rc c'. f c q = Some (rc, c') \<and>
      req_headers c' = req_headers c \<and> f (grow_c c d) q = Some (rc, grow_c c' d) \<Longrightarrow>
    \<exists>rc c'. dispatch_header hs c p s q = Some (rc, c') \<and> req_headers c' = req_headers c \<and>
      dispatch_header hs (grow_c c d) p s q = Some (rc, grow_c c' d)" for hs
  proof (induction hs)
    case Nil
    then show ?case by simp
  next
    case (Cons h hs)
    obtain nm l f where h: "h = (nm, l, f)" by (cases h) auto
    show ?case
    proof (cases "s - p = l \<and> strcasecmp_eq n nm")
      case True
      with Cons.prems h n cstr_append [OF n, of d] show ?thesis by auto
    next
      case False
      with Cons.IH Cons.prems h n cstr_append [OF n, of d] show ?thesis by auto
    qed
  qed
  ultimately show ?thesis by blast
qed

lemma ps_req_head_wait:
  "past_end c (scan_until (\<lambda>x. x = CR) (req_headers c) r) \<Longrightarrow>
   ps_req_head c p r = Some (Wait (HTTP_PS_REQ_HEAD, c, p, scan_until (\<lambda>x. x = CR) (req_headers c) r))"
  by (simp add: ps_req_head_def)

text \<open>The split of a header line: where the name and the value end up.\<close>

lemma header_split:
  assumes "p < r" "r < length m"
  shows "\<exists>col. strchr (m[r := NUL]) p (CHR '':'') = Some col \<and>
    (\<forall>s. col = Some s \<longrightarrow> p \<le> s \<and> s < r \<and>
      (let m' = m[r := NUL, s := NUL]; q = scan_until (\<lambda>x. x \<noteq> SP \<and> x \<noteq> TAB) m' (s + 1)
       in s < q \<and> q \<le> r \<and> (\<exists>n. cstr (take (Suc r) m') p = Some n) \<and> (\<exists>v. cstr (take (Suc r) m') q = Some v)))"
proof -
  let ?m = "m[r := NUL]"
  from assms cstr_exists [of p r ?m] obtain t where t: "cstr ?m p = Some t" by auto
  then obtain col where col: "strchr ?m p (CHR '':'') = Some col" by (simp add: strchr_def Let_def)
  have "p \<le> s \<and> s < r \<and> (let m' = m[r := NUL, s := NUL]; q = scan_until (\<lambda>x. x \<noteq> SP \<and> x \<noteq> TAB) m' (s + 1)
       in s < q \<and> q \<le> r \<and> (\<exists>n. cstr (take (Suc r) m') p = Some n) \<and> (\<exists>v. cstr (take (Suc r) m') q = Some v))"
    if s: "strchr ?m p (CHR '':'') = Some (Some s)" for s
  proof -
    from strchr_some [OF s] have b: "p \<le> s" "?m ! s = CHR '':''" "s < length m" by auto
    have "s < p + length t" using s t by (auto simp: strchr_def Let_def split: if_splits)
    moreover have "p + length t \<le> r"
    proof (rule ccontr)
      assume "\<not> p + length t \<le> r"
      with assms have "t ! (r - p) = NUL" "r - p < length t"
        using cstr_nth [OF t, of "r - p"] by auto
      with cstr_no_nul [OF t] show False by (metis nth_mem)
    qed
    ultimately have sr: "s < r" by simp
    let ?m' = "m[r := NUL, s := NUL]"
    define q where "q = scan_until (\<lambda>x. x \<noteq> SP \<and> x \<noteq> TAB) ?m' (Suc s)"
    have nr: "?m' ! r = NUL" using sr assms by simp
    have "Suc s \<le> q" unfolding q_def by (rule scan_until_ge)
    then have "s < q" by simp
    have "q \<le> r"
    proof (rule ccontr)
      assume "\<not> q \<le> r"
      with sr have "\<not> (?m' ! r \<noteq> SP \<and> ?m' ! r \<noteq> TAB)"
        unfolding q_def by (intro scan_until_before [of "Suc s" r _ ?m']) auto
      with nr show False by simp
    qed
    note q = \<open>s < q\<close> \<open>q \<le> r\<close>
    have "take (Suc r) ?m' ! r = NUL" using nr by simp
    then have ex: "i \<le> r \<Longrightarrow> \<exists>n. cstr (take (Suc r) ?m') i = Some n" for i
      using assms by (intro cstr_exists [of i r]) auto
    from b sr q ex assms show ?thesis by (simp add: Let_def q_def [symmetric])
  qed
  with col show ?thesis by auto
qed

lemma ps_req_head_go:
  assumes "p \<le> r" "\<not> past_end c (scan_until (\<lambda>x. x = CR) (req_headers c) r)"
  shows "\<exists>out. ps_req_head c p r = Some out \<and> ps_req_head (grow_c c d) p r = Some (grow_out out d) \<and>
    advanced c p r out"
proof -
  let ?m = "req_headers c"
  define r1 where "r1 = scan_until (\<lambda>x. x = CR) ?m r"
  from assms have r: "r1 < length ?m" "r \<le> r1" by (auto simp: past_end_def scan_until_ge r1_def)
  then have s: "scan_until (\<lambda>x. x = CR) (?m @ d) r = r1" by (simp add: ext_simps r1_def)
  note unf = ps_req_head_def Let_def past_end_def s r1_def [symmetric]
  show ?thesis
  proof (cases "r1 = p")
    case True
    have "ps_req_head c p r = Some (Cont (HTTP_PS_REQ_HEAD_LF, c, p, r1 + 1))"
      "ps_req_head (grow_c c d) p r = Some (Cont (HTTP_PS_REQ_HEAD_LF, grow_c c d, p, r1 + 1))"
      using r True by (simp_all only: unf) (simp_all add: s True)
    with r assms True show ?thesis by (simp add: advanced_def)
  next
    case False
    with r assms have pr: "p < r1" by simp
    let ?m1 = "?m[r1 := NUL]"
    have m1: "(?m @ d)[r1 := NUL] = ?m1 @ d" using r by (simp add: list_update_append1)
    from header_split [OF pr r(1)] obtain col where col: "strchr ?m1 p (CHR '':'') = Some col" by blast
    show ?thesis
    proof (cases col)
      case None
      with r pr col strchr_append [OF col, of d] show ?thesis
        by (simp add: unf poke_def m1 bad_request_def advanced_def)
    next
      case (Some k)
      let ?m2 = "?m1[k := NUL]"
      define q where "q = scan_until (\<lambda>x. x \<noteq> SP \<and> x \<noteq> TAB) ?m2 (Suc k)"
      from header_split [OF pr r(1)] col Some obtain n v where k: "p \<le> k" "k < r1" "k < q" "q \<le> r1" and
        nv: "cstr (take (Suc r1) ?m2) p = Some n" "cstr (take (Suc r1) ?m2) q = Some v"
        by (auto simp: Let_def q_def)
      from cstr_append [OF nv(1), of "drop (Suc r1) ?m2"] cstr_append [OF nv(2), of "drop (Suc r1) ?m2"]
      have nv2: "cstr ?m2 p = Some n" "cstr ?m2 q = Some v" by auto
      have q': "scan_until (\<lambda>x. x \<noteq> SP \<and> x \<noteq> TAB) (?m2 @ d) (Suc k) = q"
        using k r scan_until_append [of "\<lambda>x. x \<noteq> SP \<and> x \<noteq> TAB" ?m2 "Suc k" d] unfolding q_def
        by simp
      from dispatch_header_go [of "c\<lparr>req_headers := ?m2\<rparr>" p n q v k d] nv2 obtain rc c' where
        c': "dispatch_header headers (c\<lparr>req_headers := ?m2\<rparr>) p k q = Some (rc, c')"
          "req_headers c' = ?m2"
          "dispatch_header headers (c\<lparr>req_headers := ?m2 @ d\<rparr>) p k q = Some (rc, grow_c c' d)" by auto
      from r pr k col Some strchr_append [OF col, of d] c' show ?thesis
        by (simp add: unf poke_def m1 list_update_append1 q' q_def [symmetric] peek_def nth_append
            advanced_def)
    qed
  qed
qed

lemma ps_req_head_lf_wait:
  "past_end c r \<Longrightarrow> ps_req_head_lf c p r = Some (Wait (HTTP_PS_REQ_HEAD_LF, c, p, r))"
  by (simp add: ps_req_head_lf_def)

lemma ps_req_head_lf_go:
  assumes "p \<le> r" "\<not> past_end c r"
  shows "\<exists>out. ps_req_head_lf c p r = Some out \<and>
    ps_req_head_lf (grow_c c d) p r = Some (grow_out out d) \<and> advanced c p r out"
  using assms
  by (auto simp: ps_req_head_lf_def past_end_def peek_def bad_request_def advanced_def nth_append)

end
