(* ===== verification/Http_Recv.thy ===== *)
theory Http_Recv
  imports Http_Parse_Laws
begin

text \<open>
  \<open>kitserv_http_recv_request\<close>: the loop over the labels of its \<^verbatim>\<open>switch\<close>, the read that
  fills the buffer, and the outer loop (\<^verbatim>\<open>goto read_more\<close>). Both loops are total: the
  parser moves its position forward in every step, and every round of the outer loop
  consumes an event of the socket or finds its position at the end of the input.
\<close>

section \<open>The parser loop\<close>

lemma url_decode_loop_length: "url_decode_loop m s r = Some m' \<Longrightarrow> length m' = length m"
proof (induction m s r rule: url_decode_loop.induct)
  case (1 m s r)
  from "1.prems" have s: "s < length m" by (auto simp: url_decode_loop.simps [of m s r] split: if_splits)
  show ?case
  proof (cases "m ! s = NUL")
    case True
    with "1.prems" s show ?thesis by (auto simp: url_decode_loop.simps [of m s r])
  next
    case False
    with "1.prems" s obtain h where h: "hex_at m s = Some h" and r: "r < length m"
      by (auto simp: url_decode_loop.simps [of m s r] split: option.splits if_splits)
    show ?thesis
    proof (cases h)
      case None
      with "1.IH"(1) [OF s False h None r] "1.prems" s False h r show ?thesis
        by (simp add: url_decode_loop.simps [of m s r])
    next
      case (Some x)
      with "1.IH"(2) [OF s False h Some r] "1.prems" s False h r show ?thesis
        by (simp add: url_decode_loop.simps [of m s r])
    qed
  qed
qed

lemma path_rewrite_length: "path_rewrite m p r q s = Some (m', q') \<Longrightarrow> length m' = length m"
  by (auto simp: path_rewrite_def url_decode_def bind_eq_Some_conv split: option.splits
      dest!: url_decode_loop_length)

lemma parse_header_content_length_cases:
  assumes "parse_header_content_length c v = Some (rc, c')"
  obtains n st where "c' = c\<lparr>ta := (ta c)\<lparr>req_content_len := n, resp_status := st\<rparr>\<rparr>"
    "rc = 0 \<longrightarrow> st = resp_status (ta c) \<and> 0 \<le> n"
proof (cases "cstr (req_headers c) v")
  case None
  with assms show thesis by (simp add: parse_header_content_length_def)
next
  case (Some s)
  obtain r n where "strtonum s = (r, n)" by (cases "strtonum s") auto
  with assms Some that [of HTTP_400_BAD_REQUEST n] that [of "resp_status (ta c)" n] show thesis
    by (auto simp: parse_header_content_length_def Let_def split: if_splits)
qed

lemma header_func_headers:
  "(nm, l, f) \<in> set headers \<Longrightarrow> f c q = Some (rc, c') \<Longrightarrow> req_headers c' = req_headers c"
  by (auto simp: headers_def parse_header_cookie_def parse_header_range_def
      parse_header_if_modified_since_def parse_header_content_type_def
      parse_header_content_disposition_def elim: parse_header_content_length_cases)

lemma dispatch_header_cases:
  "dispatch_header hs c p s q = Some (rc, c') \<Longrightarrow>
   (rc = 0 \<and> c' = c) \<or> (\<exists>(nm, l, f) \<in> set hs. f c q = Some (rc, c'))"
proof (induction hs)
  case (Cons h hs)
  then show ?case by (cases h) (auto simp: bind_eq_Some_conv split: if_splits)
qed simp

lemma dispatch_header_headers:
  "dispatch_header headers c p s q = Some (rc, c') \<Longrightarrow> req_headers c' = req_headers c"
  by (drule dispatch_header_cases) (auto dest: header_func_headers)

lemma ps_req_path_Cont:
  assumes "ps_req_path c p r = Some (Cont m')"
  obtains r1 q m1 q1 path where "r1 = scan_until (\<lambda>x. x = SP) (req_headers c) r" "r1 < length (req_headers c)"
    "path_scan (req_headers c) p r1 None = Some (Query q)"
    "path_rewrite (req_headers c) p r1 (req_query (ta c)) q = Some (m1, q1)" "cstr m1 p = Some path"
    "\<not> attempted_path_traversal path"
    "m' = (HTTP_PS_REQ_VERSION, c\<lparr>req_headers := m1, ta := (ta c)\<lparr>req_query := q1, req_path := Some p\<rparr>\<rparr>,
           r1 + 1, r1 + 1)"
proof -
  define r1 where "r1 = scan_until (\<lambda>x. x = SP) (req_headers c) r"
  from assms have e: "\<not> past_end c r1" by (auto simp: ps_req_path_def r1_def [symmetric] Let_def)
  with assms obtain f where f: "path_scan (req_headers c) p r1 None = Some f"
    by (auto simp: ps_req_path_def r1_def [symmetric] Let_def bind_eq_Some_conv)
  show thesis
  proof (cases f)
    case Unprintable
    with assms e f show thesis by (simp add: ps_req_path_def r1_def [symmetric] Let_def bad_request_def)
  next
    case (Query q)
    with assms e f that [OF r1_def, of q] show thesis
      by (auto simp: ps_req_path_alt r1_def [symmetric] Let_def bind_eq_Some_conv past_end_def
          bad_request_def split: if_splits)
  qed
qed

lemma ps_req_path_Wait:
  assumes "ps_req_path c p r = Some (Wait (pc, c', p', r'))"
  shows "past_end c' r'"
proof (cases "past_end c (scan_until (\<lambda>x. x = SP) (req_headers c) r)")
  case True
  with assms show ?thesis by (auto simp: ps_req_path_def)
next
  case False
  with assms obtain f where "path_scan (req_headers c) p (scan_until (\<lambda>x. x = SP) (req_headers c) r) None = Some f"
    by (auto simp: ps_req_path_def Let_def bind_eq_Some_conv)
  with assms False show ?thesis
    by (cases f) (auto simp: ps_req_path_alt Let_def bind_eq_Some_conv bad_request_def split: if_splits)
qed

text \<open>Every step that falls through leaves less input to parse.\<close>

lemma parse_step_measure: "parse_step (pc, c, p, r) = Some (Cont m') \<Longrightarrow> mu_machine m' < mu_machine (pc, c, p, r)"
proof (cases pc)
  case HTTP_PS_REQ_PATH
  assume "parse_step (pc, c, p, r) = Some (Cont m')"
  with HTTP_PS_REQ_PATH have "ps_req_path c p r = Some (Cont m')" by simp
  then show ?thesis
    using scan_until_ge [of r "\<lambda>x. x = SP" "req_headers c"] HTTP_PS_REQ_PATH
    by (elim ps_req_path_Cont) (auto dest!: path_rewrite_length)
qed (use scan_until_ge [of r "\<lambda>x. x = SP" "req_headers c"] scan_until_ge [of r "\<lambda>x. x = CR" "req_headers c"] in
    \<open>auto simp: ps_req_method_def ps_req_version_def
      ps_req_version_lf_def ps_req_head_def ps_req_head_lf_def Let_def past_end_def bind_eq_Some_conv
      bad_request_def version_not_supported_def split: if_splits option.splits
      dest!: dispatch_header_headers\<close>)

lemma parse_step_mu: "parse_step m = Some (Cont m') \<Longrightarrow> mu_machine m' < mu_machine m"
  by (cases m) (use parse_step_measure in blast)

function parse_loop :: "machine \<Rightarrow> parse_out ub" where
  "parse_loop m =
     (case parse_step m of
        None \<Rightarrow> None
      | Some (Cont m') \<Rightarrow> parse_loop m'
      | Some (Wait m') \<Rightarrow> Some (Wait m')
      | Some (Stop x) \<Rightarrow> Some (Stop x))"
  by pat_completeness auto
termination
  by (relation "measure mu_machine") (auto dest: parse_step_mu simp del: mu_machine.simps)

declare parse_loop.simps [simp del]

section \<open>The parser is an incremental machine\<close>

lemma go_uniform:
  "(\<And>d. \<exists>out. f = Some out \<and> g d = Some (grow_out out d) \<and> A out) \<Longrightarrow>
   \<exists>out. f = Some out \<and> A out \<and> (\<forall>d. g d = Some (grow_out out d))"
  by (metis option.inject)

text \<open>A label that scans sees only where the scan ends.\<close>

lemma scan_only:
  "scan_until (\<lambda>x. x = SP) (req_headers c) r = scan_until (\<lambda>x. x = SP) (req_headers c) r0 \<Longrightarrow>
   ps_req_method c p r = ps_req_method c p r0 \<and> ps_req_path c p r = ps_req_path c p r0"
  "scan_until (\<lambda>x. x = CR) (req_headers c) r = scan_until (\<lambda>x. x = CR) (req_headers c) r0 \<Longrightarrow>
   ps_req_version c p r = ps_req_version c p r0 \<and> ps_req_head c p r = ps_req_head c p r0"
  by (simp_all add: ps_req_method_def ps_req_path_def ps_req_version_def ps_req_head_def)

lemma parse_step_wait_or_go:
  assumes "p \<le> r" "r \<le> length (req_headers c)" "pc \<noteq> HTTP_PS_NEW"
  shows "(parse_step (pc, c, p, r) = Some (Wait (pc, c, p, length (req_headers c))) \<and>
      (\<forall>d. parse_step (pc, grow_c c d, p, r) = parse_step (pc, grow_c c d, p, length (req_headers c)))) \<or>
    (\<exists>out. parse_step (pc, c, p, r) = Some out \<and> advanced c p r out \<and>
      (\<forall>d. parse_step (pc, grow_c c d, p, r) = Some (grow_out out d)))"
    (is "?wait \<or> ?go")
proof -
  let ?eoi = "length (req_headers c)"
  have scan: "scan_until P (req_headers c) r = ?eoi"
      "scan_until P (req_headers c @ d) r = scan_until P (req_headers c @ d) ?eoi"
    if "past_end c (scan_until P (req_headers c) r)" for P d
    using scan_until_bound [OF assms(2), of P] scan_until_resume [OF assms(2), of P d] that
    by (simp_all add: past_end_def)
  have eoi: "past_end c r \<Longrightarrow> r = ?eoi" using assms(2) by (simp add: past_end_def)
  show ?thesis
  proof (cases pc)
    case HTTP_PS_NEW
    with assms show ?thesis by simp
  next
    case pc: HTTP_PS_REQ_METHOD
    show ?thesis
    proof (cases "past_end c (scan_until (\<lambda>x. x = SP) (req_headers c) r)")
      case True
      with scan [OF True] ps_req_method_wait [OF True] pc scan_only(1) [of "grow_c c _" r ?eoi p]
      show ?thesis by simp
    next
      case False
      with go_uniform [OF ps_req_method_go [OF assms(1) False]] pc show ?thesis by simp
    qed
  next
    case pc: HTTP_PS_REQ_PATH
    show ?thesis
    proof (cases "past_end c (scan_until (\<lambda>x. x = SP) (req_headers c) r)")
      case True
      with scan [OF True] ps_req_path_wait [OF True] pc scan_only(1) [of "grow_c c _" r ?eoi p]
      show ?thesis by simp
    next
      case False
      with go_uniform [OF ps_req_path_go [OF assms(1) False]] pc show ?thesis by simp
    qed
  next
    case pc: HTTP_PS_REQ_VERSION
    show ?thesis
    proof (cases "past_end c (scan_until (\<lambda>x. x = CR) (req_headers c) r)")
      case True
      with scan [OF True] ps_req_version_wait [OF True] pc scan_only(2) [of "grow_c c _" r ?eoi p]
      show ?thesis by simp
    next
      case False
      with go_uniform [OF ps_req_version_go [OF assms(1) False]] pc show ?thesis by simp
    qed
  next
    case pc: HTTP_PS_REQ_VERSION_LF
    with eoi go_uniform [OF ps_req_version_lf_go [OF assms(1)]] ps_req_version_lf_wait [of c r p]
    show ?thesis by (cases "past_end c r") simp_all
  next
    case pc: HTTP_PS_REQ_HEAD
    show ?thesis
    proof (cases "past_end c (scan_until (\<lambda>x. x = CR) (req_headers c) r)")
      case True
      with scan [OF True] ps_req_head_wait [OF True] pc scan_only(2) [of "grow_c c _" r ?eoi p]
      show ?thesis by simp
    next
      case False
      with go_uniform [OF ps_req_head_go [OF assms(1) False]] pc show ?thesis by simp
    qed
  next
    case pc: HTTP_PS_REQ_HEAD_LF
    with eoi go_uniform [OF ps_req_head_lf_go [OF assms(1)]] ps_req_head_lf_wait [of c r p]
    show ?thesis by (cases "past_end c r") simp_all
  qed
qed

lemma parse_step_cases:
  assumes "wf_machine m"
  obtains (new) c p r where "m = (HTTP_PS_NEW, c, p, r)"
      "\<And>d. parse_step (grow m d) = Some (Cont (HTTP_PS_REQ_METHOD, grow_c c d, 0, 0))"
      "parse_step m = Some (Cont (HTTP_PS_REQ_METHOD, c, 0, 0))"
    | (wait) pc c p r where "m = (pc, c, p, r)" "pc \<noteq> HTTP_PS_NEW" "p \<le> r" "r \<le> length (req_headers c)"
      "parse_step m = Some (Wait (pc, c, p, length (req_headers c)))"
      "\<And>d. parse_step (grow m d) = parse_step (grow (pc, c, p, length (req_headers c)) d)"
    | (go) pc c p r out where "m = (pc, c, p, r)" "pc \<noteq> HTTP_PS_NEW" "p \<le> r" "r \<le> length (req_headers c)"
      "parse_step m = Some out" "advanced c p r out" "\<And>d. parse_step (grow m d) = Some (grow_out out d)"
proof -
  obtain pc c p r where m: "m = (pc, c, p, r)" by (cases m) auto
  show thesis
  proof (cases "pc = HTTP_PS_NEW")
    case True
    with m new show thesis by simp
  next
    case False
    with assms m have "p \<le> r" "r \<le> length (req_headers c)" by auto
    with parse_step_wait_or_go [OF this False] m False wait go show thesis by auto
  qed
qed

interpretation http: resumable parse_step parse_loop grow grow_res wf_machine mu_machine
proof
  fix m m' :: machine and x :: parse_end and d e :: string
  show "wf_machine m \<Longrightarrow> parse_loop m = (case parse_step m of None \<Rightarrow> None
        | Some (Cont m') \<Rightarrow> parse_loop m' | Some (Wait m') \<Rightarrow> Some (Wait m') | Some (Stop x) \<Rightarrow> Some (Stop x))"
    by (rule parse_loop.simps)
  show "wf_machine m \<Longrightarrow> \<exists>out. parse_step m = Some out"
    by (erule parse_step_cases) auto
  show "wf_machine m \<Longrightarrow> parse_step m = Some (Cont m') \<Longrightarrow> wf_machine m' \<and> mu_machine m' < mu_machine m"
    using parse_step_mu [of m m'] by (cases m', elim parse_step_cases) (auto simp: advanced_def)
  show "wf_machine m \<Longrightarrow> parse_step m = Some (Cont m') \<Longrightarrow> parse_step (grow m d) = Some (Cont (grow m' d))"
    by (elim parse_step_cases) auto
  show "wf_machine m \<Longrightarrow> parse_step m = Some (Wait m') \<Longrightarrow> wf_machine m' \<and> parse_step m' = Some (Wait m')"
  proof (elim parse_step_cases)
    fix pc c p r
    assume a: "m = (pc, c, p, r)" "pc \<noteq> HTTP_PS_NEW" "p \<le> r" "r \<le> length (req_headers c)"
      "parse_step m = Some (Wait (pc, c, p, length (req_headers c)))"
      "\<And>d. parse_step (grow m d) = parse_step (grow (pc, c, p, length (req_headers c)) d)"
      "parse_step m = Some (Wait m')"
    from a(6) [of "[]"] a show "wf_machine m' \<and> parse_step m' = Some (Wait m')" by auto
  qed (auto simp: advanced_def)
  show "wf_machine m \<Longrightarrow> parse_step m = Some (Wait m') \<Longrightarrow> parse_step (grow m d) = parse_step (grow m' d)"
    by (elim parse_step_cases) (auto simp: advanced_def)
  show "wf_machine m \<Longrightarrow> parse_step m = Some (Stop x) \<Longrightarrow> parse_step (grow m d) = Some (Stop (grow_res x d))"
    by (elim parse_step_cases) auto
  show "wf_machine m \<Longrightarrow> wf_machine (grow m d)" by (cases m) auto
  show "grow m [] = m" by (cases m) simp
  show "grow (grow m d) e = grow m (d @ e)" by (cases m) simp
qed

section \<open>Reading\<close>

datatype fill = Give int kitserv_client | Go kitserv_client

text \<open>
  \<open>parse_past_end\<close> of a pointer that may still be NULL, in a client that has not been parsed
  yet. The C standard does not define the difference of NULL and the start of the buffer; on
  the flat addresses of the machines the server runs on it is negative, so that NULL is not
  past the end, and the code counts on this (cases 2 and 5 of its comment).
\<close>

definition ptr_past_end :: "kitserv_client \<Rightarrow> nat option \<Rightarrow> bool" where
  "ptr_past_end c r = (case r of None \<Rightarrow> False | Some i \<Rightarrow> past_end c i)"

text \<open>From \<^verbatim>\<open>read_more\<close> to the \<^verbatim>\<open>switch\<close>: the six cases of the source's comment.\<close>

definition recv_fill :: "kitserv_client \<Rightarrow> nat option \<Rightarrow> nat option \<Rightarrow> os \<Rightarrow> fill \<times> os" where
  "recv_fill c p r w =
     (case sock_read (HTTP_BUFSZ - length (req_headers c)) (os_in w) of
        (Inl e, evs) \<Rightarrow>
          (if e = EAGAIN then
             (if ptr_past_end c r
              then Give 0 (c\<lparr>ta := (ta c)\<lparr>req_parse_blk := p, req_parse_iter := r\<rparr>\<rparr>)
              else Go c)
           else Give (-1) (set_status HTTP_X_HANGUP c),
           w\<lparr>os_in := evs, os_errno := e\<rparr>)
      | (Inr [], evs) \<Rightarrow>
          (if length (req_headers c) \<ge> HTTP_BUFSZ then
             (if ptr_past_end c r
              then Give (-1) (set_status HTTP_431_REQUEST_HEADER_FIELDS_TOO_LARGE c)
              else Go c)
           else Give (-1) (set_status HTTP_X_HANGUP c),
           w\<lparr>os_in := evs\<rparr>)
      | (Inr bs, evs) \<Rightarrow> (Go (grow_c c bs), w\<lparr>os_in := evs\<rparr>))"

text \<open>The \<^verbatim>\<open>switch\<close> entered at the stored label.\<close>

definition parse_from :: "kitserv_client \<Rightarrow> nat option \<Rightarrow> nat option \<Rightarrow> parse_out ub" where
  "parse_from c p r =
     (if parse_state (ta c) = HTTP_PS_NEW then parse_loop (HTTP_PS_NEW, c, 0, 0)
      else case (p, r) of
             (Some p, Some r) \<Rightarrow> parse_loop (parse_state (ta c), c, p, r)
           | _ \<Rightarrow> None)"

text \<open>After the \<^verbatim>\<open>switch\<close>: the payload follows what has been parsed.\<close>

definition finish_request :: "kitserv_client \<Rightarrow> nat \<Rightarrow> kitserv_client" where
  "finish_request c p = c\<lparr>ta := (ta c)\<lparr>req_payload := p,
     req_payload_len := int (length (req_headers c)) - int p, state := HTTP_STATE_SERVE\<rparr>\<rparr>"

abbreviation set_parse_state :: "http_parse_state \<Rightarrow> kitserv_client \<Rightarrow> kitserv_client" where
  "set_parse_state pc c \<equiv> c\<lparr>ta := (ta c)\<lparr>parse_state := pc\<rparr>\<rparr>"

section \<open>The outer loop\<close>

fun ev_size :: "rd_event \<Rightarrow> nat" where
  "ev_size (Chunk bs) = Suc (length bs)"
| "ev_size Block = 1"
| "ev_size (Err e) = 1"

definition in_size :: "os \<Rightarrow> nat" where
  "in_size w = sum_list (map ev_size (os_in w))"

lemma sock_read_size:
  "sock_read n evs = (res, evs') \<Longrightarrow> sum_list (map ev_size evs') \<le> sum_list (map ev_size evs) \<and>
   (res \<noteq> Inr [] \<longrightarrow> sum_list (map ev_size evs') < sum_list (map ev_size evs))"
  by (induction n evs rule: sock_read.induct) (auto split: if_splits)

lemma recv_fill_Go:
  "recv_fill c p r w = (Go c', w') \<Longrightarrow> in_size w' < in_size w \<or> (in_size w' \<le> in_size w \<and> c' = c \<and> \<not> ptr_past_end c r)"
  by (auto simp: recv_fill_def in_size_def dest!: sock_read_size
      split: prod.splits sum.splits list.splits if_splits)

lemma recv_fill_size: "recv_fill c p r w = (f, w') \<Longrightarrow> in_size w' \<le> in_size w"
  by (auto simp: recv_fill_def in_size_def dest!: sock_read_size
      split: prod.splits sum.splits list.splits if_splits)

lemma parse_step_Wait: "parse_step m = Some (Wait (pc, c, p, r)) \<Longrightarrow> past_end c r"
  by (cases m rule: parse_step.cases)
     (auto simp: ps_req_method_def ps_req_version_def
      ps_req_version_lf_def ps_req_head_def ps_req_head_lf_def Let_def bind_eq_Some_conv
      bad_request_def version_not_supported_def split: if_splits option.splits dest: ps_req_path_Wait)

lemma parse_loop_Wait: "parse_loop m = Some (Wait (pc, c, p, r)) \<Longrightarrow> past_end c r"
proof (induction m rule: parse_loop.induct)
  case (1 m)
  then show ?case
    by (auto simp: parse_loop.simps [of m] split: option.splits outcome.splits dest: parse_step_Wait)
qed

lemma parse_from_Wait: "parse_from c p r = Some (Wait (pc, c', p', r')) \<Longrightarrow> past_end c' r'"
  by (auto simp: parse_from_def split: if_splits option.splits dest: parse_loop_Wait)

function recv_loop ::
    "kitserv_client \<Rightarrow> nat option \<Rightarrow> nat option \<Rightarrow> os \<Rightarrow> (int \<times> kitserv_client \<times> os) ub" where
  "recv_loop c p r w =
     (case recv_fill c p r w of
        (Give rc c', w') \<Rightarrow> Some (rc, c', w')
      | (Go c', w') \<Rightarrow>
          (case parse_from c' p r of
             None \<Rightarrow> None
           | Some (Cont m) \<Rightarrow> None
           | Some (Stop (Failed c'')) \<Rightarrow> Some (-1, c'', w')
           | Some (Stop (Finished c'' q)) \<Rightarrow> Some (0, finish_request c'' q, w')
           | Some (Wait (pc, c'', p', r')) \<Rightarrow>
               recv_loop (set_parse_state pc c'') (Some p') (Some r') w'))"
  by pat_completeness auto
termination
proof (relation "measures [\<lambda>(c, p, r, w). in_size w, \<lambda>(c, p, r, w). if ptr_past_end c r then 0 else 1]")
  fix c :: kitserv_client and p r w f w' c' out m pc x c'' y p' r'
  assume a: "(f, w') = recv_fill c p r w" "f = Go c'" "parse_from c' p r = Some out" "out = Wait m"
    "(pc, x) = m" "(c'', y) = x" "(p', r') = y"
  from a have "recv_fill c p r w = (Go c', w')" by simp
  note f = recv_fill_Go [OF this]
  from a parse_from_Wait [of c' p r pc c'' p' r'] have "past_end c'' r'" by auto
  then have "ptr_past_end (set_parse_state pc c'') (Some r')" by (simp add: ptr_past_end_def past_end_def)
  with f show "((set_parse_state pc c'', Some p', Some r', w'), (c, p, r, w)) \<in>
      measures [\<lambda>(c, p, r, w). in_size w, \<lambda>(c, p, r, w). if ptr_past_end c r then 0 else 1]"
    by auto
qed simp

declare recv_loop.simps [simp del]

definition kitserv_http_recv_request :: "kitserv_client \<Rightarrow> os \<Rightarrow> (int \<times> kitserv_client \<times> os) ub" where
  "kitserv_http_recv_request c w = recv_loop c (req_parse_blk (ta c)) (req_parse_iter (ta c)) w"

end
