(* ===== verification/Http_Recv_Safety.thy ===== *)
theory Http_Recv_Safety
  imports Http_Recv
begin

text \<open>
  What the request parser guarantees of a request it accepted: every string it points at
  ends inside the part of the buffer that has been consumed, the path has been checked,
  and the method is one of the five. The facts are invariants of the parser's steps,
  lifted to whole runs by the law of the incremental machine.
\<close>

text \<open>The strings a transaction points at.\<close>

definition request_ptrs :: "http_transaction \<Rightarrow> nat option list" where
  "request_ptrs t = [req_path t, req_query t, req_mimetype t, req_range t, req_disposition t,
     req_modified_since t, req_fresh_cookies t]"

definition strings_ok :: "kitserv_client \<Rightarrow> nat \<Rightarrow> bool" where
  "strings_ok c k \<longleftrightarrow>
     (\<forall>x. Some x \<in> set (request_ptrs (ta c)) \<longrightarrow> (\<exists>s. cstr (take k (req_headers c)) x = Some s))"

definition path_ok :: "kitserv_client \<Rightarrow> nat \<Rightarrow> bool" where
  "path_ok c k \<longleftrightarrow> (\<forall>x. req_path (ta c) = Some x \<longrightarrow>
     (\<exists>s. cstr (take k (req_headers c)) x = Some s \<and> \<not> attempted_path_traversal s))"

definition valid_method :: "http_method \<Rightarrow> bool" where
  "valid_method m \<longleftrightarrow> m = HTTP_GET \<or> m = HTTP_PUT \<or> m = HTTP_HEAD \<or> m = HTTP_POST \<or> m = HTTP_DELETE"

definition past_path :: "http_parse_state \<Rightarrow> bool" where
  "past_path pc \<longleftrightarrow> pc \<notin> {HTTP_PS_NEW, HTTP_PS_REQ_METHOD, HTTP_PS_REQ_PATH}"

text \<open>
  How far behind the consumed part the path ends: the version and the line ends follow it.
  Once the version has been read, its slash is behind the path.
\<close>

definition version_at :: "mem \<Rightarrow> nat \<Rightarrow> nat \<Rightarrow> nat \<Rightarrow> bool" where
  "version_at m e k y \<longleftrightarrow> e < y \<and> y + 1 < k \<and> y + 1 < length m \<and> m ! y = CHR ''/'' \<and> m ! (y + 1) = CHR ''1''"

definition path_room :: "kitserv_client \<Rightarrow> nat \<Rightarrow> nat \<Rightarrow> bool" where
  "path_room c k n \<longleftrightarrow> (\<exists>x s. req_path (ta c) = Some x \<and> cstr (take k (req_headers c)) x = Some s \<and> x + length s + n \<le> k \<and>
     (10 \<le> n \<longrightarrow> (\<exists>y. version_at (req_headers c) (x + length s) k y)))"

fun slack :: "http_parse_state \<Rightarrow> nat" where
  "slack HTTP_PS_REQ_VERSION = 1"
| "slack HTTP_PS_REQ_VERSION_LF = 10"
| "slack HTTP_PS_REQ_HEAD = 11"
| "slack HTTP_PS_REQ_HEAD_LF = 11"
| "slack _ = 0"

definition fields_ok :: "http_parse_state \<Rightarrow> kitserv_client \<Rightarrow> nat \<Rightarrow> bool" where
  "fields_ok pc c k \<longleftrightarrow> strings_ok c k \<and> path_ok c k \<and>
     (range_requested (ta c) \<longrightarrow> req_range (ta c) \<noteq> None) \<and>
     (past_path pc \<longrightarrow> req_path (ta c) \<noteq> None \<and> path_room c k (slack pc)) \<and>
     (pc \<notin> {HTTP_PS_NEW, HTTP_PS_REQ_METHOD} \<longrightarrow> valid_method (req_method (ta c)))"

fun machine_ok :: "machine \<Rightarrow> bool" where
  "machine_ok (pc, c, p, r) \<longleftrightarrow> fields_ok pc c (if pc = HTTP_PS_NEW then 0 else p)"

text \<open>The path, once it is known, is a string: what a log line prints.\<close>

definition path_seen :: "kitserv_client \<Rightarrow> bool" where
  "path_seen c \<longleftrightarrow> (\<forall>x. req_path (ta c) = Some x \<longrightarrow> (\<exists>s. cstr (req_headers c) x = Some s))"

lemma path_seen_kept:
  assumes "strings_ok c k" "take k (req_headers c') = take k (req_headers c)" "req_path (ta c') = req_path (ta c)"
  shows "path_seen c'"
  unfolding path_seen_def
proof (intro allI impI)
  fix x assume "req_path (ta c') = Some x"
  then have "Some x \<in> set (request_ptrs (ta c))" using assms(3) by (simp add: request_ptrs_def)
  with assms(1) obtain s where "cstr (take k (req_headers c')) x = Some s"
    unfolding strings_ok_def assms(2) by blast
  from cstr_append [OF this, of "drop k (req_headers c')"] show "\<exists>s. cstr (req_headers c') x = Some s" by simp
qed

fun end_ok :: "parse_end \<Rightarrow> bool" where
  "end_ok (Failed c) \<longleftrightarrow> resp_status (ta c) \<in>
     {HTTP_400_BAD_REQUEST, HTTP_501_NOT_IMPLEMENTED, HTTP_505_VERSION_NOT_SUPPORTED} \<and> path_seen c"
| "end_ok (Finished c p) \<longleftrightarrow> fields_ok HTTP_PS_REQ_HEAD_LF c p \<and> path_room c p 13 \<and>
     p \<le> length (req_headers c)"

lemma strings_ok_mono:
  "strings_ok c k \<Longrightarrow> k \<le> k' \<Longrightarrow> take k (req_headers c') = take k (req_headers c) \<Longrightarrow>
   set (request_ptrs (ta c')) \<subseteq> set (request_ptrs (ta c)) \<Longrightarrow> strings_ok c' k'"
  unfolding strings_ok_def by (meson cstr_take_mono subsetD)

lemma path_ok_mono:
  "path_ok c k \<Longrightarrow> k \<le> k' \<Longrightarrow> take k (req_headers c') = take k (req_headers c) \<Longrightarrow>
   req_path (ta c') = req_path (ta c) \<Longrightarrow> path_ok c' k'"
  unfolding path_ok_def by (metis cstr_take_mono)

lemma version_at_mono:
  assumes "version_at m e k y" "k \<le> k'" "take k m' = take k m"
  shows "version_at m' e k' y"
proof -
  have l: "min (length m') k = min (length m) k" using arg_cong [OF assms(3), of length] by simp
  have "m' ! i = m ! i" if "i < k" for i using arg_cong [OF assms(3), of "\<lambda>xs. xs ! i"] that by simp
  with assms(1,2) l show ?thesis by (auto simp: version_at_def)
qed

lemma path_room_mono:
  "path_room c k n \<Longrightarrow> k \<le> k' \<Longrightarrow> n' + k \<le> n + k' \<Longrightarrow> (10 \<le> n' \<longrightarrow> 10 \<le> n) \<Longrightarrow> take k (req_headers c') = take k (req_headers c) \<Longrightarrow>
   req_path (ta c') = req_path (ta c) \<Longrightarrow> path_room c' k' n'"
proof -
  assume r: "path_room c k n" and k: "k \<le> k'" "n' + k \<le> n + k'" "10 \<le> n' \<longrightarrow> 10 \<le> n"
    and t: "take k (req_headers c') = take k (req_headers c)" and p: "req_path (ta c') = req_path (ta c)"
  from r obtain x s where x: "req_path (ta c) = Some x" "cstr (take k (req_headers c)) x = Some s"
    "x + length s + n \<le> k" "10 \<le> n \<longrightarrow> (\<exists>y. version_at (req_headers c) (x + length s) k y)" by (auto simp: path_room_def)
  from cstr_take_mono [OF x(2) k(1) t] have "cstr (take k' (req_headers c')) x = Some s" .
  moreover have "10 \<le> n' \<longrightarrow> (\<exists>y. version_at (req_headers c') (x + length s) k' y)"
    using x(4) k(3) version_at_mono [OF _ k(1) t] by blast
  ultimately show ?thesis using x k p unfolding path_room_def by (intro exI [of _ x] exI [of _ s]) simp
qed

text \<open>A step that leaves the request's fields alone keeps them.\<close>

definition same_request :: "kitserv_client \<Rightarrow> kitserv_client \<Rightarrow> bool" where
  "same_request c c' \<longleftrightarrow> request_ptrs (ta c') = request_ptrs (ta c) \<and>
     range_requested (ta c') = range_requested (ta c) \<and> req_method (ta c') = req_method (ta c)"

lemma fields_ok_same:
  "fields_ok pc c k \<Longrightarrow> same_request c c' \<Longrightarrow> k \<le> k' \<Longrightarrow>
   take k (req_headers c') = take k (req_headers c) \<Longrightarrow>
   (past_path pc' \<longrightarrow> past_path pc \<and> slack pc' + k \<le> slack pc + k' \<and> (10 \<le> slack pc' \<longrightarrow> 10 \<le> slack pc)) \<Longrightarrow> (pc \<in> {HTTP_PS_NEW, HTTP_PS_REQ_METHOD} \<longrightarrow>
     pc' \<in> {HTTP_PS_NEW, HTTP_PS_REQ_METHOD}) \<Longrightarrow> fields_ok pc' c' k'"
  unfolding fields_ok_def
  using strings_ok_mono [of c k k' c'] path_ok_mono [of c k k' c'] path_room_mono [of c k "slack pc" k' "slack pc'" c']
  by (auto simp: same_request_def request_ptrs_def)

lemma method_at_valid: "method_at m p n = Some (Some k) \<Longrightarrow> valid_method k"
  by (auto simp: method_at_def valid_method_def bind_eq_Some_conv split: if_splits)

text \<open>A header that is stored adds one string, the value just delimited.\<close>

lemma dispatch_header_fields:
  assumes d: "dispatch_header headers c p s q = Some (0, c')"
    and ok: "fields_ok pc c k" and v: "cstr (take k (req_headers c)) q = Some v"
    and pc: "past_path pc"
  shows "fields_ok pc c' k"
proof -
  have *: "fields_ok pc c'' k" if
    "req_headers c'' = req_headers c" "req_path (ta c'') = req_path (ta c)"
    "req_method (ta c'') = req_method (ta c)"
    "set (request_ptrs (ta c'')) \<subseteq> insert (Some q) (set (request_ptrs (ta c)))"
    "range_requested (ta c'') \<longrightarrow> req_range (ta c'') \<noteq> None" for c''
    using ok v pc that unfolding fields_ok_def strings_ok_def path_ok_def path_room_def by auto
  from dispatch_header_cases [OF d] show ?thesis
  proof
    assume "0 = 0 \<and> c' = c"
    with ok show ?thesis by simp
  next
    have rr: "range_requested (ta c) \<longrightarrow> req_range (ta c) \<noteq> None" using ok by (simp add: fields_ok_def)
    assume "\<exists>(nm, l, f) \<in> set headers. f c q = Some (0, c')"
    then show ?thesis using rr
      by (auto simp: headers_def parse_header_cookie_def parse_header_range_def
          parse_header_if_modified_since_def parse_header_content_type_def
          parse_header_content_disposition_def elim!: parse_header_content_length_cases
          intro!: * simp: request_ptrs_def)
  qed
qed

lemma ps_req_path_ok:
  assumes ok: "fields_ok HTTP_PS_REQ_PATH c p" and pr: "p \<le> r"
    and st: "ps_req_path c p r = Some (Cont m')"
  shows "machine_ok m'"
  using st
proof (rule ps_req_path_Cont)
  fix r1 q m1 q1 path
  assume r1: "r1 = scan_until (\<lambda>x. x = SP) (req_headers c) r" "r1 < length (req_headers c)"
    and ps: "path_scan (req_headers c) p r1 None = Some (Query q)"
    and pw: "path_rewrite (req_headers c) p r1 (req_query (ta c)) q = Some (m1, q1)"
    and pa: "cstr m1 p = Some path" and tr: "\<not> attempted_path_traversal path"
    and m': "m' = (HTTP_PS_REQ_VERSION, c\<lparr>req_headers := m1,
      ta := (ta c)\<lparr>req_query := q1, req_path := Some p\<rparr>\<rparr>, r1 + 1, r1 + 1)"
  have r: "r \<le> r1" by (simp add: r1 scan_until_ge)
  from ps path_scan_query [of _ _ _ None] have "q = Some k \<Longrightarrow> p \<le> k \<and> k < r1" for k by fastforce
  with path_rewrite_total [of p r1 "req_headers c" q "req_query (ta c)"] r pr r1(2) pw obtain path' where
    t: "take p m1 = take p (req_headers c)" "q1 = (case q of None \<Rightarrow> req_query (ta c) | Some k \<Rightarrow> Some (k + 1))"
      "cstr (take (Suc r1) m1) p = Some path'" "\<forall>k. q = Some k \<longrightarrow> (\<exists>qs. cstr (take (Suc r1) m1) (k + 1) = Some qs)"
    by auto
  from cstr_append [OF t(3), of "drop (Suc r1) m1"] pa have "path' = path" by simp
  have old: "\<exists>s. cstr (take (Suc r1) m1) x = Some s" if "Some x \<in> set (request_ptrs (ta c))" for x
    using that ok cstr_take_mono [of p "req_headers c" x _ "Suc r1" m1] t(1) pr r
    by (fastforce simp: fields_ok_def strings_ok_def)
  have "p + length path < Suc r1" using cstr_length [OF t(3)] \<open>path' = path\<close> by simp
  with old ok t tr \<open>path' = path\<close> show ?thesis
    by (auto simp: m' fields_ok_def strings_ok_def path_ok_def request_ptrs_def past_path_def
        path_room_def split: option.splits)
qed

lemma ps_req_head_ok:
  assumes ok: "fields_ok HTTP_PS_REQ_HEAD c p" and pr: "p \<le> r"
    and st: "ps_req_head c p r = Some (Cont m')"
  shows "machine_ok m'"
proof -
  define r1 where "r1 = scan_until (\<lambda>x. x = CR) (req_headers c) r"
  have r: "r \<le> r1" by (simp add: r1_def scan_until_ge)
  from st have e: "r1 < length (req_headers c)"
    by (auto simp: ps_req_head_def r1_def [symmetric] Let_def past_end_def split: if_splits)
  note unf = ps_req_head_def r1_def [symmetric] Let_def past_end_def
  show ?thesis
  proof (cases "r1 = p")
    case True
    with st e have "m' = (HTTP_PS_REQ_HEAD_LF, c, p, p + 1)" by (simp add: unf)
    with ok show ?thesis by (simp add: fields_ok_def past_path_def)
  next
    case False
    with r pr have p1: "p < r1" by simp
    let ?m1 = "(req_headers c)[r1 := NUL]"
    from header_split [OF p1 e] obtain col where col: "strchr ?m1 p (CHR '':'') = Some col" by blast
    with st e False obtain k where k: "col = Some k" by (cases col) (auto simp: unf poke_def bad_request_def)
    let ?m2 = "?m1[k := NUL]"
    define q where "q = scan_until (\<lambda>x. x \<noteq> SP \<and> x \<noteq> TAB) ?m2 (Suc k)"
    from header_split [OF p1 e] col k obtain v where b: "p \<le> k" "k < r1" "q \<le> r1" and
      v: "cstr (take (Suc r1) ?m2) q = Some v" by (auto simp: Let_def q_def)
    from st e False col k b obtain c' where
      d: "dispatch_header headers (c\<lparr>req_headers := ?m2\<rparr>) p k q = Some (0, c')" and
      m': "m' = (HTTP_PS_REQ_HEAD_LF, c', r1 + 1, r1 + 1)"
      by (auto simp: unf poke_def q_def [symmetric] bind_eq_Some_conv split: if_splits)
    have "fields_ok HTTP_PS_REQ_HEAD (c\<lparr>req_headers := ?m2\<rparr>) (Suc r1)"
      using ok b p1 by (intro fields_ok_same [OF ok]) (auto simp: same_request_def)
    from dispatch_header_fields [OF d this] v have "fields_ok HTTP_PS_REQ_HEAD c' (Suc r1)"
      by (simp add: past_path_def)
    then show ?thesis by (simp add: m' fields_ok_def past_path_def)
  qed
qed

text \<open>The version brings its slash behind the path.\<close>

lemma bufscmp_nth: "bufscmp m p t = Some True \<Longrightarrow> i < length t \<Longrightarrow> p + length t \<le> length m \<and> m ! (p + i) = t ! i"
  by (auto simp: bufscmp_def split: if_splits dest!: arg_cong [where f = "\<lambda>s. s ! i"])

lemma ps_req_version_ok:
  assumes ok: "fields_ok HTTP_PS_REQ_VERSION c p" and pr: "p \<le> r"
    and st: "ps_req_version c p r = Some (Cont m')"
  shows "machine_ok m'"
proof -
  let ?r = "scan_until (\<lambda>x. x = CR) (req_headers c) r"
  from st obtain v t where h: "bufscmp (req_headers c) p ''HTTP/'' = Some True" "5 \<le> ?r - p" "?r - (p + 5) = 3"
    "bufscmp (req_headers c) (p + 5) t = Some True" "t = ''1.1'' \<or> t = ''1.0''"
    and m': "m' = (HTTP_PS_REQ_VERSION_LF, c\<lparr>ta := (ta c)\<lparr>req_version := v\<rparr>\<rparr>, ?r + 1, ?r + 1)"
    by (fastforce simp: ps_req_version_def Let_def bind_eq_Some_conv bad_request_def version_not_supported_def split: if_splits)
  have k: "?r + 1 = p + 9" using h(2,3) by linarith
  let ?c = "c\<lparr>ta := (ta c)\<lparr>req_version := v\<rparr>\<rparr>"
  from ok obtain x s where x: "req_path (ta c) = Some x" "cstr (take p (req_headers c)) x = Some s" "x + length s + 1 \<le> p"
    by (auto simp: fields_ok_def past_path_def path_room_def)
  have "version_at (req_headers c) (x + length s) (p + 9) (p + 4)"
  proof -
    have "req_headers c ! (p + 4) = CHR ''/''" using bufscmp_nth [OF h(1), of 4] by simp
    moreover have "req_headers c ! (p + 5) = CHR ''1''" "p + 8 \<le> length (req_headers c)"
      using bufscmp_nth [OF h(4), of 0] h(5) by auto
    moreover have "p + 4 + 1 = p + 5" by simp
    ultimately show ?thesis using x(3) by (simp add: version_at_def ac_simps)
  qed
  moreover have "cstr (take (p + 9) (req_headers c)) x = Some s" by (rule cstr_take_mono [OF x(2)]) simp_all
  ultimately have "path_room ?c (p + 9) 10" using x(1,3) by (auto simp: path_room_def)
  moreover have "strings_ok ?c (p + 9)" "path_ok ?c (p + 9)"
    using ok by (simp_all add: fields_ok_def strings_ok_mono [of c p] path_ok_mono [of c p] request_ptrs_def)
  ultimately show ?thesis using ok unfolding m' k by (simp add: fields_ok_def past_path_def)
qed

lemma parse_step_ok_cont:
  assumes "wf_machine m" "machine_ok m" "parse_step m = Some (Cont m')"
  shows "machine_ok m'"
proof -
  obtain pc c p r where m: "m = (pc, c, p, r)" by (cases m) auto
  have pr: "pc \<noteq> HTTP_PS_NEW \<Longrightarrow> p \<le> r" using assms(1) m by simp
  have scan: "pc \<noteq> HTTP_PS_NEW \<Longrightarrow> p \<le> scan_until P (req_headers c) r + 1" for P
    using pr scan_until_ge [of r P "req_headers c"] by linarith
  have step: "fields_ok pc' c' p'" if "fields_ok pc c p" "same_request c c'" "req_headers c' = req_headers c"
    "p \<le> p'" "past_path pc' \<longrightarrow> past_path pc \<and> slack pc' + p \<le> slack pc + p' \<and> (10 \<le> slack pc' \<longrightarrow> 10 \<le> slack pc)"
    "pc \<in> {HTTP_PS_NEW, HTTP_PS_REQ_METHOD} \<longrightarrow> pc' \<in> {HTTP_PS_NEW, HTTP_PS_REQ_METHOD}" for pc' c' p'
    using that by (intro fields_ok_same [of pc c p c' p' pc']) auto
  show ?thesis
  proof (cases pc)
    case HTTP_PS_NEW
    with assms m show ?thesis by (auto simp: fields_ok_def past_path_def)
  next
    case HTTP_PS_REQ_METHOD
    let ?r = "scan_until (\<lambda>x. x = SP) (req_headers c) r"
    from assms m HTTP_PS_REQ_METHOD obtain k where k: "method_at (req_headers c) p (?r - p) = Some (Some k)"
      and m': "m' = (HTTP_PS_REQ_PATH, c\<lparr>ta := (ta c)\<lparr>req_method := k\<rparr>\<rparr>, ?r + 1, ?r + 1)"
      by (auto simp: ps_req_method_def Let_def bind_eq_Some_conv split: if_splits option.splits)
    have le: "p \<le> ?r + 1" by (rule scan) (simp add: HTTP_PS_REQ_METHOD)
    from assms(2) m HTTP_PS_REQ_METHOD have ok: "fields_ok pc c p" by simp
    have "strings_ok (c\<lparr>ta := (ta c)\<lparr>req_method := k\<rparr>\<rparr>) (?r + 1)"
      using ok le by (simp add: fields_ok_def strings_ok_mono [of c p] request_ptrs_def)
    moreover have "path_ok (c\<lparr>ta := (ta c)\<lparr>req_method := k\<rparr>\<rparr>) (?r + 1)"
      using ok le by (simp add: fields_ok_def path_ok_mono [of c p])
    ultimately show ?thesis using ok method_at_valid [OF k]
      by (simp add: m' fields_ok_def past_path_def)
  next
    case HTTP_PS_REQ_PATH
    with assms m show ?thesis by (auto intro: ps_req_path_ok)
  next
    case HTTP_PS_REQ_VERSION
    with assms m show ?thesis by (auto intro: ps_req_version_ok)
  next
    case HTTP_PS_REQ_VERSION_LF
    with assms m show ?thesis
      by (auto simp: ps_req_version_lf_def bind_eq_Some_conv bad_request_def past_path_def
          split: if_splits intro!: step simp: same_request_def)
  next
    case HTTP_PS_REQ_HEAD
    with assms m show ?thesis by (auto intro: ps_req_head_ok)
  next
    case HTTP_PS_REQ_HEAD_LF
    with assms m show ?thesis
      by (auto simp: ps_req_head_lf_def bind_eq_Some_conv bad_request_def past_path_def
          split: if_splits intro!: step simp: same_request_def)
  qed
qed

lemma parse_step_ok_wait:
  assumes "wf_machine m" "machine_ok m" "parse_step m = Some (Wait m')"
  shows "machine_ok m'"
  using assms(1)
proof (cases rule: parse_step_cases)
  case (wait pc c p r)
  with assms show ?thesis by auto
qed (use assms in \<open>auto simp: advanced_def\<close>)

lemma header_func_fails:
  "(nm, l, f) \<in> set headers \<Longrightarrow> f c q = Some (rc, c') \<Longrightarrow> rc \<noteq> 0 \<Longrightarrow>
   resp_status (ta c') = HTTP_400_BAD_REQUEST \<and> req_path (ta c') = req_path (ta c)"
  by (auto simp: headers_def parse_header_cookie_def parse_header_range_def
      parse_header_if_modified_since_def parse_header_content_type_def Let_def
      parse_header_content_disposition_def parse_header_content_length_def bind_eq_Some_conv
      case_prod_beta split: if_splits)

lemma dispatch_header_fails:
  assumes "dispatch_header headers c p s q = Some (rc, c')" "rc \<noteq> 0"
  shows "resp_status (ta c') = HTTP_400_BAD_REQUEST \<and> req_path (ta c') = req_path (ta c) \<and> req_headers c' = req_headers c"
proof -
  from dispatch_header_cases [OF assms(1)] assms(2) obtain nm l f where
    "(nm, l, f) \<in> set headers" "f c q = Some (rc, c')" by blast
  then show ?thesis using assms(2) header_func_fails dispatch_header_headers [OF assms(1)] by blast
qed

lemma ps_req_path_Stop:
  assumes "ps_req_path c p r = Some (Stop x)" "strings_ok c p"
  shows "\<exists>c'. x = Failed c' \<and> resp_status (ta c') = HTTP_400_BAD_REQUEST \<and> path_seen c'"
proof -
  define r1 where "r1 = scan_until (\<lambda>x. x = SP) (req_headers c) r"
  from assms(1) have e: "\<not> past_end c r1" by (auto simp: ps_req_path_def r1_def [symmetric] Let_def)
  with assms(1) obtain f where f: "path_scan (req_headers c) p r1 None = Some f"
    by (auto simp: ps_req_path_def r1_def [symmetric] Let_def bind_eq_Some_conv)
  have "path_seen (set_status HTTP_400_BAD_REQUEST c)" by (rule path_seen_kept [OF assms(2)]) simp_all
  with assms(1) e f show ?thesis
    by (cases f) (auto simp: ps_req_path_alt r1_def [symmetric] Let_def bad_request_def bind_eq_Some_conv path_seen_def
        split: if_splits)
qed

text \<open>A header line that is rejected: its bytes have been cut up, those before it have not.\<close>

lemma ps_req_head_Stop:
  assumes "ps_req_head c p r = Some (Stop x)" "strings_ok c p" "p \<le> r"
  shows "\<exists>c'. x = Failed c' \<and> resp_status (ta c') = HTTP_400_BAD_REQUEST \<and> path_seen c'"
proof -
  define r1 where "r1 = scan_until (\<lambda>x. x = CR) (req_headers c) r"
  have pr: "p \<le> r1" using assms(3) scan_until_ge [of r "\<lambda>x. x = CR" "req_headers c"] by (simp add: r1_def)
  note st = assms(1) [unfolded ps_req_head_def r1_def [symmetric] Let_def]
  have e: "\<not> past_end c r1" "r1 \<noteq> p" using st by (auto split: if_splits)
  let ?m = "(req_headers c)[r1 := NUL]"
  from st e obtain colon where colon: "strchr ?m p (CHR '':'') = Some colon" and r1: "r1 < length (req_headers c)"
    by (auto simp: bind_eq_Some_conv poke_def split: if_splits)
  show ?thesis
  proof (cases colon)
    case None
    have "path_seen (c\<lparr>req_headers := ?m, ta := (ta c)\<lparr>resp_status := HTTP_400_BAD_REQUEST\<rparr>\<rparr>)"
      by (rule path_seen_kept [OF assms(2)]) (use pr in simp_all)
    with st e colon None r1 show ?thesis by (auto simp: poke_def bad_request_def)
  next
    case (Some k)
    then have k: "p \<le> k" using colon by (auto simp: strchr_def Let_def bind_eq_Some_conv split: option.splits if_splits)
    with st e colon Some r1 obtain q rc c1 where d: "dispatch_header headers (c\<lparr>req_headers := ?m[k := NUL]\<rparr>) p k q = Some (rc, c1)"
      "rc \<noteq> 0" "x = Failed c1"
      by (auto simp: poke_def bind_eq_Some_conv split: if_splits)
    from dispatch_header_fails [OF d(1,2)] have f: "resp_status (ta c1) = HTTP_400_BAD_REQUEST"
      "req_path (ta c1) = req_path (ta c)" "req_headers c1 = ?m[k := NUL]" by simp_all
    have "path_seen c1" by (rule path_seen_kept [OF assms(2)]) (use f k pr in simp_all)
    with d(3) f(1) show ?thesis by blast
  qed
qed

lemma parse_step_ok_stop:
  assumes "wf_machine m" "machine_ok m" "parse_step m = Some (Stop x)"
  shows "end_ok x"
proof -
  obtain pc c p r where m: "m = (pc, c, p, r)" by (cases m) auto
  have str: "pc \<noteq> HTTP_PS_NEW \<Longrightarrow> strings_ok c p" and pr: "pc \<noteq> HTTP_PS_NEW \<Longrightarrow> p \<le> r"
    using assms(1,2) m by (auto simp: fields_ok_def)
  have seen: "pc \<noteq> HTTP_PS_NEW \<Longrightarrow> path_seen (c\<lparr>ta := (ta c)\<lparr>resp_status := s, req_method := k\<rparr>\<rparr>)" for k s
    by (rule path_seen_kept [OF str]) simp_all
  have seen': "pc \<noteq> HTTP_PS_NEW \<Longrightarrow> path_seen (set_status s c)" for s
    by (rule path_seen_kept [OF str]) simp_all
  show ?thesis
  proof (cases pc)
    case HTTP_PS_REQ_PATH
    with assms m have "ps_req_path c p r = Some (Stop x)" by simp
    from ps_req_path_Stop [OF this] str HTTP_PS_REQ_PATH show ?thesis by auto
  next
    case HTTP_PS_REQ_HEAD
    with assms m have "ps_req_head c p r = Some (Stop x)" by simp
    from ps_req_head_Stop [OF this] str pr HTTP_PS_REQ_HEAD show ?thesis by auto
  next
    case HTTP_PS_REQ_HEAD_LF
    have "fields_ok HTTP_PS_REQ_HEAD_LF c (r + 1) \<and> path_room c (r + 1) 13"
      if "p \<le> r" "p \<noteq> r" "fields_ok HTTP_PS_REQ_HEAD_LF c p"
    proof
      show "fields_ok HTTP_PS_REQ_HEAD_LF c (r + 1)"
        using that by (intro fields_ok_same [OF that(3)]) (auto simp: same_request_def)
      have "path_room c p 11" using that(3) by (simp add: fields_ok_def past_path_def)
      from path_room_mono [OF this, of "r + 1" 13 c] that(1,2) show "path_room c (r + 1) 13" by simp
    qed
    with HTTP_PS_REQ_HEAD_LF assms m seen' show ?thesis
      by (auto simp: ps_req_head_lf_def bind_eq_Some_conv bad_request_def split: if_splits)
  qed (use assms m seen seen' in \<open>auto simp: ps_req_method_def ps_req_version_def ps_req_version_lf_def
      Let_def bind_eq_Some_conv bad_request_def version_not_supported_def
      split: if_splits option.splits\<close>)
qed

lemma parse_loop_safe:
  assumes "wf_machine m" "machine_ok m"
  shows "(\<exists>m'. parse_loop m = Some (Wait m') \<and> wf_machine m' \<and> machine_ok m') \<or>
         (\<exists>x. parse_loop m = Some (Stop x) \<and> end_ok x)"
proof -
  have inv: "case out of Cont m' \<Rightarrow> True | Wait m' \<Rightarrow> machine_ok m' | Stop x \<Rightarrow> end_ok x"
    if "parse_loop m = Some out" for out
    by (rule http.run_invariant [where m = m])
       (fact assms that | erule (2) parse_step_ok_cont parse_step_ok_wait parse_step_ok_stop)+
  from http.run_total [OF assms(1)] show ?thesis
  proof (elim disjE exE)
    fix m' assume "parse_loop m = Some (Wait m')"
    with inv [OF this] http.run_wait [OF assms(1) this] show ?thesis by simp
  next
    fix x assume "parse_loop m = Some (Stop x)"
    with inv [OF this] show ?thesis by simp
  qed
qed

section \<open>What parsing leaves alone\<close>

text \<open>The parts of a client that belong to the response, the payload and the bookkeeping.\<close>

definition frame_of :: "kitserv_client \<Rightarrow> kitserv_client" where
  "frame_of c = c\<lparr>req_headers := replicate (length (req_headers c)) NUL, ta := (ta c)\<lparr>req_method := 0, req_version := HTTP_1_1,
     req_content_len := 0, req_path := None, req_query := None, req_mimetype := None,
     req_range := None, req_disposition := None, req_modified_since := None,
     req_fresh_cookies := None, range_requested := False\<rparr>\<rparr>"

fun out_client :: "parse_out \<Rightarrow> kitserv_client" where
  "out_client (Cont (pc, c, p, r)) = c"
| "out_client (Wait (pc, c, p, r)) = c"
| "out_client (Stop (Failed c)) = c"
| "out_client (Stop (Finished c p)) = c"

definition no_status :: "kitserv_client \<Rightarrow> kitserv_client" where
  "no_status c = set_status HTTP_X_RESP_STATUS_UNSET c"

lemma dispatch_header_frame:
  assumes "dispatch_header headers c p s q = Some (rc, c')"
  shows "frame_of (no_status c') = frame_of (no_status c) \<and> (rc = 0 \<longrightarrow> frame_of c' = frame_of c)"
  using dispatch_header_cases [OF assms]
  by (auto simp: headers_def parse_header_cookie_def parse_header_range_def
      parse_header_if_modified_since_def parse_header_content_type_def frame_of_def no_status_def
      parse_header_content_disposition_def elim!: parse_header_content_length_cases)

lemma parse_step_frame:
  assumes "parse_step (pc, c, p, r) = Some out"
  shows "frame_of (no_status (out_client out)) = frame_of (no_status c) \<and>
    ((\<forall>c'. out \<noteq> Stop (Failed c')) \<longrightarrow> frame_of (out_client out) = frame_of c)"
proof (cases pc)
  case HTTP_PS_REQ_PATH
  define r1 where "r1 = scan_until (\<lambda>x. x = SP) (req_headers c) r"
  note unf = ps_req_path_alt r1_def [symmetric] Let_def bad_request_def bind_eq_Some_conv
  show ?thesis
  proof (cases "past_end c r1")
    case True
    with assms HTTP_PS_REQ_PATH show ?thesis by (auto simp: unf)
  next
    case False
    with assms HTTP_PS_REQ_PATH obtain f where "path_scan (req_headers c) p r1 None = Some f"
      by (auto simp: unf)
    with assms HTTP_PS_REQ_PATH False show ?thesis
      by (cases f) (auto simp: unf frame_of_def no_status_def split: if_splits dest!: path_rewrite_length)
  qed
next
  case HTTP_PS_REQ_HEAD
  have "frame_of (no_status (c\<lparr>req_headers := m\<rparr>)) = frame_of (no_status c)"
    "frame_of (c\<lparr>req_headers := m\<rparr>) = frame_of c" if "length m = length (req_headers c)" for m
    using that by (simp_all add: frame_of_def no_status_def)
  with assms HTTP_PS_REQ_HEAD show ?thesis
    by (auto simp: ps_req_head_def Let_def bind_eq_Some_conv bad_request_def
        split: if_splits option.splits dest!: dispatch_header_frame)
      (auto simp: frame_of_def no_status_def)
qed (use assms in \<open>auto simp: ps_req_method_def ps_req_version_def ps_req_version_lf_def
    ps_req_head_lf_def Let_def bind_eq_Some_conv bad_request_def version_not_supported_def
    frame_of_def no_status_def split: if_splits option.splits\<close>)

lemma parse_loop_frame:
  "parse_loop (pc, c, p, r) = Some out \<Longrightarrow>
    frame_of (no_status (out_client out)) = frame_of (no_status c) \<and>
    ((\<forall>c'. out \<noteq> Stop (Failed c')) \<longrightarrow> frame_of (out_client out) = frame_of c)"
proof (induction "(pc, c, p, r)" arbitrary: pc c p r rule: parse_loop.induct)
  case (1 pc c p r)
  from "1.prems" obtain o1 where o1: "parse_step (pc, c, p, r) = Some o1"
    by (auto simp: parse_loop.simps [of "(pc, c, p, r)"] split: option.splits)
  show ?case
  proof (cases o1)
    case (Cont m')
    obtain pc' c' p' r' where m': "m' = (pc', c', p', r')" by (cases m') auto
    from "1.prems" o1 Cont have "parse_loop m' = Some out" by (simp add: parse_loop.simps [of "(pc, c, p, r)"])
    with "1.hyps" [OF o1, of pc' c' p' r'] parse_step_frame [OF o1] Cont m' show ?thesis by auto
  qed (use "1.prems" o1 parse_step_frame [OF o1] in \<open>auto simp: parse_loop.simps [of "(pc, c, p, r)"]\<close>)
qed

end
