(* ===== verification/Http_Recv_Spec.thy ===== *)
theory Http_Recv_Spec
  imports Http_Recv_Safety
begin

text \<open>
  What a call of \<open>kitserv_http_recv_request\<close> promises: \<open>recv_ok\<close> is the invariant of a
  client that is being read, \<open>recv_post\<close> relates the client before and after the call.
  \<open>recv_all\<close> is the caller that comes back whenever the socket is ready again.
\<close>

section \<open>The invariant of a client being read\<close>

definition loop_ok :: "kitserv_client \<Rightarrow> nat option \<Rightarrow> nat option \<Rightarrow> bool" where
  "loop_ok c p r \<longleftrightarrow> length (req_headers c) \<le> HTTP_BUFSZ \<and>
     (if parse_state (ta c) = HTTP_PS_NEW then r = None \<and> fields_ok HTTP_PS_NEW c 0
      else \<exists>a b. p = Some a \<and> r = Some b \<and> a \<le> b \<and> b \<le> length (req_headers c) \<and>
             fields_ok (parse_state (ta c)) c a)"

definition recv_ok :: "kitserv_client \<Rightarrow> bool" where
  "recv_ok c \<longleftrightarrow> loop_ok c (req_parse_blk (ta c)) (req_parse_iter (ta c))"

text \<open>The machine that the \<^verbatim>\<open>switch\<close> resumes.\<close>

definition machine_of :: "kitserv_client \<Rightarrow> nat option \<Rightarrow> nat option \<Rightarrow> machine" where
  "machine_of c p r = (if parse_state (ta c) = HTTP_PS_NEW then (HTTP_PS_NEW, c, 0, 0)
     else (parse_state (ta c), c, the p, the r))"

lemma parse_from_machine: "loop_ok c p r \<Longrightarrow> parse_from c p r = parse_loop (machine_of c p r)"
  by (auto simp: loop_ok_def parse_from_def machine_of_def)

lemma machine_of_ok: "loop_ok c p r \<Longrightarrow> wf_machine (machine_of c p r) \<and> machine_ok (machine_of c p r)"
  by (auto simp: loop_ok_def machine_of_def)

lemma fields_ok_cong:
  "req_headers c' = req_headers c \<Longrightarrow> same_request c c' \<Longrightarrow> fields_ok pc c k \<Longrightarrow> fields_ok pc c' k"
  by (rule fields_ok_same) auto

lemma same_request_book [simp]:
  "same_request c (c\<lparr>ta := (ta c)\<lparr>parse_state := pc\<rparr>\<rparr>)"
  "same_request c (c\<lparr>ta := (ta c)\<lparr>req_parse_blk := p, req_parse_iter := r\<rparr>\<rparr>)"
  "same_request c (grow_c c d)"
  "same_request c (finish_request c k)"
  by (simp_all add: same_request_def request_ptrs_def finish_request_def)

lemma fields_ok_book [simp]:
  "fields_ok pc (c\<lparr>ta := (ta c)\<lparr>req_parse_blk := p, req_parse_iter := r\<rparr>\<rparr>) k = fields_ok pc c k"
  "fields_ok pc (c\<lparr>ta := (ta c)\<lparr>parse_state := s\<rparr>\<rparr>) k = fields_ok pc c k"
  by (simp_all add: fields_ok_def strings_ok_def path_ok_def path_room_def request_ptrs_def)

lemma fields_ok_grow:
  "fields_ok pc c k \<Longrightarrow> k \<le> length (req_headers c) \<Longrightarrow> fields_ok pc (grow_c c d) k"
  by (erule fields_ok_same) auto

lemma loop_ok_grow:
  "loop_ok c p r \<Longrightarrow> length (req_headers c) + length d \<le> HTTP_BUFSZ \<Longrightarrow> loop_ok (grow_c c d) p r"
  by (auto simp: loop_ok_def intro!: fields_ok_grow)

lemma sock_read_bound: "sock_read n evs = (Inr bs, evs') \<Longrightarrow> length bs \<le> n"
  by (induction n evs rule: sock_read.induct) (auto split: if_splits)

lemma recv_fill_cases:
  assumes "recv_fill c p r w = (f, w')" "loop_ok c p r"
  obtains (go) c' where "f = Go c'" "loop_ok c' p r" "\<exists>d. c' = grow_c c d"
    | (again) "f = Give 0 (c\<lparr>ta := (ta c)\<lparr>req_parse_blk := p, req_parse_iter := r\<rparr>\<rparr>)"
        "ptr_past_end c r" "in_size w' < in_size w"
    | (fail) s where "f = Give (-1) (set_status s c)"
        "s \<in> {HTTP_X_HANGUP, HTTP_431_REQUEST_HEADER_FIELDS_TOO_LARGE}"
proof -
  obtain res evs where sr: "sock_read (HTTP_BUFSZ - length (req_headers c)) (os_in w) = (res, evs)"
    by (cases "sock_read (HTTP_BUFSZ - length (req_headers c)) (os_in w)") auto
  show thesis
  proof (cases res)
    case (Inl e)
    have self: "\<exists>d. c = grow_c c d" by (rule exI [of _ "[]"]) simp
    show thesis
    proof (cases "e = EAGAIN \<and> \<not> ptr_past_end c r")
      case True
      with Inl sr assms self show thesis by (intro go [of c]) (simp_all add: recv_fill_def)
    next
      case False
      with Inl sr sock_read_size [OF sr] assms show thesis
        by (cases "e = EAGAIN") (auto simp: recv_fill_def in_size_def intro: fail again)
    qed
  next
    case (Inr bs)
    show thesis
    proof (cases bs)
      case Nil
      have self: "\<exists>d. c = grow_c c d" by (rule exI [of _ "[]"]) simp
      show thesis
      proof (cases "length (req_headers c) \<ge> HTTP_BUFSZ \<and> \<not> ptr_past_end c r")
        case True
        with Nil Inr sr assms self show thesis by (intro go [of c]) (simp_all add: recv_fill_def)
      next
        case False
        with Nil Inr sr assms show thesis
          by (cases "ptr_past_end c r") (auto simp: recv_fill_def intro: fail split: if_splits)
      qed
    next
      case (Cons b bs')
      with sr Inr sock_read_bound [of _ _ bs evs] assms(2) have "length (req_headers c) + length bs \<le> HTTP_BUFSZ"
        by (fastforce simp: loop_ok_def)
      from loop_ok_grow [OF assms(2) this] sr Inr Cons assms(1) show thesis
        by (auto simp: recv_fill_def intro!: go [of "grow_c c bs"])
    qed
  qed
qed

section \<open>What a call promises\<close>

text \<open>
  A call either asks to be called again, or hands over a request whose strings all end
  before the payload and whose path passed the check, or fails with one of five statuses.
\<close>

definition resp_part :: "kitserv_client \<Rightarrow> kitserv_client" where
  "resp_part c = (frame_of c)\<lparr>req_headers := [], ta := (ta (frame_of c))\<lparr>state := HTTP_STATE_READ,
     parse_state := HTTP_PS_NEW, req_parse_blk := None, req_parse_iter := None, req_payload := 0,
     req_payload_len := 0\<rparr>\<rparr>"

definition request_ready :: "kitserv_client \<Rightarrow> bool" where
  "request_ready c \<longleftrightarrow> length (req_headers c) \<le> HTTP_BUFSZ \<and> req_payload (ta c) \<le> length (req_headers c) \<and>
     req_payload_len (ta c) = int (length (req_headers c)) - int (req_payload (ta c)) \<and>
     fields_ok HTTP_PS_REQ_HEAD_LF c (req_payload (ta c)) \<and> path_room c (req_payload (ta c)) 13"

definition recv_failures :: "http_status set" where
  "recv_failures = {HTTP_400_BAD_REQUEST, HTTP_501_NOT_IMPLEMENTED, HTTP_505_VERSION_NOT_SUPPORTED,
     HTTP_431_REQUEST_HEADER_FIELDS_TOO_LARGE, HTTP_X_HANGUP}"

fun recv_post :: "kitserv_client \<Rightarrow> int \<times> kitserv_client \<times> os \<Rightarrow> bool" where
  "recv_post c (rc, c', w') \<longleftrightarrow> resp_part (no_status c') = resp_part (no_status c) \<and>
     (rc = 0 \<and> state (ta c') = HTTP_STATE_READ \<and> recv_ok c' \<and> resp_part c' = resp_part c \<or>
      rc = 0 \<and> state (ta c') = HTTP_STATE_SERVE \<and> request_ready c' \<and> resp_part c' = resp_part c \<or>
      rc = -1 \<and> resp_status (ta c') \<in> recv_failures \<and> path_seen c')"

lemma resp_part_frame: "frame_of c' = frame_of c \<Longrightarrow> resp_part c' = resp_part c"
  by (simp add: resp_part_def)

lemma resp_part_book [simp]:
  "resp_part (c\<lparr>ta := (ta c)\<lparr>parse_state := pc\<rparr>\<rparr>) = resp_part c"
  "resp_part (c\<lparr>ta := (ta c)\<lparr>req_parse_blk := p, req_parse_iter := r\<rparr>\<rparr>) = resp_part c"
  "resp_part (grow_c c d) = resp_part c"
  "resp_part (finish_request c k) = resp_part c"
  by (simp_all add: resp_part_def frame_of_def finish_request_def)

lemma resp_part_no_status: "resp_part c' = resp_part c \<Longrightarrow> resp_part (no_status c') = resp_part (no_status c)"
proof -
  have "resp_part (no_status x) = no_status (resp_part x)" for x
    by (simp add: resp_part_def frame_of_def no_status_def)
  then show "resp_part c' = resp_part c \<Longrightarrow> resp_part (no_status c') = resp_part (no_status c)" by simp
qed

lemma frame_of_state: "frame_of c' = frame_of c \<Longrightarrow> state (ta c') = state (ta c)"
  by (drule arg_cong [where f = "\<lambda>c. state (ta c)"]) (simp add: frame_of_def)

lemma frame_of_length: "frame_of c' = frame_of c \<Longrightarrow> length (req_headers c') = length (req_headers c)"
  by (drule arg_cong [where f = "\<lambda>c. length (req_headers c)"]) (simp add: frame_of_def)

lemma parse_step_Wait_pc: "parse_step m = Some (Wait (pc, c, p, r)) \<Longrightarrow> pc \<noteq> HTTP_PS_NEW"
proof (cases m)
  case (fields pc0 c0 p0 r0)
  assume s: "parse_step m = Some (Wait (pc, c, p, r))"
  show ?thesis
  proof (cases pc0)
    case HTTP_PS_REQ_PATH
    show ?thesis
    proof (cases "past_end c0 (scan_until (\<lambda>x. x = SP) (req_headers c0) r0)")
      case True
      with s fields HTTP_PS_REQ_PATH ps_req_path_wait [OF True] show ?thesis by simp
    next
      case False
      with s fields HTTP_PS_REQ_PATH obtain f where
        "path_scan (req_headers c0) p0 (scan_until (\<lambda>x. x = SP) (req_headers c0) r0) None = Some f"
        by (auto simp: ps_req_path_def Let_def bind_eq_Some_conv)
      with s fields HTTP_PS_REQ_PATH False show ?thesis
        by (cases f) (auto simp: ps_req_path_alt Let_def bind_eq_Some_conv bad_request_def split: if_splits)
    qed
  qed (use s fields in \<open>auto simp: ps_req_method_def ps_req_version_def
      ps_req_version_lf_def ps_req_head_def ps_req_head_lf_def Let_def bind_eq_Some_conv
      bad_request_def version_not_supported_def split: if_splits option.splits\<close>)
qed

lemma parse_loop_Wait_pc: "parse_loop m = Some (Wait (pc, c, p, r)) \<Longrightarrow> pc \<noteq> HTTP_PS_NEW"
proof (induction m rule: parse_loop.induct)
  case (1 m)
  then show ?case
    by (auto simp: parse_loop.simps [of m] split: option.splits outcome.splits dest: parse_step_Wait_pc)
qed

lemma parse_from_out:
  assumes ok: "loop_ok c p r"
  obtains (wait) pc c' p' r' where "parse_from c p r = Some (Wait (pc, c', p', r'))"
      "loop_ok (set_parse_state pc c') (Some p') (Some r')" "frame_of c' = frame_of c"
    | (failed) c' where "parse_from c p r = Some (Stop (Failed c'))" "resp_status (ta c') \<in> recv_failures" "path_seen c'"
      "frame_of (no_status c') = frame_of (no_status c)"
    | (finished) c' q where "parse_from c p r = Some (Stop (Finished c' q))"
      "request_ready (finish_request c' q)" "frame_of c' = frame_of c"
proof -
  note eq = parse_from_machine [OF ok]
  obtain pc p0 r0 where m: "machine_of c p r = (pc, c, p0, r0)"
    by (cases "parse_state (ta c) = HTTP_PS_NEW") (auto simp: machine_of_def)
  note fr = parse_loop_frame [of pc c p0 r0, folded m]
  from machine_of_ok [OF ok] have ok': "wf_machine (machine_of c p r)" "machine_ok (machine_of c p r)" by auto
  from parse_loop_safe [OF ok'] show thesis
  proof (elim disjE exE conjE)
    fix m' assume l: "parse_loop (machine_of c p r) = Some (Wait m')" and w: "wf_machine m'" "machine_ok m'"
    obtain pc' c' p' r' where m': "m' = (pc', c', p', r')" by (cases m') auto
    have pc': "pc' \<noteq> HTTP_PS_NEW" using l m' by (auto dest: parse_loop_Wait_pc)
    from fr [OF l] m' have f: "frame_of c' = frame_of c" by simp
    from frame_of_length [OF f] w m' pc' ok have "loop_ok (set_parse_state pc' c') (Some p') (Some r')"
      by (auto simp: loop_ok_def intro: fields_ok_cong [of _ c'])
    with l m' f show thesis by (intro wait [of pc' c' p' r']) (simp_all add: eq)
  next
    fix x assume l: "parse_loop (machine_of c p r) = Some (Stop x)" and x: "end_ok x"
    show thesis
    proof (cases x)
      case (Failed c')
      with fr [OF l] l x show thesis by (intro failed [of c']) (auto simp: eq recv_failures_def)
    next
      case (Finished c' q)
      with fr [OF l] have f: "frame_of c' = frame_of c" by simp
      from frame_of_length [OF f] ok x Finished have "request_ready (finish_request c' q)"
        by (auto simp: request_ready_def loop_ok_def finish_request_def
            intro: fields_ok_cong [of _ c'] simp: same_request_def request_ptrs_def path_room_def)
      with l f Finished show thesis by (intro finished [of c' q]) (simp_all add: eq)
    qed
  qed
qed

lemma recv_post_frame:
  "resp_part c' = resp_part c \<Longrightarrow> recv_post c' res \<Longrightarrow> recv_post c res"
  by (cases res) (auto dest!: resp_part_no_status)

lemma recv_loop_safe:
  "loop_ok c p r \<Longrightarrow> state (ta c) = HTTP_STATE_READ \<Longrightarrow>
   \<exists>res. recv_loop c p r w = Some res \<and> recv_post c res"
proof (induction c p r w rule: recv_loop.induct)
  case (1 c p r w)
  note step = recv_loop.simps [of c p r w]
  obtain f w' where f: "recv_fill c p r w = (f, w')" by (cases "recv_fill c p r w") auto
  from f "1.prems"(1) show ?case
  proof (cases rule: recv_fill_cases)
    case (go c')
    from go(3) "1.prems"(2) have c': "resp_part c' = resp_part c" "state (ta c') = HTTP_STATE_READ"
      by (auto simp: resp_part_def frame_of_def)
    from go(2) show ?thesis
    proof (cases rule: parse_from_out)
      case (wait pc c'' p' r')
      from wait(3) c' have "resp_part (set_parse_state pc c'') = resp_part c"
        "state (ta (set_parse_state pc c'')) = HTTP_STATE_READ"
        by (simp_all add: resp_part_frame [OF wait(3)] frame_of_state [OF wait(3)])
      note same = this
      have "recv_loop c p r w = recv_loop (set_parse_state pc c'') (Some p') (Some r') w'"
        using f go(1) wait(1) by (subst step) simp
      with "1.IH" [OF f [symmetric] go(1) wait(1) refl refl refl refl wait(2) same(2)]
        recv_post_frame [OF same(1)] show ?thesis by fastforce
    next
      case (failed c'')
      from failed(4) have "resp_part (no_status c'') = resp_part (no_status c')" by (rule resp_part_frame)
      with failed f go(1) step resp_part_no_status [OF c'(1)] show ?thesis by simp
    next
      case (finished c'' q)
      from c' have same: "resp_part (finish_request c'' q) = resp_part c"
        by (simp add: resp_part_frame [OF finished(3)])
      with finished f go(1) step resp_part_no_status [OF same] show ?thesis
        by (simp add: finish_request_def)
    qed
  next
    case again
    with f step "1.prems" show ?thesis
      using resp_part_no_status [OF resp_part_book(2)]
      by (auto simp: recv_ok_def loop_ok_def)
  next
    case (fail s)
    have "strings_ok c (if parse_state (ta c) = HTTP_PS_NEW then 0 else the p)"
      using "1.prems"(1) by (auto simp: loop_ok_def fields_ok_def split: if_splits)
    from path_seen_kept [OF this, of "set_status s c"] have "path_seen (set_status s c)" by simp
    with fail f step show ?thesis by (auto simp: recv_failures_def no_status_def)
  qed
qed

theorem recv_request_safe:
  "recv_ok c \<Longrightarrow> state (ta c) = HTTP_STATE_READ \<Longrightarrow>
   \<exists>res. kitserv_http_recv_request c w = Some res \<and> recv_post c res"
  unfolding kitserv_http_recv_request_def recv_ok_def by (rule recv_loop_safe)

end
