(* ===== verification/Http_Recv_Chunks.thy ===== *)
theory Http_Recv_Chunks
  imports Http_Recv_Spec
begin

text \<open>
  Receiving does not depend on how the network cuts a request into pieces. \<open>recv_all\<close> is
  the caller that comes back whenever the socket is ready; \<open>verdict\<close> says what it must end
  with, from one run of the parser over all the bytes at once. The fields the parser keeps
  between calls (\<open>parse_state\<close>, \<open>req_parse_blk\<close>, \<open>req_parse_iter\<close>) are bookkeeping:
  \<open>nobook\<close> forgets them, and the parser's steps do not read them.
\<close>

section \<open>Bookkeeping\<close>

definition nobook :: "kitserv_client \<Rightarrow> kitserv_client" where
  "nobook c = c\<lparr>ta := (ta c)\<lparr>parse_state := HTTP_PS_NEW, req_parse_blk := None, req_parse_iter := None\<rparr>\<rparr>"

fun nobook_out :: "parse_out \<Rightarrow> parse_out" where
  "nobook_out (Cont (pc, c, p, r)) = Cont (pc, nobook c, p, r)"
| "nobook_out (Wait (pc, c, p, r)) = Wait (pc, nobook c, p, r)"
| "nobook_out (Stop (Failed c)) = Stop (Failed (nobook c))"
| "nobook_out (Stop (Finished c q)) = Stop (Finished (nobook c) q)"

lemma nobook_simps [simp]:
  "req_headers (nobook c) = req_headers c"
  "nobook (nobook c) = nobook c"
  "nobook (c\<lparr>ta := (ta c)\<lparr>parse_state := pc\<rparr>\<rparr>) = nobook c"
  "nobook (c\<lparr>ta := (ta c)\<lparr>req_parse_blk := p, req_parse_iter := r\<rparr>\<rparr>) = nobook c"
  by (simp_all add: nobook_def)

lemma header_func_nobook:
  "(nm, l, f) \<in> set headers \<Longrightarrow> f (nobook c) q = map_option (\<lambda>(rc, c). (rc, nobook c)) (f c q)"
  by (auto simp: headers_def parse_header_cookie_def parse_header_range_def
      parse_header_if_modified_since_def parse_header_content_type_def nobook_def
      parse_header_content_disposition_def parse_header_content_length_def Let_def
      split: Option.bind_split prod.splits)

lemma dispatch_header_nobook:
  "set hs \<subseteq> set headers \<Longrightarrow>
   dispatch_header hs (nobook c) p s q = map_option (\<lambda>(rc, c). (rc, nobook c)) (dispatch_header hs c p s q)"
proof (induction hs)
  case (Cons h hs)
  then show ?case
    by (cases h) (auto simp: header_func_nobook split: Option.bind_split)
qed simp

lemma parse_step_nobook: "parse_step (pc, nobook c, p, r) = map_option nobook_out (parse_step (pc, c, p, r))"
proof (cases pc)
  case HTTP_PS_REQ_HEAD
  have upd: "(nobook c)\<lparr>req_headers := m\<rparr> = nobook (c\<lparr>req_headers := m\<rparr>)" for m
    by (simp add: nobook_def)
  have st: "set_status s (nobook c) = nobook (set_status s c)" for s c by (simp add: nobook_def)
  from HTTP_PS_REQ_HEAD show ?thesis
    by (auto simp: ps_req_head_def Let_def past_end_def bad_request_def upd st poke_def peek_def dispatch_header_nobook
        simp del: nobook_simps(2) split: Option.bind_split option.splits)
next
  case HTTP_PS_REQ_PATH
  define r1 where "r1 = scan_until (\<lambda>x. x = SP) (req_headers c) r"
  show ?thesis
  proof (cases "path_scan (req_headers c) p r1 None")
    case None
    with HTTP_PS_REQ_PATH show ?thesis
      by (simp add: ps_req_path_def r1_def [symmetric] Let_def past_end_def)
  next
    case (Some f)
    with HTTP_PS_REQ_PATH show ?thesis
      by (cases f) (auto simp: ps_req_path_alt r1_def [symmetric] Let_def past_end_def bad_request_def nobook_def
          split: Option.bind_split prod.splits)
  qed
qed (auto simp: ps_req_method_def ps_req_version_def ps_req_version_lf_def ps_req_head_lf_def
    past_end_def bad_request_def version_not_supported_def Let_def nobook_def peek_def
    split: Option.bind_split option.splits)

lemma parse_loop_nobook: "parse_loop (pc, nobook c, p, r) = map_option nobook_out (parse_loop (pc, c, p, r))"
proof (induction "(pc, c, p, r)" arbitrary: pc c p r rule: parse_loop.induct)
  case (1 pc c p r)
  note step = parse_loop.simps [of "(pc, c, p, r)"] parse_loop.simps [of "(pc, nobook c, p, r)"]
  show ?case
  proof (cases "parse_step (pc, c, p, r)")
    case None
    then show ?thesis by (simp add: step parse_step_nobook)
  next
    case (Some out)
    show ?thesis
    proof (cases out)
      case (Cont m)
      obtain pc' c' p' r' where m: "m = (pc', c', p', r')" by (cases m) auto
      with "1.hyps" [OF Some, of pc' c' p' r'] Some Cont show ?thesis by (simp add: step parse_step_nobook)
    next
      case (Wait m)
      with Some show ?thesis by (cases m) (simp add: step parse_step_nobook)
    next
      case (Stop x)
      with Some show ?thesis by (cases x) (simp_all add: step parse_step_nobook)
    qed
  qed
qed

text \<open>A machine whose position is at the end of the input waits.\<close>

lemma parse_loop_at_end: "pc \<noteq> HTTP_PS_NEW \<Longrightarrow> past_end c r \<Longrightarrow> \<exists>r'. parse_loop (pc, c, p, r) = Some (Wait (pc, c, p, r'))"
proof -
  assume a: "pc \<noteq> HTTP_PS_NEW" "past_end c r"
  have s: "past_end c (scan_until P (req_headers c) r)" for P
    using a(2) scan_until_ge [of r P "req_headers c"] by (simp add: past_end_def)
  have "\<exists>r'. parse_step (pc, c, p, r) = Some (Wait (pc, c, p, r'))"
    using a s by (cases pc) (simp_all add: ps_req_method_def ps_req_path_def ps_req_version_def
        ps_req_version_lf_def ps_req_head_def ps_req_head_lf_def Let_def)
  then show ?thesis by (auto simp: parse_loop.simps [of "(pc, c, p, r)"])
qed

section \<open>Coming back for more\<close>

lemma recv_loop_again:
  "recv_loop c p r w = Some (0, c', w') \<Longrightarrow> state (ta c') = HTTP_STATE_READ \<Longrightarrow> in_size w' < in_size w"
proof (induction c p r w rule: recv_loop.induct)
  case (1 c p r w)
  note step = recv_loop.simps [of c p r w]
  obtain f w1 where f: "recv_fill c p r w = (f, w1)" by (cases "recv_fill c p r w") auto
  show ?case
  proof (cases f)
    case (Give rc c1)
    with f "1.prems"(1) have "rc = 0" "w' = w1" by (auto simp: step)
    with f Give show ?thesis
      by (auto simp: recv_fill_def in_size_def dest!: sock_read_size
          split: prod.splits sum.splits list.splits if_splits)
  next
    case (Go c1)
    with f "1.prems"(1) obtain out where out: "parse_from c1 p r = Some out"
      by (auto simp: step split: option.splits)
    show ?thesis
    proof (cases out)
      case (Cont m)
      with f Go out "1.prems"(1) show ?thesis by (simp add: step)
    next
      case (Wait m)
      obtain pc c2 p' r' where m: "m = (pc, c2, p', r')" by (cases m) auto
      from f Go out Wait m "1.prems"(1) have
        "recv_loop (set_parse_state pc c2) (Some p') (Some r') w1 = Some (0, c', w')" by (simp add: step)
      from "1.IH" [OF f [symmetric] Go out Wait m [symmetric] refl refl this "1.prems"(2)] recv_fill_size [OF f]
      show ?thesis by simp
    next
      case (Stop x)
      with f Go out "1.prems" show ?thesis by (cases x) (auto simp: step finish_request_def)
    qed
  qed
qed

function recv_all :: "kitserv_client \<Rightarrow> os \<Rightarrow> (int \<times> kitserv_client \<times> os) ub" where
  "recv_all c w =
     (case kitserv_http_recv_request c w of
        None \<Rightarrow> None
      | Some (rc, c', w') \<Rightarrow>
          (if rc = 0 \<and> state (ta c') = HTTP_STATE_READ then recv_all c' w' else Some (rc, c', w')))"
  by pat_completeness auto
termination
  by (relation "measure (\<lambda>(c, w). in_size w)")
    (auto simp: kitserv_http_recv_request_def dest: recv_loop_again)

declare recv_all.simps [simp del]

section \<open>The verdict\<close>

text \<open>The bytes a script still delivers, and scripts in which nothing fails.\<close>

fun data_of :: "rd_event list \<Rightarrow> string" where
  "data_of [] = []"
| "data_of (Chunk bs # evs) = bs @ data_of evs"
| "data_of (Block # evs) = data_of evs"
| "data_of (Err e # evs) = data_of evs"

fun quiet :: "rd_event \<Rightarrow> bool" where
  "quiet (Chunk bs) \<longleftrightarrow> bs \<noteq> []"
| "quiet Block \<longleftrightarrow> True"
| "quiet (Err e) \<longleftrightarrow> False"

text \<open>
  What the call must end with, given the parser's run over the bytes as a whole: the same
  client, with the bytes not yet read appended and the bookkeeping forgotten; a finished
  request lies with all its strings in the bytes already read, and an unfinished one is
  given up when the peer has no more to send, or the buffer no more room.
\<close>

fun verdict :: "parse_out ub \<Rightarrow> nat \<Rightarrow> int \<times> kitserv_client \<times> os \<Rightarrow> bool" where
  "verdict (Some (Stop (Failed c1))) n (rc, c', w') \<longleftrightarrow>
     rc = -1 \<and> nobook c1 = nobook (grow_c c' (data_of (os_in w')))"
| "verdict (Some (Stop (Finished c1 q))) n (rc, c', w') \<longleftrightarrow>
     rc = 0 \<and> c' = finish_request c' q \<and> request_ready c' \<and>
     nobook (finish_request c1 q) = nobook (finish_request (grow_c c' (data_of (os_in w'))) q)"
| "verdict (Some (Wait (pc, c1, p, r))) n (rc, c', w') \<longleftrightarrow> rc = -1 \<and>
     nobook c' = nobook (set_status (if n < HTTP_BUFSZ then HTTP_X_HANGUP else HTTP_431_REQUEST_HEADER_FIELDS_TOO_LARGE) c1)"
| "verdict (Some (Cont m)) n res \<longleftrightarrow> False"
| "verdict None n res \<longleftrightarrow> False"

lemma sock_read_quiet:
  assumes "\<forall>ev \<in> set evs. quiet ev" "0 < n"
  obtains (eof) "evs = []" "sock_read n evs = (Inr [], [])"
    | (block) evs' where "evs = Block # evs'" "sock_read n evs = (Inl EAGAIN, evs')"
    | (bytes) bs evs' where "sock_read n evs = (Inr bs, evs')" "bs \<noteq> []" "length bs \<le> n"
        "data_of evs = bs @ data_of evs'" "\<forall>ev \<in> set evs'. quiet ev"
proof (cases evs)
  case Nil
  with eof show thesis by simp
next
  case (Cons ev t)
  show thesis
  proof (cases ev)
    case (Chunk bs)
    with Cons assms bytes [of bs t] bytes [of "take n bs" "Chunk (drop n bs) # t"] show thesis
      by (cases "length bs \<le> n") auto
  next
    case Block
    with Cons assms block show thesis by simp
  next
    case (Err e)
    with Cons assms show thesis by simp
  qed
qed

lemma sock_read_full: "sock_read 0 evs = (Inr [], evs)"
  by (cases evs; cases "hd evs") auto

text \<open>Runs that agree up to bookkeeping have the same verdict.\<close>

lemma verdict_nobook:
  "map_option nobook_out o1 = map_option nobook_out o2 \<Longrightarrow> verdict o1 n res = verdict o2 n res"
proof -
  have v: "verdict (map_option nobook_out out) n res = verdict out n res" for out
  proof (cases "(out, n, res)" rule: verdict.cases)
    case (2 c1 q n rc c' w')
    have "nobook (finish_request (nobook c) q) = nobook (finish_request c q)" for c
      by (simp add: nobook_def finish_request_def)
    with 2 show ?thesis by simp
  next
    case (3 pc c1 p r n rc c' w')
    have "nobook (set_status s (nobook c)) = nobook (set_status s c)" for s c by (simp add: nobook_def)
    with 3 show ?thesis by simp
  next
    case (4 m n res)
    then show ?thesis by (cases m) simp
  qed auto
  show "map_option nobook_out o1 = map_option nobook_out o2 \<Longrightarrow> verdict o1 n res = verdict o2 n res"
    using v [of o1] v [of o2] by simp
qed

definition run_all :: "kitserv_client \<Rightarrow> nat option \<Rightarrow> nat option \<Rightarrow> os \<Rightarrow> (int \<times> kitserv_client \<times> os) ub" where
  "run_all c p r w =
     (case recv_loop c p r w of
        None \<Rightarrow> None
      | Some (rc, c', w') \<Rightarrow>
          (if rc = 0 \<and> state (ta c') = HTTP_STATE_READ then recv_all c' w' else Some (rc, c', w')))"

lemma recv_all_run_all: "recv_all c w = run_all c (req_parse_blk (ta c)) (req_parse_iter (ta c)) w"
  by (simp add: recv_all.simps [of c w] run_all_def kitserv_http_recv_request_def)

text \<open>One round of the outer loop, in terms of the machine.\<close>

lemma run_all_round:
  assumes ok: "loop_ok c p r" "state (ta c) = HTTP_STATE_READ"
    and go: "recv_fill c p r w = (Go (grow_c c d), w')" and ok': "loop_ok (grow_c c d) p r"
    and tot: "length (req_headers c) + length d + length (data_of (os_in w')) = n"
    and next_round: "\<And>c1 p1 r1. loop_ok c1 (Some p1) (Some r1) \<Longrightarrow> state (ta c1) = HTTP_STATE_READ \<Longrightarrow>
       ptr_past_end c1 (Some r1) \<Longrightarrow> length (req_headers c1) + length (data_of (os_in w')) = n \<Longrightarrow>
       \<exists>res. run_all c1 (Some p1) (Some r1) w' = Some res \<and>
         verdict (parse_loop (grow (machine_of c1 (Some p1) (Some r1)) (data_of (os_in w')))) n res"
  shows "\<exists>res. run_all c p r w = Some res \<and>
    verdict (parse_loop (grow (machine_of c p r) (d @ data_of (os_in w')))) n res"
proof -
  let ?M = "machine_of (grow_c c d) p r" and ?rest = "data_of (os_in w')"
  have M: "grow (machine_of c p r) (d @ ?rest) = grow ?M ?rest" by (simp add: machine_of_def)
  note eq = parse_from_machine [OF ok']
  note wf = conjunct1 [OF machine_of_ok [OF ok']]
  note step = recv_loop.simps [of c p r w]
  from ok' show ?thesis
  proof (cases rule: parse_from_out)
    case (wait pc c2 p2 r2)
    let ?c2 = "set_parse_state pc c2"
    from wait(1) have pc: "pc \<noteq> HTTP_PS_NEW" and pe: "ptr_past_end ?c2 (Some r2)"
      unfolding eq by (auto simp: ptr_past_end_def past_end_def dest: parse_loop_Wait_pc parse_loop_Wait)
    have st: "state (ta ?c2) = HTTP_STATE_READ" using frame_of_state [OF wait(3)] ok(2) by simp
    have "length (req_headers ?c2) + length ?rest = n" using frame_of_length [OF wait(3)] tot by simp
    from next_round [OF wait(2) st pe this] obtain res where res:
      "run_all ?c2 (Some p2) (Some r2) w' = Some res"
      "verdict (parse_loop (grow (machine_of ?c2 (Some p2) (Some r2)) ?rest)) n res" by blast
    have "run_all c p r w = run_all ?c2 (Some p2) (Some r2) w'"
      using go wait(1) by (simp add: run_all_def step)
    moreover have "parse_loop (grow ?M ?rest) = parse_loop (grow (pc, c2, p2, r2) ?rest)"
      using http.run_wait [OF wf, of "(pc, c2, p2, r2)" ?rest] wait(1) eq by simp
    moreover have "nobook (grow_c ?c2 ?rest) = nobook (grow_c c2 ?rest)" by (simp add: nobook_def)
    then have "map_option nobook_out (parse_loop (grow (machine_of ?c2 (Some p2) (Some r2)) ?rest)) =
        map_option nobook_out (parse_loop (grow (pc, c2, p2, r2) ?rest))"
      using pc parse_loop_nobook [of pc "grow_c ?c2 ?rest" p2 r2]
        parse_loop_nobook [of pc "grow_c c2 ?rest" p2 r2] by (simp add: machine_of_def)
    from verdict_nobook [OF this] res(2) have "verdict (parse_loop (grow (pc, c2, p2, r2) ?rest)) n res" by simp
    ultimately show ?thesis using res(1) by (simp add: M)
  next
    case (failed c2)
    with go have "run_all c p r w = Some (-1, c2, w')" by (simp add: run_all_def step)
    moreover from failed(1) http.run_stop [OF wf, of _ ?rest] eq
    have "parse_loop (grow ?M ?rest) = Some (Stop (Failed (grow_c c2 ?rest)))" by simp
    ultimately show ?thesis by (simp add: M)
  next
    case (finished c2 q)
    with go have "run_all c p r w = Some (0, finish_request c2 q, w')"
      by (simp add: run_all_def step) (simp add: finish_request_def)
    moreover from finished(1) http.run_stop [OF wf, of _ ?rest] eq
    have "parse_loop (grow ?M ?rest) = Some (Stop (Finished (grow_c c2 ?rest) q))" by simp
    moreover have "finish_request (finish_request c2 q) q = finish_request c2 q"
      "finish_request (grow_c (finish_request c2 q) ?rest) q = finish_request (grow_c c2 ?rest) q"
      by (simp_all add: finish_request_def)
    ultimately show ?thesis using finished(2) by (simp add: M)
  qed
qed

lemma in_size_read:
  "sock_read k (os_in w) = (res, evs) \<Longrightarrow> res \<noteq> Inr [] \<Longrightarrow> in_size (w\<lparr>os_in := evs\<rparr>) < in_size w"
  by (auto simp: in_size_def dest: sock_read_size)

text \<open>
  The whole reception, by induction on what is still to be read; a round that reads nothing
  leaves the position at the end of the input, so that the next one does not repeat it.
\<close>

lemma run_all_verdict:
  assumes "loop_ok c p r" "state (ta c) = HTTP_STATE_READ" "\<forall>ev \<in> set (os_in w). quiet ev"
    and "os_in w \<noteq> [] \<or> ptr_past_end c r"
    and "length (req_headers c) + length (data_of (os_in w)) = n" "n \<le> HTTP_BUFSZ"
  shows "\<exists>res. run_all c p r w = Some res \<and>
    verdict (parse_loop (grow (machine_of c p r) (data_of (os_in w)))) n res"
  using assms
proof (induction "2 * in_size w + (if ptr_past_end c r then 0 else 1)" arbitrary: c p r w rule: less_induct)
  case less
  let ?k = "HTTP_BUFSZ - length (req_headers c)"
  note step = recv_loop.simps [of c p r w]
  have waits: "\<exists>pc p' r'. parse_loop (machine_of c p r) = Some (Wait (pc, c, p', r'))" if "ptr_past_end c r"
    using that less.prems(1) parse_loop_at_end [of "parse_state (ta c)" c]
    by (fastforce simp: loop_ok_def machine_of_def ptr_past_end_def split: option.splits)
  have g0: "grow (machine_of c p r) [] = machine_of c p r" by (simp add: machine_of_def)
  have stay: "\<exists>res. run_all c p r w = Some res \<and>
      verdict (parse_loop (grow (machine_of c p r) (data_of (os_in w)))) n res"
    if "recv_fill c p r w = (Go c, w')" "os_in w' = evs'" "data_of (os_in w) = data_of evs'"
      "\<forall>ev \<in> set evs'. quiet ev" "in_size w' \<le> in_size w" "\<not> ptr_past_end c r" for w' evs'
  proof -
    from that(1) have "recv_fill c p r w = (Go (grow_c c []), w')" by simp
    from run_all_round [OF less.prems(1,2) this, of n] less.hyps [of w' _ "Some _" "Some _"] less.prems that
    show ?thesis by (simp add: less_eq_Suc_le)
  qed
  show ?case
  proof (cases "?k = 0")
    case True
    with less.prems(5,6) have "length (data_of (os_in w)) = 0" "length (req_headers c) = n" "n = HTTP_BUFSZ"
      by linarith+
    then have d: "data_of (os_in w) = []" "length (req_headers c) = n" "n = HTTP_BUFSZ" by simp_all
    have sr: "sock_read ?k (os_in w) = (Inr [], os_in w)" unfolding True by (rule sock_read_full)
    show ?thesis
    proof (cases "ptr_past_end c r")
      case past: True
      with sr d have "run_all c p r w =
          Some (-1, set_status HTTP_431_REQUEST_HEADER_FIELDS_TOO_LARGE c, w)"
        by (simp add: run_all_def step recv_fill_def)
      with waits [OF past] d g0 show ?thesis by auto
    next
      case False
      with sr d stay [of w "os_in w"] less.prems(3) show ?thesis by (simp add: recv_fill_def)
    qed
  next
    case False
    then have k: "0 < ?k" by simp
    from less.prems(3) k show ?thesis
    proof (cases rule: sock_read_quiet)
      case eof
      with less.prems(4) have past: "ptr_past_end c r" by simp
      from eof k have "run_all c p r w = Some (-1, set_status HTTP_X_HANGUP c, w\<lparr>os_in := []\<rparr>)"
        by (simp add: run_all_def step recv_fill_def)
      with waits [OF past] g0 eof less.prems(5) k show ?thesis by auto
    next
      case (block evs')
      let ?w = "w\<lparr>os_in := evs', os_errno := EAGAIN\<rparr>"
      from block have sz: "in_size ?w < in_size w" by (simp add: in_size_def)
      from block(1) less.prems(3) have q: "\<forall>ev \<in> set evs'. quiet ev" by simp
      show ?thesis
      proof (cases "ptr_past_end c r")
        case True
        let ?c = "c\<lparr>ta := (ta c)\<lparr>req_parse_blk := p, req_parse_iter := r\<rparr>\<rparr>"
        from True block less.prems(2) have "run_all c p r w = run_all ?c p r ?w"
          by (simp add: run_all_def step recv_fill_def recv_all_run_all [of ?c])
        moreover from True have "ptr_past_end ?c r"
          by (auto simp: ptr_past_end_def past_end_def split: option.splits)
        moreover have "loop_ok ?c p r" using less.prems(1) by (auto simp: loop_ok_def split: if_splits)
        ultimately obtain res where res: "run_all c p r w = Some res"
          "verdict (parse_loop (grow (machine_of ?c p r) (data_of evs'))) n res"
          using less.hyps [of ?w ?c r p] less.prems sz q block(1) by auto
        have "map_option nobook_out (parse_loop (grow (machine_of ?c p r) (data_of evs'))) =
            map_option nobook_out (parse_loop (grow (machine_of c p r) (data_of evs')))"
          using parse_loop_nobook [of _ "grow_c ?c (data_of evs')"] parse_loop_nobook [of _ "grow_c c (data_of evs')"]
          by (simp add: machine_of_def nobook_def)
        from verdict_nobook [OF this] res block(1) show ?thesis by simp
      next
        case past: False
        with block sz q stay [of ?w evs'] show ?thesis by (simp add: recv_fill_def)
      qed
    next
      case (bytes bs evs')
      let ?w = "w\<lparr>os_in := evs'\<rparr>"
      from bytes(1,2) have sz: "in_size ?w < in_size w" by (auto intro: in_size_read)
      from bytes(1,2) have go: "recv_fill c p r w = (Go (grow_c c bs), ?w)"
        by (cases bs) (simp_all add: recv_fill_def)
      from bytes less.prems(1) k have "loop_ok (grow_c c bs) p r" by (intro loop_ok_grow) auto
      from run_all_round [OF less.prems(1,2) go this, of n] less.hyps [of ?w _ "Some _" "Some _"]
        less.prems bytes sz show ?thesis by simp
    qed
  qed
qed

text \<open>
  However the bytes arrive, in pieces of any size and with pauses anywhere, the call ends
  with what one run of the parser over all of them gives.
\<close>

theorem recv_all_verdict:
  assumes "recv_ok c" "state (ta c) = HTTP_STATE_READ" "\<forall>ev \<in> set (os_in w). quiet ev" "os_in w \<noteq> []"
    and "length (req_headers c) + length (data_of (os_in w)) \<le> HTTP_BUFSZ"
  shows "\<exists>res. recv_all c w = Some res \<and>
    verdict (parse_loop (grow (machine_of c (req_parse_blk (ta c)) (req_parse_iter (ta c)))
      (data_of (os_in w)))) (length (req_headers c) + length (data_of (os_in w))) res"
  using assms unfolding recv_all_run_all recv_ok_def by (intro run_all_verdict) auto

text \<open>What the whole reception promises is what a single call does.\<close>

lemma recv_all_post:
  "recv_ok c \<Longrightarrow> state (ta c) = HTTP_STATE_READ \<Longrightarrow>
   \<exists>rc c' w'. recv_all c w = Some (rc, c', w') \<and> recv_post c (rc, c', w') \<and> (rc = 0 \<longrightarrow> state (ta c') \<noteq> HTTP_STATE_READ)"
proof (induction c w rule: recv_all.induct)
  case (1 c w)
  from recv_request_safe [OF "1.prems", of w] obtain rc c1 w1 where
    k: "kitserv_http_recv_request c w = Some (rc, c1, w1)" "recv_post c (rc, c1, w1)" by auto
  show ?case
  proof (cases "rc = 0 \<and> state (ta c1) = HTTP_STATE_READ")
    case True
    with k(2) have c1: "recv_ok c1" "resp_part c1 = resp_part c" by auto
    from "1.IH" [OF k(1) refl refl True c1(1)] True obtain rc' c' w' where
      i: "recv_all c1 w1 = Some (rc', c', w')" "recv_post c1 (rc', c', w')" "rc' = 0 \<longrightarrow> state (ta c') \<noteq> HTTP_STATE_READ" by blast
    have "recv_all c w = Some (rc', c', w')" using True k(1) i(1) by (simp add: recv_all.simps [of c w])
    with i(3) recv_post_frame [OF c1(2) i(2)] show ?thesis by blast
  next
    case False
    then have "recv_all c w = Some (rc, c1, w1)" using k(1) by (cases "rc = 0") (simp_all add: recv_all.simps [of c w])
    with k(2) False show ?thesis by blast
  qed
qed

section \<open>Properties\<close>

text \<open>A client that waits for its first request; the examples start from it.\<close>

definition fresh_client :: kitserv_client where
  "fresh_client = \<lparr>req_headers = [], req_cookies = [], resp_start = [], resp_headers = [],
     resp_body = \<lparr>b_buf = [], b_len = 0, b_max = 4096, b_block = 4096\<rparr>, ta = zero_ta, sockfd = 3\<rparr>"

lemma fresh_client_ok: "recv_ok fresh_client" "state (ta fresh_client) = HTTP_STATE_READ"
  by (simp_all add: fresh_client_def zero_ta_def recv_ok_def loop_ok_def fields_ok_def strings_ok_def path_ok_def
      request_ptrs_def past_path_def)

lemma fresh_client_simps:
  "parse_state (ta fresh_client) = HTTP_PS_NEW" "req_headers fresh_client = []"
  "req_parse_blk (ta fresh_client) = None" "req_parse_iter (ta fresh_client) = None"
  by (simp_all add: fresh_client_def zero_ta_def)

text \<open>
  C9: a call of \<open>kitserv_http_recv_request\<close> is defined for every behaviour of the peer: it
  never reads or writes outside the bytes received, and ends by waiting for more, by handing
  over a request whose strings all end inside the request and whose path passed the
  traversal check, or by failing with one of five statuses; the response and its memory
  are not touched.
\<close>

theorem recv_request_defined:
  assumes "recv_ok c" "state (ta c) = HTTP_STATE_READ"
  shows "\<exists>res. kitserv_http_recv_request c w = Some res \<and> recv_post c res"
  using assms by (rule recv_request_safe)

lemma recv_request_defined_witness:
  "\<exists>res. kitserv_http_recv_request fresh_client
       \<lparr>os_in = [Chunk ''GET /a%2'', Block, Err EACCES], os_wr = [], os_out = [], os_fds = [], os_errno = ENONE, os_log = []\<rparr> = Some res \<and>
     recv_post fresh_client res"
  by (rule recv_request_defined) (fact fresh_client_ok)+

text \<open>
  C8: however the bytes of a request arrive, in pieces of any size and with pauses anywhere,
  the receiving calls end with what a single run of the parser over all the bytes gives, and
  they do end. The bytes are at most as many as the buffer takes.
\<close>

theorem recv_chunk_independent:
  assumes "recv_ok c" "state (ta c) = HTTP_STATE_READ" "\<forall>ev \<in> set (os_in w). quiet ev" "os_in w \<noteq> []"
    and "length (req_headers c) + length (data_of (os_in w)) \<le> HTTP_BUFSZ"
  shows "\<exists>res. recv_all c w = Some res \<and>
    verdict (parse_loop (grow (machine_of c (req_parse_blk (ta c)) (req_parse_iter (ta c)))
      (data_of (os_in w)))) (length (req_headers c) + length (data_of (os_in w))) res"
  using assms by (rule recv_all_verdict)

lemma recv_chunk_independent_witness:
  defines "w \<equiv> \<lparr>os_in = [Chunk ''GE'', Block, Chunk ''T / HTTP/1.1'', Chunk (CRLF @ CRLF)], os_wr = [], os_out = [],
     os_fds = [], os_errno = ENONE, os_log = []\<rparr>"
  shows "\<exists>res. recv_all fresh_client w = Some res \<and>
    verdict (parse_loop (grow (machine_of fresh_client (req_parse_blk (ta fresh_client)) (req_parse_iter (ta fresh_client)))
      (data_of (os_in w)))) (length (req_headers fresh_client) + length (data_of (os_in w))) res"
  by (rule recv_chunk_independent [OF fresh_client_ok]) (simp_all add: w_def fresh_client_simps HTTP_BUFSZ_def)

end
