(* ===== verification/Http_Headers.thy ===== *)
theory Http_Headers
  imports Http_Util
begin

text \<open>
  Response headers (\<open>http_header_add_ap\<close> and the functions over it in \<^verbatim>\<open>src/http.c\<close>).
  The headers are the first \<open>iov_len\<close> bytes of \<open>resp_headers\<close>, a block of
  \<open>HTTP_BUFSZ\<close> bytes. A format with its arguments is the string it renders. \<^verbatim>\<open>errno\<close> is
  passed along, since the functions set it for the application.
\<close>

abbreviation hdr_len :: "kitserv_client \<Rightarrow> nat" where
  "hdr_len c \<equiv> iov_len (resp_buf1 (ta c))"

abbreviation hdr_set :: "kitserv_client \<Rightarrow> mem \<Rightarrow> nat \<Rightarrow> kitserv_client" where
  "hdr_set c m n \<equiv> c\<lparr>resp_headers := m, ta := (ta c)\<lparr>resp_buf1 := (resp_buf1 (ta c))\<lparr>iov_len := n\<rparr>\<rparr>\<rparr>"

definition hdr_append :: "kitserv_client \<Rightarrow> string \<Rightarrow> (int \<times> kitserv_client) ub" where
  "hdr_append c out = do {
     (rc, m, n) \<leftarrow> str_append HTTP_BUFSZ (resp_headers c) (hdr_len c) HTTP_BUFSZ out;
     Some (rc, hdr_set c m n) }"

definition header_too_large :: "kitserv_client \<Rightarrow> nat \<Rightarrow> int \<times> kitserv_client \<times> errno" where
  "header_too_large c pre_sz =
     (-1, set_status HTTP_507_INSUFFICIENT_STORAGE (hdr_set c (resp_headers c) pre_sz), ENOMEM)"

definition http_header_add_ap ::
    "kitserv_client \<Rightarrow> errno \<Rightarrow> string \<Rightarrow> string \<Rightarrow> (int \<times> kitserv_client \<times> errno) ub" where
  "http_header_add_ap c e name value = do {
     let pre_sz = hdr_len c;
     (rc, c) \<leftarrow> hdr_append c (name @ '': '');
     if rc \<noteq> 0 then Some (header_too_large c pre_sz)
     else do {
       (rc, c) \<leftarrow> hdr_append c value;
       if rc \<noteq> 0 then Some (header_too_large c pre_sz)
       else do {
         (rc, c) \<leftarrow> hdr_append c CRLF;
         if rc \<noteq> 0 then Some (header_too_large c pre_sz)
         else Some (0, c, e) } } }"

definition kitserv_http_header_add ::
    "kitserv_client \<Rightarrow> errno \<Rightarrow> string \<Rightarrow> string \<Rightarrow> (int \<times> kitserv_client \<times> errno) ub" where
  "kitserv_http_header_add c e name value = http_header_add_ap c e name value"

definition kitserv_http_header_add_content_type ::
    "kitserv_client \<Rightarrow> errno \<Rightarrow> string \<Rightarrow> (int \<times> kitserv_client \<times> errno) ub" where
  "kitserv_http_header_add_content_type c e mime = kitserv_http_header_add c e ''content-type'' mime"

definition kitserv_http_header_add_content_type_guess ::
    "kitserv_client \<Rightarrow> errno \<Rightarrow> string option \<Rightarrow> (int \<times> kitserv_client \<times> errno) ub" where
  "kitserv_http_header_add_content_type_guess c e extension =
     kitserv_http_header_add c e ''content-type'' (guess_mime_type extension)"

text \<open>
  \<open>date t\<close> is what \<^verbatim>\<open>gmtime_r\<close> and \<^verbatim>\<open>strftime\<close> make of \<open>t\<close> in a buffer of 32 bytes:
  \<^term>\<open>None\<close> where one of them fails.
\<close>

definition kitserv_http_header_add_last_modified ::
    "(int \<Rightarrow> string option) \<Rightarrow> kitserv_client \<Rightarrow> errno \<Rightarrow> int \<Rightarrow> (int \<times> kitserv_client \<times> errno) ub" where
  "kitserv_http_header_add_last_modified date c e time =
     (case date time of
        None \<Rightarrow> Some (-1, c, e)
      | Some buf \<Rightarrow> kitserv_http_header_add c e ''last-modified'' buf)"

definition http_header_add_content_range ::
    "kitserv_client \<Rightarrow> errno \<Rightarrow> int \<Rightarrow> int \<Rightarrow> int \<Rightarrow> (int \<times> kitserv_client \<times> errno) ub" where
  "http_header_add_content_range c e first to filesize =
     kitserv_http_header_add c e ''content-range''
       (''bytes '' @ dec_int first @ ''-'' @ dec_int to @ ''/'' @ dec_int filesize)"

definition http_header_add_content_length ::
    "kitserv_client \<Rightarrow> errno \<Rightarrow> int \<Rightarrow> (int \<times> kitserv_client \<times> errno) ub" where
  "http_header_add_content_length c e len = kitserv_http_header_add c e ''content-length'' (dec_int len)"

definition ALLOW_BODY_MAX :: nat where
  "ALLOW_BODY_MAX = length ''GET, PUT, HEAD, POST, DELETE, '' + 1"

text \<open>One \<^verbatim>\<open>len += snprintf(&allow_body[len], ALLOW_BODY_MAX - len, ...)\<close>, under its flag.\<close>

definition allow_method :: "http_method \<Rightarrow> http_method \<Rightarrow> string \<Rightarrow> mem \<times> nat \<Rightarrow> (mem \<times> nat) ub" where
  "allow_method flags flag out st =
     (if flags AND flag \<noteq> 0 then do {
        m \<leftarrow> vsnprintf_at ALLOW_BODY_MAX (fst st) (snd st) (size_t_of (int ALLOW_BODY_MAX - int (snd st))) out;
        Some (m, snd st + length out) }
      else Some st)"

text \<open>\<^verbatim>\<open>assert(len > 2)\<close>: without any of the four flags the program aborts, \<^term>\<open>None\<close> here.\<close>

definition http_header_add_allow :: "kitserv_client \<Rightarrow> errno \<Rightarrow> (int \<times> kitserv_client \<times> errno) ub" where
  "http_header_add_allow c e =
     (let flags = api_allow_flags (ta c) in
      if flags \<noteq> 0 then do {
        st \<leftarrow> allow_method flags HTTP_GET ''GET, HEAD, '' ([], 0);
        st \<leftarrow> allow_method flags HTTP_PUT ''PUT, '' st;
        st \<leftarrow> allow_method flags HTTP_POST ''POST, '' st;
        (m, len) \<leftarrow> allow_method flags HTTP_DELETE ''DELETE, '' st;
        if len > 2 then do {
          m \<leftarrow> poke m (len - 2) NUL;
          allow_body \<leftarrow> cstr m 0;
          kitserv_http_header_add c e ''allow'' allow_body }
        else None }
      else kitserv_http_header_add c e ''allow'' ''GET, HEAD'')"

section \<open>Adding a header is atomic\<close>

definition hdr_ok :: "kitserv_client \<Rightarrow> bool" where
  "hdr_ok c \<longleftrightarrow> hdr_len c \<le> length (resp_headers c) \<and> hdr_len c \<le> HTTP_BUFSZ"

definition hdr_content :: "kitserv_client \<Rightarrow> string" where
  "hdr_content c = take (hdr_len c) (resp_headers c)"

definition hdr_room :: "kitserv_client \<Rightarrow> nat" where
  "hdr_room c = HTTP_BUFSZ - hdr_len c"

lemma hdr_append_cases:
  assumes ok: "hdr_ok c"
  obtains (fits) m where "length out < hdr_room c"
      "hdr_append c out = Some (0, hdr_set c m (hdr_len c + length out))"
      "take (hdr_len c + length out) m = hdr_content c @ out" "hdr_ok (hdr_set c m (hdr_len c + length out))"
    | (full) m where "hdr_room c \<le> length out" "hdr_append c out = Some (-1, hdr_set c m (hdr_len c))"
      "take (hdr_len c) m = hdr_content c" "hdr_ok (hdr_set c m (hdr_len c))"
proof -
  have b: "hdr_len c \<le> length (resp_headers c)" "hdr_len c \<le> HTTP_BUFSZ" using ok by (simp_all add: hdr_ok_def)
  have "HTTP_BUFSZ < 2 ^ 63" by (simp add: HTTP_BUFSZ_def)
  from str_append_cases [OF b order_refl this, of out] show thesis
  proof (elim disjE conjE exE)
    assume l: "length out < HTTP_BUFSZ - hdr_len c"
      and s: "str_append HTTP_BUFSZ (resp_headers c) (hdr_len c) HTTP_BUFSZ out =
        Some (0, mem_write (resp_headers c) (hdr_len c) (out @ [NUL]), hdr_len c + length out)"
    let ?m = "mem_write (resp_headers c) (hdr_len c) (out @ [NUL])"
    have t: "take (hdr_len c + length out) ?m = hdr_content c @ out"
      using b by (simp add: mem_write_def hdr_content_def)
    have lm: "hdr_len c + length out \<le> length ?m" using b by (simp add: length_mem_write)
    have h: "hdr_append c out = Some (0, hdr_set c ?m (hdr_len c + length out))" using s by (simp add: hdr_append_def)
    show thesis by (rule fits [OF _ h t]) (use l lm in \<open>simp_all add: hdr_room_def hdr_ok_def\<close>)
  next
    fix m assume l: "HTTP_BUFSZ - hdr_len c \<le> length out"
      and s: "str_append HTTP_BUFSZ (resp_headers c) (hdr_len c) HTTP_BUFSZ out = Some (-1, m, hdr_len c)"
      and m: "hdr_len c \<le> length m" "take (hdr_len c) m = take (hdr_len c) (resp_headers c)"
    have h: "hdr_append c out = Some (-1, hdr_set c m (hdr_len c))" using s by (simp add: hdr_append_def)
    show thesis by (rule full [OF _ h]) (use l m b in \<open>simp_all add: hdr_room_def hdr_ok_def hdr_content_def\<close>)
  qed
qed

text \<open>The header block is a sink.\<close>

definition hdr_put :: "kitserv_client \<Rightarrow> string \<Rightarrow> kitserv_client option" where
  "hdr_put c w = (case hdr_append c w of Some (rc, c') \<Rightarrow> if rc = 0 then Some c' else None | None \<Rightarrow> None)"

interpretation hdr: sink hdr_ok hdr_content hdr_room hdr_put
proof
  fix c and w :: string assume "hdr_ok c" "length w < hdr_room c"
  then show "\<exists>c'. hdr_put c w = Some c' \<and> hdr_ok c' \<and> hdr_content c' = hdr_content c @ w \<and>
      hdr_room c' = hdr_room c - length w"
    by (cases rule: hdr_append_cases [of c w]) (auto simp: hdr_put_def hdr_content_def hdr_room_def)
qed

text \<open>The response body is one as well.\<close>

definition body_put :: "(nat \<Rightarrow> bool) \<Rightarrow> buffer \<Rightarrow> string \<Rightarrow> buffer option" where
  "body_put ok b w = (case kitserv_buffer_append ok b w (int (length w)) of
     Some (rc, b') \<Rightarrow> if rc = 0 then Some b' else None | None \<Rightarrow> None)"

interpretation body: sink buffer_ok contents "\<lambda>b. nat (b_max b - b_len b)" "body_put ok" for ok
proof
  fix b and w :: string assume ok: "buffer_ok b" and l: "length w < nat (b_max b - b_len b)"
  then have "b_len b + int (length w) < b_max b" by simp
  from buffer_append_fits [OF ok this, of ok] show "\<exists>b'. body_put ok b w = Some b' \<and> buffer_ok b' \<and>
      contents b' = contents b @ w \<and> nat (b_max b' - b_len b') = nat (b_max b - b_len b) - length w"
    by (auto simp: body_put_def)
qed

text \<open>
  A header line that fits is appended as a whole; one that does not leaves the headers as
  they were, with status 507 and \<open>ENOMEM\<close>.
\<close>

lemma hdr_set_set [simp]: "hdr_set (hdr_set c m n) m' n' = hdr_set c m' n'"
  by simp

lemma header_add_cases:
  fixes nm v :: string
  assumes ok: "hdr_ok c"
  defines "line \<equiv> nm @ '': '' @ v @ CRLF"
  shows "(length line < hdr_room c \<and> (\<exists>m. kitserv_http_header_add c e nm v =
            Some (0, hdr_set c m (hdr_len c + length line), e) \<and>
            hdr_content (hdr_set c m (hdr_len c + length line)) = hdr_content c @ line \<and>
            hdr_ok (hdr_set c m (hdr_len c + length line)))) \<or>
    (hdr_room c \<le> length line \<and> (\<exists>m. kitserv_http_header_add c e nm v =
            Some (-1, set_status HTTP_507_INSUFFICIENT_STORAGE (hdr_set c m (hdr_len c)), ENOMEM) \<and>
            hdr_content (hdr_set c m (hdr_len c)) = hdr_content c \<and> hdr_ok (hdr_set c m (hdr_len c))))"
proof -
  note unf = kitserv_http_header_add_def http_header_add_ap_def header_too_large_def Let_def
  have fail: "?thesis" if "kitserv_http_header_add c e nm v =
      Some (-1, set_status HTTP_507_INSUFFICIENT_STORAGE (hdr_set c m (hdr_len c)), ENOMEM)"
    "take (hdr_len c) m = hdr_content c" "hdr_ok (hdr_set c m (hdr_len c))" "hdr_room c \<le> length line" for m
    using that by (auto simp: hdr_content_def)
  have below: "take (hdr_len c) m = hdr_content c" if "take (hdr_len c + k) m = hdr_content c @ w" for k m w
  proof -
    have "take (hdr_len c) (take (hdr_len c + k) m) = take (hdr_len c) (hdr_content c @ w)" using that by simp
    moreover have "length (hdr_content c) = hdr_len c" using ok by (simp add: hdr_content_def hdr_ok_def)
    ultimately show ?thesis by (simp add: min_def)
  qed
  from ok show ?thesis
  proof (cases rule: hdr_append_cases [of c "nm @ '': ''"])
    case (full m)
    with fail [of m] show ?thesis by (simp add: unf line_def)
  next
    case (fits m)
    let ?c1 = "hdr_set c m (hdr_len c + length (nm @ '': ''))"
    from fits(4) show ?thesis
    proof (cases rule: hdr_append_cases [of ?c1 v])
      case (full m')
      have "take (hdr_len c) m' = hdr_content c"
        using full(3) fits(3) by (intro below [where k = "length (nm @ '': '')" and w = "nm @ '': ''"]) (simp add: hdr_content_def)
      moreover have "hdr_ok (hdr_set c m' (hdr_len c))" using full(4) by (simp add: hdr_ok_def)
      ultimately show ?thesis using fail [of m'] full(1,2) fits(1,2) by (simp add: unf line_def hdr_room_def)
    next
      case fits2: (fits m')
      let ?c2 = "hdr_set c m' (hdr_len c + length (nm @ '': '' @ v))"
      have c2: "hdr_ok ?c2" "hdr_content ?c2 = hdr_content c @ nm @ '': '' @ v"
        using fits2(3,4) fits(3) by (simp_all add: hdr_content_def add.assoc)
      have s2: "hdr_append ?c1 v = Some (0, ?c2)" using fits2(2) by (simp add: add.assoc)
      from c2(1) show ?thesis
      proof (cases rule: hdr_append_cases [of ?c2 CRLF])
        case (full m'')
        have "take (hdr_len c) m'' = hdr_content c"
          using full(3) c2(2) by (intro below [where k = "length (nm @ '': '' @ v)" and w = "nm @ '': '' @ v"]) simp
        moreover have "hdr_ok (hdr_set c m'' (hdr_len c))" using full(4) by (simp add: hdr_ok_def)
        ultimately show ?thesis using fail [of m''] full(1,2) fits(1,2) s2 fits2(1)
          by (simp add: unf line_def hdr_room_def)
      next
        case fits3: (fits m'')
        have "kitserv_http_header_add c e nm v = Some (0, hdr_set c m'' (hdr_len c + length line), e)"
          using fits(2) s2 fits3(2) by (simp add: unf line_def add.assoc)
        moreover have "hdr_content (hdr_set c m'' (hdr_len c + length line)) = hdr_content c @ line"
          using fits3(3) c2(2) by (simp add: hdr_content_def line_def)
        moreover have "hdr_ok (hdr_set c m'' (hdr_len c + length line))" using fits3(4) by (simp add: line_def)
        moreover have "length line < hdr_room c" using fits(1) fits2(1) fits3(1) by (simp add: hdr_room_def line_def)
        ultimately show ?thesis by blast
      qed
    qed
  qed
qed

text \<open>The same without the arithmetic.\<close>

lemma header_add_total:
  assumes "hdr_ok c"
  shows "(\<exists>m n. kitserv_http_header_add c e nm v = Some (0, hdr_set c m n, e) \<and> hdr_ok (hdr_set c m n) \<and>
      hdr_content (hdr_set c m n) = hdr_content c @ nm @ '': '' @ v @ CRLF) \<or>
    (\<exists>m n. kitserv_http_header_add c e nm v =
      Some (-1, set_status HTTP_507_INSUFFICIENT_STORAGE (hdr_set c m n), ENOMEM) \<and> hdr_ok (hdr_set c m n) \<and>
      hdr_content (hdr_set c m n) = hdr_content c)"
  using header_add_cases [OF assms, of nm v e] by blast

lemma hdr_ok_ta [simp]:
  "resp_buf1 t = resp_buf1 (ta c) \<Longrightarrow> hdr_ok (c\<lparr>ta := t\<rparr>) = hdr_ok c"
  by (simp add: hdr_ok_def)

section \<open>The allow header\<close>

text \<open>The methods an \<open>allow\<close> header names, for the flags of an endpoint.\<close>

definition allow_list :: "http_method \<Rightarrow> string list" where
  "allow_list flags =
     (if flags AND HTTP_GET \<noteq> 0 then [''GET, HEAD''] else []) @
     (if flags AND HTTP_PUT \<noteq> 0 then [''PUT''] else []) @
     (if flags AND HTTP_POST \<noteq> 0 then [''POST''] else []) @
     (if flags AND HTTP_DELETE \<noteq> 0 then [''DELETE''] else [])"

fun join :: "string \<Rightarrow> string list \<Rightarrow> string" where
  "join sep [] = []"
| "join sep [x] = x"
| "join sep (x # xs) = x @ sep @ join sep xs"

text \<open>The body fits its buffer for every set of flags, so that no method is cut off.\<close>

lemma allow_header_complete:
  assumes "allow_list (api_allow_flags (ta c)) \<noteq> []"
  shows "http_header_add_allow c e =
    kitserv_http_header_add c e ''allow'' (join '', '' (allow_list (api_allow_flags (ta c))))"
proof -
  have [simp]: "(0 :: http_method) AND x = 0" for x by simp
  have "api_allow_flags (ta c) \<noteq> 0" using assms by (auto simp: allow_list_def)
  with assms show ?thesis
    by (cases "api_allow_flags (ta c) AND HTTP_GET = 0"; cases "api_allow_flags (ta c) AND HTTP_PUT = 0";
        cases "api_allow_flags (ta c) AND HTTP_POST = 0"; cases "api_allow_flags (ta c) AND HTTP_DELETE = 0")
      (simp_all add: http_header_add_allow_def allow_method_def allow_list_def ALLOW_BODY_MAX_def
        vsnprintf_at_def memcpy_at_def mem_write_def poke_def cstr_def)
qed

section \<open>Properties\<close>

text \<open>
  C25: adding a header is atomic: the line is appended as a whole when it fits with its
  terminator, and otherwise the headers are as they were, with status 507 and \<open>ENOMEM\<close>.
\<close>

theorem header_add_atomic:
  assumes "hdr_ok c"
  shows "\<exists>rc c' e'. kitserv_http_header_add c e nm v = Some (rc, c', e') \<and> hdr_ok c' \<and>
    (if length (nm @ '': '' @ v @ CRLF) < hdr_room c
     then rc = 0 \<and> hdr_content c' = hdr_content c @ nm @ '': '' @ v @ CRLF \<and> resp_status (ta c') = resp_status (ta c) \<and> e' = e
     else rc = -1 \<and> hdr_content c' = hdr_content c \<and> resp_status (ta c') = HTTP_507_INSUFFICIENT_STORAGE \<and> e' = ENOMEM)"
  using header_add_cases [OF assms, of nm v e] by (elim disjE conjE exE) (simp_all add: hdr_ok_def hdr_content_def)

lemma header_add_atomic_witness:
  defines "c \<equiv> \<lparr>req_headers = [], req_cookies = [], resp_start = [], resp_headers = ''a: b'' @ CRLF,
     resp_body = \<lparr>b_buf = [], b_len = 0, b_max = 4096, b_block = 4096\<rparr>,
     ta = zero_ta\<lparr>resp_buf1 := \<lparr>iov_base = 0, iov_len = 6\<rparr>\<rparr>, sockfd = 3\<rparr>"
  shows "\<exists>rc c' e'. kitserv_http_header_add c ENONE ''x'' ''y'' = Some (rc, c', e') \<and> hdr_ok c' \<and>
    (if length (''x'' @ '': '' @ ''y'' @ CRLF) < hdr_room c
     then rc = 0 \<and> hdr_content c' = hdr_content c @ ''x'' @ '': '' @ ''y'' @ CRLF \<and> resp_status (ta c') = resp_status (ta c) \<and> e' = ENONE
     else rc = -1 \<and> hdr_content c' = hdr_content c \<and> resp_status (ta c') = HTTP_507_INSUFFICIENT_STORAGE \<and> e' = ENOMEM)"
  by (rule header_add_atomic) (simp add: c_def hdr_ok_def HTTP_BUFSZ_def)

text \<open>
  The \<open>allow\<close> header of a 405 response names exactly the methods of the endpoint's flags,
  separated by commas, for every combination of flags: its stack buffer is never too small.
\<close>

theorem allow_header_exact:
  assumes "allow_list (api_allow_flags (ta c)) \<noteq> []"
  shows "http_header_add_allow c e =
    kitserv_http_header_add c e ''allow'' (join '', '' (allow_list (api_allow_flags (ta c))))"
  using assms by (rule allow_header_complete)

lemma allow_header_exact_witness:
  defines "c \<equiv> \<lparr>req_headers = [], req_cookies = [], resp_start = [], resp_headers = [],
     resp_body = \<lparr>b_buf = [], b_len = 0, b_max = 4096, b_block = 4096\<rparr>, ta = zero_ta\<lparr>api_allow_flags := 27\<rparr>, sockfd = 3\<rparr>"
  shows "http_header_add_allow c ENONE = kitserv_http_header_add c ENONE ''allow'' ''GET, HEAD, PUT, POST, DELETE''"
  using allow_header_exact [of c ENONE] by (simp add: c_def allow_list_def)

end
