(* ===== verification/Http_Range.thy ===== *)
theory Http_Range
  imports Http_Util
begin

text \<open>
  Range requests (\<open>kitserv_http_parse_range\<close> and \<open>parse_range_request\<close> of
  \<^verbatim>\<open>src/http.c\<close>). The parser works in the request buffer: it caps off the first number
  with a NUL at the hyphen and puts the hyphen back. \<open>range_spec\<close> is the grammar of the
  header value it accepts, as a function of the string.
\<close>

text \<open>\<^verbatim>\<open>!strncmp(p, t, strlen(t))\<close>: the comparison stops at the first difference.\<close>

fun strncmp_eq :: "mem \<Rightarrow> nat \<Rightarrow> string \<Rightarrow> bool ub" where
  "strncmp_eq m p [] = Some True"
| "strncmp_eq m p (c # cs) = do {
     x \<leftarrow> peek m p;
     if x \<noteq> c then Some False else strncmp_eq m (p + 1) cs }"

text \<open>The loop that looks for the hyphen: \<open>Some None\<close> is \<^verbatim>\<open>return -1\<close>.\<close>

function range_scan :: "mem \<Rightarrow> nat \<Rightarrow> nat option \<Rightarrow> nat option option ub" where
  "range_scan m r hyphen =
     (if r < length m then
        let c = m ! r in
        if c = NUL then Some (Some hyphen)
        else if \<not> isdigit c then
          (if c = CHR ''-'' then
             (if hyphen \<noteq> None then Some None else range_scan m (r + 1) (Some r))
           else Some None)
        else range_scan m (r + 1) hyphen
      else None)"
  by pat_completeness auto
termination by (relation "measure (\<lambda>(m, r, h). length m - r)") auto

declare range_scan.simps [simp del]

text \<open>
  The two numbers around the hyphen. \<open>None\<close> in the second component is the result -1,
  which writes no output.
\<close>

definition range_parts :: "kitserv_client \<Rightarrow> nat \<Rightarrow> nat \<Rightarrow> (kitserv_client \<times> (int \<times> int) option) ub" where
  "range_parts c p hyphen = do {
     nxt \<leftarrow> peek (req_headers c) (hyphen + 1);
     let q = (if nxt \<noteq> NUL then Some (hyphen + 1) else None);
     if p \<noteq> hyphen then do {
       m \<leftarrow> poke (req_headers c) hyphen NUL;
       s \<leftarrow> cstr m p;
       t \<leftarrow> (case q of None \<Rightarrow> Some [] | Some q \<Rightarrow> cstr m q);
       m \<leftarrow> poke m hyphen (CHR ''-'');
       let c = c\<lparr>req_headers := m\<rparr>;
       let (rc, from) = strtonum s;
       if rc \<noteq> 0 then Some (c, None)
       else (case q of
           Some _ \<Rightarrow>
             (let (rc, to) = strtonum t in
              if rc \<noteq> 0 then Some (c, None)
              else if to < from then Some (c, None)
              else Some (c, Some (from, to)))
         | None \<Rightarrow> Some (c, Some (from, -1))) }
     else (case q of
         Some q \<Rightarrow> do {
           t \<leftarrow> cstr (req_headers c) q;
           m \<leftarrow> poke (req_headers c) hyphen (CHR ''-'');
           let (rc, to) = strtonum t;
           Some (c\<lparr>req_headers := m\<rparr>, if rc \<noteq> 0 then None else Some (-1, to)) }
       | None \<Rightarrow> do { m \<leftarrow> poke (req_headers c) hyphen (CHR ''-''); Some (c\<lparr>req_headers := m\<rparr>, None) }) }"

definition kitserv_http_parse_range :: "kitserv_client \<Rightarrow> (kitserv_client \<times> (int \<times> int) option) ub" where
  "kitserv_http_parse_range c =
     (if \<not> range_requested (ta c) then Some (c, None)
      else do {
        p \<leftarrow> req_range (ta c);
        pre \<leftarrow> strncmp_eq (req_headers c) p ''bytes='';
        if \<not> pre then Some (c, None)
        else do {
          found \<leftarrow> range_scan (req_headers c) (p + 6) None;
          (case found of
             None \<Rightarrow> Some (c, None)
           | Some None \<Rightarrow> Some (c, None)
           | Some (Some hyphen) \<Rightarrow> range_parts c (p + 6) hyphen) } })"

definition parse_range_request :: "kitserv_client \<Rightarrow> int \<Rightarrow> (int \<times> kitserv_client) ub" where
  "parse_range_request c filesize = do {
     (c, res) \<leftarrow> kitserv_http_parse_range c;
     (case res of
        None \<Rightarrow> Some (-1, set_status HTTP_400_BAD_REQUEST c)
      | Some (from, to) \<Rightarrow>
          let to = (if to < 0 \<or> to > filesize - 1 then filesize - 1 else to) in
          if from < 0 then
            Some (0, c\<lparr>ta := (ta c)\<lparr>resp_body_pos := filesize - to, resp_body_end := filesize - 1\<rparr>\<rparr>)
          else if from > filesize then
            Some (-1, set_status HTTP_416_RANGE_NOT_SATISFIABLE c)
          else Some (0, c\<lparr>ta := (ta c)\<lparr>resp_body_pos := from, resp_body_end := to\<rparr>\<rparr>)) }"

section \<open>The accepted grammar\<close>

definition num :: "string \<Rightarrow> int option" where
  "num ds = (if digits_val ds < 2 ^ 63 then Some (int (digits_val ds)) else None)"

definition range_value :: "string \<Rightarrow> string \<Rightarrow> (int \<times> int) option" where
  "range_value a z =
     (if a = [] then (if z = [] then None else map_option (Pair (-1)) (num z))
      else (case num a of
          None \<Rightarrow> None
        | Some f \<Rightarrow>
            if z = [] then Some (f, -1)
            else (case num z of None \<Rightarrow> None | Some t \<Rightarrow> if t < f then None else Some (f, t))))"

definition range_spec :: "string \<Rightarrow> (int \<times> int) option" where
  "range_spec s =
     (if take 6 s \<noteq> ''bytes='' then None
      else (case dropWhile isdigit (drop 6 s) of
          [] \<Rightarrow> None
        | h # z \<Rightarrow> if h = CHR ''-'' \<and> list_all isdigit z
                   then range_value (takeWhile isdigit (drop 6 s)) z else None))"

section \<open>The parser implements the grammar\<close>

lemma strncmp_eq_cstr: "cstr m p = Some s \<Longrightarrow> NUL \<notin> set t \<Longrightarrow> strncmp_eq m p t = Some (take (length t) s = t)"
proof (induction t arbitrary: p s)
  case (Cons c t)
  from Cons.prems(1) have p: "p < length m" by (simp add: cstr_Cons_iff [of m p])
  show ?case
  proof (cases "m ! p = NUL")
    case True
    with Cons.prems p show ?thesis by (auto simp: cstr_Cons_iff [of m p] peek_def)
  next
    case False
    with Cons.prems(1) p obtain s' where "s = m ! p # s'" "cstr m (p + 1) = Some s'"
      by (auto simp: cstr_Cons_iff [of m p])
    with Cons p show ?thesis by (auto simp: peek_def)
  qed
qed simp

lemma isdigit_NUL [simp]: "\<not> isdigit NUL" "\<not> isdigit (CHR ''-'')"
  by (simp_all add: isdigit_def)

text \<open>What the scan finds, in terms of the string it scans.\<close>

lemma range_scan_cstr:
  "cstr m r = Some b \<Longrightarrow> range_scan m r h = Some
     (case dropWhile isdigit b of
        [] \<Rightarrow> Some h
      | x # z \<Rightarrow> (if x = CHR ''-'' \<and> h = None \<and> list_all isdigit z
                  then Some (Some (r + length (takeWhile isdigit b))) else None))"
proof (induction m r h arbitrary: b rule: range_scan.induct)
  case (1 m r h)
  from "1.prems" have r: "r < length m" by (simp add: cstr_Cons_iff [of m r])
  note step = range_scan.simps [of m r h]
  show ?case
  proof (cases "m ! r = NUL")
    case True
    with "1.prems" r show ?thesis by (auto simp: step cstr_Cons_iff [of m r])
  next
    case False
    with "1.prems" r obtain b' where b: "b = m ! r # b'" "cstr m (r + 1) = Some b'"
      by (auto simp: cstr_Cons_iff [of m r])
    show ?thesis
    proof (cases "isdigit (m ! r)")
      case True
      with "1.IH"(2) [OF r refl False _ b(2)] r False b(1) show ?thesis
        by (simp add: step cong: list.case_cong if_cong)
    next
      case nd: False
      show ?thesis
      proof (cases "m ! r = CHR ''-'' \<and> h = None")
        case True
        have all: "list_all isdigit b' \<longleftrightarrow> dropWhile isdigit b' = []"
          by (simp add: list_all_iff dropWhile_eq_Nil_conv)
        from "1.IH"(1) [OF r refl False nd _ _ b(2)] True have
          "range_scan m (r + 1) (Some r) = Some (case dropWhile isdigit b' of [] \<Rightarrow> Some (Some r) | x # z \<Rightarrow> None)"
          by (cases "dropWhile isdigit b'") (simp_all del: dropWhile_eq_Nil_conv)
        with r False nd True b(1) all show ?thesis
          by (cases "dropWhile isdigit b'") (simp_all add: range_scan.simps [of m r None] del: dropWhile_eq_Nil_conv)
      next
        case False
        with r \<open>m ! r \<noteq> NUL\<close> nd b(1) show ?thesis by (auto simp: step)
      qed
    qed
  qed
qed

lemma strtonum_num:
  assumes "ds \<noteq> []" "list_all isdigit ds"
  shows "(case strtonum ds of (rc, v) \<Rightarrow> if rc \<noteq> 0 then None else Some v) = num ds"
  using strtonum_digits [of ds] assms by (auto simp: num_def list_all_iff)

lemma strtonum_num_cases:
  assumes "ds \<noteq> []" "list_all isdigit ds"
  shows "num ds = None \<and> fst (strtonum ds) \<noteq> 0 \<or> (\<exists>v. num ds = Some v \<and> strtonum ds = (0, v))"
  using strtonum_num [OF assms] by (cases "strtonum ds") (auto split: if_splits)

lemma range_parts_value:
  assumes b: "cstr (req_headers c) p = Some (a @ CHR ''-'' # z)" and d: "list_all isdigit a" "list_all isdigit z"
  shows "range_parts c p (p + length a) = Some (c, range_value a z)"
proof -
  let ?m = "req_headers c"
  note sp = cstr_split [OF b]
  have nx: "peek ?m (p + length a + 1) = Some (if z = [] then NUL else hd z)" using cstr_next [OF sp(3)] .
  have hz: "z \<noteq> [] \<Longrightarrow> hd z \<noteq> NUL" using d(2) by (cases z) auto
  have sp2: "?m[p + length a := CHR ''-''] = ?m" using sp(1,2) by (metis list_update_id)
  have ca: "c\<lparr>req_headers := ?m\<rparr> = c" by simp
  note unf = range_parts_def nx sp(1,3,4,6) poke_def sp2 ca Let_def range_value_def
  have zs: "z \<noteq> [] \<Longrightarrow> (num z = None \<and> fst (strtonum z) \<noteq> 0) \<or> (\<exists>v. num z = Some v \<and> strtonum z = (0, v))"
    using strtonum_num_cases [of z] d by blast
  show ?thesis
  proof (cases "a = []")
    case True
    with zs hz sp(1,3) nx sp2 show ?thesis
      by (cases "z = []") (auto simp: range_parts_def poke_def peek_def ca Let_def range_value_def case_prod_beta)
  next
    case False
    from strtonum_num_cases [OF False d(1)] show ?thesis
    proof (elim disjE exE conjE)
      assume "num a = None" "fst (strtonum a) \<noteq> 0"
      with False hz sp nx show ?thesis
        by (cases "z = []") (auto simp: range_parts_def poke_def peek_def ca Let_def range_value_def case_prod_beta)
    next
      fix f assume "num a = Some f" "strtonum a = (0, f)"
      with False hz sp nx zs show ?thesis
        by (cases "z = []") (auto simp: range_parts_def poke_def peek_def ca Let_def range_value_def case_prod_beta)
    qed
  qed
qed

theorem parse_range_refines:
  assumes rr: "range_requested (ta c)" "req_range (ta c) = Some p" and s: "cstr (req_headers c) p = Some s"
  shows "kitserv_http_parse_range c = Some (c, range_spec s)"
proof (cases "take 6 s = ''bytes=''")
  case False
  moreover have "strncmp_eq (req_headers c) p ''bytes='' = Some (take 6 s = ''bytes='')"
    using strncmp_eq_cstr [OF s, of "''bytes=''"] by (simp add: eval_nat_numeral)
  ultimately show ?thesis using rr
    by (simp add: kitserv_http_parse_range_def range_spec_def del: strncmp_eq.simps)
next
  case True
  let ?m = "req_headers c"
  define b a where "b = drop 6 s" and "a = takeWhile isdigit (drop 6 s)"
  have "6 \<le> length s" using arg_cong [OF True, of length] by simp
  from cstr_drop [OF s this] have b: "cstr ?m (p + 6) = Some b" by (simp add: b_def)
  have pre: "strncmp_eq ?m p ''bytes='' = Some True"
    using strncmp_eq_cstr [OF s, of "''bytes=''"] True by (simp add: eval_nat_numeral)
  note scan = range_scan_cstr [OF b, of None]
  note unf = kitserv_http_parse_range_def range_spec_def b_def [symmetric] a_def [symmetric] rr pre True
  show ?thesis
  proof (cases "dropWhile isdigit b")
    case Nil
    with scan show ?thesis by (simp add: unf del: strncmp_eq.simps dropWhile_eq_Nil_conv)
  next
    case (Cons h z)
    show ?thesis
    proof (cases "h = CHR ''-'' \<and> list_all isdigit z")
      case False
      with Cons scan show ?thesis by (auto simp: unf simp del: strncmp_eq.simps)
    next
      case ok: True
      have bs: "b = a @ CHR ''-'' # z" using ok Cons takeWhile_dropWhile_id [of isdigit b] by (simp add: a_def b_def)
      have "list_all isdigit a" unfolding a_def by (auto simp: list_all_iff dest: set_takeWhileD)
      from range_parts_value [OF b [unfolded bs] this] ok Cons scan show ?thesis
        by (simp add: unf del: strncmp_eq.simps) (simp add: a_def b_def)
    qed
  qed
qed

section \<open>Range requests against a file\<close>

lemma range_spec_dec:
  assumes "a < 2 ^ 63"
  shows "range_spec (''bytes='' @ dec_nat a @ ''-'') = Some (int a, -1)"
    and "b < 2 ^ 63 \<Longrightarrow> range_spec (''bytes='' @ dec_nat a @ ''-'' @ dec_nat b) = (if b < a then None else Some (int a, int b))"
    and "b < 2 ^ 63 \<Longrightarrow> range_spec (''bytes=-'' @ dec_nat b) = Some (-1, int b)"
proof -
  have d: "\<forall>x \<in> set (dec_nat k). isdigit x" for k using dec_nat_digits by blast
  have w: "takeWhile isdigit (dec_nat k @ CHR ''-'' # z) = dec_nat k"
    "dropWhile isdigit (dec_nat k @ CHR ''-'' # z) = CHR ''-'' # z" for k z
    using d [of k] by (simp_all add: takeWhile_append dropWhile_append)
  have n: "k < 2 ^ 63 \<Longrightarrow> num (dec_nat k) = Some (int k)" for k by (simp add: num_def)
  have l: "list_all isdigit (dec_nat k)" for k using d [of k] by (simp add: list_all_iff)
  have six: "take 6 (''bytes='' @ x) = ''bytes=''" "drop 6 (''bytes='' @ x) = x" for x :: string by simp_all
  show "range_spec (''bytes='' @ dec_nat a @ ''-'') = Some (int a, -1)"
    unfolding range_spec_def six using w [of a "[]"] n [OF assms] by (simp add: range_value_def)
  show "range_spec (''bytes='' @ dec_nat a @ ''-'' @ dec_nat b) = (if b < a then None else Some (int a, int b))"
    if "b < 2 ^ 63"
    unfolding range_spec_def six using w [of a "dec_nat b"] n [OF assms] n [OF that] l by (simp add: range_value_def)
  have "range_spec (''bytes='' @ ''-'' @ dec_nat b) = Some (-1, int b)" if "b < 2 ^ 63"
    unfolding range_spec_def six using n [OF that] l by (simp add: range_value_def)
  then show "range_spec (''bytes=-'' @ dec_nat b) = Some (-1, int b)" if "b < 2 ^ 63" using that by simp
qed

text \<open>The two shapes a parsed range can have.\<close>

lemma range_spec_cases:
  assumes "range_spec s = Some (f, t)"
  obtains (first) "0 \<le> f" "t = -1 \<or> f \<le> t" | (suffix) "f = -1" "0 \<le> t"
proof -
  have n: "num x = Some v \<Longrightarrow> 0 \<le> v" for x v by (auto simp: num_def split: if_splits)
  from assms obtain a z where "range_value a z = Some (f, t)"
    by (auto simp: range_spec_def split: if_splits list.splits)
  with first suffix n show thesis
    by (auto simp: range_value_def split: if_splits option.splits)
qed

abbreviation set_range :: "kitserv_client \<Rightarrow> int \<Rightarrow> int \<Rightarrow> kitserv_client" where
  "set_range c from to \<equiv> c\<lparr>ta := (ta c)\<lparr>resp_body_pos := from, resp_body_end := to\<rparr>\<rparr>"

lemma parse_range_request_spec:
  assumes "range_requested (ta c)" "req_range (ta c) = Some p" "cstr (req_headers c) p = Some s"
  shows "parse_range_request c n = Some (case range_spec s of
      None \<Rightarrow> (-1, set_status HTTP_400_BAD_REQUEST c)
    | Some (f, t) \<Rightarrow> let t = (if t < 0 \<or> n \<le> t then n - 1 else t) in
        if f < 0 then (0, set_range c (n - t) (n - 1))
        else if n < f then (-1, set_status HTTP_416_RANGE_NOT_SATISFIABLE c)
        else (0, set_range c f t))"
  using parse_range_refines [OF assms]
  by (auto simp: parse_range_request_def Let_def split: option.splits)

text \<open>
  A range accepted against a file that is not empty lies inside the file; it may be empty,
  starting right after the last byte.
\<close>

lemma parse_range_request_inside:
  assumes "range_requested (ta c)" "req_range (ta c) = Some p" "cstr (req_headers c) p = Some s"
    and "0 < n" and "parse_range_request c n = Some (0, c')"
  shows "c' = set_range c (resp_body_pos (ta c')) (resp_body_end (ta c')) \<and>
    0 \<le> resp_body_pos (ta c') \<and> resp_body_pos (ta c') \<le> resp_body_end (ta c') + 1 \<and>
    resp_body_end (ta c') < n"
proof -
  from assms(5) obtain f t where ft: "range_spec s = Some (f, t)"
    unfolding parse_range_request_spec [OF assms(1-3)] by (auto split: option.splits)
  from ft show ?thesis
  proof (cases rule: range_spec_cases)
    case first
    with assms(4,5) ft show ?thesis
      unfolding parse_range_request_spec [OF assms(1-3)] by (auto simp: Let_def split: if_splits)
  next
    case suffix
    with assms(4,5) ft show ?thesis
      unfolding parse_range_request_spec [OF assms(1-3)] by (auto simp: Let_def split: if_splits)
  qed
qed

lemma parse_range_request_total:
  assumes "range_requested (ta c)" "req_range (ta c) = Some p" "cstr (req_headers c) p = Some s"
  shows "(\<exists>f t. parse_range_request c n = Some (0, set_range c f t)) \<or>
    parse_range_request c n = Some (-1, set_status HTTP_400_BAD_REQUEST c) \<or>
    parse_range_request c n = Some (-1, set_status HTTP_416_RANGE_NOT_SATISFIABLE c)"
  unfolding parse_range_request_spec [OF assms] by (auto simp: Let_def split: option.splits)

section \<open>Properties\<close>

text \<open>
  C18: the range parser, which works on the request buffer in place, accepts exactly the
  grammar \<open>range_spec\<close>, returns its two numbers, and leaves the buffer as it was.
\<close>

theorem parse_range_correct:
  assumes "range_requested (ta c)" "req_range (ta c) = Some p" "cstr (req_headers c) p = Some s"
  shows "kitserv_http_parse_range c = Some (c, range_spec s)"
  using assms by (rule parse_range_refines)

definition range_client :: "string \<Rightarrow> kitserv_client" where
  "range_client s = \<lparr>req_headers = s @ [NUL], req_cookies = [], resp_start = [], resp_headers = [],
     resp_body = \<lparr>b_buf = [], b_len = 0, b_max = 4096, b_block = 4096\<rparr>,
     ta = zero_ta\<lparr>range_requested := True, req_range := Some 0\<rparr>, sockfd = 3\<rparr>"

lemma range_client_simps:
  "range_requested (ta (range_client s))" "req_range (ta (range_client s)) = Some 0"
  "NUL \<notin> set s \<Longrightarrow> cstr (req_headers (range_client s)) 0 = Some s"
  by (simp_all add: range_client_def cstr_at [of s 0 "[]" "[]", simplified])

lemma parse_range_correct_witness:
  "kitserv_http_parse_range (range_client ''bytes=5-17'') = Some (range_client ''bytes=5-17'', range_spec ''bytes=5-17'')"
  by (rule parse_range_correct [where p = 0]) (simp_all add: range_client_simps)

text \<open>Every range written in decimal is read back: \<open>bytes=A-\<close>, \<open>bytes=A-B\<close> and \<open>bytes=-B\<close>.\<close>

theorem range_roundtrip:
  assumes "a < 2 ^ 63" "b < 2 ^ 63" "a \<le> b"
  shows "kitserv_http_parse_range (range_client (''bytes='' @ dec_nat a @ ''-'')) =
      Some (range_client (''bytes='' @ dec_nat a @ ''-''), Some (int a, -1)) \<and>
    kitserv_http_parse_range (range_client (''bytes='' @ dec_nat a @ ''-'' @ dec_nat b)) =
      Some (range_client (''bytes='' @ dec_nat a @ ''-'' @ dec_nat b), Some (int a, int b)) \<and>
    kitserv_http_parse_range (range_client (''bytes=-'' @ dec_nat b)) =
      Some (range_client (''bytes=-'' @ dec_nat b), Some (-1, int b))"
proof -
  have n: "NUL \<notin> set (dec_nat k)" for k using dec_nat_digits [of NUL k] by (auto simp: isdigit_def)
  have p: "kitserv_http_parse_range (range_client s) = Some (range_client s, range_spec s)" if "NUL \<notin> set s" for s
    using parse_range_refines [OF range_client_simps(1,2) range_client_simps(3) [OF that]] .
  from range_spec_dec [OF assms(1)] range_spec_dec(2,3) [OF assms(1) assms(2)] assms(3) show ?thesis
    by (simp add: p n)
qed

lemma range_roundtrip_witness:
  "kitserv_http_parse_range (range_client (''bytes='' @ dec_nat 5 @ ''-'')) =
      Some (range_client (''bytes='' @ dec_nat 5 @ ''-''), Some (int 5, -1)) \<and>
    kitserv_http_parse_range (range_client (''bytes='' @ dec_nat 5 @ ''-'' @ dec_nat 17)) =
      Some (range_client (''bytes='' @ dec_nat 5 @ ''-'' @ dec_nat 17), Some (int 5, int 17)) \<and>
    kitserv_http_parse_range (range_client (''bytes=-'' @ dec_nat 17)) =
      Some (range_client (''bytes=-'' @ dec_nat 17), Some (-1, int 17))"
  by (rule range_roundtrip) simp_all

text \<open>
  A range that is accepted for a file that is not empty lies inside the file, whatever
  the header says: it starts at or after 0, ends before the size, and is empty only when it
  starts right after the last byte.
\<close>

theorem accepted_range_inside:
  assumes "range_requested (ta c)" "req_range (ta c) = Some p" "cstr (req_headers c) p = Some s"
    and "0 < n" "parse_range_request c n = Some (0, c')"
  shows "c' = set_range c (resp_body_pos (ta c')) (resp_body_end (ta c')) \<and> 0 \<le> resp_body_pos (ta c') \<and>
    resp_body_pos (ta c') \<le> resp_body_end (ta c') + 1 \<and> resp_body_end (ta c') < n"
  using assms by (rule parse_range_request_inside)

lemma accepted_range_inside_witness:
  defines "c \<equiv> range_client (''bytes='' @ dec_nat 5 @ ''-'' @ dec_nat 17)"
  shows "set_range c 5 9 = set_range c (resp_body_pos (ta (set_range c 5 9))) (resp_body_end (ta (set_range c 5 9))) \<and>
    0 \<le> resp_body_pos (ta (set_range c 5 9)) \<and>
    resp_body_pos (ta (set_range c 5 9)) \<le> resp_body_end (ta (set_range c 5 9)) + 1 \<and> resp_body_end (ta (set_range c 5 9)) < 10"
proof -
  have "NUL \<notin> set (dec_nat k)" for k using dec_nat_digits [of NUL k] by (auto simp: isdigit_def)
  then have c: "range_requested (ta c)" "req_range (ta c) = Some 0"
    "cstr (req_headers c) 0 = Some (''bytes='' @ dec_nat 5 @ ''-'' @ dec_nat 17)"
    unfolding c_def by (simp_all add: range_client_simps)
  have "parse_range_request c 10 = Some (0, set_range c 5 9)"
    using parse_range_request_spec [OF c, of 10] range_spec_dec(2) [of 5 17] by simp
  from accepted_range_inside [OF c _ this] show ?thesis by simp
qed

text \<open>
  A suffix range at least as long as the file (\<open>bytes=-N\<close>, where the whole file is
  meant) loses the first byte: it is served from position 1, and for an empty file the
  range ends two before its start.
\<close>

theorem long_suffix_range:
  assumes "range_requested (ta c)" "req_range (ta c) = Some p" "cstr (req_headers c) p = Some (''bytes=-'' @ dec_nat b)"
    and "b < 2 ^ 63" "n \<le> int b"
  shows "parse_range_request c n = Some (0, set_range c 1 (n - 1))"
  using parse_range_request_spec [OF assms(1-3)] range_spec_dec(3) [of 0 b] assms(4,5) by simp

lemma long_suffix_range_witness:
  "parse_range_request (range_client (''bytes=-'' @ dec_nat 0)) 0 =
     Some (0, set_range (range_client (''bytes=-'' @ dec_nat 0)) 1 (0 - 1))"
proof -
  have "NUL \<notin> set (dec_nat 0)" using dec_nat_digits [of NUL 0] by (auto simp: isdigit_def)
  then show ?thesis by (intro long_suffix_range [where p = 0 and b = 0]) (simp_all add: range_client_simps)
qed

end
