(* ===== verification/Http_Static.thy ===== *)
theory Http_Static
  imports Http_Headers Http_Range
begin

text \<open>
  Static files (\<open>verify_static_path\<close> and \<open>kitserv_http_handle_static_path\<close> of
  \<^verbatim>\<open>src/http.c\<close>). What the server is given is a parameter, in the record \<open>env\<close>: the
  configuration (\<open>default_context\<close> and \<open>api_tree\<close>), the handlers of the application,
  what \<^verbatim>\<open>stat\<close> and \<^verbatim>\<open>open\<close> return for a path, the rendering of a time as an HTTP date and
  the reading of one, which memory requests succeed, and what \<^verbatim>\<open>printf\<close> writes for a
  string that is NULL.
\<close>

record stat =
  st_isreg :: bool
  st_size :: int
  st_mtime :: int

record env =
  default_context :: kitserv_request_context
  api_tree :: "kitserv_api_tree option"
  call_handler :: "nat \<Rightarrow> nat option \<Rightarrow> kitserv_client \<Rightarrow> os \<Rightarrow> (kitserv_client \<times> os) ub"
  alloc_ok :: "nat \<Rightarrow> bool"
  stat_file :: "string \<Rightarrow> errno + stat"
  open_file :: "string \<Rightarrow> errno + int"
  date :: "int \<Rightarrow> string option"
  parse_date :: "string \<Rightarrow> int option"
  silent :: bool
  null_text :: string

abbreviation root_dir :: "kitserv_request_context \<Rightarrow> string" where
  "root_dir ctx \<equiv> the (root ctx)"

text \<open>
  The result is the \<^verbatim>\<open>struct stat\<close> on success (0), \<^term>\<open>None\<close> for -1. A successful
  \<^verbatim>\<open>stat\<close> leaves \<^verbatim>\<open>errno\<close> as it was, and the last test reads it all the same.
\<close>

definition verify_static_path ::
    "env \<Rightarrow> kitserv_client \<Rightarrow> os \<Rightarrow> int \<Rightarrow> string \<Rightarrow> stat option \<times> kitserv_client \<times> os" where
  "verify_static_path env c w assumed_pathlen path =
     (let denied = (\<lambda>c w. (None,
            if os_errno w = EACCES then set_status HTTP_403_PERMISSION_DENIED c else c, w)) in
      if assumed_pathlen < 0 \<or> assumed_pathlen \<ge> PATH_MAX then
        denied (set_status HTTP_414_URI_TOO_LONG c) (w\<lparr>os_errno := ENAMETOOLONG\<rparr>)
      else (case stat_file env path of
          Inr st \<Rightarrow> if st_isreg st then (Some st, c, w) else denied c w
        | Inl e \<Rightarrow> denied c (w\<lparr>os_errno := e\<rparr>)))"

text \<open>
  One attempt: \<^verbatim>\<open>goto path_set\<close>, \<^verbatim>\<open>return -1\<close> when the attempt set a status, or the
  next attempt. \<^verbatim>\<open>fname\<close> is what \<^verbatim>\<open>snprintf\<close> renders; it is longer than the buffer only
  where the attempt fails before it is used.
\<close>

datatype attempt = Path_Set string stat | Give_Up | Next

definition attempt_path ::
    "env \<Rightarrow> kitserv_client \<Rightarrow> os \<Rightarrow> string \<Rightarrow> attempt \<times> kitserv_client \<times> os" where
  "attempt_path env c w fname =
     (case verify_static_path env c w (int (length fname)) fname of
        (Some st, c, w) \<Rightarrow> (Path_Set fname st, c, w)
      | (None, c, w) \<Rightarrow> (if status_code (resp_status (ta c)) \<noteq> 0 then Give_Up else Next, c, w))"

definition choose_path ::
    "env \<Rightarrow> kitserv_request_context \<Rightarrow> kitserv_client \<Rightarrow> os \<Rightarrow> string \<Rightarrow> string \<Rightarrow>
     attempt \<times> kitserv_client \<times> os" where
  "choose_path env ctx c w rpath path =
     (let fname = (case root_fallback ctx of
            Some fb \<Rightarrow> if rpath = ''/'' then root_dir ctx @ ''/'' @ fb else root_dir ctx @ ''/'' @ path
          | None \<Rightarrow> root_dir ctx @ ''/'' @ path) in
      case attempt_path env c w fname of
        (Next, c, w) \<Rightarrow>
          (case (if use_http_append_fallback ctx
                 then attempt_path env c w (root_dir ctx @ ''/'' @ path @ ''.html'') else (Next, c, w)) of
             (Next, c, w) \<Rightarrow>
               (case (case fallback ctx of
                        Some fb \<Rightarrow> attempt_path env c w (root_dir ctx @ ''/'' @ fb)
                      | None \<Rightarrow> (Next, c, w)) of
                  (Next, c, w) \<Rightarrow> (Give_Up, set_status HTTP_404_NOT_FOUND c, w)
                | res \<Rightarrow> res)
           | res \<Rightarrow> res)
      | res \<Rightarrow> res)"

text \<open>The range section; the flag says \<^verbatim>\<open>goto err_closefd\<close>.\<close>

definition static_range :: "kitserv_client \<Rightarrow> errno \<Rightarrow> int \<Rightarrow> (bool \<times> kitserv_client \<times> errno) ub" where
  "static_range c e filesize =
     (if range_requested (ta c) then do {
        (rc, c) \<leftarrow> parse_range_request c filesize;
        if rc = 0 then do {
          (rc, c, e) \<leftarrow> http_header_add_content_range c e (resp_body_pos (ta c)) (resp_body_end (ta c)) filesize;
          if rc \<noteq> 0 then Some (True, set_status HTTP_500_INTERNAL_ERROR c, e) else Some (False, c, e) }
        else if resp_status (ta c) \<noteq> HTTP_400_BAD_REQUEST then
          (if resp_status (ta c) = HTTP_416_RANGE_NOT_SATISFIABLE then do {
             (rc, c, e) \<leftarrow> kitserv_http_header_add c e ''content-range'' (''*/'' @ dec_int filesize);
             Some (True, c\<lparr>ta := (ta c)\<lparr>preserve_headers_on_error := True\<rparr>\<rparr>, e) }
           else Some (True, c, e))
        else Some (False, c\<lparr>ta := (ta c)\<lparr>range_requested := False\<rparr>\<rparr>, e) }
      else Some (False, c, e))"

text \<open>\<^verbatim>\<open>strrchr(fname, '.')\<close>.\<close>

definition strrchr_dot :: "string \<Rightarrow> string option" where
  "strrchr_dot s = (if CHR ''.'' \<in> set s
     then Some (CHR ''.'' # rev (takeWhile (\<lambda>x. x \<noteq> CHR ''.'') (rev s))) else None)"

definition static_headers ::
    "env \<Rightarrow> kitserv_client \<Rightarrow> errno \<Rightarrow> string \<Rightarrow> int \<Rightarrow> (bool \<times> kitserv_client \<times> errno) ub" where
  "static_headers env c e fname mtime = do {
     (rc, c, e) \<leftarrow> kitserv_http_header_add_content_type_guess c e (strrchr_dot fname);
     (rc, c, e) \<leftarrow> (if rc \<noteq> 0 then Some (rc, c, e) else kitserv_http_header_add c e ''accept-ranges'' ''bytes'');
     (rc, c, e) \<leftarrow> (if rc \<noteq> 0 then Some (rc, c, e)
                   else kitserv_http_header_add_last_modified (date env) c e mtime);
     if rc \<noteq> 0 then Some (True, set_status HTTP_500_INTERNAL_ERROR c, e) else Some (False, c, e) }"

definition err_closefd :: "kitserv_client \<Rightarrow> os \<Rightarrow> int \<times> kitserv_client \<times> os" where
  "err_closefd c w = (case close_fd_to_zero c w of (c, w) \<Rightarrow> (-1, c, w))"

text \<open>The last section: \<open>If-Modified-Since\<close>, and the status.\<close>

definition static_finish :: "env \<Rightarrow> kitserv_client \<Rightarrow> os \<Rightarrow> int \<Rightarrow> (int \<times> kitserv_client \<times> os) ub" where
  "static_finish env c w mtime =
     (let ok = Some (0, set_status (if range_requested (ta c) then HTTP_206_PARTIAL_CONTENT else HTTP_200_OK) c, w) in
      case req_modified_since (ta c) of
        None \<Rightarrow> ok
      | Some p \<Rightarrow> do {
          s \<leftarrow> cstr (req_headers c) p;
          (case parse_date env s of
             None \<Rightarrow> Some (err_closefd (set_status HTTP_400_BAD_REQUEST c) w)
           | Some t \<Rightarrow>
               if mtime - t \<le> 0 then
                 (case close_fd_to_zero (c\<lparr>ta := (ta c)\<lparr>resp_status := HTTP_304_NOT_MODIFIED,
                                                        req_method := HTTP_HEAD\<rparr>\<rparr>) w of
                    (c, w) \<Rightarrow> Some (0, c, w))
               else ok) })"

text \<open>From \<^verbatim>\<open>path_set\<close> on.\<close>

definition static_open ::
    "env \<Rightarrow> kitserv_client \<Rightarrow> os \<Rightarrow> string \<Rightarrow> (int \<times> kitserv_client \<times> os)" where
  "static_open env c w fname =
     (if req_method (ta c) = HTTP_GET then
        (case open_file env fname of
           Inl e \<Rightarrow> (-1, set_status HTTP_500_INTERNAL_ERROR c, w\<lparr>os_errno := e\<rparr>)
         | Inr fd \<Rightarrow>
             if fd < 0 then (-1, set_status HTTP_500_INTERNAL_ERROR c, w)
             else (0, c\<lparr>ta := (ta c)\<lparr>resp_fd := fd\<rparr>\<rparr>, w\<lparr>os_fds := fd # os_fds w\<rparr>))
      else (0, c\<lparr>ta := (ta c)\<lparr>resp_fd := KITSERV_FD_HEAD\<rparr>\<rparr>, w))"

definition static_serve ::
    "env \<Rightarrow> kitserv_client \<Rightarrow> os \<Rightarrow> string \<Rightarrow> stat \<Rightarrow> (int \<times> kitserv_client \<times> os) ub" where
  "static_serve env c w fname st =
     (case static_open env c w fname of
        (rc, c, w) \<Rightarrow>
          if rc \<noteq> 0 then Some (-1, c, w)
          else do {
            let c = c\<lparr>ta := (ta c)\<lparr>resp_body_end := st_size st - 1\<rparr>\<rparr>;
            (err, c, e) \<leftarrow> static_range c (os_errno w) (st_size st);
            let w = w\<lparr>os_errno := e\<rparr>;
            if err then Some (err_closefd c w)
            else do {
              (err, c, e) \<leftarrow> static_headers env c (os_errno w) fname (st_mtime st);
              let w = w\<lparr>os_errno := e\<rparr>;
              if err then Some (err_closefd c w) else static_finish env c w (st_mtime st) } })"

definition kitserv_http_handle_static_path ::
    "env \<Rightarrow> kitserv_client \<Rightarrow> os \<Rightarrow> string \<Rightarrow> kitserv_request_context option \<Rightarrow> (int \<times> kitserv_client \<times> os) ub" where
  "kitserv_http_handle_static_path env c w path ctx =
     (let ctx = (case ctx of None \<Rightarrow> default_context env | Some ctx \<Rightarrow> ctx) in
      if req_method (ta c) AND HTTP_GET = 0 then
        Some (-1, set_status HTTP_405_METHOD_NOT_ALLOWED c, w\<lparr>os_errno := ENOTSUP\<rparr>)
      else do {
        p \<leftarrow> req_path (ta c);
        rpath \<leftarrow> cstr (req_headers c) p;
        _ \<leftarrow> root ctx;
        (case choose_path env ctx c w rpath path of
           (Path_Set fname st, c, w) \<Rightarrow> static_serve env c w fname st
         | (_, c, w) \<Rightarrow> Some (-1, c, w)) })"

section \<open>Which file is served\<close>

text \<open>The attempts in their order.\<close>

definition candidates :: "kitserv_request_context \<Rightarrow> string \<Rightarrow> string \<Rightarrow> string list" where
  "candidates ctx rpath path =
     [root_dir ctx @ ''/'' @ (if rpath = ''/'' \<and> root_fallback ctx \<noteq> None then the (root_fallback ctx) else path)] @
     (if use_http_append_fallback ctx then [root_dir ctx @ ''/'' @ path @ ''.html''] else []) @
     (case fallback ctx of None \<Rightarrow> [] | Some fb \<Rightarrow> [root_dir ctx @ ''/'' @ fb])"

definition regular :: "env \<Rightarrow> string \<Rightarrow> bool" where
  "regular env f \<longleftrightarrow> (case stat_file env f of Inl e \<Rightarrow> False | Inr st \<Rightarrow> st_isreg st)"

text \<open>An attempt over a list: the first that does not say \<open>Next\<close> decides.\<close>

fun attempts :: "env \<Rightarrow> kitserv_client \<Rightarrow> os \<Rightarrow> string list \<Rightarrow> attempt \<times> kitserv_client \<times> os" where
  "attempts env c w [] = (Give_Up, set_status HTTP_404_NOT_FOUND c, w)"
| "attempts env c w (f # fs) = (case attempt_path env c w f of (Next, c, w) \<Rightarrow> attempts env c w fs | res \<Rightarrow> res)"

lemma choose_path_attempts: "choose_path env ctx c w rpath path = attempts env c w (candidates ctx rpath path)"
proof -
  have f: "(case root_fallback ctx of
      Some fb \<Rightarrow> if rpath = ''/'' then root_dir ctx @ ''/'' @ fb else root_dir ctx @ ''/'' @ path
    | None \<Rightarrow> root_dir ctx @ ''/'' @ path) =
    root_dir ctx @ ''/'' @ (if rpath = ''/'' \<and> root_fallback ctx \<noteq> None then the (root_fallback ctx) else path)"
    by (cases "root_fallback ctx") simp_all
  show ?thesis unfolding choose_path_def f Let_def
    by (cases "use_http_append_fallback ctx"; cases "fallback ctx")
      (simp_all add: candidates_def split: prod.split attempt.split)
qed

definition os_same :: "os \<Rightarrow> os \<Rightarrow> bool" where
  "os_same w w' \<longleftrightarrow> w'\<lparr>os_errno := ENONE\<rparr> = w\<lparr>os_errno := ENONE\<rparr>"

lemma os_same_simps [simp]: "os_same w w" "os_same w (w\<lparr>os_errno := e\<rparr>)"
  by (simp_all add: os_same_def)

lemma os_same_trans: "os_same w w' \<Longrightarrow> os_same w' w'' \<Longrightarrow> os_same w w''"
  by (simp add: os_same_def)

lemma os_sameD:
  assumes "os_same w w'"
  shows "os_fds w' = os_fds w" "os_in w' = os_in w" "os_wr w' = os_wr w" "os_out w' = os_out w"
    "os_log w' = os_log w"
proof -
  show "os_fds w' = os_fds w" using assms by (cases w; cases w') (simp add: os_same_def)
  show "os_in w' = os_in w" using assms by (cases w; cases w') (simp add: os_same_def)
  show "os_wr w' = os_wr w" using assms by (cases w; cases w') (simp add: os_same_def)
  show "os_out w' = os_out w" using assms by (cases w; cases w') (simp add: os_same_def)
  show "os_log w' = os_log w" using assms by (cases w; cases w') (simp add: os_same_def)
qed

lemma attempt_path_cases:
  assumes "resp_status (ta c) = HTTP_X_RESP_STATUS_UNSET" "attempt_path env c w f = (res, c', w')"
  obtains (found) st where "res = Path_Set f st" "stat_file env f = Inr st" "st_isreg st" "c' = c" "w' = w"
      "int (length f) < PATH_MAX"
    | (stop) s where "res = Give_Up" "c' = set_status s c" "os_same w w'"
        "s \<in> {HTTP_403_PERMISSION_DENIED, HTTP_414_URI_TOO_LONG}"
    | (go_on) "res = Next" "c' = c" "os_same w w'" "\<not> regular env f"
proof (cases "int (length f) < PATH_MAX")
  case False
  with assms stop [of HTTP_414_URI_TOO_LONG] show thesis
    by (auto simp: attempt_path_def verify_static_path_def)
next
  case True
  show thesis
  proof (cases "stat_file env f")
    case (Inl e)
    have "attempt_path env c w f = (if e = EACCES then (Give_Up, set_status HTTP_403_PERMISSION_DENIED c, w\<lparr>os_errno := e\<rparr>)
        else (Next, c, w\<lparr>os_errno := e\<rparr>))"
      using assms(1) True Inl by (simp add: attempt_path_def verify_static_path_def)
    with assms(2) Inl show thesis
      by (cases "e = EACCES") (auto intro: stop go_on simp: regular_def)
  next
    case (Inr st)
    have "attempt_path env c w f = (if st_isreg st then (Path_Set f st, c, w)
        else if os_errno w = EACCES then (Give_Up, set_status HTTP_403_PERMISSION_DENIED c, w) else (Next, c, w))"
      using assms(1) True Inr by (simp add: attempt_path_def verify_static_path_def)
    with assms(2) Inr True show thesis
      by (cases "st_isreg st"; cases "os_errno w = EACCES") (auto intro: found stop go_on simp: regular_def)
  qed
qed

lemma attempts_cases:
  "resp_status (ta c) = HTTP_X_RESP_STATUS_UNSET \<Longrightarrow> attempts env c w fs = (res, c', w') \<Longrightarrow>
   os_same w w' \<and>
   ((\<exists>f st. res = Path_Set f st \<and> c' = c \<and> stat_file env f = Inr st \<and> st_isreg st \<and> f \<in> set fs) \<or>
    (\<exists>s. res = Give_Up \<and> c' = set_status s c \<and>
      s \<in> {HTTP_403_PERMISSION_DENIED, HTTP_414_URI_TOO_LONG, HTTP_404_NOT_FOUND}))"
proof (induction fs arbitrary: c w)
  case (Cons f fs)
  obtain r1 c1 w1 where a: "attempt_path env c w f = (r1, c1, w1)" by (cases "attempt_path env c w f") auto
  from Cons.prems(1) a show ?case
  proof (cases rule: attempt_path_cases)
    case go_on
    with Cons.IH [of c w1] Cons.prems a os_same_trans [of w w1 w'] show ?thesis by auto
  qed (use Cons.prems(2) a in auto)
qed auto

text \<open>
  A candidate is passed over if its name can be looked up, without a denial, and is not that
  of a regular file. The first that is not passed over decides.
\<close>

definition passed_over :: "env \<Rightarrow> string \<Rightarrow> bool" where
  "passed_over env f \<longleftrightarrow> int (length f) < PATH_MAX \<and> \<not> regular env f \<and> stat_file env f \<noteq> Inl EACCES"

definition decided :: "env \<Rightarrow> kitserv_client \<Rightarrow> string list \<Rightarrow> attempt \<times> kitserv_client" where
  "decided env c fs = (case dropWhile (passed_over env) fs of
     [] \<Rightarrow> (Give_Up, set_status HTTP_404_NOT_FOUND c)
   | f # _ \<Rightarrow>
       if PATH_MAX \<le> int (length f) then (Give_Up, set_status HTTP_414_URI_TOO_LONG c)
       else (case stat_file env f of
           Inl e \<Rightarrow> (Give_Up, set_status HTTP_403_PERMISSION_DENIED c)
         | Inr st \<Rightarrow> (Path_Set f st, c)))"

lemma attempts_decided:
  assumes "resp_status (ta c) = HTTP_X_RESP_STATUS_UNSET" "os_errno w \<noteq> EACCES"
  shows "\<exists>w'. attempts env c w fs = (case decided env c fs of (res, c') \<Rightarrow> (res, c', w'))"
  using assms(2)
proof (induction fs arbitrary: w)
  case Nil
  then show ?case by (simp add: decided_def)
next
  case (Cons f fs)
  show ?case
  proof (cases "passed_over env f")
    case True
    then have l: "int (length f) < PATH_MAX" "\<not> regular env f" "stat_file env f \<noteq> Inl EACCES" by (simp_all add: passed_over_def)
    have d: "decided env c (f # fs) = decided env c fs" using True by (simp add: decided_def)
    have "\<exists>w1. attempt_path env c w f = (Next, c, w1) \<and> os_errno w1 \<noteq> EACCES"
      using l assms(1) Cons.prems
      by (cases "stat_file env f") (auto simp: regular_def attempt_path_def verify_static_path_def)
    then obtain w1 where w1: "attempt_path env c w f = (Next, c, w1)" "os_errno w1 \<noteq> EACCES" by blast
    with Cons.IH [OF w1(2)] show ?thesis by (simp add: d)
  next
    case False
    then show ?thesis
      using assms(1) Cons.prems
      by (cases "stat_file env f") (auto simp: decided_def passed_over_def regular_def attempt_path_def verify_static_path_def)
  qed
qed

section \<open>Descriptors and statuses\<close>

lemma close_fd_simps [simp]:
  "resp_fd (ta c) \<le> 0 \<Longrightarrow> close_fd_to_zero c w = (c, w)"
  "0 < fd \<Longrightarrow> close_fd_to_zero (c\<lparr>ta := t\<lparr>resp_fd := fd\<rparr>\<rparr>) w =
     (c\<lparr>ta := t\<lparr>resp_fd := 0\<rparr>\<rparr>, w\<lparr>os_fds := remove1 fd (os_fds w)\<rparr>)"
  by (simp_all add: close_fd_to_zero_def)

text \<open>The strings the function reads end inside the request buffer.\<close>

definition static_ready :: "kitserv_client \<Rightarrow> bool" where
  "static_ready c \<longleftrightarrow> hdr_ok c \<and> resp_status (ta c) = HTTP_X_RESP_STATUS_UNSET \<and> resp_fd (ta c) = 0 \<and>
     (\<exists>p s. req_path (ta c) = Some p \<and> cstr (req_headers c) p = Some s) \<and>
     (range_requested (ta c) \<longrightarrow> (\<exists>p s. req_range (ta c) = Some p \<and> cstr (req_headers c) p = Some s)) \<and>
     (\<forall>p. req_modified_since (ta c) = Some p \<longrightarrow> (\<exists>s. cstr (req_headers c) p = Some s))"

text \<open>What serving a file leaves alone: all but the status, the headers, the range and the descriptor.\<close>

definition static_keep :: "kitserv_client \<Rightarrow> kitserv_client" where
  "static_keep c = c\<lparr>resp_headers := [], ta := (ta c)\<lparr>resp_buf1 := zero_iovec, resp_status := HTTP_200_OK,
     resp_fd := 0, resp_body_pos := 0, resp_body_end := 0, range_requested := False,
     preserve_headers_on_error := False, req_method := 0\<rparr>\<rparr>"

definition static_same :: "kitserv_client \<times> os \<Rightarrow> kitserv_client \<times> os \<Rightarrow> bool" where
  "static_same x y \<longleftrightarrow> static_keep (fst y) = static_keep (fst x) \<and> os_in (snd y) = os_in (snd x) \<and>
     os_wr (snd y) = os_wr (snd x) \<and> os_out (snd y) = os_out (snd x)"

lemmas static_same_defs = static_same_def static_keep_def

lemma static_same_trans: "static_same x y \<Longrightarrow> static_same y z \<Longrightarrow> static_same x z"
  by (simp add: static_same_def)

text \<open>What the stages between opening the file and the end leave alone.\<close>

definition stage_frame :: "kitserv_client \<Rightarrow> kitserv_client \<Rightarrow> bool" where
  "stage_frame c c' \<longleftrightarrow> hdr_ok c' \<and> req_headers c' = req_headers c \<and> req_method (ta c') = req_method (ta c) \<and>
     req_modified_since (ta c') = req_modified_since (ta c) \<and> resp_fd (ta c') = resp_fd (ta c) \<and>
     static_keep c' = static_keep c"

lemma static_range_stage:
  assumes "hdr_ok c" and r: "range_requested (ta c) \<longrightarrow> (\<exists>p s. req_range (ta c) = Some p \<and> cstr (req_headers c) p = Some s)"
  shows "\<exists>err c' e'. static_range c e n = Some (err, c', e') \<and> stage_frame c c' \<and>
    (err \<longrightarrow> status_is_error (resp_status (ta c')))"
proof (cases "range_requested (ta c)")
  case False
  with assms(1) show ?thesis by (auto simp: static_range_def stage_frame_def)
next
  case True
  with r obtain p s where "req_range (ta c) = Some p" "cstr (req_headers c) p = Some s" by blast
  from parse_range_request_total [OF True this, of n] show ?thesis
  proof (elim disjE exE)
    fix f t assume p: "parse_range_request c n = Some (0, set_range c f t)"
    have "hdr_ok (set_range c f t)" using assms(1) by simp
    from header_add_total [OF this, of e "''content-range''" "''bytes '' @ dec_int f @ ''-'' @ dec_int t @ ''/'' @ dec_int n"]
      p True show ?thesis
      by (auto simp: static_range_def http_header_add_content_range_def stage_frame_def status_is_error_def
          static_keep_def hdr_ok_def)
  next
    assume p: "parse_range_request c n = Some (-1, set_status HTTP_400_BAD_REQUEST c)"
    with True assms(1) show ?thesis by (auto simp: static_range_def stage_frame_def static_keep_def)
  next
    let ?c = "set_status HTTP_416_RANGE_NOT_SATISFIABLE c"
    assume p: "parse_range_request c n = Some (-1, ?c)"
    have "hdr_ok ?c" using assms(1) by simp
    from header_add_total [OF this, of e "''content-range''" "''*/'' @ dec_int n"] p True show ?thesis
      by (auto simp: static_range_def stage_frame_def status_is_error_def static_keep_def hdr_ok_def)
  qed
qed

lemma static_headers_stage:
  assumes "hdr_ok c"
  shows "\<exists>err c' e'. static_headers env c e f t = Some (err, c', e') \<and> stage_frame c c' \<and>
    (err \<longrightarrow> status_is_error (resp_status (ta c')))"
proof -
  have fr: "stage_frame c (hdr_set c m n)" "stage_frame c (set_status s (hdr_set c m n))"
    if "hdr_ok (hdr_set c m n)" for m n s using that by (simp_all add: stage_frame_def hdr_ok_def static_keep_def)
  note unf = static_headers_def kitserv_http_header_add_content_type_guess_def kitserv_http_header_add_last_modified_def
    status_is_error_def
  from header_add_total [OF assms, of e "''content-type''" "guess_mime_type (strrchr_dot f)"] show ?thesis
  proof (elim disjE exE conjE)
    fix m n assume "kitserv_http_header_add c e ''content-type'' (guess_mime_type (strrchr_dot f)) =
        Some (-1, set_status HTTP_507_INSUFFICIENT_STORAGE (hdr_set c m n), ENOMEM)" "hdr_ok (hdr_set c m n)"
    with fr(2) show ?thesis by (auto simp: unf)
  next
    fix m n assume h1: "kitserv_http_header_add c e ''content-type'' (guess_mime_type (strrchr_dot f)) =
        Some (0, hdr_set c m n, e)" "hdr_ok (hdr_set c m n)"
    from header_add_total [OF h1(2), of e "''accept-ranges''" "''bytes''"] show ?thesis
    proof (elim disjE exE conjE)
      fix m' n' assume "kitserv_http_header_add (hdr_set c m n) e ''accept-ranges'' ''bytes'' =
          Some (-1, set_status HTTP_507_INSUFFICIENT_STORAGE (hdr_set (hdr_set c m n) m' n'), ENOMEM)"
        "hdr_ok (hdr_set (hdr_set c m n) m' n')"
      with h1 fr(2) [of n' m'] show ?thesis by (auto simp: unf)
    next
      fix m' n' assume h2: "kitserv_http_header_add (hdr_set c m n) e ''accept-ranges'' ''bytes'' =
          Some (0, hdr_set (hdr_set c m n) m' n', e)" "hdr_ok (hdr_set (hdr_set c m n) m' n')"
      have ok2: "hdr_ok (hdr_set c m' n')" using h2(2) by simp
      show ?thesis
      proof (cases "date env t")
        case None
        with h1 h2 fr(2) [of n' m'] show ?thesis by (auto simp: unf)
      next
        case (Some d)
        from header_add_total [OF ok2, of e "''last-modified''" d] h1 h2 Some fr show ?thesis
          by (fastforce simp: unf)
      qed
    qed
  qed
qed

text \<open>
  What a call promises: an error closes whatever was opened and says why; a success holds
  exactly one open descriptor for \<open>GET\<close>, none otherwise.
\<close>

fun static_post :: "kitserv_client \<Rightarrow> os \<Rightarrow> int \<times> kitserv_client \<times> os \<Rightarrow> bool" where
  "static_post c w (rc, c', w') \<longleftrightarrow> hdr_ok c' \<and> static_same (c, w) (c', w') \<and>
     (rc = -1 \<and> status_is_error (resp_status (ta c')) \<and> resp_fd (ta c') \<le> 0 \<and> os_fds w' = os_fds w \<or>
      rc = 0 \<and> resp_status (ta c') \<in> {HTTP_200_OK, HTTP_206_PARTIAL_CONTENT} \<and>
        (if req_method (ta c) = HTTP_GET then 0 < resp_fd (ta c') \<and> os_fds w' = resp_fd (ta c') # os_fds w
         else resp_fd (ta c') = KITSERV_FD_HEAD \<and> os_fds w' = os_fds w) \<or>
      rc = 0 \<and> resp_status (ta c') = HTTP_304_NOT_MODIFIED \<and> req_method (ta c') = HTTP_HEAD \<and>
        resp_fd (ta c') \<le> 0 \<and> os_fds w' = os_fds w)"

text \<open>A client with its file open, as the stages see it.\<close>

definition opened :: "kitserv_client \<Rightarrow> os \<Rightarrow> kitserv_client \<Rightarrow> os \<Rightarrow> bool" where
  "opened c w c1 w1 \<longleftrightarrow> hdr_ok c1 \<and> static_same (c, w) (c1, w1) \<and> req_method (ta c1) = req_method (ta c) \<and> req_headers c1 = req_headers c \<and>
     req_modified_since (ta c1) = req_modified_since (ta c) \<and>
     (if req_method (ta c) = HTTP_GET then 0 < resp_fd (ta c1) \<and> os_fds w1 = resp_fd (ta c1) # os_fds w
      else resp_fd (ta c1) = KITSERV_FD_HEAD \<and> os_fds w1 = os_fds w)"

lemma opened_stage: "opened c w c1 w1 \<Longrightarrow> stage_frame c1 c2 \<Longrightarrow> opened c w c2 (w1\<lparr>os_errno := e\<rparr>)"
  by (simp add: opened_def stage_frame_def static_same_def)

lemma opened_close:
  assumes "opened c w c1 w1" "close_fd_to_zero c1 w1 = (c2, w2)"
  shows "hdr_ok c2 \<and> resp_fd (ta c2) \<le> 0 \<and> os_fds w2 = os_fds w \<and> resp_status (ta c2) = resp_status (ta c1) \<and>
    req_method (ta c2) = req_method (ta c1) \<and> static_same (c, w) (c2, w2)"
  using assms by (auto simp: opened_def close_fd_to_zero_def static_same_defs KITSERV_FD_HEAD_def split: if_splits)

lemma opened_status: "opened c w c1 w1 \<Longrightarrow> opened c w (set_status s c1) w1"
  by (simp add: opened_def static_same_defs)

lemma opened_error:
  assumes "opened c w c1 w1" "status_is_error (resp_status (ta c1))"
  shows "static_post c w (err_closefd c1 w1)"
  using opened_close [OF assms(1)] assms(2)
  by (cases "close_fd_to_zero c1 w1") (simp add: err_closefd_def)

lemma static_finish_post:
  assumes o: "opened c w c1 w1"
    and m: "\<forall>p. req_modified_since (ta c) = Some p \<longrightarrow> (\<exists>s. cstr (req_headers c) p = Some s)"
  shows "\<exists>res. static_finish env c1 w1 t = Some res \<and> static_post c w res"
proof -
  let ?s = "if range_requested (ta c1) then HTTP_206_PARTIAL_CONTENT else HTTP_200_OK"
  have ok: "static_post c w (0, set_status ?s c1, w1)" using o by (simp add: opened_def static_same_defs)
  show ?thesis
  proof (cases "req_modified_since (ta c1)")
    case None
    with ok show ?thesis by (simp add: static_finish_def)
  next
    case (Some p)
    with o m have "\<exists>s. cstr (req_headers c1) p = Some s" by (metis opened_def)
    then obtain s where s: "cstr (req_headers c1) p = Some s" ..
    show ?thesis
    proof (cases "parse_date env s")
      case None
      with Some s opened_error [OF opened_status [OF o, of HTTP_400_BAD_REQUEST]] show ?thesis
        by (simp add: static_finish_def status_is_error_def)
    next
      case d: (Some t')
      show ?thesis
      proof (cases "t - t' \<le> 0")
        case False
        with ok Some s d show ?thesis by (simp add: static_finish_def)
      next
        case True
        let ?c = "c1\<lparr>ta := (ta c1)\<lparr>resp_status := HTTP_304_NOT_MODIFIED, req_method := HTTP_HEAD\<rparr>\<rparr>"
        obtain c2 w2 where cl: "close_fd_to_zero ?c w1 = (c2, w2)" by (cases "close_fd_to_zero ?c w1")
        have "hdr_ok c2 \<and> resp_fd (ta c2) \<le> 0 \<and> os_fds w2 = os_fds w \<and>
            resp_status (ta c2) = HTTP_304_NOT_MODIFIED \<and> req_method (ta c2) = HTTP_HEAD \<and> static_same (c, w) (c2, w2)"
          using o cl by (auto simp: opened_def close_fd_to_zero_def static_same_defs KITSERV_FD_HEAD_def split: if_splits)
        with Some s d True cl show ?thesis by (simp add: static_finish_def)
      qed
    qed
  qed
qed

text \<open>A static request, from the method check to the answer.\<close>

theorem static_path_outcome:
  assumes ready: "static_ready c" and dir: "root (case ctx of None \<Rightarrow> default_context env | Some ctx \<Rightarrow> ctx) \<noteq> None"
    and fds: "\<And>f fd. open_file env f = Inr fd \<Longrightarrow> 0 < fd"
  shows "\<exists>res. kitserv_http_handle_static_path env c w path ctx = Some res \<and> static_post c w res"
proof (cases "req_method (ta c) AND HTTP_GET = 0")
  case True
  with ready show ?thesis by (simp add: kitserv_http_handle_static_path_def static_ready_def status_is_error_def static_same_defs)
next
  case False
  let ?ctx = "case ctx of None \<Rightarrow> default_context env | Some ctx \<Rightarrow> ctx"
  from ready obtain p rpath where p: "req_path (ta c) = Some p" "cstr (req_headers c) p = Some rpath"
    by (auto simp: static_ready_def)
  obtain att c1 w1 where ch: "choose_path env ?ctx c w rpath path = (att, c1, w1)"
    by (cases "choose_path env ?ctx c w rpath path") auto
  have unset: "resp_status (ta c) = HTTP_X_RESP_STATUS_UNSET" using ready by (simp add: static_ready_def)
  from attempts_cases [OF unset ch [unfolded choose_path_attempts]] have same: "os_same w w1" by simp
  note w1 = os_sameD [OF same]
  obtain dirname where "root ?ctx = Some dirname" using dir by auto
  note run = kitserv_http_handle_static_path_def False p ch this
  from attempts_cases [OF unset ch [unfolded choose_path_attempts]] show ?thesis
  proof (elim disjE exE conjE)
    fix s assume "att = Give_Up" "c1 = set_status s c"
      "s \<in> {HTTP_403_PERMISSION_DENIED, HTTP_414_URI_TOO_LONG, HTTP_404_NOT_FOUND}"
    with ready w1 show ?thesis by (auto simp: run static_ready_def status_is_error_def static_same_defs)
  next
    fix f st assume att: "att = Path_Set f st" and c1: "c1 = c"
    obtain rc c2 w2 where op: "static_open env c w1 f = (rc, c2, w2)" by (cases "static_open env c w1 f") auto
    show ?thesis
    proof (cases "rc = 0")
      case bad: False
      with op ready w1 have "static_post c w (-1, c2, w2)"
        by (auto simp: static_open_def static_ready_def status_is_error_def static_same_defs split: if_splits sum.splits)
      with bad op att c1 show ?thesis by (simp add: run static_serve_def)
    next
      case True
      let ?c3 = "c2\<lparr>ta := (ta c2)\<lparr>resp_body_end := st_size st - 1\<rparr>\<rparr>"
      have o3: "opened c w ?c3 w2" using op True ready w1 fds
        by (auto simp: static_open_def opened_def static_same_defs static_ready_def split: if_splits sum.splits)
      have rr: "range_requested (ta ?c3) \<longrightarrow> (\<exists>p s. req_range (ta ?c3) = Some p \<and> cstr (req_headers ?c3) p = Some s)"
        using op True ready by (auto simp: static_open_def static_ready_def split: if_splits sum.splits)
      have "hdr_ok ?c3" using o3 by (simp add: opened_def)
      from static_range_stage [OF this rr, of "os_errno w2" "st_size st"] obtain err4 c4 e4 where
        s4: "static_range ?c3 (os_errno w2) (st_size st) = Some (err4, c4, e4)" "stage_frame ?c3 c4"
          "err4 \<longrightarrow> status_is_error (resp_status (ta c4))" by blast
      note o4 = opened_stage [OF o3 s4(2), of e4]
      have "hdr_ok c4" using o4 by (simp add: opened_def)
      from static_headers_stage [OF this, of env e4 f "st_mtime st"] obtain err5 c5 e5 where
        s5: "static_headers env c4 e4 f (st_mtime st) = Some (err5, c5, e5)" "stage_frame c4 c5"
          "err5 \<longrightarrow> status_is_error (resp_status (ta c5))" by blast
      note o5 = opened_stage [OF o4 s5(2), of e5]
      have ms: "\<forall>p. req_modified_since (ta c) = Some p \<longrightarrow> (\<exists>s. cstr (req_headers c) p = Some s)"
        using ready by (simp add: static_ready_def)
      note serve = run att c1 static_serve_def op True s4(1) s5(1)
      show ?thesis
      proof (cases err4)
        case True
        with opened_error [OF o4] s4(3) show ?thesis by (simp add: serve)
      next
        case ok4: False
        show ?thesis
        proof (cases err5)
          case True
          with ok4 opened_error [OF o5] s5(3) show ?thesis by (simp add: serve)
        next
          case False
          with ok4 static_finish_post [OF o5 ms, of env "st_mtime st"] show ?thesis by (simp add: serve)
        qed
      qed
    qed
  qed
qed

section \<open>Properties\<close>

text \<open>A server for the examples: it has one regular file, \<open>/w/a.html\<close>, of 10 bytes.\<close>

definition sample_env :: env where
  "sample_env = \<lparr>default_context = \<lparr>root = Some ''/w'', root_fallback = None, fallback = None, use_http_append_fallback = True\<rparr>,
     api_tree = None, call_handler = (\<lambda>h d c w. None), alloc_ok = (\<lambda>n. True),
     stat_file = (\<lambda>f. if f = ''/w/a.html'' then Inr \<lparr>st_isreg = True, st_size = 10, st_mtime = 5\<rparr> else Inl (EOTHER 2)),
     open_file = (\<lambda>f. if f = ''/w/a.html'' then Inr 7 else Inl (EOTHER 2)),
     date = (\<lambda>t. Some ''Thu, 01 Jan 1970 00:00:05 GMT''), parse_date = (\<lambda>s. None), silent = False, null_text = ''(null)''\<rparr>"

definition static_client :: "string \<Rightarrow> kitserv_client" where
  "static_client s = \<lparr>req_headers = s @ [NUL], req_cookies = [], resp_start = [], resp_headers = [],
     resp_body = \<lparr>b_buf = [], b_len = 0, b_max = 4096, b_block = 4096\<rparr>,
     ta = zero_ta\<lparr>req_method := HTTP_GET, req_path := Some 0\<rparr>, sockfd = 3\<rparr>"

definition quiet_os :: os where
  "quiet_os = \<lparr>os_in = [], os_wr = [], os_out = [], os_fds = [], os_errno = ENONE, os_log = []\<rparr>"

lemma static_client_ready: "NUL \<notin> set s \<Longrightarrow> static_ready (static_client s)"
  using cstr_at [of s 0 "[]" "[]"]
  by (simp add: static_ready_def static_client_def zero_ta_def hdr_ok_def zero_iovec_def)

text \<open>
  C21: serving a static path is defined and accounts for its descriptor: an error has an
  error status and leaves nothing open, a success of \<open>GET\<close> holds exactly the one new
  descriptor, a \<open>HEAD\<close> or a 304 none.
\<close>

theorem static_path_descriptors:
  assumes "static_ready c" "root (case ctx of None \<Rightarrow> default_context env | Some ctx \<Rightarrow> ctx) \<noteq> None"
    and "\<And>f fd. open_file env f = Inr fd \<Longrightarrow> 0 < fd"
  shows "\<exists>res. kitserv_http_handle_static_path env c w path ctx = Some res \<and> static_post c w res"
  using assms by (rule static_path_outcome)

lemma static_path_descriptors_witness:
  "\<exists>res. kitserv_http_handle_static_path sample_env (static_client ''/a'') quiet_os ''/a'' None = Some res \<and>
    static_post (static_client ''/a'') quiet_os res"
  by (rule static_path_descriptors) (auto simp: static_client_ready sample_env_def split: if_splits)

text \<open>
  C24: the candidates are the direct path (or the fallback for \<open>/\<close>), the path with \<open>.html\<close>
  appended where that is enabled, and the generic fallback. Those that do not exist or are no
  regular files are passed over; the first other one decides: 414 if its name is too long,
  403 if access to it is denied, else it is the file that is served. Without one the answer
  is 404. There is one exception: 403 is given when the first candidate exists and is no
  regular file, and an earlier call has left \<^verbatim>\<open>EACCES\<close> in \<^verbatim>\<open>errno\<close>.
\<close>

theorem first_regular_file:
  fixes ctx :: kitserv_request_context and rpath path :: string
  assumes "resp_status (ta c) = HTTP_X_RESP_STATUS_UNSET"
  defines "fs \<equiv> candidates ctx rpath path"
  shows "\<exists>w'. choose_path env ctx c w rpath path =
    (if os_errno w = EACCES \<and> int (length (hd fs)) < PATH_MAX \<and> (\<exists>st. stat_file env (hd fs) = Inr st \<and> \<not> st_isreg st)
     then (Give_Up, set_status HTTP_403_PERMISSION_DENIED c, w')
     else (case dropWhile (passed_over env) fs of
         [] \<Rightarrow> (Give_Up, set_status HTTP_404_NOT_FOUND c, w')
       | f # _ \<Rightarrow>
           if PATH_MAX \<le> int (length f) then (Give_Up, set_status HTTP_414_URI_TOO_LONG c, w')
           else (case stat_file env f of
               Inl e \<Rightarrow> (Give_Up, set_status HTTP_403_PERMISSION_DENIED c, w')
             | Inr st \<Rightarrow> (Path_Set f st, c, w'))))"
proof -
  obtain f gs where f: "fs = f # gs" by (auto simp: fs_def candidates_def)
  let ?stale = "os_errno w = EACCES \<and> int (length f) < PATH_MAX \<and> (\<exists>st. stat_file env f = Inr st \<and> \<not> st_isreg st)"
  show ?thesis
  proof (cases ?stale)
    case True
    then show ?thesis using assms(1) unfolding choose_path_attempts fs_def [symmetric]
      by (auto simp: f attempt_path_def verify_static_path_def)
  next
    case False
    have "\<exists>w'. attempts env c w fs = (case decided env c fs of (res, c') \<Rightarrow> (res, c', w'))"
    proof (cases "os_errno w = EACCES \<and> passed_over env f")
      case True
      with False obtain e where e: "stat_file env f = Inl e" "e \<noteq> EACCES" "int (length f) < PATH_MAX"
        by (cases "stat_file env f") (auto simp: passed_over_def regular_def)
      then have "attempt_path env c w f = (Next, c, w\<lparr>os_errno := e\<rparr>)"
        using assms(1) by (simp add: attempt_path_def verify_static_path_def)
      moreover have "decided env c fs = decided env c gs" using True by (simp add: f decided_def)
      ultimately show ?thesis using attempts_decided [OF assms(1), of "w\<lparr>os_errno := e\<rparr>" env gs] e(2) by (simp add: f)
    next
      case no: False
      show ?thesis
      proof (cases "os_errno w = EACCES")
        case True
        with no False show ?thesis
          using assms(1) by (cases "stat_file env f")
            (auto simp: f decided_def passed_over_def regular_def attempt_path_def verify_static_path_def)
      qed (rule attempts_decided [OF assms(1)])
    qed
    then obtain w' where w': "attempts env c w fs = (case decided env c fs of (res, c') \<Rightarrow> (res, c', w'))" ..
    have n: "\<not> (os_errno w = EACCES \<and> int (length (hd fs)) < PATH_MAX \<and> (\<exists>st. stat_file env (hd fs) = Inr st \<and> \<not> st_isreg st))"
      using False by (simp add: f)
    show ?thesis unfolding choose_path_attempts fs_def [symmetric] w' if_not_P [OF n]
      by (rule exI [of _ w']) (simp del: dropWhile_eq_Nil_conv add: decided_def split: list.split sum.split)
  qed
qed

lemma first_regular_file_witness:
  "\<exists>w'. choose_path sample_env (default_context sample_env) (static_client ''/a'') quiet_os ''/a'' ''/a'' =
    (case dropWhile (passed_over sample_env) (candidates (default_context sample_env) ''/a'' ''/a'') of
      [] \<Rightarrow> (Give_Up, set_status HTTP_404_NOT_FOUND (static_client ''/a''), w')
    | f # _ \<Rightarrow>
        if PATH_MAX \<le> int (length f) then (Give_Up, set_status HTTP_414_URI_TOO_LONG (static_client ''/a''), w')
        else (case stat_file sample_env f of
            Inl e \<Rightarrow> (Give_Up, set_status HTTP_403_PERMISSION_DENIED (static_client ''/a''), w')
          | Inr st \<Rightarrow> (Path_Set f st, static_client ''/a'', w')))"
  using first_regular_file [where c = "static_client ''/a''" and env = sample_env and ctx = "default_context sample_env" and w = quiet_os and
      rpath = "''/a''" and path = "''/a''"]
  by (simp add: static_client_def zero_ta_def quiet_os_def)

text \<open>
  A path that exists but is no regular file (a directory) is answered with 403 when an
  earlier call on the thread happened to leave \<^verbatim>\<open>EACCES\<close> in \<^verbatim>\<open>errno\<close>: the successful
  \<^verbatim>\<open>stat\<close> does not clear it and the test reads it all the same.
\<close>

theorem stale_errno_forbids:
  assumes "stat_file env f = Inr st" "\<not> st_isreg st" "int (length f) < PATH_MAX"
    and "resp_status (ta c) = HTTP_X_RESP_STATUS_UNSET"
  shows "attempt_path env c w f =
    (if os_errno w = EACCES then (Give_Up, set_status HTTP_403_PERMISSION_DENIED c, w) else (Next, c, w))"
  using assms by (simp add: attempt_path_def verify_static_path_def)

lemma stale_errno_forbids_witness:
  "attempt_path (sample_env\<lparr>stat_file := (\<lambda>f. Inr \<lparr>st_isreg = False, st_size = 0, st_mtime = 0\<rparr>)\<rparr>) (static_client ''/d'')
     (quiet_os\<lparr>os_errno := EACCES\<rparr>) ''/w/d'' =
   (Give_Up, set_status HTTP_403_PERMISSION_DENIED (static_client ''/d''), quiet_os\<lparr>os_errno := EACCES\<rparr>)"
  using stale_errno_forbids [of "sample_env\<lparr>stat_file := (\<lambda>f. Inr \<lparr>st_isreg = False, st_size = 0, st_mtime = 0\<rparr>)\<rparr>" "''/w/d''"
    "\<lparr>st_isreg = False, st_size = 0, st_mtime = 0\<rparr>" "static_client ''/d''" "quiet_os\<lparr>os_errno := EACCES\<rparr>"]
  by (simp add: PATH_MAX_def static_client_def zero_ta_def)

end
