(* ===== verification/Http_Route.thy ===== *)
theory Http_Route
  imports Http_Static
begin

text \<open>
  Routing (\<open>parse_api_tree\<close> and \<open>kitserv_http_serve_request\<close> of \<^verbatim>\<open>src/http.c\<close>). The
  path is a pointer into the request buffer. \<open>doc_route\<close> is the routing that
  \<^verbatim>\<open>kitserv.h\<close> documents, on the path as a string, and \<open>level_route\<close> what the code makes of it.
\<close>

section \<open>The search through the tree\<close>

text \<open>
  The loop over the entries: \<open>seg\<close> is the path component from \<open>path\<close> to \<open>q\<close>. A
  prefix that is not terminated by its stated length is compared as \<^verbatim>\<open>strncmp\<close> does.
\<close>

fun match_entries :: "kitserv_client \<Rightarrow> string \<Rightarrow> nat \<Rightarrow> kitserv_api_entry list \<Rightarrow> (bool \<times> kitserv_client) ub" where
  "match_entries c seg q [] = Some (False, c)"
| "match_entries c seg q (e # es) =
     (if prefix_length e = int (length seg) \<and> take (length seg) (prefix e) = seg then do {
        finished \<leftarrow> (if finishes_path e then do {
                       x \<leftarrow> peek (req_headers c) (scan_until (\<lambda>x. x \<noteq> CHR ''/'') (req_headers c) q);
                       Some (x = NUL) }
                     else Some True);
        if \<not> finished then match_entries c seg q es
        else do {
          let c = c\<lparr>ta := (ta c)\<lparr>api_allow_flags := api_allow_flags (ta c) OR emethod e\<rparr>\<rparr>;
          if req_method (ta c) AND emethod e \<noteq> 0
          then Some (True, c\<lparr>ta := (ta c)\<lparr>api_endpoint_hit := Some (handler e)\<rparr>\<rparr>)
          else match_entries c seg q es } }
      else match_entries c seg q es)"

text \<open>
  The loop over the subtrees: the length is that of the current tree's subtree, the prefix
  that of the root's subtree with the same index.
\<close>

fun find_subtree :: "kitserv_api_tree list \<Rightarrow> kitserv_api_tree list \<Rightarrow> string \<Rightarrow> nat \<Rightarrow> kitserv_api_tree option ub" where
  "find_subtree roots [] seg i = Some None"
| "find_subtree roots (t # ts) seg i =
     (if tprefix_length t = int (length seg) then
        (if i < length roots then
           (if take (length seg) (tprefix (roots ! i)) = seg then Some (Some t)
            else find_subtree roots ts seg (i + 1))
         else None)
      else find_subtree roots ts seg (i + 1))"

lemma find_subtree_in: "find_subtree roots ts seg i = Some (Some t) \<Longrightarrow> t \<in> set ts"
  by (induction roots ts seg i rule: find_subtree.induct) (auto split: if_splits)

lemma size_subtree: "t \<in> set (subtrees tree) \<Longrightarrow> size t < size tree"
  by (cases tree) (auto simp: less_Suc_eq_le intro: size_list_estimation' le_SucI trans_le_add1)

text \<open>\<open>tree0\<close> is the global \<open>api_tree\<close>.\<close>

function parse_api_tree ::
    "kitserv_api_tree \<Rightarrow> kitserv_client \<Rightarrow> nat \<Rightarrow> kitserv_api_tree \<Rightarrow> (int \<times> kitserv_client) ub" where
  "parse_api_tree tree0 c path current =
     (let q = scan_until (\<lambda>x. x = NUL \<or> x = CHR ''/'') (req_headers c) path in
      if q \<ge> length (req_headers c) then None
      else let seg = take (q - path) (drop path (req_headers c)) in
        case match_entries c seg q (entries current) of
          None \<Rightarrow> None
        | Some (True, c) \<Rightarrow> Some (0, c)
        | Some (False, c) \<Rightarrow>
            (if api_allow_flags (ta c) \<noteq> 0 then Some (-1, set_status HTTP_405_METHOD_NOT_ALLOWED c)
             else (case find_subtree (subtrees tree0) (subtrees current) seg 0 of
                 None \<Rightarrow> None
               | Some None \<Rightarrow> Some (0, c)
               | Some (Some t) \<Rightarrow> parse_api_tree tree0 c (q + 1) t)))"
  by pat_completeness auto
termination
  by (relation "measure (\<lambda>(tree0, c, path, current). size current)")
    (auto dest!: find_subtree_in size_subtree)

declare parse_api_tree.simps [simp del]

section \<open>Serving a request\<close>

definition to_prepare :: "kitserv_client \<Rightarrow> os \<Rightarrow> int \<times> kitserv_client \<times> os" where
  "to_prepare c w = (0, set_state HTTP_STATE_PREPARE_RESPONSE c, w)"

definition serve_internal :: "env \<Rightarrow> kitserv_client \<Rightarrow> os \<Rightarrow> (int \<times> kitserv_client \<times> os) ub" where
  "serve_internal env c w = do {
     p \<leftarrow> req_path (ta c);
     path \<leftarrow> cstr (req_headers c) p;
     (_, c, w) \<leftarrow> kitserv_http_handle_static_path env c w path None;
     Some (to_prepare c w) }"

definition serve_endpoint :: "env \<Rightarrow> kitserv_client \<Rightarrow> os \<Rightarrow> (int \<times> kitserv_client \<times> os) ub" where
  "serve_endpoint env c w =
     (case api_endpoint_hit (ta c) of
        None \<Rightarrow> serve_internal env c w
      | Some h \<Rightarrow> do {
          (c, w) \<leftarrow> call_handler env h (api_internal_data (ta c)) c w;
          if status_code (resp_status (ta c)) = 0 then Some (0, c, w) else Some (to_prepare c w) })"

text \<open>A failed \<^verbatim>\<open>assert\<close> aborts the program, \<^term>\<open>None\<close> here.\<close>

definition kitserv_http_serve_request :: "env \<Rightarrow> kitserv_client \<Rightarrow> os \<Rightarrow> (int \<times> kitserv_client \<times> os) ub" where
  "kitserv_http_serve_request env c w =
     (case api_tree env of
        None \<Rightarrow> serve_internal env c w
      | Some tree \<Rightarrow>
          if api_endpoint_hit (ta c) = None then
            (if api_internal_data (ta c) = None \<and> api_allow_flags (ta c) = 0 then do {
               p \<leftarrow> req_path (ta c);
               let p = scan_until (\<lambda>x. x \<noteq> CHR ''/'') (req_headers c) p;
               _ \<leftarrow> peek (req_headers c) p;
               (rc, c) \<leftarrow> parse_api_tree tree c p tree;
               if rc \<noteq> 0 then Some (to_prepare c w) else serve_endpoint env c w }
             else None)
          else serve_endpoint env c w)"

section \<open>The documented routing\<close>

definition seg_of :: "string \<Rightarrow> string" where
  "seg_of s = takeWhile (\<lambda>x. x \<noteq> CHR ''/'') s"

definition rest_of :: "string \<Rightarrow> string" where
  "rest_of s = drop (length (seg_of s)) s"

definition entry_matches :: "string \<Rightarrow> kitserv_api_entry \<Rightarrow> bool" where
  "entry_matches s e \<longleftrightarrow> prefix_length e = int (length (seg_of s)) \<and>
     take (length (seg_of s)) (prefix e) = seg_of s \<and>
     (finishes_path e \<longrightarrow> list_all (\<lambda>x. x = CHR ''/'') (rest_of s))"

definition tree_matches :: "string \<Rightarrow> kitserv_api_tree \<Rightarrow> bool" where
  "tree_matches s t \<longleftrightarrow> tprefix_length t = int (length (seg_of s)) \<and> take (length (seg_of s)) (tprefix t) = seg_of s"

text \<open>The methods of the entries that a path names.\<close>

definition methods_at :: "string \<Rightarrow> kitserv_api_entry list \<Rightarrow> http_method" where
  "methods_at s es = foldr (\<lambda>e fl. emethod e OR fl) (filter (entry_matches s) es) 0"

datatype route = Hit nat | Wrong_Method http_method | No_Match

lemma find_in: "List.find P xs = Some x \<Longrightarrow> x \<in> set xs"
  by (induction xs) (auto split: if_splits)

text \<open>
  What \<^verbatim>\<open>kitserv.h\<close> documents: the entries of the tree are tried, then its subtrees, into
  which the search goes on; only where nothing matches is the answer 405, if the prefix of an
  entry has matched on the way (\<open>fl\<close> are the methods of those entries), else a static file.
\<close>

function doc_search :: "http_method \<Rightarrow> http_method \<Rightarrow> kitserv_api_tree \<Rightarrow> string \<Rightarrow> route" where
  "doc_search meth fl tree s =
     (case List.find (\<lambda>e. entry_matches s e \<and> meth AND emethod e \<noteq> 0) (entries tree) of
        Some e \<Rightarrow> Hit (handler e)
      | None \<Rightarrow>
          let fl = fl OR methods_at s (entries tree) in
          (case List.find (tree_matches s) (subtrees tree) of
              Some t \<Rightarrow> doc_search meth fl t (tl (rest_of s))
            | None \<Rightarrow> if fl \<noteq> 0 then Wrong_Method fl else No_Match))"
  by pat_completeness auto
termination
  by (relation "measure (\<lambda>(meth, fl, tree, s). size tree)") (auto dest!: find_in size_subtree)

declare doc_search.simps [simp del]

definition doc_route :: "http_method \<Rightarrow> kitserv_api_tree \<Rightarrow> string \<Rightarrow> route" where
  "doc_route meth tree s = doc_search meth 0 tree s"

text \<open>What the search does on strings: each level decides on 405 before its subtrees are tried.\<close>

function level_route :: "http_method \<Rightarrow> kitserv_api_tree \<Rightarrow> string \<Rightarrow> route" where
  "level_route meth tree s =
     (case List.find (\<lambda>e. entry_matches s e \<and> meth AND emethod e \<noteq> 0) (entries tree) of
        Some e \<Rightarrow> Hit (handler e)
      | None \<Rightarrow>
          if methods_at s (entries tree) \<noteq> 0 then Wrong_Method (methods_at s (entries tree))
          else (case List.find (tree_matches s) (subtrees tree) of
              Some t \<Rightarrow> level_route meth t (tl (rest_of s))
            | None \<Rightarrow> No_Match))"
  by pat_completeness auto
termination
  by (relation "measure (\<lambda>(meth, tree, s). size tree)") (auto dest!: find_in size_subtree)

declare level_route.simps [simp del]

section \<open>The search follows the documentation\<close>

text \<open>The loop over the entries, as a function of the string.\<close>

fun scan_entries :: "http_method \<Rightarrow> string \<Rightarrow> http_method \<Rightarrow> kitserv_api_entry list \<Rightarrow> nat option \<times> http_method" where
  "scan_entries meth s fl [] = (None, fl)"
| "scan_entries meth s fl (e # es) =
     (if entry_matches s e then
        (if meth AND emethod e \<noteq> 0 then (Some (handler e), fl OR emethod e)
         else scan_entries meth s (fl OR emethod e) es)
      else scan_entries meth s fl es)"

lemma finished_path:
  assumes "cstr m q = Some t"
  shows "peek m (scan_until (\<lambda>x. x \<noteq> CHR ''/'') m q) = Some (case dropWhile (\<lambda>x. x = CHR ''/'') t of [] \<Rightarrow> NUL | x # _ \<Rightarrow> x)"
proof -
  have s: "scan_until (\<lambda>x. x \<noteq> CHR ''/'') m q = q + length (takeWhile (\<lambda>x. x = CHR ''/'') t)"
    using scan_cstr [OF assms, of "\<lambda>x. x \<noteq> CHR ''/''"] by simp
  have "cstr m (q + length (takeWhile (\<lambda>x. x = CHR ''/'') t)) = Some (dropWhile (\<lambda>x. x = CHR ''/'') t)"
    using cstr_drop [OF assms] by (simp add: length_takeWhile_le dropWhile_eq_drop)
  from cstr_next [OF this] show ?thesis unfolding s by (simp add: list.case_eq_if)
qed

lemma match_entries_scan:
  assumes "cstr (req_headers c) q = Some (rest_of s)" and n: "NUL \<notin> set s"
  shows "match_entries c (seg_of s) q es =
    (case scan_entries (req_method (ta c)) s (api_allow_flags (ta c)) es of
       (h, fl) \<Rightarrow> Some (h \<noteq> None, c\<lparr>ta := (ta c)\<lparr>api_allow_flags := fl,
          api_endpoint_hit := (if h = None then api_endpoint_hit (ta c) else h)\<rparr>\<rparr>))"
  using assms(1)
proof (induction es arbitrary: c)
  case (Cons e es)
  let ?d = "dropWhile (\<lambda>x. x = CHR ''/'') (rest_of s)"
  have fin: "(case ?d of [] \<Rightarrow> NUL | x # _ \<Rightarrow> x) = NUL \<longleftrightarrow> list_all (\<lambda>x. x = CHR ''/'') (rest_of s)"
  proof (cases "?d = []")
    case True
    then show ?thesis by (simp add: list.case_eq_if list_all_iff)
  next
    case False
    then have "hd ?d \<in> set (rest_of s)" "hd ?d \<noteq> CHR ''/''"
      using hd_dropWhile [OF False] set_dropWhileD [of "hd ?d" "\<lambda>x. x = CHR ''/''" "rest_of s"]
      by (simp_all del: dropWhile_eq_Nil_conv)
    moreover from this(1) have "hd ?d \<noteq> NUL" using n by (auto simp: rest_of_def dest: in_set_dropD)
    ultimately show ?thesis using False by (auto simp: list.case_eq_if list_all_iff)
  qed
  let ?c = "c\<lparr>ta := (ta c)\<lparr>api_allow_flags := api_allow_flags (ta c) OR emethod e\<rparr>\<rparr>"
  have fp: "(if finishes_path e then do {
        x \<leftarrow> peek (req_headers c) (scan_until (\<lambda>x. x \<noteq> CHR ''/'') (req_headers c) q);
        Some (x = NUL) } else Some True) =
      Some (finishes_path e \<longrightarrow> list_all (\<lambda>x. x = CHR ''/'') (rest_of s))"
    unfolding finished_path [OF Cons.prems] by (simp add: fin)
  show ?case
  proof (cases "entry_matches s e")
    case False
    then have "match_entries c (seg_of s) q (e # es) = match_entries c (seg_of s) q es"
      unfolding match_entries.simps(2) fp by (simp add: entry_matches_def)
    with Cons.IH [OF Cons.prems] False show ?thesis by simp
  next
    case True
    then have "match_entries c (seg_of s) q (e # es) = (if req_method (ta c) AND emethod e \<noteq> 0
        then Some (True, ?c\<lparr>ta := (ta ?c)\<lparr>api_endpoint_hit := Some (handler e)\<rparr>\<rparr>)
        else match_entries ?c (seg_of s) q es)"
      unfolding match_entries.simps(2) fp by (simp add: entry_matches_def)
    with Cons.IH [of ?c] Cons.prems True show ?thesis by (simp split: prod.split)
  qed
qed simp

lemma scan_entries_find:
  "fst (scan_entries meth s fl es) =
     map_option handler (List.find (\<lambda>e. entry_matches s e \<and> meth AND emethod e \<noteq> 0) es)"
  by (induction es arbitrary: fl) auto

lemma scan_entries_flags:
  "fst (scan_entries meth s fl es) = None \<Longrightarrow> snd (scan_entries meth s fl es) = fl OR methods_at s es"
  by (induction es arbitrary: fl) (auto simp: methods_at_def or.assoc split: if_splits)

lemma find_subtree_root:
  "find_subtree (pre @ ts) ts (seg_of s) (length pre) = Some (List.find (tree_matches s) ts)"
proof (induction ts arbitrary: pre)
  case (Cons t ts)
  from Cons.IH [of "pre @ [t]"] show ?case by (simp add: tree_matches_def)
qed simp

text \<open>What the caller sees of a result.\<close>

definition route_result :: "kitserv_client \<Rightarrow> route \<Rightarrow> int \<times> kitserv_client \<Rightarrow> bool" where
  "route_result c res out \<longleftrightarrow> (case res of
     Hit h \<Rightarrow> \<exists>fl. out = (0, c\<lparr>ta := (ta c)\<lparr>api_allow_flags := fl, api_endpoint_hit := Some h\<rparr>\<rparr>)
   | Wrong_Method fl \<Rightarrow> out = (-1, set_status HTTP_405_METHOD_NOT_ALLOWED (c\<lparr>ta := (ta c)\<lparr>api_allow_flags := fl\<rparr>\<rparr>))
   | No_Match \<Rightarrow> out = (0, c))"

text \<open>One level of the search: the position after the component, and the entries.\<close>

lemma cstr_seg:
  assumes "cstr m p = Some s"
  defines "q \<equiv> scan_until (\<lambda>x. x = NUL \<or> x = CHR ''/'') m p"
  shows "q = p + length (seg_of s)" "q < length m" "take (q - p) (drop p m) = seg_of s"
    "cstr m q = Some (rest_of s)" "rest_of s \<noteq> [] \<Longrightarrow> cstr m (q + 1) = Some (tl (rest_of s))"
proof -
  have n: "NUL \<notin> set s" using cstr_no_nul [OF assms(1)] .
  have tw: "takeWhile (\<lambda>x. \<not> (x = NUL \<or> x = CHR ''/'')) s = seg_of s"
    unfolding seg_of_def using n by (intro takeWhile_cong) auto
  show q: "q = p + length (seg_of s)" unfolding q_def tw [symmetric] by (rule scan_cstr [OF assms(1)]) simp
  have l: "length (seg_of s) \<le> length s" by (simp add: seg_of_def length_takeWhile_le)
  with q cstr_length [OF assms(1)] show "q < length m" by simp
  show c: "cstr m q = Some (rest_of s)" using cstr_drop [OF assms(1) l] q by (simp add: rest_of_def)
  have "take (length s) (drop p m) = s" by (rule cstr_take [OF assms(1)])
  then have "take (length (seg_of s)) (drop p m) = take (length (seg_of s)) s"
    using l by (metis min.absorb1 take_take)
  also have "\<dots> = seg_of s" by (simp add: seg_of_def takeWhile_eq_take [symmetric])
  finally show "take (q - p) (drop p m) = seg_of s" using q by simp
  show "cstr m (q + 1) = Some (tl (rest_of s))" if "rest_of s \<noteq> []"
    using cstr_drop [OF c, of 1] that by (simp add: drop_Suc Suc_le_eq)
qed

lemma route_level:
  assumes s: "cstr (req_headers c) p = Some s"
    and fresh: "api_allow_flags (ta c) = 0" "api_endpoint_hit (ta c) = None"
  obtains (hit) e fl where "List.find (\<lambda>e. entry_matches s e \<and> req_method (ta c) AND emethod e \<noteq> 0) (entries cur) = Some e"
      "parse_api_tree tree c p cur = Some (0, c\<lparr>ta := (ta c)\<lparr>api_allow_flags := fl, api_endpoint_hit := Some (handler e)\<rparr>\<rparr>)"
    | (wrong) "List.find (\<lambda>e. entry_matches s e \<and> req_method (ta c) AND emethod e \<noteq> 0) (entries cur) = None"
      "methods_at s (entries cur) \<noteq> 0"
      "parse_api_tree tree c p cur =
         Some (-1, set_status HTTP_405_METHOD_NOT_ALLOWED (c\<lparr>ta := (ta c)\<lparr>api_allow_flags := methods_at s (entries cur)\<rparr>\<rparr>))"
    | (deeper) "List.find (\<lambda>e. entry_matches s e \<and> req_method (ta c) AND emethod e \<noteq> 0) (entries cur) = None"
      "methods_at s (entries cur) = 0"
      "parse_api_tree tree c p cur = (case find_subtree (subtrees tree) (subtrees cur) (seg_of s) 0 of
         None \<Rightarrow> None | Some None \<Rightarrow> Some (0, c)
       | Some (Some t) \<Rightarrow> parse_api_tree tree c (p + length (seg_of s) + 1) t)"
proof -
  let ?es = "entries cur" and ?m = "req_method (ta c)"
  note seg = cstr_seg [OF s]
  obtain h fl where sc: "scan_entries ?m s 0 ?es = (h, fl)" by (cases "scan_entries ?m s 0 ?es") auto
  have n: "NUL \<notin> set s" using cstr_no_nul [OF s] .
  let ?c = "c\<lparr>ta := (ta c)\<lparr>api_allow_flags := fl, api_endpoint_hit := (if h = None then None else h)\<rparr>\<rparr>"
  have me: "match_entries c (seg_of s) (p + length (seg_of s)) ?es = Some (h \<noteq> None, ?c)"
    using match_entries_scan [of c _ s ?es] seg(1,4) n sc fresh by simp
  have step: "parse_api_tree tree c p cur = (if h \<noteq> None then Some (0, ?c)
      else if fl \<noteq> 0 then Some (-1, set_status HTTP_405_METHOD_NOT_ALLOWED ?c)
      else (case find_subtree (subtrees tree) (subtrees cur) (seg_of s) 0 of
         None \<Rightarrow> None | Some None \<Rightarrow> Some (0, ?c)
       | Some (Some t) \<Rightarrow> parse_api_tree tree ?c (p + length (seg_of s) + 1) t))"
    using seg(1-3) me by (auto simp: parse_api_tree.simps [of tree c p cur] Let_def split: option.splits)
  from scan_entries_find [of ?m s 0 ?es] have h: "h = map_option handler
      (List.find (\<lambda>e. entry_matches s e \<and> ?m AND emethod e \<noteq> 0) ?es)" by (simp add: sc)
  show thesis
  proof (cases h)
    case (Some x)
    with h have "map_option handler (List.find (\<lambda>e. entry_matches s e \<and> ?m AND emethod e \<noteq> 0) ?es) = Some x" by simp
    then obtain e where "List.find (\<lambda>e. entry_matches s e \<and> ?m AND emethod e \<noteq> 0) ?es = Some e" "x = handler e"
      by (auto simp: map_option_case split: option.splits)
    with hit [of e fl] step Some show thesis by simp
  next
    case None
    with h have f: "List.find (\<lambda>e. entry_matches s e \<and> ?m AND emethod e \<noteq> 0) ?es = None" by simp
    have fl: "fl = methods_at s ?es" using scan_entries_flags [of ?m s 0 ?es] sc None by simp
    show thesis
    proof (cases "fl = 0")
      case True
      have "?c = c" using None True fresh by simp
      with step None True have "parse_api_tree tree c p cur = (case find_subtree (subtrees tree) (subtrees cur) (seg_of s) 0 of
         None \<Rightarrow> None | Some None \<Rightarrow> Some (0, c)
       | Some (Some t) \<Rightarrow> parse_api_tree tree c (p + length (seg_of s) + 1) t)" by (simp only: \<open>?c = c\<close> simp_thms if_False)
      with deeper f fl True show thesis by simp
    next
      case False
      have "?c = c\<lparr>ta := (ta c)\<lparr>api_allow_flags := fl\<rparr>\<rparr>" using None fresh(2) by simp
      then have "parse_api_tree tree c p cur =
          Some (-1, set_status HTTP_405_METHOD_NOT_ALLOWED (c\<lparr>ta := (ta c)\<lparr>api_allow_flags := fl\<rparr>\<rparr>))"
        using None False unfolding step by (simp only: simp_thms if_True if_False)
      with wrong f False show thesis unfolding fl by blast
    qed
  qed
qed

text \<open>
  A tree whose subtrees have none of their own, searched with a path that does not end in
  the name of a subtree: the search goes by levels.
\<close>

lemma routing_by_levels:
  assumes s: "cstr (req_headers c) p = Some s"
    and fresh: "api_allow_flags (ta c) = 0" "api_endpoint_hit (ta c) = None"
    and flat: "\<forall>t \<in> set (subtrees tree). subtrees t = []"
    and inner: "rest_of s \<noteq> [] \<or> \<not> list_ex (tree_matches s) (subtrees tree)"
  shows "\<exists>out. parse_api_tree tree c p tree = Some out \<and> route_result c (level_route (req_method (ta c)) tree s) out"
proof -
  let ?m = "req_method (ta c)"
  have leaf: "\<exists>out. parse_api_tree tree c q t = Some out \<and> route_result c (level_route ?m t s') out"
    if "subtrees t = []" "cstr (req_headers c) q = Some s'" for t q s'
    using that(2) fresh
  proof (cases rule: route_level [where tree = tree and cur = t])
    case deeper
    with that(1) fresh show ?thesis by (simp add: level_route.simps [of ?m t s'] route_result_def)
  next
    case (hit e fl)
    then show ?thesis by (auto simp: level_route.simps [of ?m t s'] route_result_def)
  qed (simp_all add: level_route.simps [of ?m t s'] route_result_def)
  from s fresh show ?thesis
  proof (cases rule: route_level [where tree = tree and cur = tree])
    case deeper
    have f: "find_subtree (subtrees tree) (subtrees tree) (seg_of s) 0 = Some (List.find (tree_matches s) (subtrees tree))"
      using find_subtree_root [of "[]"] by simp
    show ?thesis
    proof (cases "List.find (tree_matches s) (subtrees tree)")
      case None
      with deeper f fresh show ?thesis by (simp add: level_route.simps [of ?m tree s] route_result_def)
    next
      case (Some t)
      then have t: "t \<in> set (subtrees tree)" "tree_matches s t" by (auto simp: find_Some_iff)
      with inner have "rest_of s \<noteq> []" by (auto simp: list_ex_iff)
      with cstr_seg [OF s] have "cstr (req_headers c) (p + length (seg_of s) + 1) = Some (tl (rest_of s))" by simp
      from leaf [OF _ this] t(1) flat deeper f Some show ?thesis by (simp add: level_route.simps [of ?m tree s])
    qed
  next
    case (hit e fl)
    then show ?thesis by (auto simp: level_route.simps [of ?m tree s] route_result_def)
  qed (simp_all add: level_route.simps [of ?m tree s] route_result_def)
qed

text \<open>
  A path is clear in a tree if it does not end in the name of a subtree, and its first
  component does not name both an entry and a subtree. For these, going by levels is what
  the documentation says.
\<close>

definition clear_path :: "kitserv_api_tree \<Rightarrow> string \<Rightarrow> bool" where
  "clear_path tree s \<longleftrightarrow>
     (list_ex (tree_matches s) (subtrees tree) \<longrightarrow> rest_of s \<noteq> [] \<and> \<not> list_ex (entry_matches s) (entries tree))"

lemma no_methods: "\<not> list_ex (entry_matches s) es \<Longrightarrow> methods_at s es = 0"
  by (simp add: methods_at_def list_ex_iff filter_empty_conv [THEN iffD2])

lemma level_leaf:
  "subtrees t = [] \<Longrightarrow> level_route meth t s = doc_search meth 0 t s"
  by (simp add: level_route.simps [of meth t s] doc_search.simps [of meth 0 t s] Let_def split: option.split)

lemma level_route_documented:
  assumes flat: "\<forall>t \<in> set (subtrees tree). subtrees t = []" and "clear_path tree s"
  shows "level_route meth tree s = doc_route meth tree s"
proof (cases "List.find (tree_matches s) (subtrees tree)")
  case None
  then show ?thesis
    by (simp add: doc_route_def level_route.simps [of meth tree s] doc_search.simps [of meth 0 tree s] Let_def split: option.split)
next
  case (Some t)
  then have t: "t \<in> set (subtrees tree)" "tree_matches s t" by (auto simp: find_Some_iff)
  then have "\<not> list_ex (entry_matches s) (entries tree)" using assms(2) by (auto simp: clear_path_def list_ex_iff)
  from no_methods [OF this] Some t flat show ?thesis
    by (simp add: doc_route_def level_route.simps [of meth tree s] doc_search.simps [of meth 0 tree s] level_leaf split: option.split)
qed

text \<open>The search follows the documentation on the paths that are clear in the tree.\<close>

lemma routing_documented:
  assumes "cstr (req_headers c) p = Some s" "api_allow_flags (ta c) = 0" "api_endpoint_hit (ta c) = None"
    and flat: "\<forall>t \<in> set (subtrees tree). subtrees t = []" and clear: "clear_path tree s"
  shows "\<exists>out. parse_api_tree tree c p tree = Some out \<and> route_result c (doc_route (req_method (ta c)) tree s) out"
  unfolding level_route_documented [OF flat clear, symmetric]
  by (rule routing_by_levels [OF assms(1-4)]) (use clear in \<open>auto simp: clear_path_def\<close>)

section \<open>The search is defined\<close>

text \<open>
  The trees that are searched as documented: two levels, and methods that exist. For these the
  search stays within the bytes received, also when the path ends in the name of a subtree
  and the search goes on behind its NUL: there the slash of the version stops it.
\<close>

definition proper_tree :: "kitserv_api_tree \<Rightarrow> bool" where
  "proper_tree tree \<longleftrightarrow> (\<forall>t \<in> set (subtrees tree). subtrees t = []) \<and>
     (\<forall>t \<in> insert tree (set (subtrees tree)). \<forall>e \<in> set (entries t). emethod e = 0 \<or> allow_list (emethod e) \<noteq> [])"

definition flags_ok :: "http_method \<Rightarrow> bool" where
  "flags_ok fl \<longleftrightarrow> fl = 0 \<or> allow_list fl \<noteq> []"

lemma allow_list_or: "allow_list a \<noteq> [] \<Longrightarrow> allow_list (a OR b) \<noteq> []"
  by (auto simp: allow_list_def bit.conj_disj_distrib2 or_eq_0_iff split: if_splits)

lemma flags_ok_or: "flags_ok a \<Longrightarrow> flags_ok b \<Longrightarrow> flags_ok (a OR b)"
  using allow_list_or [of a b] allow_list_or [of b a] by (auto simp: flags_ok_def or.commute)

abbreviation searched :: "kitserv_client \<Rightarrow> http_method \<Rightarrow> nat option \<Rightarrow> kitserv_client" where
  "searched c fl h \<equiv> c\<lparr>ta := (ta c)\<lparr>api_allow_flags := fl, api_endpoint_hit := h\<rparr>\<rparr>"

lemma match_entries_total:
  assumes z: "q \<le> z" "z < length m" "m ! z \<noteq> CHR ''/''"
  shows "req_headers c = m \<Longrightarrow> \<forall>e \<in> set es. flags_ok (emethod e) \<Longrightarrow> flags_ok (api_allow_flags (ta c)) \<Longrightarrow>
    \<exists>b fl h. match_entries c seg q es = Some (b, searched c fl h) \<and> flags_ok fl \<and>
      (if b then h \<noteq> None \<and> fl \<noteq> 0 else h = api_endpoint_hit (ta c))"
proof (induction es arbitrary: c)
  case Nil
  have "c = searched c (api_allow_flags (ta c)) (api_endpoint_hit (ta c))" by simp
  with Nil show ?case by (metis match_entries.simps(1))
next
  case (Cons e es)
  let ?c = "c\<lparr>ta := (ta c)\<lparr>api_allow_flags := api_allow_flags (ta c) OR emethod e\<rparr>\<rparr>"
  let ?s = "scan_until (\<lambda>x. x \<noteq> CHR ''/'') m q"
  have "?s < length m" using scan_until_le [of q z m "\<lambda>x. x \<noteq> CHR ''/''"] z by simp
  then have fp: "(if finishes_path e then do { x \<leftarrow> peek m ?s; Some (x = NUL) } else Some True) =
      Some (finishes_path e \<longrightarrow> m ! ?s = NUL)" by (simp add: peek_def)
  note step = match_entries.simps(2) [of c seg q e es, unfolded Cons.prems(1) fp]
  show ?case
  proof (cases "prefix_length e = int (length seg) \<and> take (length seg) (prefix e) = seg \<and> (finishes_path e \<longrightarrow> m ! ?s = NUL)")
    case False
    then have "match_entries c seg q (e # es) = match_entries c seg q es" unfolding step by auto
    with Cons.IH [of c] Cons.prems show ?thesis by simp
  next
    case True
    then have r: "match_entries c seg q (e # es) = (if req_method (ta c) AND emethod e \<noteq> 0
        then Some (True, ?c\<lparr>ta := (ta ?c)\<lparr>api_endpoint_hit := Some (handler e)\<rparr>\<rparr>) else match_entries ?c seg q es)"
      unfolding step by simp
    have fl: "flags_ok (api_allow_flags (ta c) OR emethod e)" using Cons.prems flags_ok_or by simp
    show ?thesis
    proof (cases "req_method (ta c) AND emethod e \<noteq> 0")
      case True
      then have "api_allow_flags (ta c) OR emethod e \<noteq> 0" by (auto simp: or_eq_0_iff)
      with r True fl show ?thesis by (auto intro!: exI [of _ "api_allow_flags (ta c) OR emethod e"] exI [of _ "Some (handler e)"])
    next
      case False
      from Cons.IH [of ?c] Cons.prems fl obtain b fl' h where
        i: "match_entries ?c seg q es = Some (b, searched ?c fl' h)" "flags_ok fl'"
        "if b then h \<noteq> None \<and> fl' \<noteq> 0 else h = api_endpoint_hit (ta ?c)" by auto
      have "match_entries c seg q (e # es) = Some (b, searched c fl' h)" unfolding r using False i(1) by simp
      moreover have "if b then h \<noteq> None \<and> fl' \<noteq> 0 else h = api_endpoint_hit (ta c)" using i(3) by simp
      ultimately show ?thesis using i(2) by blast
    qed
  qed
qed

definition search_result :: "kitserv_client \<Rightarrow> int \<times> kitserv_client \<Rightarrow> bool" where
  "search_result c out \<longleftrightarrow> (\<exists>fl h. flags_ok fl \<and>
     (out = (0, searched c fl h) \<and> (fl = 0 \<longleftrightarrow> h = None) \<or>
      out = (-1, set_status HTTP_405_METHOD_NOT_ALLOWED (searched c fl None)) \<and> fl \<noteq> 0))"

lemma search_level:
  assumes y: "p \<le> y" "y + 1 < length (req_headers c)" "req_headers c ! y = CHR ''/''" "req_headers c ! (y + 1) = CHR ''1''"
    and t: "\<forall>e \<in> set (entries cur). flags_ok (emethod e)" and fresh: "api_allow_flags (ta c) = 0" "api_endpoint_hit (ta c) = None"
  defines "q \<equiv> scan_until (\<lambda>x. x = NUL \<or> x = CHR ''/'') (req_headers c) p"
  shows "(\<exists>out. parse_api_tree tree c p cur = Some out \<and> search_result c out) \<or>
    parse_api_tree tree c p cur = (case find_subtree (subtrees tree) (subtrees cur) (take (q - p) (drop p (req_headers c))) 0 of
       None \<Rightarrow> None | Some None \<Rightarrow> Some (0, c) | Some (Some t) \<Rightarrow> parse_api_tree tree c (q + 1) t)"
proof -
  let ?seg = "take (q - p) (drop p (req_headers c))"
  have q: "q \<le> y" unfolding q_def using y by (intro scan_until_le) simp_all
  have "flags_ok (api_allow_flags (ta c))" using fresh(1) by (simp add: flags_ok_def)
  from match_entries_total [of q "y + 1" "req_headers c" c "entries cur", OF _ y(2) _ refl t this] q y(4) obtain b fl h where
    m: "match_entries c ?seg q (entries cur) = Some (b, searched c fl h)" "flags_ok fl"
      "if b then h \<noteq> None \<and> fl \<noteq> 0 else h = api_endpoint_hit (ta c)" by fastforce
  have step: "parse_api_tree tree c p cur = (if b then Some (0, searched c fl h)
      else if fl \<noteq> 0 then Some (-1, set_status HTTP_405_METHOD_NOT_ALLOWED (searched c fl h))
      else (case find_subtree (subtrees tree) (subtrees cur) ?seg 0 of
         None \<Rightarrow> None | Some None \<Rightarrow> Some (0, searched c fl h) | Some (Some t) \<Rightarrow> parse_api_tree tree (searched c fl h) (q + 1) t))"
    using q y(2) m(1) by (simp add: parse_api_tree.simps [of tree c p cur] q_def [symmetric] Let_def split: bool.split)
  show ?thesis
  proof (cases b)
    case True
    with step m show ?thesis by (auto simp: search_result_def)
  next
    case False
    then have h: "h = None" using m(3) fresh(2) by simp
    show ?thesis
    proof (cases "fl = 0")
      case True
      have "searched c fl h = c" using True h fresh by simp
      then show ?thesis using step False True by (simp only: if_False simp_thms)
    next
      case fl: False
      with step m(1,2) False h show ?thesis by (auto simp: search_result_def)
    qed
  qed
qed

lemma search_total:
  assumes t: "proper_tree tree" and s: "cstr (req_headers c) p = Some s"
    and y: "p + length s < y" "y + 1 < length (req_headers c)" "req_headers c ! y = CHR ''/''" "req_headers c ! (y + 1) = CHR ''1''"
    and fresh: "api_allow_flags (ta c) = 0" "api_endpoint_hit (ta c) = None"
  shows "\<exists>out. parse_api_tree tree c p tree = Some out \<and> search_result c out"
proof -
  have none: "search_result c (0, c)" using fresh by (auto simp: search_result_def flags_ok_def intro!: exI [of _ "0 :: http_method"] exI [of _ "None"])
  have e: "\<forall>e \<in> set (entries u). flags_ok (emethod e)" if "u = tree \<or> u \<in> set (subtrees tree)" for u
    using t that by (auto simp: proper_tree_def flags_ok_def)
  have leaf: "\<exists>out. parse_api_tree tree c q u = Some out \<and> search_result c out" if "u \<in> set (subtrees tree)" "q \<le> y" for u q
  proof -
    have "subtrees u = []" using t that(1) by (simp add: proper_tree_def)
    with search_level [OF that(2) y(2-4) e [of u] fresh, of tree] that(1) none show ?thesis by auto
  qed
  note seg = cstr_seg [OF s]
  have q: "scan_until (\<lambda>x. x = NUL \<or> x = CHR ''/'') (req_headers c) p + 1 \<le> y"
    using seg(1) y(1) length_takeWhile_le [of "\<lambda>x. x \<noteq> CHR ''/''" s] by (simp add: seg_of_def)
  have "p \<le> y" using y(1) by simp
  from search_level [OF this y(2-4) e [of tree] fresh, of tree] find_subtree_root [of "[]" "subtrees tree" s] show ?thesis
    unfolding seg(3) using leaf [OF find_in q] none by (auto split: option.splits)
qed

section \<open>Properties\<close>

text \<open>
  C15: on the paths that are clear in a tree of two levels the search does what
  \<^verbatim>\<open>kitserv.h\<close> documents: the first entry whose prefix and method match is hit; else the
  matching subtree is searched in the same way; where nothing matches, the answer is 405 with
  the methods of all the entries whose prefix has matched, or a static file if there is none.
  Nothing else of the client changes. A path is clear if it does not end in the name of a
  subtree and its first component does not name both an entry and a subtree of the root;
  \<open>query_reaches_endpoint\<close> and \<open>method_hides_subtree\<close> show what happens otherwise, and
  \<open>nested_subtree_misrouted\<close> what in deeper trees.
\<close>

theorem routing_as_documented:
  assumes "cstr (req_headers c) p = Some s" "api_allow_flags (ta c) = 0" "api_endpoint_hit (ta c) = None"
    and "\<forall>t \<in> set (subtrees tree). subtrees t = []" "clear_path tree s"
  shows "\<exists>out. parse_api_tree tree c p tree = Some out \<and> route_result c (doc_route (req_method (ta c)) tree s) out"
  using assms by (rule routing_documented)

definition sample_entry :: "string \<Rightarrow> nat \<Rightarrow> kitserv_api_entry" where
  "sample_entry s h = \<lparr>prefix = s, prefix_length = int (length s), emethod = HTTP_GET, handler = h, finishes_path = False\<rparr>"

definition sample_tree :: kitserv_api_tree where
  "sample_tree = Api_Tree [] 0 [Api_Tree ''api'' 3 [] [sample_entry ''get'' 1]] [sample_entry ''login'' 2]"

lemma routing_as_documented_witness:
  "\<exists>out. parse_api_tree sample_tree (static_client ''api/get'') 0 sample_tree = Some out \<and>
     route_result (static_client ''api/get'') (doc_route (req_method (ta (static_client ''api/get''))) sample_tree ''api/get'') out"
  by (rule routing_as_documented)
    (simp_all add: static_client_def cstr_def zero_ta_def sample_tree_def sample_entry_def clear_path_def entry_matches_def tree_matches_def
      rest_of_def seg_of_def)

definition deep_tree :: kitserv_api_tree where
  "deep_tree = Api_Tree [] 0 [Api_Tree ''a'' 1 [Api_Tree ''x'' 1 [] [sample_entry ''f'' 5]] []] []"

text \<open>
  The comparison of a subtree's prefix reads the subtree with the same index of the root,
  not of the current tree: in a tree of three levels the path \<open>a/x/f\<close> of an existing
  endpoint is not found, and \<open>a/a/f\<close>, which names no endpoint, reaches it.
\<close>

theorem nested_subtree_misrouted:
  "doc_route HTTP_GET deep_tree ''a/x/f'' = Hit 5 \<and> doc_route HTTP_GET deep_tree ''a/a/f'' = No_Match \<and>
   map_option (\<lambda>(rc, c). api_endpoint_hit (ta c)) (parse_api_tree deep_tree (static_client ''a/x/f'') 0 deep_tree) = Some None \<and>
   map_option (\<lambda>(rc, c). api_endpoint_hit (ta c)) (parse_api_tree deep_tree (static_client ''a/a/f'') 0 deep_tree) = Some (Some 5)"
  by (simp add: doc_route_def doc_search.simps parse_api_tree.simps deep_tree_def sample_entry_def static_client_def zero_ta_def
      scan_until_eq entry_matches_def tree_matches_def seg_of_def rest_of_def methods_at_def)

text \<open>
  The documentation has the subtrees tried before a 405 is given. The code gives it first: an
  entry \<open>a\<close> for \<^verbatim>\<open>POST\<close> hides the endpoint \<open>a/f\<close> of the subtree \<open>a\<close> from \<^verbatim>\<open>GET\<close>.
\<close>

definition hiding_tree :: kitserv_api_tree where
  "hiding_tree = Api_Tree [] 0 [Api_Tree ''a'' 1 [] [sample_entry ''f'' 5]] [(sample_entry ''a'' 6)\<lparr>emethod := HTTP_POST\<rparr>]"

theorem method_hides_subtree:
  "doc_route HTTP_GET hiding_tree ''a/f'' = Hit 5 \<and>
   map_option (\<lambda>(rc, c). (rc, api_endpoint_hit (ta c), resp_status (ta c)))
     (parse_api_tree hiding_tree (static_client ''a/f'') 0 hiding_tree) = Some (-1, None, HTTP_405_METHOD_NOT_ALLOWED)"
  by (simp add: doc_route_def doc_search.simps parse_api_tree.simps hiding_tree_def sample_entry_def static_client_def zero_ta_def
      scan_until_eq entry_matches_def tree_matches_def seg_of_def rest_of_def methods_at_def Let_def)

text \<open>
  A path that ends in the name of a subtree does not end the search: it goes on behind
  the terminating NUL, in whatever the request holds there. Here the query string
  \<open>/api?get\<close> reaches the endpoint \<open>api/get\<close>.
\<close>

theorem query_reaches_endpoint:
  "doc_route HTTP_GET sample_tree ''api'' = No_Match \<and>
   map_option (\<lambda>(rc, c). api_endpoint_hit (ta c))
     (parse_api_tree sample_tree (static_client (''api'' @ [NUL] @ ''get'')) 0 sample_tree) = Some (Some 1)"
  by (simp add: doc_route_def doc_search.simps parse_api_tree.simps sample_tree_def sample_entry_def static_client_def zero_ta_def
      scan_until_eq entry_matches_def tree_matches_def seg_of_def rest_of_def methods_at_def)

end
