(* ===== verification/Http_Response.thy ===== *)
theory Http_Response
  imports Http_Static
begin

text \<open>
  Preparing a response (\<open>get_version_string\<close> to \<open>kitserv_http_prepare_response\<close> in
  \<^verbatim>\<open>src/http.c\<close>). The base of an I/O vector is an offset into its own block: vector 0
  into \<open>resp_start\<close>, 1 into \<open>resp_headers\<close>, 2 into the body buffer.
\<close>

section \<open>The start line\<close>

fun get_version_string :: "http_version \<Rightarrow> string" where
  "get_version_string HTTP_1_1 = ''HTTP/1.1 ''"
| "get_version_string HTTP_1_0 = ''HTTP/1.0 ''"

fun get_status_string :: "http_status \<Rightarrow> string" where
  "get_status_string HTTP_200_OK = ''200 OK'' @ CRLF"
| "get_status_string HTTP_204_NO_CONTENT = ''204 No Content'' @ CRLF"
| "get_status_string HTTP_206_PARTIAL_CONTENT = ''206 Partial Content'' @ CRLF"
| "get_status_string HTTP_304_NOT_MODIFIED = ''304 Not Modified'' @ CRLF"
| "get_status_string HTTP_400_BAD_REQUEST = ''400 Bad Request'' @ CRLF"
| "get_status_string HTTP_403_PERMISSION_DENIED = ''403 Permission Denied'' @ CRLF"
| "get_status_string HTTP_404_NOT_FOUND = ''404 Not Found'' @ CRLF"
| "get_status_string HTTP_405_METHOD_NOT_ALLOWED = ''405 Method Not Allowed'' @ CRLF"
| "get_status_string HTTP_408_REQUEST_TIMEOUT = ''408 Request Timeout'' @ CRLF"
| "get_status_string HTTP_413_CONTENT_TOO_LARGE = ''413 Content Too Large'' @ CRLF"
| "get_status_string HTTP_414_URI_TOO_LONG = ''414 URI Too Long'' @ CRLF"
| "get_status_string HTTP_416_RANGE_NOT_SATISFIABLE = ''416 Range Not Satisfiable'' @ CRLF"
| "get_status_string HTTP_431_REQUEST_HEADER_FIELDS_TOO_LARGE = ''431 Request Header Fields Too Large'' @ CRLF"
| "get_status_string HTTP_501_NOT_IMPLEMENTED = ''501 Not Implemented'' @ CRLF"
| "get_status_string HTTP_503_SERVICE_UNAVAILABLE = ''503 Service Unavailable'' @ CRLF"
| "get_status_string HTTP_505_VERSION_NOT_SUPPORTED = ''505 Version Not Supported'' @ CRLF"
| "get_status_string HTTP_507_INSUFFICIENT_STORAGE = ''507 Insufficient Storage'' @ CRLF"
| "get_status_string _ = ''500 Internal Server Error'' @ CRLF"

abbreviation start_set :: "kitserv_client \<Rightarrow> mem \<Rightarrow> nat \<Rightarrow> kitserv_client" where
  "start_set c m n \<equiv> c\<lparr>resp_start := m, ta := (ta c)\<lparr>resp_buf0 := (resp_buf0 (ta c))\<lparr>iov_len := n\<rparr>\<rparr>\<rparr>"

definition prepare_resp_start :: "kitserv_client \<Rightarrow> kitserv_client ub" where
  "prepare_resp_start c = do {
     (_, m, n) \<leftarrow> str_append HTTP_BUFSZ_SMALL (resp_start c) 0 HTTP_BUFSZ_SMALL (get_version_string (req_version (ta c)));
     (_, m, n) \<leftarrow> str_append HTTP_BUFSZ_SMALL m n HTTP_BUFSZ_SMALL (get_status_string (resp_status (ta c)));
     Some (start_set c m n) }"

section \<open>Error responses\<close>

definition prepare_error_response_headers :: "kitserv_client \<Rightarrow> errno \<Rightarrow> (int \<times> kitserv_client \<times> errno) ub" where
  "prepare_error_response_headers c e =
     (let c = c\<lparr>ta := (ta c)\<lparr>resp_buf1 := (resp_buf1 (ta c))\<lparr>iov_len := 0\<rparr>\<rparr>\<rparr> in
      if resp_status (ta c) = HTTP_405_METHOD_NOT_ALLOWED then do {
        (rc, c, e) \<leftarrow> http_header_add_allow c e;
        if rc \<noteq> 0 then Some (-1, c, e) else Some (0, c, e) }
      else Some (0, c, e))"

definition body_append :: "(nat \<Rightarrow> bool) \<Rightarrow> kitserv_client \<Rightarrow> string \<Rightarrow> (int \<times> kitserv_client) ub" where
  "body_append ok c s = do {
     (rc, b) \<leftarrow> kitserv_buffer_append ok (resp_body c) s (int (length s));
     Some (rc, c\<lparr>resp_body := b\<rparr>) }"

text \<open>The texts of the \<^verbatim>\<open>switch\<close>; 404 appends the path to its text.\<close>

fun error_text :: "http_status \<Rightarrow> string" where
  "error_text HTTP_400_BAD_REQUEST = ''Bad request.''"
| "error_text HTTP_403_PERMISSION_DENIED = ''Permission denied.''"
| "error_text HTTP_404_NOT_FOUND = ''Not found: ''"
| "error_text HTTP_405_METHOD_NOT_ALLOWED = ''Method not allowed.''"
| "error_text HTTP_408_REQUEST_TIMEOUT = ''Request timeout.''"
| "error_text HTTP_413_CONTENT_TOO_LARGE = ''Content too large.''"
| "error_text HTTP_414_URI_TOO_LONG = ''URI too long.''"
| "error_text HTTP_416_RANGE_NOT_SATISFIABLE = ''Range not satisfiable.''"
| "error_text HTTP_431_REQUEST_HEADER_FIELDS_TOO_LARGE = ''Request header fields too large.''"
| "error_text HTTP_501_NOT_IMPLEMENTED = ''Not implemented.''"
| "error_text HTTP_503_SERVICE_UNAVAILABLE = ''Service unavailable.''"
| "error_text HTTP_505_VERSION_NOT_SUPPORTED = ''Version not supported.''"
| "error_text HTTP_507_INSUFFICIENT_STORAGE = ''Insufficient storage.''"
| "error_text _ = ''Internal server error.''"

definition prepare_error_response_body ::
    "(nat \<Rightarrow> bool) \<Rightarrow> kitserv_client \<Rightarrow> os \<Rightarrow> (int \<times> kitserv_client \<times> os) ub" where
  "prepare_error_response_body ok c w = do {
     let c = c\<lparr>ta := (ta c)\<lparr>resp_body_pos := 0, resp_body_end := 0\<rparr>, resp_body := (resp_body c)\<lparr>b_len := 0\<rparr>\<rparr>;
     let (c, w) = close_fd_to_zero c w;
     (rc, c, e) \<leftarrow> kitserv_http_header_add_content_type c (os_errno w) ''text/plain'';
     let w = w\<lparr>os_errno := e\<rparr>;
     if rc \<noteq> 0 then Some (-1, c, w)
     else do {
       (rc, c) \<leftarrow> body_append ok c (error_text (resp_status (ta c)));
       if resp_status (ta c) = HTTP_404_NOT_FOUND then
         (if rc \<noteq> 0 then Some (-1, c, w)
          else do {
            p \<leftarrow> req_path (ta c);
            path \<leftarrow> cstr (req_headers c) p;
            (rc, c) \<leftarrow> body_append ok c path;
            Some (rc, c, w) })
       else Some (rc, c, w) } }"

section \<open>Preparing\<close>

text \<open>The block at the label \<^verbatim>\<open>success\<close>; the flag is false for \<^verbatim>\<open>goto error_response\<close>.\<close>

definition response_length :: "kitserv_client \<Rightarrow> int" where
  "response_length c =
     (if resp_fd (ta c) \<noteq> 0 then resp_body_end (ta c) - resp_body_pos (ta c) + 1
      else b_len (resp_body c) - resp_body_pos (ta c))"

definition set_bases :: "kitserv_client \<Rightarrow> kitserv_client" where
  "set_bases c =
     (let t = (ta c)\<lparr>resp_buf0 := (resp_buf0 (ta c))\<lparr>iov_base := 0\<rparr>,
                     resp_buf1 := (resp_buf1 (ta c))\<lparr>iov_base := 0\<rparr>\<rparr>;
          t = (if resp_fd t = 0 \<and> req_method t \<noteq> HTTP_HEAD
               then t\<lparr>resp_buf2 := \<lparr>iov_base = nat (resp_body_pos t),
                                   iov_len = size_t_of (b_len (resp_body c) - resp_body_pos t)\<rparr>\<rparr>
               else t)
      in c\<lparr>ta := t\<lparr>state := HTTP_STATE_SEND\<rparr>\<rparr>)"

definition prepare_success :: "kitserv_client \<Rightarrow> errno \<Rightarrow> (bool \<times> kitserv_client \<times> errno) ub" where
  "prepare_success c e = do {
     c \<leftarrow> prepare_resp_start c;
     (rc, c, e) \<leftarrow> http_header_add_content_length c e (response_length c);
     if rc \<noteq> 0 then Some (False, c, e)
     else do {
       (rc, c, e) \<leftarrow> kitserv_http_header_add c e ''server'' SERVER_NAME;
       if rc \<noteq> 0 then Some (False, c, e)
       else do {
         (rc, c) \<leftarrow> hdr_append c CRLF;
         if rc \<noteq> 0 then
           Some (False, c\<lparr>ta := (ta c)\<lparr>resp_fd := status_code HTTP_507_INSUFFICIENT_STORAGE\<rparr>\<rparr>, e)
         else Some (True, set_bases c, e) } } }"

text \<open>The block at \<^verbatim>\<open>error_response\<close> and the second pass through \<^verbatim>\<open>success\<close>.\<close>

definition prepare_error :: "env \<Rightarrow> kitserv_client \<Rightarrow> os \<Rightarrow> (int \<times> kitserv_client \<times> os) ub" where
  "prepare_error env c w = do {
     (rc, c, w) \<leftarrow>
       (if preserve_body_on_error (ta c) then Some (0, c, w)
        else do {
          (rc, c, e) \<leftarrow> (if preserve_headers_on_error (ta c) then Some (0, c, os_errno w)
                        else prepare_error_response_headers c (os_errno w));
          let w = w\<lparr>os_errno := e\<rparr>;
          if rc \<noteq> 0 then Some (-1, c, w) else prepare_error_response_body (alloc_ok env) c w });
     if rc \<noteq> 0 then Some (-1, c, w)
     else do {
       (sent, c, e) \<leftarrow> prepare_success c (os_errno w);
       Some (if sent then 0 else -1, c, w\<lparr>os_errno := e\<rparr>) } }"

definition kitserv_http_prepare_response ::
    "env \<Rightarrow> kitserv_client \<Rightarrow> os \<Rightarrow> (int \<times> kitserv_client \<times> os) ub" where
  "kitserv_http_prepare_response env c w =
     (if resp_status (ta c) = HTTP_X_HANGUP then Some (-1, c, w)
      else if status_is_error (resp_status (ta c)) then prepare_error env c w
      else do {
        (sent, c, e) \<leftarrow> prepare_success c (os_errno w);
        let w = w\<lparr>os_errno := e\<rparr>;
        if sent then Some (0, c, w) else prepare_error env c w })"

section \<open>The start line is never cut\<close>

definition start_line :: "kitserv_client \<Rightarrow> string" where
  "start_line c = get_version_string (req_version (ta c)) @ get_status_string (resp_status (ta c))"

lemma version_length: "length (get_version_string v) = 9"
  by (cases v) simp_all

lemma status_length: "length (get_status_string s) \<le> 37"
  by (cases s) simp_all

lemma prepare_resp_start_line:
  "\<exists>m. prepare_resp_start c = Some (start_set c m (length (start_line c))) \<and>
    take (length (start_line c)) m = start_line c"
proof -
  let ?v = "get_version_string (req_version (ta c))" and ?s = "get_status_string (resp_status (ta c))"
  let ?m1 = "mem_write (resp_start c) 0 (?v @ [NUL])"
  have B: "HTTP_BUFSZ_SMALL = 256" by (simp add: HTTP_BUFSZ_SMALL_def)
  have s1: "str_append HTTP_BUFSZ_SMALL (resp_start c) 0 HTTP_BUFSZ_SMALL ?v = Some (0, ?m1, 9)"
    using str_append_cases [of 0 "resp_start c" HTTP_BUFSZ_SMALL HTTP_BUFSZ_SMALL ?v]
    by (auto simp: B version_length)
  have l1: "9 \<le> length ?m1" by (simp add: length_mem_write version_length)
  let ?m2 = "mem_write ?m1 9 (?s @ [NUL])"
  have s2: "str_append HTTP_BUFSZ_SMALL ?m1 9 HTTP_BUFSZ_SMALL ?s = Some (0, ?m2, 9 + length ?s)"
    using str_append_cases [OF l1, of HTTP_BUFSZ_SMALL HTTP_BUFSZ_SMALL ?s] status_length [of "resp_status (ta c)"]
    by (auto simp: B)
  have "take 9 ?m1 = ?v" by (simp add: mem_write_def version_length)
  then have "take (length (start_line c)) ?m2 = start_line c"
    using l1 by (simp add: start_line_def version_length mem_write_def)
  moreover have "prepare_resp_start c = Some (start_set c ?m2 (length (start_line c)))"
    using s1 s2 by (simp add: prepare_resp_start_def start_line_def version_length)
  ultimately show ?thesis by blast
qed

section \<open>What is added to the headers\<close>

definition closing_headers :: "int \<Rightarrow> string" where
  "closing_headers n = ''content-length: '' @ dec_int n @ CRLF @ ''server: '' @ SERVER_NAME @ CRLF @ CRLF"

lemma hdr_start [simp]:
  "hdr_ok (start_set c m n) = hdr_ok c" "hdr_content (start_set c m n) = hdr_content c"
  "hdr_room (start_set c m n) = hdr_room c" "response_length (start_set c m n) = response_length c"
  by (simp_all add: hdr_ok_def hdr_content_def hdr_room_def response_length_def)

text \<open>
  The block at \<^verbatim>\<open>success\<close> goes through exactly when the closing headers fit; the client
  is then ready to be sent. Where it does not, an error is recorded (or meant to be).
\<close>

lemma prepare_success_cases:
  assumes ok: "hdr_ok c"
  obtains (sent) m n m' n' where "prepare_success c e = Some (True, set_bases (hdr_set (start_set c m n) m' n'), e)"
      "n = length (start_line c)" "take n m = start_line c"
      "n' \<le> length m'" "n' \<le> HTTP_BUFSZ" "take n' m' = hdr_content c @ closing_headers (response_length c)"
    | (full) m n m' n' s fd e' where "hdr_room c \<le> length (closing_headers (response_length c))"
      "prepare_success c e = Some (False, (hdr_set (start_set c m n) m' n')
         \<lparr>ta := (ta (hdr_set (start_set c m n) m' n'))\<lparr>resp_status := s, resp_fd := fd\<rparr>\<rparr>, e')"
      "n' \<le> length m'" "n' \<le> HTTP_BUFSZ" "fd \<in> {resp_fd (ta c), 507}"
      "s \<in> {resp_status (ta c), HTTP_507_INSUFFICIENT_STORAGE}"
proof -
  let ?cl = "''content-length: '' @ dec_int (response_length c) @ CRLF" and ?sv = "''server: '' @ SERVER_NAME @ CRLF"
  obtain m where st: "prepare_resp_start c = Some (start_set c m (length (start_line c)))"
    "take (length (start_line c)) m = start_line c" using prepare_resp_start_line by blast
  define n where "n = length (start_line c)"
  let ?c0 = "start_set c m n"
  have tl: "length (closing_headers (response_length c)) = length ?cl + length ?sv + 2" by (simp add: closing_headers_def)
  note unf = prepare_success_def st(1) n_def [symmetric] http_header_add_content_length_def
  have ok0: "hdr_ok ?c0" using ok by simp
  show thesis
  proof (cases "kitserv_http_header_add ?c0 e ''content-length'' (dec_int (response_length c))")
    case None
    with header_add_total [OF ok0, of e "''content-length''" "dec_int (response_length c)"] show thesis by auto
  next
    case h1: (Some res1)
    from header_add_cases [OF ok0, of "''content-length''" "dec_int (response_length c)" e] show thesis
    proof (elim disjE conjE exE)
      fix m1 assume f: "hdr_room ?c0 \<le> length (''content-length'' @ '': '' @ dec_int (response_length c) @ CRLF)"
        and h: "kitserv_http_header_add ?c0 e ''content-length'' (dec_int (response_length c)) =
          Some (-1, set_status HTTP_507_INSUFFICIENT_STORAGE (hdr_set ?c0 m1 (hdr_len ?c0)), ENOMEM)"
        and o: "hdr_ok (hdr_set ?c0 m1 (hdr_len ?c0))"
      show thesis
        by (rule full [where m = m and n = n and m' = m1 and n' = "hdr_len c" and s = HTTP_507_INSUFFICIENT_STORAGE and fd = "resp_fd (ta c)" and e' = ENOMEM])
          (use f h o tl in \<open>simp_all add: unf hdr_ok_def\<close>)
    next
      fix m1
      let ?n1 = "hdr_len ?c0 + length (''content-length'' @ '': '' @ dec_int (response_length c) @ CRLF)"
      assume h1: "kitserv_http_header_add ?c0 e ''content-length'' (dec_int (response_length c)) =
          Some (0, hdr_set ?c0 m1 ?n1, e)"
        and k1: "hdr_content (hdr_set ?c0 m1 ?n1) = hdr_content ?c0 @ ''content-length'' @ '': '' @ dec_int (response_length c) @ CRLF"
        and o1: "hdr_ok (hdr_set ?c0 m1 ?n1)"
      let ?c1 = "hdr_set ?c0 m1 ?n1"
      from header_add_cases [OF o1, of "''server''" SERVER_NAME e] show thesis
      proof (elim disjE conjE exE)
        fix m2 assume f: "hdr_room ?c1 \<le> length (''server'' @ '': '' @ SERVER_NAME @ CRLF)"
          and h: "kitserv_http_header_add ?c1 e ''server'' SERVER_NAME =
            Some (-1, set_status HTTP_507_INSUFFICIENT_STORAGE (hdr_set ?c1 m2 (hdr_len ?c1)), ENOMEM)"
          and o: "hdr_ok (hdr_set ?c1 m2 (hdr_len ?c1))"
        show thesis
          by (rule full [where m = m and n = n and m' = m2 and n' = ?n1 and s = HTTP_507_INSUFFICIENT_STORAGE and fd = "resp_fd (ta c)" and e' = ENOMEM])
            (use f h h1 o tl in \<open>simp_all add: unf hdr_ok_def hdr_room_def\<close>)
      next
        fix m2
        let ?n2 = "hdr_len ?c1 + length (''server'' @ '': '' @ SERVER_NAME @ CRLF)"
        let ?c2 = "hdr_set ?c1 m2 ?n2"
        assume h2: "kitserv_http_header_add ?c1 e ''server'' SERVER_NAME = Some (0, ?c2, e)"
          and k2: "hdr_content ?c2 = hdr_content ?c1 @ ''server'' @ '': '' @ SERVER_NAME @ CRLF" and o2: "hdr_ok ?c2"
        have run: "prepare_success c e = (case hdr_append ?c2 CRLF of None \<Rightarrow> None | Some (rc, c') \<Rightarrow>
            if rc \<noteq> 0 then Some (False, c'\<lparr>ta := (ta c')\<lparr>resp_fd := 507\<rparr>\<rparr>, e) else Some (True, set_bases c', e))"
          unfolding unf Option.bind.simps(2) prod.case hdr_start(4) h1 h2
          by (cases "hdr_append ?c2 CRLF") auto
        from o2 show thesis
        proof (cases rule: hdr_append_cases [of ?c2 CRLF])
          case (fits m3)
          let ?n3 = "hdr_len ?c2 + length CRLF"
          have t: "take ?n3 m3 = hdr_content c @ closing_headers (response_length c)"
            using fits(3) k1 k2 by (simp add: closing_headers_def)
          have l: "?n3 \<le> length m3" "?n3 \<le> HTTP_BUFSZ" using fits(4) by (simp_all add: hdr_ok_def)
          have "prepare_success c e = Some (True, set_bases (hdr_set (start_set c m n) m3 ?n3), e)"
            unfolding run fits(2) option.case prod.case by simp
          from sent [OF this n_def st(2) [folded n_def] l t] show thesis .
        next
          case f3: (full m3)
          have p: "prepare_success c e = Some (False, (hdr_set (start_set c m n) m3 (hdr_len ?c2))
              \<lparr>ta := (ta (hdr_set (start_set c m n) m3 (hdr_len ?c2)))\<lparr>resp_status := resp_status (ta c), resp_fd := 507\<rparr>\<rparr>, e)"
            unfolding run f3(2) option.case prod.case by simp
          moreover have r: "hdr_room c \<le> length (closing_headers (response_length c))"
            using f3(1) tl by (simp add: hdr_room_def)
          moreover have l: "hdr_len ?c2 \<le> length m3" "hdr_len ?c2 \<le> HTTP_BUFSZ" using f3(4) by (simp_all add: hdr_ok_def)
          ultimately show thesis by (intro full [OF r p l]) simp_all
        qed
      qed
    qed
  qed
qed

section \<open>The response to an error\<close>

lemma dec_nat_length: "n < 10 ^ k \<Longrightarrow> length (dec_nat n) \<le> max 1 k"
proof (induction n arbitrary: k rule: dec_nat.induct)
  case (1 n)
  show ?case
  proof (cases "n < 10")
    case True
    then show ?thesis by (simp add: dec_nat.simps [of n])
  next
    case False
    with "1.prems" obtain k' where k: "k = Suc k'" by (cases k) auto
    with "1.prems" have "n div 10 < 10 ^ k'" by (simp add: less_mult_imp_div_less)
    with "1.IH" [OF False this] False k show ?thesis
      by (cases k') (auto simp: dec_nat.simps [of n])
  qed
qed

lemma dec_int_length: "0 \<le> i \<Longrightarrow> i < 10 ^ k \<Longrightarrow> length (dec_int i) \<le> max 1 k"
  using dec_nat_length [of "nat i" k] by (simp add: dec_int_def nat_less_iff)

definition error_path :: "kitserv_client \<Rightarrow> string" where
  "error_path c = (case req_path (ta c) of None \<Rightarrow> []
     | Some p \<Rightarrow> (case cstr (req_headers c) p of None \<Rightarrow> [] | Some s \<Rightarrow> s))"

definition error_body :: "kitserv_client \<Rightarrow> string" where
  "error_body c = error_text (resp_status (ta c)) @
     (if resp_status (ta c) = HTTP_404_NOT_FOUND then error_path c else [])"

definition error_allow :: "kitserv_client \<Rightarrow> string" where
  "error_allow c = (if resp_status (ta c) = HTTP_405_METHOD_NOT_ALLOWED
     then ''allow: '' @ (if api_allow_flags (ta c) = 0 then ''GET, HEAD''
        else join '', '' (allow_list (api_allow_flags (ta c)))) @ CRLF else [])"

text \<open>A header line that fits is added; the shape of \<open>header_add_cases\<close> that chains.\<close>

lemma header_add_fits:
  assumes "hdr_ok c" "length (nm @ '': '' @ v @ CRLF) < hdr_room c"
  obtains m n where "kitserv_http_header_add c e nm v = Some (0, hdr_set c m n, e)" "hdr_ok (hdr_set c m n)"
    "hdr_content (hdr_set c m n) = hdr_content c @ nm @ '': '' @ v @ CRLF"
    "n = hdr_len c + length (nm @ '': '' @ v @ CRLF)"
proof -
  obtain m where
    "kitserv_http_header_add c e nm v = Some (0, hdr_set c m (hdr_len c + length (nm @ '': '' @ v @ CRLF)), e)"
    "hdr_content (hdr_set c m (hdr_len c + length (nm @ '': '' @ v @ CRLF))) = hdr_content c @ nm @ '': '' @ v @ CRLF"
    "hdr_ok (hdr_set c m (hdr_len c + length (nm @ '': '' @ v @ CRLF)))"
    using header_add_cases [OF assms(1), of nm v e] assms(2) not_le by blast
  with that show thesis by blast
qed

lemma body_append_fits:
  assumes "buffer_ok (resp_body c)" "b_len (resp_body c) + int (length s) < b_max (resp_body c)"
  obtains b where "body_append ok c s = Some (0, c\<lparr>resp_body := b\<rparr>)" "buffer_ok b"
    "contents b = contents (resp_body c) @ s" "b_len b = b_len (resp_body c) + int (length s)"
    "b_max b = b_max (resp_body c)"
  using buffer_append_fits [OF assms, of ok] by (auto simp: body_append_def)

lemma error_text_length: "length (error_text s) \<le> 32"
  by (cases s) simp_all

lemma allow_list_length: "length (join '', '' (allow_list f)) \<le> 29"
  by (simp add: allow_list_def)

text \<open>The headers of a generic error: emptied, but for the methods that a 405 names.\<close>

lemma error_headers_exact:
  assumes "resp_status (ta c) = HTTP_405_METHOD_NOT_ALLOWED \<longrightarrow>
    api_allow_flags (ta c) = 0 \<or> allow_list (api_allow_flags (ta c)) \<noteq> []"
  shows "\<exists>m n. prepare_error_response_headers c e = Some (0, hdr_set c m n, e) \<and> hdr_ok (hdr_set c m n) \<and>
    hdr_content (hdr_set c m n) = error_allow c \<and> n \<le> 38"
proof -
  let ?c = "hdr_set c (resp_headers c) 0"
  have ok: "hdr_ok ?c" by (simp add: hdr_ok_def)
  note unf = prepare_error_response_headers_def Let_def error_allow_def
  show ?thesis
  proof (cases "resp_status (ta c) = HTTP_405_METHOD_NOT_ALLOWED")
    case False
    then have "prepare_error_response_headers c e = Some (0, ?c, e)" by (simp add: unf)
    with False ok show ?thesis by (intro exI [of _ "resp_headers c"] exI [of _ 0]) (simp add: unf hdr_content_def)
  next
    case True
    define v where "v = (if api_allow_flags (ta c) = 0 then ''GET, HEAD'' else join '', '' (allow_list (api_allow_flags (ta c))))"
    have v: "http_header_add_allow ?c e = kitserv_http_header_add ?c e ''allow'' v"
      using assms True allow_header_complete [of ?c e]
      by (cases "api_allow_flags (ta c) = 0") (simp_all add: v_def http_header_add_allow_def)
    have l: "length v \<le> 29" using allow_list_length by (simp add: v_def)
    then have "length (''allow'' @ '': '' @ v @ CRLF) < hdr_room ?c" by (simp add: hdr_room_def HTTP_BUFSZ_def)
    from header_add_fits [OF ok this, of e] obtain m n where h:
      "kitserv_http_header_add ?c e ''allow'' v = Some (0, hdr_set ?c m n, e)" "hdr_ok (hdr_set ?c m n)"
      "hdr_content (hdr_set ?c m n) = hdr_content ?c @ ''allow'' @ '': '' @ v @ CRLF"
      "n = hdr_len ?c + length (''allow'' @ '': '' @ v @ CRLF)" .
    have "prepare_error_response_headers c e = Some (0, hdr_set c m n, e)"
      using True v h(1) by (simp add: unf)
    moreover have "hdr_content (hdr_set c m n) = error_allow c"
      using h(3) True by (simp add: error_allow_def v_def [symmetric] hdr_content_def)
    moreover have "n \<le> 38" using h(4) l by simp
    ultimately show ?thesis using h(2) by auto
  qed
qed

text \<open>The body of a generic error.\<close>

lemma error_body_exact:
  assumes b: "buffer_ok (resp_body c)" "4096 \<le> b_max (resp_body c)" and h: "hdr_ok c" "hdr_len c \<le> 64"
    and path: "resp_status (ta c) = HTTP_404_NOT_FOUND \<longrightarrow>
      (\<exists>p s. req_path (ta c) = Some p \<and> cstr (req_headers c) p = Some s \<and> length s \<le> 4083)"
  shows "\<exists>b m n. prepare_error_response_body ok c w = Some (0,
      (hdr_set c m n)\<lparr>resp_body := b, ta := (ta (hdr_set c m n))\<lparr>resp_body_pos := 0, resp_body_end := 0,
         resp_fd := min 0 (resp_fd (ta c))\<rparr>\<rparr>, snd (close_fd_to_zero c w)) \<and>
    hdr_ok (hdr_set c m n) \<and> hdr_content (hdr_set c m n) = hdr_content c @ ''content-type: text/plain'' @ CRLF \<and>
    n = hdr_len c + 26 \<and> buffer_ok b \<and> contents b = error_body c \<and> b_len b = int (length (error_body c))"
proof -
  define c0 where "c0 = c\<lparr>ta := (ta c)\<lparr>resp_body_pos := 0, resp_body_end := 0, resp_fd := min 0 (resp_fd (ta c))\<rparr>,
     resp_body := (resp_body c)\<lparr>b_len := 0\<rparr>\<rparr>"
  have cl: "close_fd_to_zero (c\<lparr>ta := (ta c)\<lparr>resp_body_pos := 0, resp_body_end := 0\<rparr>, resp_body := (resp_body c)\<lparr>b_len := 0\<rparr>\<rparr>) w =
      (c0, snd (close_fd_to_zero c w))"
    by (auto simp: close_fd_to_zero_def c0_def min_def)
  have ok0: "hdr_ok c0" "hdr_len c0 = hdr_len c" "hdr_content c0 = hdr_content c"
    using h(1) by (simp_all add: c0_def hdr_ok_def hdr_content_def)
  have "length (''content-type'' @ '': '' @ ''text/plain'' @ CRLF) < hdr_room c0"
    using h(2) ok0 by (simp add: hdr_room_def HTTP_BUFSZ_def)
  from header_add_fits [OF ok0(1) this, of "os_errno (snd (close_fd_to_zero c w))"] obtain m n where ct0:
    "kitserv_http_header_add c0 (os_errno (snd (close_fd_to_zero c w))) ''content-type'' ''text/plain'' =
       Some (0, hdr_set c0 m n, os_errno (snd (close_fd_to_zero c w)))"
    "hdr_ok (hdr_set c0 m n)"
    "hdr_content (hdr_set c0 m n) = hdr_content c0 @ ''content-type'' @ '': '' @ ''text/plain'' @ CRLF"
    "n = hdr_len c0 + length (''content-type'' @ '': '' @ ''text/plain'' @ CRLF)" .
  have "hdr_content (hdr_set c0 m n) = hdr_content c @ ''content-type: text/plain'' @ CRLF"
    unfolding ct0(3) ok0(3) by simp
  moreover have "n = hdr_len c + 26" unfolding ct0(4) ok0(2) by simp
  ultimately have ct:
    "kitserv_http_header_add c0 (os_errno (snd (close_fd_to_zero c w))) ''content-type'' ''text/plain'' =
       Some (0, hdr_set c0 m n, os_errno (snd (close_fd_to_zero c w)))"
    "hdr_ok (hdr_set c0 m n)" "hdr_content (hdr_set c0 m n) = hdr_content c @ ''content-type: text/plain'' @ CRLF"
    "n = hdr_len c + 26" using ct0(1,2) by blast+
  let ?c1 = "hdr_set c0 m n"
  have b1: "buffer_ok (resp_body ?c1)" "b_len (resp_body ?c1) = 0" "b_max (resp_body ?c1) = b_max (resp_body c)"
    "contents (resp_body ?c1) = []" using b by (auto simp: c0_def buffer_ok_def contents_def)
  have st: "resp_status (ta c0) = resp_status (ta c)" "req_path (ta c0) = req_path (ta c)"
    "req_headers c0 = req_headers c" by (simp_all add: c0_def)
  have "b_len (resp_body ?c1) + int (length (error_text (resp_status (ta c)))) < b_max (resp_body ?c1)"
    using b1 b(2) error_text_length [of "resp_status (ta c)"] by simp
  from body_append_fits [OF b1(1) this, of ok] obtain b2 where a1:
    "body_append ok ?c1 (error_text (resp_status (ta c))) = Some (0, ?c1\<lparr>resp_body := b2\<rparr>)" "buffer_ok b2"
    "contents b2 = error_text (resp_status (ta c))" "b_len b2 = int (length (error_text (resp_status (ta c))))"
    "b_max b2 = b_max (resp_body c)" using b1 by auto
  note unf = prepare_error_response_body_def kitserv_http_header_add_content_type_def Let_def cl ct(1) st a1(1)
  have res: "(hdr_set c m n)\<lparr>resp_body := b, ta := (ta (hdr_set c m n))\<lparr>resp_body_pos := 0, resp_body_end := 0,
      resp_fd := min 0 (resp_fd (ta c))\<rparr>\<rparr> = ?c1\<lparr>resp_body := b\<rparr>" for b by (simp add: c0_def)
  have ct': "hdr_ok (hdr_set c m n)" "hdr_content (hdr_set c m n) = hdr_content c @ ''content-type: text/plain'' @ CRLF"
    using ct(2,3) by (simp_all add: c0_def hdr_ok_def hdr_content_def)
  show ?thesis
  proof (cases "resp_status (ta c) = HTTP_404_NOT_FOUND")
    case False
    then have "prepare_error_response_body ok c w = Some (0, ?c1\<lparr>resp_body := b2\<rparr>, snd (close_fd_to_zero c w))"
      by (simp add: unf)
    with False a1 ct' ct(4) show ?thesis unfolding res [symmetric] by (auto simp: error_body_def)
  next
    case True
    with path obtain p s where p: "req_path (ta c) = Some p" "cstr (req_headers c) p = Some s" "length s \<le> 4083" by blast
    let ?c2 = "?c1\<lparr>resp_body := b2\<rparr>"
    have "buffer_ok (resp_body ?c2)" "b_len (resp_body ?c2) + int (length s) < b_max (resp_body ?c2)"
      using a1 p(3) b(2) True by simp_all
    from body_append_fits [OF this, of ok] obtain b3 where a2:
      "body_append ok ?c2 s = Some (0, ?c2\<lparr>resp_body := b3\<rparr>)" "buffer_ok b3"
      "contents b3 = contents b2 @ s" "b_len b3 = b_len b2 + int (length s)" by auto
    have "prepare_error_response_body ok c w = Some (0, ?c1\<lparr>resp_body := b3\<rparr>, snd (close_fd_to_zero c w))"
      using True p a2(1) a1(1) by (simp add: unf del: error_text.simps)
    with True p a1 a2 ct' ct(4) show ?thesis unfolding res [symmetric] by (auto simp: error_body_def error_path_def)
  qed
qed

text \<open>
  A generic error response: the status line, the allowed methods of a 405, the type and
  the length of the text, and the text. A descriptor is closed. With a negative one (no
  body is sent) the length is that of the file fields, which have been zeroed.
\<close>

definition sendable :: "kitserv_client \<Rightarrow> string \<Rightarrow> string \<Rightarrow> string \<Rightarrow> bool" where
  "sendable c start hdrs body \<longleftrightarrow> state (ta c) = HTTP_STATE_SEND \<and>
     iov_base (resp_buf0 (ta c)) = 0 \<and> take (iov_len (resp_buf0 (ta c))) (resp_start c) = start \<and>
     iov_len (resp_buf0 (ta c)) \<le> length (resp_start c) \<and>
     iov_base (resp_buf1 (ta c)) = 0 \<and> hdr_content c = hdrs \<and> hdr_len c \<le> length (resp_headers c) \<and>
     iov_base (resp_buf2 (ta c)) + iov_len (resp_buf2 (ta c)) \<le> length (b_buf (resp_body c)) \<and>
     take (iov_len (resp_buf2 (ta c))) (drop (iov_base (resp_buf2 (ta c))) (b_buf (resp_body c))) = body"

definition no_body :: "kitserv_client \<Rightarrow> bool" where
  "no_body c \<longleftrightarrow> resp_fd (ta c) < 0 \<or> req_method (ta c) = HTTP_HEAD"

lemma take_length_le: "take n m = s \<Longrightarrow> length s = n \<Longrightarrow> n \<le> length m"
  by auto

lemma error_response_kept:
  assumes err: "status_is_error (resp_status (ta c))"
    and keep: "preserve_headers_on_error (ta c) \<longrightarrow> hdr_ok c \<and> hdr_len c \<le> 64" "\<not> preserve_body_on_error (ta c)"
    and b: "buffer_ok (resp_body c)" "4096 \<le> b_max (resp_body c)" and z: "resp_buf2 (ta c) = zero_iovec"
    and allow: "resp_status (ta c) = HTTP_405_METHOD_NOT_ALLOWED \<longrightarrow>
      api_allow_flags (ta c) = 0 \<or> allow_list (api_allow_flags (ta c)) \<noteq> []"
    and path: "resp_status (ta c) = HTTP_404_NOT_FOUND \<longrightarrow>
      (\<exists>p s. req_path (ta c) = Some p \<and> cstr (req_headers c) p = Some s \<and> length s \<le> 4083)"
  shows "\<exists>c'. kitserv_http_prepare_response env c w = Some (0, c', snd (close_fd_to_zero c w)) \<and>
    sendable c' (start_line c)
      ((if preserve_headers_on_error (ta c) then hdr_content c else error_allow c) @ ''content-type: text/plain'' @ CRLF @
        closing_headers (if resp_fd (ta c) < 0 then 1 else int (length (error_body c))))
      (if no_body c then [] else error_body c) \<and>
    resp_fd (ta c') = min 0 (resp_fd (ta c)) \<and> buffer_ok (resp_body c') \<and> resp_status (ta c') = resp_status (ta c)"
proof -
  define pre where "pre = (if preserve_headers_on_error (ta c) then hdr_content c else error_allow c)"
  obtain m0 n0 where h0:
    "(if preserve_headers_on_error (ta c) then Some (0, c, os_errno w) else prepare_error_response_headers c (os_errno w)) =
       Some (0, hdr_set c m0 n0, os_errno w)"
    "hdr_ok (hdr_set c m0 n0)" "hdr_content (hdr_set c m0 n0) = pre" "n0 \<le> 64"
  proof (cases "preserve_headers_on_error (ta c)")
    case True
    have "hdr_set c (resp_headers c) (hdr_len c) = c" by simp
    with True keep(1) that [of "hdr_len c" "resp_headers c"] show thesis by (simp add: pre_def)
  next
    case False
    from error_headers_exact [OF allow, of "os_errno w"] obtain m n where
      "prepare_error_response_headers c (os_errno w) = Some (0, hdr_set c m n, os_errno w)"
      "hdr_ok (hdr_set c m n)" "hdr_content (hdr_set c m n) = error_allow c" "n \<le> 38" by blast
    with False that [of n m] show thesis by (simp add: pre_def)
  qed
  let ?c0 = "hdr_set c m0 n0"
  have w0: "w\<lparr>os_errno := os_errno w\<rparr> = w" by simp
  have b0: "buffer_ok (resp_body ?c0)" "4096 \<le> b_max (resp_body ?c0)" "hdr_len ?c0 \<le> 64" using b h0(4) by simp_all
  have p0: "resp_status (ta ?c0) = HTTP_404_NOT_FOUND \<longrightarrow>
      (\<exists>p s. req_path (ta ?c0) = Some p \<and> cstr (req_headers ?c0) p = Some s \<and> length s \<le> 4083)" using path by simp
  have same: "error_body ?c0 = error_body c" "close_fd_to_zero ?c0 w = (hdr_set (fst (close_fd_to_zero c w)) m0 n0, snd (close_fd_to_zero c w))"
    by (simp_all add: error_body_def error_path_def close_fd_to_zero_def split: option.split)
  from error_body_exact [OF b0(1,2) h0(2) b0(3) p0, of "alloc_ok env" w] obtain bd m1 n1 where h1:
    "prepare_error_response_body (alloc_ok env) ?c0 w = Some (0, (hdr_set ?c0 m1 n1)\<lparr>resp_body := bd,
       ta := (ta (hdr_set ?c0 m1 n1))\<lparr>resp_body_pos := 0, resp_body_end := 0, resp_fd := min 0 (resp_fd (ta ?c0))\<rparr>\<rparr>,
       snd (close_fd_to_zero ?c0 w))"
    "hdr_ok (hdr_set ?c0 m1 n1)" "hdr_content (hdr_set ?c0 m1 n1) = hdr_content ?c0 @ ''content-type: text/plain'' @ CRLF"
    "n1 = hdr_len ?c0 + 26" "buffer_ok bd" "contents bd = error_body ?c0" "b_len bd = int (length (error_body ?c0))" by blast
  define c1 where "c1 = (hdr_set c m1 n1)\<lparr>resp_body := bd,
       ta := (ta (hdr_set c m1 n1))\<lparr>resp_body_pos := 0, resp_body_end := 0, resp_fd := min 0 (resp_fd (ta c))\<rparr>\<rparr>"
  have run: "kitserv_http_prepare_response env c w = (case prepare_success c1 (os_errno (snd (close_fd_to_zero c w))) of
      None \<Rightarrow> None | Some (sent, c', e) \<Rightarrow> Some (if sent then 0 else -1, c', (snd (close_fd_to_zero c w))\<lparr>os_errno := e\<rparr>))"
  proof -
    have "resp_status (ta c) \<noteq> HTTP_X_HANGUP" using err by (auto simp: status_is_error_def)
    with err keep h0(1) h1(1) show ?thesis
      by (simp add: kitserv_http_prepare_response_def prepare_error_def w0 same c1_def [symmetric])
        (simp add: c1_def split: Option.bind_split)
  qed
  have ok1: "hdr_ok c1" "hdr_content c1 = pre @ ''content-type: text/plain'' @ CRLF" "hdr_len c1 \<le> 90"
    using h1(2,3,4) h0(3,4) by (simp_all add: c1_def hdr_ok_def hdr_content_def)
  have el: "length (error_body c) \<le> 4115" using path error_text_length [of "resp_status (ta c)"]
    by (auto simp: error_body_def error_path_def)
  define k where "k = (if resp_fd (ta c) < 0 then 1 else int (length (error_body c)))"
  have rl: "response_length c1 = k" using h1(7) same(1) by (simp add: c1_def response_length_def k_def min_def)
  have "length (dec_int k) \<le> 4" using dec_int_length [of k 4] el by (simp add: k_def)
  then have fit: "length (closing_headers k) < hdr_room c1"
    using ok1(3) by (simp add: closing_headers_def SERVER_NAME_def hdr_room_def HTTP_BUFSZ_def)
  from ok1(1) show ?thesis
  proof (cases rule: prepare_success_cases [where e = "os_errno (snd (close_fd_to_zero c w))"])
    case (sent m n m' n')
    let ?c' = "set_bases (hdr_set (start_set c1 m n) m' n')"
    have body: "take (length (error_body c)) (b_buf bd) = error_body c" using h1(6,7) same(1) by (simp add: contents_def)
    have ll: "length (error_body c) \<le> length (b_buf bd)" using take_length_le [OF body] by simp
    have sl: "start_line c1 = start_line c" by (simp add: c1_def start_line_def)
    have "sendable ?c' (start_line c) (hdr_content c1 @ closing_headers k) (if no_body c then [] else error_body c)"
      using sent(2-6) sl rl ll body h1(7) same(1) z take_length_le [OF sent(3)] el
      by (auto simp: sendable_def set_bases_def Let_def c1_def hdr_content_def no_body_def zero_iovec_def)
    moreover have "resp_fd (ta ?c') = min 0 (resp_fd (ta c))" "buffer_ok (resp_body ?c')" "resp_status (ta ?c') = resp_status (ta c)"
      using h1(5) by (simp_all add: set_bases_def Let_def c1_def)
    ultimately show ?thesis using sent(1) run ok1(2) by (simp add: k_def [symmetric] pre_def [symmetric])
  next
    case full
    with fit rl show ?thesis by simp
  qed
qed

lemma error_response_exact:
  assumes "status_is_error (resp_status (ta c))" "\<not> preserve_headers_on_error (ta c)" "\<not> preserve_body_on_error (ta c)"
    and "buffer_ok (resp_body c)" "4096 \<le> b_max (resp_body c)" "resp_buf2 (ta c) = zero_iovec"
    and "resp_status (ta c) = HTTP_405_METHOD_NOT_ALLOWED \<longrightarrow>
      api_allow_flags (ta c) = 0 \<or> allow_list (api_allow_flags (ta c)) \<noteq> []"
    and "resp_status (ta c) = HTTP_404_NOT_FOUND \<longrightarrow>
      (\<exists>p s. req_path (ta c) = Some p \<and> cstr (req_headers c) p = Some s \<and> length s \<le> 4083)"
  shows "\<exists>c'. kitserv_http_prepare_response env c w = Some (0, c', snd (close_fd_to_zero c w)) \<and>
    sendable c' (start_line c)
      (error_allow c @ ''content-type: text/plain'' @ CRLF @
        closing_headers (if resp_fd (ta c) < 0 then 1 else int (length (error_body c))))
      (if no_body c then [] else error_body c) \<and>
    resp_fd (ta c') = min 0 (resp_fd (ta c)) \<and> buffer_ok (resp_body c')"
  using error_response_kept [of c env w] assms by auto

section \<open>Properties\<close>

text \<open>
  The status line of a response is never cut off and never depends on what the buffer
  held before: it is the version and the status text, for every status.
\<close>

theorem status_line_whole:
  "\<exists>m. prepare_resp_start c = Some (start_set c m (length (start_line c))) \<and> take (length (start_line c)) m = start_line c"
  by (rule prepare_resp_start_line)

text \<open>
  C16: a generic error response is, byte for byte, the status line, the allowed methods of a
  405, the type and the length of the text, the server name, and the text (with the path
  for a 404), sent only where a body is allowed; the descriptor is closed.
\<close>

theorem error_response_bytes:
  assumes "status_is_error (resp_status (ta c))" "\<not> preserve_headers_on_error (ta c)" "\<not> preserve_body_on_error (ta c)"
    and "buffer_ok (resp_body c)" "4096 \<le> b_max (resp_body c)" "resp_buf2 (ta c) = zero_iovec"
    and "resp_status (ta c) = HTTP_405_METHOD_NOT_ALLOWED \<longrightarrow>
      api_allow_flags (ta c) = 0 \<or> allow_list (api_allow_flags (ta c)) \<noteq> []"
    and "resp_status (ta c) = HTTP_404_NOT_FOUND \<longrightarrow>
      (\<exists>p s. req_path (ta c) = Some p \<and> cstr (req_headers c) p = Some s \<and> length s \<le> 4083)"
  shows "\<exists>c'. kitserv_http_prepare_response env c w = Some (0, c', snd (close_fd_to_zero c w)) \<and>
    sendable c' (start_line c)
      (error_allow c @ ''content-type: text/plain'' @ CRLF @
        closing_headers (if resp_fd (ta c) < 0 then 1 else int (length (error_body c))))
      (if no_body c then [] else error_body c) \<and>
    resp_fd (ta c') = min 0 (resp_fd (ta c)) \<and> buffer_ok (resp_body c')"
  using assms by (rule error_response_exact)

lemma error_response_bytes_witness:
  defines "c \<equiv> set_status HTTP_404_NOT_FOUND (static_client ''/nix'')"
  shows "\<exists>c'. kitserv_http_prepare_response sample_env c quiet_os = Some (0, c', snd (close_fd_to_zero c quiet_os)) \<and>
    sendable c' (start_line c)
      (error_allow c @ ''content-type: text/plain'' @ CRLF @
        closing_headers (if resp_fd (ta c) < 0 then 1 else int (length (error_body c))))
      (if no_body c then [] else error_body c) \<and>
    resp_fd (ta c') = min 0 (resp_fd (ta c)) \<and> buffer_ok (resp_body c')"
  by (rule error_response_bytes)
    (simp_all add: c_def static_client_def zero_ta_def status_is_error_def buffer_ok_def cstr_def)

text \<open>
  An error answered to a \<open>HEAD\<close> request whose descriptor is the marker for files that
  are not opened announces a body of one byte, whatever the text is: the descriptor is not
  zero, so that the length is taken from the file positions, which have been reset.
\<close>

theorem head_error_length:
  assumes "resp_fd (ta c) = KITSERV_FD_HEAD" "resp_status (ta c) = HTTP_400_BAD_REQUEST"
    and "\<not> preserve_headers_on_error (ta c)" "\<not> preserve_body_on_error (ta c)"
    and "buffer_ok (resp_body c)" "4096 \<le> b_max (resp_body c)" "resp_buf2 (ta c) = zero_iovec"
  shows "\<exists>c'. kitserv_http_prepare_response env c w = Some (0, c', w) \<and>
    hdr_content c' = ''content-type: text/plain'' @ CRLF @ ''content-length: 1'' @ CRLF @ ''server: kitserv'' @ CRLF @ CRLF"
proof -
  have e: "status_is_error (resp_status (ta c))" "error_allow c = []" "close_fd_to_zero c w = (c, w)" "dec_int 1 = ''1''"
    using assms(1,2) by (simp_all add: status_is_error_def error_allow_def KITSERV_FD_HEAD_def dec_int_def dec_nat.simps digit_char_def) code_simp
  from error_response_exact [OF e(1) assms(3-7), of env w] assms(1,2) e(2-4) show ?thesis
    by (auto simp: sendable_def closing_headers_def KITSERV_FD_HEAD_def SERVER_NAME_def)
qed

lemma head_error_length_witness:
  defines "c \<equiv> (static_client ''/x'')\<lparr>ta := (ta (static_client ''/x''))\<lparr>resp_fd := KITSERV_FD_HEAD,
     req_method := HTTP_HEAD, resp_status := HTTP_400_BAD_REQUEST\<rparr>\<rparr>"
  shows "\<exists>c'. kitserv_http_prepare_response sample_env c quiet_os = Some (0, c', quiet_os) \<and>
    hdr_content c' = ''content-type: text/plain'' @ CRLF @ ''content-length: 1'' @ CRLF @ ''server: kitserv'' @ CRLF @ CRLF"
  by (rule head_error_length) (simp_all add: c_def static_client_def zero_ta_def buffer_ok_def)

end
