(* ===== verification/Http_Send.thy ===== *)
theory Http_Send
  imports Http_Response
begin

text \<open>
  Sending (\<open>kitserv_http_send_response\<close> and \<open>kitserv_http_send_response_file\<close> of
  \<^verbatim>\<open>src/http.c\<close>). \<^verbatim>\<open>writev\<close> and \<^verbatim>\<open>sendfile\<close> follow the script \<open>os_wr\<close>; the content of
  an open file is a function of its descriptor.
\<close>

section \<open>The kernel\<close>

text \<open>
  What of \<open>data\<close> is taken: the number of bytes, or -1 with an error. Offering nothing
  takes nothing.
\<close>

definition os_put :: "string \<Rightarrow> os \<Rightarrow> int \<times> os" where
  "os_put data w =
     (if data = [] then (0, w)
      else (case os_wr w of
          [] \<Rightarrow> (int (length data), w\<lparr>os_out := os_out w @ data\<rparr>)
        | Takes n # es \<Rightarrow> (int (min n (length data)), w\<lparr>os_wr := es, os_out := os_out w @ take n data\<rparr>)
        | WBlock # es \<Rightarrow> (-1, w\<lparr>os_wr := es, os_errno := EAGAIN\<rparr>)
        | WErr e # es \<Rightarrow> (-1, w\<lparr>os_wr := es, os_errno := e\<rparr>)))"

section \<open>The vectors\<close>

definition vec_bytes :: "mem \<Rightarrow> iovec \<Rightarrow> string ub" where
  "vec_bytes m v = (if iov_len v = 0 then Some []
     else if iov_base v + iov_len v \<le> length m then Some (take (iov_len v) (drop (iov_base v) m)) else None)"

definition response_bytes :: "kitserv_client \<Rightarrow> string ub" where
  "response_bytes c = do {
     b0 \<leftarrow> vec_bytes (resp_start c) (resp_buf0 (ta c));
     b1 \<leftarrow> vec_bytes (resp_headers c) (resp_buf1 (ta c));
     b2 \<leftarrow> vec_bytes (b_buf (resp_body c)) (resp_buf2 (ta c));
     Some (b0 @ b1 @ b2) }"

text \<open>
  The loop over the three vectors after \<open>rc\<close> bytes were taken: each base moves by all of
  \<open>rc\<close>, until a vector is longer than \<open>rc\<close>. The flag is \<^verbatim>\<open>i == 3\<close>.
\<close>

definition skip :: "nat \<Rightarrow> iovec \<Rightarrow> iovec" where
  "skip rc v = \<lparr>iov_base = iov_base v + rc, iov_len = iov_len v - rc\<rparr>"

definition advance_bufs :: "nat \<Rightarrow> http_transaction \<Rightarrow> bool \<times> http_transaction" where
  "advance_bufs rc t =
     (let t0 = t\<lparr>resp_buf0 := skip rc (resp_buf0 t)\<rparr> in
      if iov_len (resp_buf0 t) > rc then (False, t0)
      else let t1 = t0\<lparr>resp_buf1 := skip rc (resp_buf1 t)\<rparr> in
        if iov_len (resp_buf1 t) > rc then (False, t1)
        else let t2 = t1\<lparr>resp_buf2 := skip rc (resp_buf2 t)\<rparr> in
          if iov_len (resp_buf2 t) > rc then (False, t2) else (True, t2))"

lemma os_put_less: "os_put data w = (rc, w') \<Longrightarrow> rc < int (length data) \<Longrightarrow> length (os_wr w') < length (os_wr w)"
  by (auto simp: os_put_def split: if_splits list.splits wr_event.splits)

lemma vec_bytes_length: "vec_bytes m v = Some b \<Longrightarrow> length b = iov_len v"
  by (auto simp: vec_bytes_def split: if_splits)

lemma advance_short:
  assumes "response_bytes c = Some data" "advance_bufs rc (ta c) = (False, t)"
  shows "rc < length data"
  using assms by (auto simp: response_bytes_def advance_bufs_def Let_def bind_eq_Some_conv
      dest!: vec_bytes_length split: if_splits)

lemma send_step_less:
  assumes "response_bytes c = Some data" "os_put data w = (rc, w')" "\<not> rc < 0" "advance_bufs (nat rc) (ta c) = (False, t)"
  shows "length (os_wr w') < length (os_wr w)"
  using advance_short [OF assms(1,4)] os_put_less [OF assms(2)] assms(3) by linarith

text \<open>
  \<^verbatim>\<open>errno = EAGAIN || errno == EWOULDBLOCK ? 0 : -1\<close> assigns: the condition is the
  constant \<open>EAGAIN\<close>, so that \<^verbatim>\<open>errno\<close> becomes 0 and the result is 0 for every error.
\<close>

function kitserv_http_send_response :: "kitserv_client \<Rightarrow> os \<Rightarrow> (int \<times> kitserv_client \<times> os) ub" where
  "kitserv_http_send_response c w =
     (case response_bytes c of
        None \<Rightarrow> None
      | Some data \<Rightarrow>
          (case os_put data w of
             (rc, w) \<Rightarrow>
               if rc < 0 then Some (0, c, w\<lparr>os_errno := ENONE\<rparr>)
               else (case advance_bufs (nat rc) (ta c) of
                   (True, t) \<Rightarrow> Some (0, c\<lparr>ta := t\<lparr>state := HTTP_STATE_SEND_FILE\<rparr>\<rparr>, w)
                 | (False, t) \<Rightarrow> kitserv_http_send_response (c\<lparr>ta := t\<rparr>) w)))"
  by pat_completeness auto
termination
  by (relation "measure (\<lambda>(c, w). length (os_wr w))") (auto dest!: sym [where t = "os_put _ _"] sym [where t = "advance_bufs _ _"] intro: send_step_less)

declare kitserv_http_send_response.simps [simp del]

section \<open>The file\<close>

text \<open>
  \<^verbatim>\<open>sendfile(out, in, &pos, count)\<close>: at most \<open>count\<close> bytes of the file from \<open>pos\<close> on (and at
  most \<open>0x7ffff000\<close> in one call), 0 at its end, an error for a negative position. The new position is returned.
\<close>

definition sendfile :: "(int \<Rightarrow> string) \<Rightarrow> int \<Rightarrow> int \<Rightarrow> nat \<Rightarrow> os \<Rightarrow> int \<times> int \<times> os" where
  "sendfile content fd pos count w =
     (if pos < 0 then (-1, pos, w\<lparr>os_errno := EINVAL\<rparr>)
      else (case os_put (take (min count 0x7ffff000) (drop (nat pos) (content fd))) w of
          (rc, w) \<Rightarrow> (rc, if rc > 0 then pos + rc else pos, w)))"

function sendfile_loop :: "(int \<Rightarrow> string) \<Rightarrow> int \<Rightarrow> int \<Rightarrow> int \<Rightarrow> os \<Rightarrow> int \<times> int \<times> os" where
  "sendfile_loop content fd pos stop w =
     (case sendfile content fd pos (size_t_of (stop - pos + 1)) w of
        (rc, pos', w') \<Rightarrow>
          if rc > 0 \<and> pos' \<le> stop then sendfile_loop content fd pos' stop w' else (rc, pos', w'))"
  by pat_completeness auto
termination
  by (relation "measure (\<lambda>(content, fd, pos, stop, w). nat (stop + 1 - pos))")
    (auto simp: sendfile_def split: if_splits prod.splits)

declare sendfile_loop.simps [simp del]

definition kitserv_http_send_response_file ::
    "(int \<Rightarrow> string) \<Rightarrow> kitserv_client \<Rightarrow> os \<Rightarrow> int \<times> kitserv_client \<times> os" where
  "kitserv_http_send_response_file content c w =
     (let done = (\<lambda>c w.
            let c = set_state HTTP_STATE_DONE c in
            (if status_is_error (resp_status (ta c)) \<or> req_version (ta c) = HTTP_1_0 then -1 else 0, c, w)) in
      if resp_fd (ta c) > 0 \<and> req_method (ta c) \<noteq> HTTP_HEAD then
        (case sendfile_loop content (resp_fd (ta c)) (resp_body_pos (ta c)) (resp_body_end (ta c)) w of
           (rc, pos, w) \<Rightarrow>
             let c = c\<lparr>ta := (ta c)\<lparr>resp_body_pos := pos\<rparr>\<rparr> in
             if pos > resp_body_end (ta c) then
               (case close_fd_to_zero c w of (c, w) \<Rightarrow> done c w)
             else if rc < 0 then (if os_errno w = EAGAIN then 0 else -1, c, w)
             else done c w)
      else done c w)"

section \<open>The response arrives whole\<close>

lemma sendable_bytes:
  assumes "sendable c s h b"
  shows "response_bytes c = Some (s @ h @ b)"
  using assms by (auto simp: sendable_def response_bytes_def vec_bytes_def hdr_content_def)

text \<open>A kernel that takes all: the peer gets the start line, the headers and the body.\<close>

lemma advance_all:
  "iov_len (resp_buf0 t) \<le> rc \<Longrightarrow> iov_len (resp_buf1 t) \<le> rc \<Longrightarrow> iov_len (resp_buf2 t) \<le> rc \<Longrightarrow>
   fst (advance_bufs rc t)"
  by (simp add: advance_bufs_def Let_def)

lemma response_lengths:
  assumes "response_bytes c = Some data"
  shows "length data = iov_len (resp_buf0 (ta c)) + hdr_len c + iov_len (resp_buf2 (ta c))"
  using assms by (auto simp: response_bytes_def bind_eq_Some_conv dest!: vec_bytes_length)

text \<open>What sending changes of a client.\<close>

definition send_frame :: "kitserv_client \<Rightarrow> kitserv_client" where
  "send_frame c = c\<lparr>ta := (ta c)\<lparr>state := HTTP_STATE_SEND, resp_buf0 := zero_iovec, resp_buf1 := zero_iovec,
     resp_buf2 := zero_iovec\<rparr>\<rparr>"

lemma advance_frame: "advance_bufs rc (ta c) = (b, t) \<Longrightarrow> send_frame (c\<lparr>ta := t\<rparr>) = send_frame c"
  by (auto simp: advance_bufs_def Let_def send_frame_def split: if_splits)

lemma send_whole:
  assumes "response_bytes c = Some data" "os_wr w = []"
  shows "\<exists>c'. kitserv_http_send_response c w = Some (0, c', w\<lparr>os_out := os_out w @ data\<rparr>) \<and>
    state (ta c') = HTTP_STATE_SEND_FILE \<and> send_frame c' = send_frame c"
proof -
  have p: "os_put data w = (int (length data), w\<lparr>os_out := os_out w @ data\<rparr>)"
    using assms(2) by (simp add: os_put_def)
  obtain b t where a: "advance_bufs (length data) (ta c) = (b, t)" by (cases "advance_bufs (length data) (ta c)")
  have b: "b" using advance_all [of "ta c" "length data"] response_lengths [OF assms(1)] a by simp
  have "kitserv_http_send_response c w =
      Some (0, c\<lparr>ta := t\<lparr>state := HTTP_STATE_SEND_FILE\<rparr>\<rparr>, w\<lparr>os_out := os_out w @ data\<rparr>)"
    using assms(1) p a b by (simp add: kitserv_http_send_response.simps [of c w])
  moreover have "send_frame (c\<lparr>ta := t\<lparr>state := HTTP_STATE_SEND_FILE\<rparr>\<rparr>) = send_frame c"
    using advance_frame [OF a] by (simp add: send_frame_def)
  ultimately show ?thesis by auto
qed

text \<open>A socket that is not ready changes nothing, and neither does one that fails.\<close>

lemma send_not_taken:
  assumes "response_bytes c = Some data" "data \<noteq> []" "os_wr w = WBlock # es \<or> os_wr w = WErr e # es"
  shows "kitserv_http_send_response c w = Some (0, c, w\<lparr>os_wr := es, os_errno := ENONE\<rparr>)"
  using assms by (auto simp: kitserv_http_send_response.simps [of c w] os_put_def)

text \<open>
  One partial write of \<open>n\<close> bytes, everything taken after it. What the peer gets of the
  rest: when the cut lies in the first vector it is exactly the rest; when it lies beyond,
  the vectors after the first lose up to \<open>n\<close> bytes of their own as well.
\<close>

definition rest_sent :: "nat \<Rightarrow> string \<Rightarrow> string \<Rightarrow> string \<Rightarrow> string" where
  "rest_sent n b0 b1 b2 =
     (if n < length b0 then drop n b0 @ b1 @ b2
      else if n < length b1 then drop n b1 @ b2
      else drop n b2)"

lemma vec_bytes_skip: "vec_bytes m v = Some b \<Longrightarrow> vec_bytes m (skip n v) = Some (drop n b)"
  by (auto simp: vec_bytes_def skip_def drop_take drop_drop add.commute split: if_splits)

lemma response_bytesE:
  assumes "response_bytes c = Some data"
  obtains b0 b1 b2 where "vec_bytes (resp_start c) (resp_buf0 (ta c)) = Some b0"
    "vec_bytes (resp_headers c) (resp_buf1 (ta c)) = Some b1"
    "vec_bytes (b_buf (resp_body c)) (resp_buf2 (ta c)) = Some b2" "data = b0 @ b1 @ b2"
  using assms by (auto simp: response_bytes_def bind_eq_Some_conv)

lemma send_one_partial:
  assumes v: "vec_bytes (resp_start c) (resp_buf0 (ta c)) = Some b0"
    "vec_bytes (resp_headers c) (resp_buf1 (ta c)) = Some b1"
    "vec_bytes (b_buf (resp_body c)) (resp_buf2 (ta c)) = Some b2"
    and w: "os_wr w = [Takes n]" and n: "n < length (b0 @ b1 @ b2)"
  shows "\<exists>c' w'. kitserv_http_send_response c w = Some (0, c', w') \<and> state (ta c') = HTTP_STATE_SEND_FILE \<and>
    os_out w' = os_out w @ take n (b0 @ b1 @ b2) @ rest_sent n b0 b1 b2"
proof -
  let ?w1 = "w\<lparr>os_wr := [], os_out := os_out w @ take n (b0 @ b1 @ b2)\<rparr>"
  have data: "response_bytes c = Some (b0 @ b1 @ b2)" using v by (simp add: response_bytes_def)
  have put: "os_put (b0 @ b1 @ b2) w = (int n, ?w1)" using n w by (auto simp: os_put_def)
  note len = vec_bytes_length [OF v(1)] vec_bytes_length [OF v(2)] vec_bytes_length [OF v(3)]
  obtain b t where a: "advance_bufs n (ta c) = (b, t)" by (cases "advance_bufs n (ta c)")
  note step = kitserv_http_send_response.simps [of c w]
  show ?thesis
  proof (cases b)
    case True
    with a len have "rest_sent n b0 b1 b2 = []"
      by (auto simp: rest_sent_def advance_bufs_def Let_def split: if_splits)
    with True data put a show ?thesis by (simp add: step)
  next
    case False
    let ?c1 = "c\<lparr>ta := t\<rparr>"
    have "response_bytes ?c1 = Some (rest_sent n b0 b1 b2)"
      using a False len v vec_bytes_skip [OF v(1), of n] vec_bytes_skip [OF v(2), of n] vec_bytes_skip [OF v(3), of n]
      by (auto simp: advance_bufs_def Let_def rest_sent_def response_bytes_def split: if_splits)
    from send_whole [OF this, of ?w1] False data put a show ?thesis by (auto simp: step)
  qed
qed

text \<open>Nothing is lost exactly when the first write covers no more than the start line, or all.\<close>

lemma partial_write_loses:
  assumes "length b0 \<le> n" "n < length (b0 @ b1 @ b2)" "b0 \<noteq> []"
  shows "length (take n (b0 @ b1 @ b2) @ rest_sent n b0 b1 b2) < length (b0 @ b1 @ b2)"
proof -
  have "length (take n (b0 @ b1 @ b2) @ rest_sent n b0 b1 b2) = n + length (rest_sent n b0 b1 b2)"
    using assms(2) by (simp del: take_append drop_append)
  moreover have "n + length (rest_sent n b0 b1 b2) < length (b0 @ b1 @ b2)"
    using assms by (cases "n < length b2") (auto simp: rest_sent_def)
  ultimately show ?thesis by simp
qed

section \<open>The file arrives whole\<close>

text \<open>
  A file sent over a socket that takes pieces of any size: what has been sent is a piece
  of the file from the old position to the new one.
\<close>

lemma sendfile_progress:
  "0 \<le> pos \<Longrightarrow> sendfile_loop content fd pos to_pos w = (rc, pos', w') \<Longrightarrow>
   pos \<le> pos' \<and> os_out w' = os_out w @ take (nat (pos' - pos)) (drop (nat pos) (content fd)) \<and>
   os_fds w' = os_fds w \<and> os_in w' = os_in w"
proof (induction content fd pos to_pos w arbitrary: rc pos' w' rule: sendfile_loop.induct)
  case (1 content fd pos to_pos w)
  obtain rc1 p1 w1 where s: "sendfile content fd pos (size_t_of (to_pos - pos + 1)) w = (rc1, p1, w1)"
    by (cases "sendfile content fd pos (size_t_of (to_pos - pos + 1)) w") auto
  let ?chunk = "take (size_t_of (to_pos - pos + 1)) (drop (nat pos) (content fd))"
  have one: "pos \<le> p1 \<and> os_out w1 = os_out w @ take (nat (p1 - pos)) (drop (nat pos) (content fd)) \<and>
      os_fds w1 = os_fds w \<and> os_in w1 = os_in w"
    using s "1.prems"(1)
    by (auto simp: sendfile_def os_put_def min_def split: if_splits prod.splits list.splits wr_event.splits)
  show ?case
  proof (cases "rc1 > 0 \<and> p1 \<le> to_pos")
    case True
    then have "sendfile_loop content fd p1 to_pos w1 = (rc, pos', w')"
      using "1.prems"(2) s by (simp add: sendfile_loop.simps [of content fd pos])
    from "1.IH" [OF s [symmetric] refl True _ this] one "1.prems"(1) have
      ih: "p1 \<le> pos'" "os_out w' = os_out w1 @ take (nat (pos' - p1)) (drop (nat p1) (content fd))"
        "os_fds w' = os_fds w1" "os_in w' = os_in w1" by auto
    have "take (nat (pos' - pos)) (drop (nat pos) (content fd)) =
        take (nat (p1 - pos)) (drop (nat pos) (content fd)) @ take (nat (pos' - p1)) (drop (nat p1) (content fd))"
    proof -
      from one have le: "pos \<le> p1" ..
      have "nat (pos' - pos) = nat (p1 - pos) + nat (pos' - p1)" using le ih(1) by simp
      moreover have "nat p1 = nat (p1 - pos) + nat pos" using le "1.prems"(1) by simp
      ultimately show ?thesis by (simp only: take_add drop_drop)
    qed
    with ih one show ?thesis by simp
  next
    case False
    with "1.prems"(2) s one show ?thesis by (auto simp: sendfile_loop.simps [of content fd pos])
  qed
qed

text \<open>
  A kernel that never fails and always takes something delivers the whole range, in pieces
  of any size.
\<close>

definition taking :: "os \<Rightarrow> bool" where
  "taking w \<longleftrightarrow> (\<forall>e \<in> set (os_wr w). \<exists>n. e = Takes n \<and> 0 < n)"

lemma os_put_taking:
  assumes "taking w" "data \<noteq> []" "os_put data w = (rc, w')"
  shows "0 < rc \<and> rc \<le> int (length data) \<and> taking w'"
  using assms by (auto simp: taking_def os_put_def split: list.splits wr_event.splits)

lemma sendfile_reaches:
  "taking w \<Longrightarrow> 0 \<le> pos \<Longrightarrow> pos \<le> to_pos \<Longrightarrow> to_pos < int (length (content fd)) \<Longrightarrow> to_pos < 2 ^ 62 \<Longrightarrow>
   sendfile_loop content fd pos to_pos w = (rc, pos', w') \<Longrightarrow> pos' = to_pos + 1 \<and> 0 < rc \<and> taking w'"
proof (induction content fd pos to_pos w arbitrary: rc pos' w' rule: sendfile_loop.induct)
  case (1 content fd pos to_pos w)
  let ?n = "size_t_of (to_pos - pos + 1)"
  let ?chunk = "take (min ?n 0x7ffff000) (drop (nat pos) (content fd))"
  obtain rc1 p1 w1 where s: "sendfile content fd pos ?n w = (rc1, p1, w1)"
    by (cases "sendfile content fd pos ?n w") auto
  have n: "?n = nat (to_pos - pos + 1)" using "1.prems"(2-5) by simp
  then have ne: "?chunk \<noteq> []" using "1.prems"(2-4) by auto
  have p: "os_put ?chunk w = (rc1, w1)"
    using s "1.prems"(2) by (auto simp: sendfile_def split: prod.splits)
  from os_put_taking [OF "1.prems"(1) ne p] have t: "0 < rc1" "rc1 \<le> int (length ?chunk)" "taking w1" by auto
  have p1: "p1 = pos + rc1" using s p t(1) "1.prems"(2) by (auto simp: sendfile_def)
  have "length ?chunk \<le> nat (to_pos - pos + 1)" by (simp add: n)
  then have le: "p1 \<le> to_pos + 1" using t p1 "1.prems"(3) by linarith
  show ?case
  proof (cases "p1 \<le> to_pos")
    case True
    then have "sendfile_loop content fd p1 to_pos w1 = (rc, pos', w')"
      using "1.prems"(6) s t(1) by (simp add: sendfile_loop.simps [of content fd pos])
    from "1.IH" [OF s [symmetric] refl conjI [OF t(1) True] t(3) _ True "1.prems"(4,5) this] p1 t(1) "1.prems"(2)
    show ?thesis by simp
  next
    case False
    with "1.prems"(6) s t le show ?thesis by (simp add: sendfile_loop.simps [of content fd pos])
  qed
qed

lemma sendfile_whole:
  assumes "taking w" "0 \<le> pos" "pos \<le> to_pos" "to_pos < int (length (content fd))" "to_pos < 2 ^ 62"
  obtains rc w' where "sendfile_loop content fd pos to_pos w = (rc, to_pos + 1, w')" "0 < rc"
    "os_out w' = os_out w @ take (nat (to_pos - pos + 1)) (drop (nat pos) (content fd))" "os_fds w' = os_fds w"
proof -
  obtain rc pos' w' where r: "sendfile_loop content fd pos to_pos w = (rc, pos', w')"
    by (cases "sendfile_loop content fd pos to_pos w") auto
  from sendfile_reaches [OF assms r] sendfile_progress [OF assms(2) r] r show thesis
    by (auto intro: that simp: algebra_simps)
qed

section \<open>Properties\<close>

text \<open>A response for the examples: start line \<open>AB\<close>, headers \<open>cd\<close>, body \<open>efg\<close>.\<close>

definition sample_response :: kitserv_client where
  "sample_response = \<lparr>req_headers = [], req_cookies = [], resp_start = ''AB'', resp_headers = ''cd'',
     resp_body = \<lparr>b_buf = ''efg'', b_len = 3, b_max = 4096, b_block = 4096\<rparr>,
     ta = zero_ta\<lparr>state := HTTP_STATE_SEND, resp_buf0 := \<lparr>iov_base = 0, iov_len = 2\<rparr>,
       resp_buf1 := \<lparr>iov_base = 0, iov_len = 2\<rparr>, resp_buf2 := \<lparr>iov_base = 0, iov_len = 3\<rparr>\<rparr>, sockfd = 3\<rparr>"

text \<open>
  Over a socket that takes what it is given, the peer gets exactly the start line, the
  headers and the body of a prepared response, in this order, and the state moves on.
\<close>

theorem response_arrives:
  assumes "sendable c s h b" "os_wr w = []"
  shows "\<exists>c'. kitserv_http_send_response c w = Some (0, c', w\<lparr>os_out := os_out w @ s @ h @ b\<rparr>) \<and>
    state (ta c') = HTTP_STATE_SEND_FILE"
  using send_whole [OF sendable_bytes [OF assms(1)] assms(2)] by auto

lemma response_arrives_witness:
  "\<exists>c'. kitserv_http_send_response sample_response quiet_os =
      Some (0, c', quiet_os\<lparr>os_out := os_out quiet_os @ ''AB'' @ ''cd'' @ ''efg''\<rparr>) \<and> state (ta c') = HTTP_STATE_SEND_FILE"
  by (rule response_arrives) (simp_all add: sendable_def sample_response_def hdr_content_def quiet_os_def)



text \<open>
  An error of the socket while a response is sent is not noticed: the assignment in the
  condition makes every failure look like a socket that is not ready, and the call asks to
  be called again with nothing changed but \<^verbatim>\<open>errno\<close>.
\<close>

theorem send_error_ignored:
  assumes "response_bytes c = Some data" "data \<noteq> []" "os_wr w = WErr e # es"
  shows "kitserv_http_send_response c w = Some (0, c, w\<lparr>os_wr := es, os_errno := ENONE\<rparr>)"
  using send_not_taken [OF assms(1,2)] assms(3) by blast

lemma send_error_ignored_witness:
  "kitserv_http_send_response sample_response (quiet_os\<lparr>os_wr := [WErr (EOTHER 32)]\<rparr>) =
     Some (0, sample_response, quiet_os\<lparr>os_wr := [], os_errno := ENONE\<rparr>)"
  using send_error_ignored [of sample_response "''ABcdefg''" "quiet_os\<lparr>os_wr := [WErr (EOTHER 32)]\<rparr>"]
  by (simp add: response_bytes_def vec_bytes_def sample_response_def)

text \<open>
  A file that is sent over a socket which never fails, in pieces of any size, arrives
  whole: the loop ends one past the last byte of the range and the peer has exactly the
  bytes of the range.
\<close>

theorem file_arrives:
  assumes "taking w" "0 \<le> pos" "pos \<le> to_pos" "to_pos < int (length (content fd))" "to_pos < 2 ^ 62"
  shows "\<exists>rc w'. sendfile_loop content fd pos to_pos w = (rc, to_pos + 1, w') \<and> 0 < rc \<and>
    os_out w' = os_out w @ take (nat (to_pos - pos + 1)) (drop (nat pos) (content fd)) \<and> os_fds w' = os_fds w"
  using sendfile_whole [of w pos to_pos content fd, OF assms] by blast

lemma file_arrives_witness:
  "\<exists>rc w'. sendfile_loop (\<lambda>fd. ''0123456789'') 7 2 8 (quiet_os\<lparr>os_wr := [Takes 3, Takes 1]\<rparr>) = (rc, 8 + 1, w') \<and> 0 < rc \<and>
    os_out w' = os_out (quiet_os\<lparr>os_wr := [Takes 3, Takes 1]\<rparr>) @ take (nat (8 - 2 + 1)) (drop (nat 2) ''0123456789'') \<and>
    os_fds w' = os_fds (quiet_os\<lparr>os_wr := [Takes 3, Takes 1]\<rparr>)"
  by (rule file_arrives) (simp_all add: taking_def quiet_os_def)

end
