(* ===== verification/Http_Serve.thy ===== *)
theory Http_Serve
  imports Http_Recv_Chunks Http_Route Http_Send
begin

text \<open>
  The life of a client (\<open>kitserv_http_create_client_struct\<close>, \<open>cleanup_client\<close>,
  \<open>kitserv_http_finalize_transaction\<close>, \<open>kitserv_http_reset_client\<close>) and the state machine
  that serves it (\<open>kitserv_http_serve_client\<close>) and logs what it has answered
  (\<open>log_transaction\<close>), all of \<^verbatim>\<open>src/http.c\<close>.
\<close>

section \<open>Starting up\<close>

text \<open>
  \<open>kitserv_http_init\<close> sets the two globals that the model keeps in \<open>env\<close>; \<^term>\<open>None\<close> is
  \<^verbatim>\<open>abort()\<close>.
\<close>

definition kitserv_http_init ::
    "env \<Rightarrow> kitserv_request_context option \<Rightarrow> kitserv_api_tree option \<Rightarrow> env option" where
  "kitserv_http_init env http_default_context http_api_list =
     (case http_default_context of
        None \<Rightarrow> None
      | Some ctx \<Rightarrow>
          if root ctx = None then None
          else Some (env\<lparr>default_context := ctx, api_tree := http_api_list\<rparr>))"

section \<open>Creating and recycling a client\<close>

text \<open>
  The heap as the allocations see it: the outcome of each \<^verbatim>\<open>malloc\<close> to come (past the end
  of the list they succeed), and the number of blocks held.
\<close>

record heap =
  outcomes :: "bool list"
  blocks :: nat

definition heap_alloc :: "heap \<Rightarrow> bool \<times> heap" where
  "heap_alloc h = (case outcomes h of
     [] \<Rightarrow> (True, h\<lparr>blocks := blocks h + 1\<rparr>)
   | b # bs \<Rightarrow> (b, h\<lparr>outcomes := bs, blocks := (if b then blocks h + 1 else blocks h)\<rparr>))"

definition heap_free :: "nat \<Rightarrow> heap \<Rightarrow> heap" where
  "heap_free n h = h\<lparr>blocks := blocks h - n\<rparr>"

definition cleanup_client :: "(nat \<Rightarrow> bool) \<Rightarrow> kitserv_client \<Rightarrow> kitserv_client" where
  "cleanup_client ok c = c\<lparr>ta := zero_ta, resp_body := kitserv_buffer_reset ok (resp_body c) (int HTTP_BUFSZ)\<rparr>"

definition kitserv_http_reset_client :: "(nat \<Rightarrow> bool) \<Rightarrow> kitserv_client \<Rightarrow> kitserv_client" where
  "kitserv_http_reset_client ok c = cleanup_client ok (c\<lparr>req_headers := []\<rparr>)"

text \<open>
  The five blocks of a client; a failed one frees those before it. The content of a new
  block is not defined: nothing has been written to it, which is an empty block here, and
  the cookies are never read before they are stored.
\<close>

definition new_cookies :: "http_cookie list" where
  "new_cookies = replicate HTTP_MAX_COOKIES \<lparr>key = 0, val = 0, keylen = 0\<rparr>"

definition kitserv_http_create_client_struct :: "kitserv_client \<Rightarrow> heap \<Rightarrow> int \<times> kitserv_client \<times> heap" where
  "kitserv_http_create_client_struct c h =
     (let (ok, h) = heap_alloc h in
      if \<not> ok then (-1, c, h)
      else let c = c\<lparr>req_headers := []\<rparr>; (ok, h) = heap_alloc h in
      if \<not> ok then (-1, c, heap_free 1 h)
      else let c = c\<lparr>resp_headers := []\<rparr>; (ok, h) = heap_alloc h in
      if \<not> ok then (-1, c, heap_free 2 h)
      else let c = c\<lparr>resp_start := []\<rparr>; (ok, h) = heap_alloc h in
      if \<not> ok then (-1, c, heap_free 3 h)
      else let c = c\<lparr>req_cookies := new_cookies\<rparr>; (ok, h) = heap_alloc h;
               (rc, b) = kitserv_buffer_init (\<lambda>_. ok) (resp_body c) (int HTTP_BUFSZ);
               c = c\<lparr>resp_body := b\<rparr> in
      if rc \<noteq> 0 then (-1, c, heap_free 4 h)
      else (0, kitserv_http_reset_client (\<lambda>_. True) c, h))"

text \<open>
  The bytes of the request buffer that have not been used become the start of the next
  request. The failed assertion and a copy from outside the buffer are \<^term>\<open>None\<close>.
\<close>

definition kitserv_http_finalize_transaction :: "(nat \<Rightarrow> bool) \<Rightarrow> kitserv_client \<Rightarrow> kitserv_client ub" where
  "kitserv_http_finalize_transaction ok c =
     (let remaining_payload = req_payload_len (ta c) - req_payload_pos (ta c);
          from = int (req_payload (ta c)) + req_payload_pos (ta c) in
      if 0 \<le> remaining_payload \<and> remaining_payload \<le> int HTTP_BUFSZ \<and>
         0 \<le> from \<and> from + remaining_payload \<le> int (length (req_headers c))
      then Some (cleanup_client ok
             (c\<lparr>req_headers := take (nat remaining_payload) (drop (nat from) (req_headers c))\<rparr>))
      else None)"

section \<open>The log\<close>

text \<open>
  The line that \<^verbatim>\<open>printf("[%d] %s\n", ...)\<close> writes. A request that failed before its path
  was read has a null pointer for \<^verbatim>\<open>%s\<close>. The C standard leaves this undefined; \<open>null_text\<close> is
  what the library prints in its place, \<^verbatim>\<open>(null)\<close> in the GNU library, which documents it.
\<close>

definition log_path :: "env \<Rightarrow> kitserv_client \<Rightarrow> string ub" where
  "log_path env c = (case req_path (ta c) of None \<Rightarrow> Some (null_text env) | Some p \<Rightarrow> cstr (req_headers c) p)"

definition log_line :: "http_status \<Rightarrow> string \<Rightarrow> string" where
  "log_line s path = ''['' @ dec_int (status_code s) @ ''] '' @ path @ [LF]"

definition log_transaction :: "env \<Rightarrow> kitserv_client \<Rightarrow> os \<Rightarrow> os ub" where
  "log_transaction env c w = do {
     path \<leftarrow> log_path env c;
     Some (w\<lparr>os_log := os_log w @ [log_line (resp_status (ta c)) path]\<rparr>) }"

section \<open>The state machine\<close>

text \<open>
  One round of the \<^verbatim>\<open>while (1)\<close>, from the label where the state enters the \<^verbatim>\<open>switch\<close>: it
  returns, or goes on with the next transaction. \<open>content\<close> gives the bytes of an open file.
\<close>

datatype round = Return int kitserv_client os | Again kitserv_client os

definition at_done :: "env \<Rightarrow> kitserv_client \<Rightarrow> os \<Rightarrow> round ub" where
  "at_done env c w = map_option (\<lambda>c. Again c w) (kitserv_http_finalize_transaction (alloc_ok env) c)"

definition at_send_file :: "env \<Rightarrow> (int \<Rightarrow> string) \<Rightarrow> kitserv_client \<Rightarrow> os \<Rightarrow> round ub" where
  "at_send_file env content c w =
     (case kitserv_http_send_response_file content c w of
        (rc, c, w) \<Rightarrow>
          if rc \<noteq> 0 then Some (Return (-1) c w)
          else if state (ta c) = HTTP_STATE_SEND_FILE then Some (Return 0 c w)
          else at_done env c w)"

definition at_send :: "env \<Rightarrow> (int \<Rightarrow> string) \<Rightarrow> kitserv_client \<Rightarrow> os \<Rightarrow> round ub" where
  "at_send env content c w = do {
     (rc, c, w) \<leftarrow> kitserv_http_send_response c w;
     if rc \<noteq> 0 then Some (Return (-1) c w)
     else if state (ta c) = HTTP_STATE_SEND then Some (Return 0 c w)
     else at_send_file env content c w }"

definition at_prepare :: "env \<Rightarrow> (int \<Rightarrow> string) \<Rightarrow> kitserv_client \<Rightarrow> os \<Rightarrow> round ub" where
  "at_prepare env content c w = do {
     let c = set_state HTTP_STATE_PREPARE_RESPONSE c;
     (rc, c, w) \<leftarrow> kitserv_http_prepare_response env c w;
     if rc \<noteq> 0 then Some (Return (-1) c w)
     else if state (ta c) = HTTP_STATE_PREPARE_RESPONSE then Some (Return 0 c w)
     else do {
       w \<leftarrow> (if silent env then Some w else log_transaction env c w);
       at_send env content c w } }"

definition at_serve :: "env \<Rightarrow> (int \<Rightarrow> string) \<Rightarrow> kitserv_client \<Rightarrow> os \<Rightarrow> round ub" where
  "at_serve env content c w = do {
     (rc, c, w) \<leftarrow> kitserv_http_serve_request env c w;
     if rc \<noteq> 0 then
       (if resp_status (ta c) = HTTP_X_HANGUP then Some (Return (-1) c w) else at_prepare env content c w)
     else if state (ta c) = HTTP_STATE_SERVE then Some (Return 0 c w)
     else at_prepare env content c w }"

definition at_read :: "env \<Rightarrow> (int \<Rightarrow> string) \<Rightarrow> kitserv_client \<Rightarrow> os \<Rightarrow> round ub" where
  "at_read env content c w = do {
     (rc, c, w) \<leftarrow> kitserv_http_recv_request c w;
     if rc \<noteq> 0 then
       (if resp_status (ta c) = HTTP_X_HANGUP then Some (Return (-1) c w) else at_prepare env content c w)
     else if state (ta c) = HTTP_STATE_READ then Some (Return 0 c w)
     else at_serve env content c w }"

definition serve_round :: "env \<Rightarrow> (int \<Rightarrow> string) \<Rightarrow> kitserv_client \<Rightarrow> os \<Rightarrow> round ub" where
  "serve_round env content c w =
     (case state (ta c) of
        HTTP_STATE_READ \<Rightarrow> at_read env content c w
      | HTTP_STATE_SERVE \<Rightarrow> at_serve env content c w
      | HTTP_STATE_PREPARE_RESPONSE \<Rightarrow> at_prepare env content c w
      | HTTP_STATE_SEND \<Rightarrow> at_send env content c w
      | HTTP_STATE_SEND_FILE \<Rightarrow> at_send_file env content c w
      | HTTP_STATE_DONE \<Rightarrow> at_done env c w)"

text \<open>
  The loop need not end (an endpoint may never let it); the outer option says whether it
  returns, the inner one whether its behaviour is defined.
\<close>

partial_function (option) kitserv_http_serve_client ::
    "env \<Rightarrow> (int \<Rightarrow> string) \<Rightarrow> kitserv_client \<Rightarrow> os \<Rightarrow> (int \<times> kitserv_client \<times> os) ub option" where
  "kitserv_http_serve_client env content c w =
     (case serve_round env content c w of
        None \<Rightarrow> Some None
      | Some (Return rc c w) \<Rightarrow> Some (Some (rc, c, w))
      | Some (Again c w) \<Rightarrow> kitserv_http_serve_client env content c w)"

end
