(* ===== verification/Http_Prepare_Laws.thy ===== *)
theory Http_Prepare_Laws
  imports Http_Response
begin

text \<open>
  Preparing a response, without knowing which one: from the invariant \<open>prep_ok\<close> the call is
  defined on every path, errors on errors included, and when it succeeds the three vectors
  lie inside their blocks.
\<close>

text \<open>What preparing leaves alone: the request and the payload.\<close>

definition request_part :: "kitserv_client \<Rightarrow> kitserv_client" where
  "request_part c = c\<lparr>resp_start := [], resp_headers := [],
     resp_body := \<lparr>b_buf = [], b_len = 0, b_max = 0, b_block = 0\<rparr>,
     ta := (ta c)\<lparr>state := HTTP_STATE_READ, resp_buf0 := zero_iovec, resp_buf1 := zero_iovec, resp_buf2 := zero_iovec,
       resp_status := HTTP_200_OK, resp_fd := 0, resp_body_pos := 0, resp_body_end := 0\<rparr>\<rparr>"

definition same_io :: "os \<Rightarrow> os \<Rightarrow> bool" where
  "same_io w w' \<longleftrightarrow> os_in w' = os_in w \<and> os_wr w' = os_wr w \<and> os_out w' = os_out w"

lemma same_io_simps [simp]:
  "same_io w w" "same_io w (w\<lparr>os_errno := e\<rparr>)" "same_io w (snd (close_fd_to_zero c w))"
  "same_io (w\<lparr>os_errno := e\<rparr>) w' = same_io w w'" "same_io w (w'\<lparr>os_errno := e\<rparr>) = same_io w w'"
  by (simp_all add: same_io_def close_fd_to_zero_def)

lemma same_io_trans: "same_io w w' \<Longrightarrow> same_io w' w'' \<Longrightarrow> same_io w w''"
  by (simp add: same_io_def)

text \<open>The memory of a response: the headers, the body with its capacity, no body vector yet.\<close>

definition body_ok :: "kitserv_client \<Rightarrow> bool" where
  "body_ok c \<longleftrightarrow> buffer_ok (resp_body c) \<and> 4096 \<le> b_max (resp_body c)"

definition memory_ok :: "kitserv_client \<Rightarrow> bool" where
  "memory_ok c \<longleftrightarrow> hdr_ok c \<and> body_ok c \<and> resp_buf2 (ta c) = zero_iovec"

text \<open>A body that is sent starts inside the buffer.\<close>

definition body_start_ok :: "kitserv_client \<Rightarrow> bool" where
  "body_start_ok c \<longleftrightarrow> (resp_fd (ta c) = 0 \<and> req_method (ta c) \<noteq> HTTP_HEAD \<longrightarrow>
     0 \<le> resp_body_pos (ta c) \<and> resp_body_pos (ta c) \<le> b_len (resp_body c))"

text \<open>What an error response reads of the request.\<close>

definition error_ready :: "kitserv_client \<Rightarrow> bool" where
  "error_ready c \<longleftrightarrow> \<not> preserve_body_on_error (ta c) \<and>
     (resp_status (ta c) = HTTP_405_METHOD_NOT_ALLOWED \<longrightarrow>
        api_allow_flags (ta c) = 0 \<or> allow_list (api_allow_flags (ta c)) \<noteq> []) \<and>
     (resp_status (ta c) = HTTP_404_NOT_FOUND \<longrightarrow>
        (\<exists>p s. req_path (ta c) = Some p \<and> cstr (req_headers c) p = Some s \<and> length s \<le> 4083))"

text \<open>The vectors are inside their blocks; \<open>body_start_ok\<close> is what the third one needs.\<close>

definition vectors_ok :: "kitserv_client \<Rightarrow> bool" where
  "vectors_ok c \<longleftrightarrow>
     iov_base (resp_buf0 (ta c)) + iov_len (resp_buf0 (ta c)) \<le> length (resp_start c) \<and>
     iov_base (resp_buf1 (ta c)) + iov_len (resp_buf1 (ta c)) \<le> length (resp_headers c) \<and>
     iov_base (resp_buf2 (ta c)) + iov_len (resp_buf2 (ta c)) \<le> length (b_buf (resp_body c))"

lemma request_partD:
  assumes "request_part c' = request_part c"
  shows "req_headers c' = req_headers c" "preserve_body_on_error (ta c') = preserve_body_on_error (ta c)"
    "api_allow_flags (ta c') = api_allow_flags (ta c)" "req_path (ta c') = req_path (ta c)"
    "req_payload (ta c') = req_payload (ta c)" "req_payload_pos (ta c') = req_payload_pos (ta c)"
    "req_payload_len (ta c') = req_payload_len (ta c)" "sockfd c' = sockfd c"
proof -
  note eq = arg_cong [OF assms]
  show "sockfd c' = sockfd c" using eq [of sockfd] by (simp add: request_part_def)
  show "req_headers c' = req_headers c" using eq [of req_headers] by (simp add: request_part_def)
  show "preserve_body_on_error (ta c') = preserve_body_on_error (ta c)"
    using eq [of "\<lambda>c. preserve_body_on_error (ta c)"] by (simp add: request_part_def)
  show "api_allow_flags (ta c') = api_allow_flags (ta c)"
    using eq [of "\<lambda>c. api_allow_flags (ta c)"] by (simp add: request_part_def)
  show "req_path (ta c') = req_path (ta c)" using eq [of "\<lambda>c. req_path (ta c)"] by (simp add: request_part_def)
  show "req_payload (ta c') = req_payload (ta c)" using eq [of "\<lambda>c. req_payload (ta c)"] by (simp add: request_part_def)
  show "req_payload_pos (ta c') = req_payload_pos (ta c)"
    using eq [of "\<lambda>c. req_payload_pos (ta c)"] by (simp add: request_part_def)
  show "req_payload_len (ta c') = req_payload_len (ta c)"
    using eq [of "\<lambda>c. req_payload_len (ta c)"] by (simp add: request_part_def)
qed

lemma success_total:
  assumes m: "memory_ok c" and b: "body_start_ok c"
  obtains (sent) c' where "prepare_success c e = Some (True, c', e)" "state (ta c') = HTTP_STATE_SEND"
      "vectors_ok c'" "body_ok c'" "request_part c' = request_part c" "resp_status (ta c') = resp_status (ta c)"
    | (full) c' e' where "prepare_success c e = Some (False, c', e')" "memory_ok c'" "request_part c' = request_part c"
      "resp_status (ta c') \<in> {resp_status (ta c), HTTP_507_INSUFFICIENT_STORAGE}"
proof -
  from m have h: "hdr_ok c" by (simp add: memory_ok_def)
  then show thesis
  proof (cases rule: prepare_success_cases [where e = e])
    case (sent m1 n m' n')
    let ?c = "set_bases (hdr_set (start_set c m1 n) m' n')"
    have "n \<le> length m1" using take_length_le [OF sent(3)] sent(2) by simp
    moreover have "nat (resp_body_pos (ta c)) + size_t_of (b_len (resp_body c) - resp_body_pos (ta c)) \<le> length (b_buf (resp_body c))"
      if "resp_fd (ta c) = 0" "req_method (ta c) \<noteq> HTTP_HEAD"
    proof -
      have "0 \<le> resp_body_pos (ta c)" "resp_body_pos (ta c) \<le> b_len (resp_body c)"
        using that b by (simp_all add: body_start_ok_def)
      moreover have "buffer_ok (resp_body c)" using m by (simp add: memory_ok_def body_ok_def)
      moreover from calculation have "nat (resp_body_pos (ta c)) + nat (b_len (resp_body c) - resp_body_pos (ta c)) = nat (b_len (resp_body c))"
        by simp
      ultimately show ?thesis by (simp add: buffer_ok_def)
    qed
    ultimately have "vectors_ok ?c" using sent(4) m
      by (auto simp: vectors_ok_def set_bases_def Let_def memory_ok_def zero_iovec_def)
    with sent(1) m that(1) show thesis
      by (auto simp: set_bases_def Let_def body_ok_def memory_ok_def request_part_def)
  next
    case (full m1 n m' n' s fd e')
    let ?c = "(hdr_set (start_set c m1 n) m' n')\<lparr>ta := (ta (hdr_set (start_set c m1 n) m' n'))\<lparr>resp_status := s, resp_fd := fd\<rparr>\<rparr>"
    have "memory_ok ?c" using full(3,4) m by (simp add: memory_ok_def body_ok_def hdr_ok_def)
    moreover have "request_part ?c = request_part c" by (simp add: request_part_def)
    ultimately show thesis using full(2,6) that(2) by auto
  qed
qed

text \<open>The error body, whatever headers precede it.\<close>

lemma error_body_total:
  assumes m: "memory_ok c" and r: "error_ready c"
  obtains rc c' w' where "prepare_error_response_body ok c w = Some (rc, c', w')" "memory_ok c'" "body_start_ok c'"
    "request_part c' = request_part c" "same_io w w'" "rc = 0 \<longrightarrow> resp_status (ta c') = resp_status (ta c)"
proof -
  define c0 where "c0 = c\<lparr>ta := (ta c)\<lparr>resp_body_pos := 0, resp_body_end := 0, resp_fd := min 0 (resp_fd (ta c))\<rparr>,
     resp_body := (resp_body c)\<lparr>b_len := 0\<rparr>\<rparr>"
  define w0 where "w0 = snd (close_fd_to_zero c w)"
  have cl: "close_fd_to_zero (c\<lparr>ta := (ta c)\<lparr>resp_body_pos := 0, resp_body_end := 0\<rparr>, resp_body := (resp_body c)\<lparr>b_len := 0\<rparr>\<rparr>) w =
      (c0, w0)"
    by (auto simp: close_fd_to_zero_def c0_def w0_def min_def)
  have io: "same_io w w0" by (simp add: w0_def)
  have m0: "hdr_ok c0" "buffer_ok (resp_body c0)" "4096 \<le> b_max (resp_body c0)" "b_len (resp_body c0) = 0"
    "resp_buf2 (ta c0) = zero_iovec" "resp_body_pos (ta c0) = 0"
    using m by (auto simp: c0_def memory_ok_def body_ok_def buffer_ok_def hdr_ok_def)
  have rp: "request_part c0 = request_part c" by (simp add: c0_def request_part_def)
  have st: "resp_status (ta c0) = resp_status (ta c)" "req_path (ta c0) = req_path (ta c)"
    "req_headers c0 = req_headers c" by (simp_all add: c0_def)
  note unf = prepare_error_response_body_def kitserv_http_header_add_content_type_def Let_def cl
  from header_add_total [OF m0(1), of "os_errno w0" "''content-type''" "''text/plain''"] show thesis
  proof (elim disjE exE conjE)
    fix m1 n1 assume h: "kitserv_http_header_add c0 (os_errno w0) ''content-type'' ''text/plain'' =
        Some (-1, set_status HTTP_507_INSUFFICIENT_STORAGE (hdr_set c0 m1 n1), ENOMEM)" and o: "hdr_ok (hdr_set c0 m1 n1)"
    let ?c = "set_status HTTP_507_INSUFFICIENT_STORAGE (hdr_set c0 m1 n1)"
    show thesis
      by (rule that [of "-1" ?c "w0\<lparr>os_errno := ENOMEM\<rparr>"])
        (use h o m0 rp io in \<open>simp_all add: unf memory_ok_def body_ok_def hdr_ok_def body_start_ok_def request_part_def\<close>)
  next
    fix m1 n1 assume h: "kitserv_http_header_add c0 (os_errno w0) ''content-type'' ''text/plain'' =
        Some (0, hdr_set c0 m1 n1, os_errno w0)" and o: "hdr_ok (hdr_set c0 m1 n1)"
    let ?c1 = "hdr_set c0 m1 n1" and ?t = "error_text (resp_status (ta c))"
    have fin: "memory_ok (?c1\<lparr>resp_body := b\<rparr>)" "body_start_ok (?c1\<lparr>resp_body := b\<rparr>)"
      "request_part (?c1\<lparr>resp_body := b\<rparr>) = request_part c"
      if "buffer_ok b" "b_max b = b_max (resp_body c0)" for b
      using that o m0 rp buffer_okD(1) [OF that(1)]
      by (simp_all add: memory_ok_def body_ok_def hdr_ok_def body_start_ok_def request_part_def)
    have "b_len (resp_body ?c1) + int (length ?t) < b_max (resp_body ?c1)"
      using m0 error_text_length [of "resp_status (ta c)"] by simp
    from body_append_fits [OF _ this, of ok] m0(2,4) obtain b where a1:
      "body_append ok ?c1 ?t = Some (0, ?c1\<lparr>resp_body := b\<rparr>)" "buffer_ok b" "b_len b = int (length ?t)"
      "b_max b = b_max (resp_body c0)" by auto
    show thesis
    proof (cases "resp_status (ta c) = HTTP_404_NOT_FOUND")
      case False
      show thesis
        by (rule that [of 0 "?c1\<lparr>resp_body := b\<rparr>" w0]) (use False h st a1 fin [OF a1(2,4)] io in \<open>simp_all add: unf\<close>)
    next
      case True
      with r obtain p s where p: "req_path (ta c) = Some p" "cstr (req_headers c) p = Some s" "length s \<le> 4083"
        by (auto simp: error_ready_def)
      let ?c2 = "?c1\<lparr>resp_body := b\<rparr>"
      have "buffer_ok (resp_body ?c2)" "b_len (resp_body ?c2) + int (length s) < b_max (resp_body ?c2)"
        using a1 p(3) m0(3) True by simp_all
      from body_append_fits [OF this, of ok] obtain b3 where a2:
        "body_append ok ?c2 s = Some (0, ?c2\<lparr>resp_body := b3\<rparr>)" "buffer_ok b3" "b_max b3 = b_max b" by auto
      show thesis
        by (rule that [of 0 "?c1\<lparr>resp_body := b3\<rparr>" w0])
          (use True h st a1 a2 p fin [OF a2(2)] io in \<open>simp_all add: unf del: error_text.simps\<close>)
    qed
  qed
qed

lemma error_headers_total:
  assumes m: "memory_ok c" and r: "error_ready c"
  obtains m1 n1 where "prepare_error_response_headers c e = Some (0, hdr_set c m1 n1, e)" "memory_ok (hdr_set c m1 n1)"
    "error_ready (hdr_set c m1 n1)" "request_part (hdr_set c m1 n1) = request_part c"
proof -
  from r error_headers_exact [of c e] obtain m1 n1 where
    h: "prepare_error_response_headers c e = Some (0, hdr_set c m1 n1, e)" "hdr_ok (hdr_set c m1 n1)"
    by (auto simp: error_ready_def)
  show thesis by (rule that [OF h(1)])
    (use h(2) m r in \<open>simp_all add: memory_ok_def body_ok_def error_ready_def request_part_def\<close>)
qed

text \<open>What a call promises.\<close>

definition prep_post :: "kitserv_client \<Rightarrow> os \<Rightarrow> int \<times> kitserv_client \<times> os \<Rightarrow> bool" where
  "prep_post c w res \<longleftrightarrow> (case res of (rc, c', w') \<Rightarrow> same_io w w' \<and> request_part c' = request_part c \<and> body_ok c' \<and>
     (rc = -1 \<or> rc = 0 \<and> state (ta c') = HTTP_STATE_SEND \<and> vectors_ok c' \<and>
        (resp_status (ta c') = resp_status (ta c) \<or> status_is_error (resp_status (ta c')))))"

lemma prepare_error_total:
  assumes m: "memory_ok c" and r: "error_ready c"
  shows "\<exists>res. prepare_error env c w = Some res \<and> prep_post c w res"
proof -
  have body: "\<exists>res. do { (rc, c, w) \<leftarrow> prepare_error_response_body (alloc_ok env) c1 w;
      if rc \<noteq> 0 then Some (-1, c, w)
      else do { (sent, c, e) \<leftarrow> prepare_success c (os_errno w); Some (if sent then 0 else -1, c, w\<lparr>os_errno := e\<rparr>) } } = Some res \<and>
      prep_post c w res"
    if c1: "memory_ok c1" "error_ready c1" "request_part c1 = request_part c" "resp_status (ta c1) = resp_status (ta c)" for c1
  proof -
    obtain rc c2 w2 where b: "prepare_error_response_body (alloc_ok env) c1 w = Some (rc, c2, w2)" "memory_ok c2"
      "body_start_ok c2" "request_part c2 = request_part c1" "same_io w w2" "rc = 0 \<longrightarrow> resp_status (ta c2) = resp_status (ta c1)"
      by (rule error_body_total [OF c1(1,2)])
    show ?thesis
    proof (cases "rc = 0")
      case False
      with b c1(3) show ?thesis by (simp add: prep_post_def memory_ok_def)
    next
      case True
      from b(2,3) show ?thesis
      proof (cases rule: success_total [where e = "os_errno w2"])
        case (sent c3)
        with True b c1 show ?thesis by (simp add: prep_post_def)
      next
        case (full c3 e3)
        with True b c1 show ?thesis by (simp add: prep_post_def memory_ok_def)
      qed
    qed
  qed
  have w: "w\<lparr>os_errno := os_errno w\<rparr> = w" by simp
  have pb: "\<not> preserve_body_on_error (ta c)" using r by (simp add: error_ready_def)
  show ?thesis
  proof (cases "preserve_headers_on_error (ta c)")
    case True
    with body [OF m r refl refl] pb show ?thesis by (simp add: prepare_error_def w)
  next
    case False
    obtain m1 n1 where h: "prepare_error_response_headers c (os_errno w) = Some (0, hdr_set c m1 n1, os_errno w)"
      "memory_ok (hdr_set c m1 n1)" "error_ready (hdr_set c m1 n1)" "request_part (hdr_set c m1 n1) = request_part c"
      by (rule error_headers_total [OF m r])
    from body [OF h(2,3,4)] False h(1) pb show ?thesis by (simp add: prepare_error_def w)
  qed
qed

lemma error_ready_507:
  "error_ready c \<Longrightarrow> request_part c' = request_part c \<Longrightarrow>
   resp_status (ta c') \<in> {resp_status (ta c), HTTP_507_INSUFFICIENT_STORAGE} \<Longrightarrow> error_ready c'"
proof -
  assume r: "error_ready c" and p: "request_part c' = request_part c"
    and s: "resp_status (ta c') \<in> {resp_status (ta c), HTTP_507_INSUFFICIENT_STORAGE}"
  from r s show ?thesis by (auto simp: error_ready_def request_partD [OF p])
qed

lemma prep_post_less:
  "prep_post c' (w\<lparr>os_errno := e\<rparr>) res \<Longrightarrow> request_part c' = request_part c \<Longrightarrow>
   resp_status (ta c') \<in> {resp_status (ta c), HTTP_507_INSUFFICIENT_STORAGE} \<Longrightarrow> prep_post c w res"
  by (cases res) (auto simp: prep_post_def status_is_error_def)

lemma prepare_response_total:
  assumes m: "memory_ok c" and r: "error_ready c" and b: "\<not> status_is_error (resp_status (ta c)) \<longrightarrow> body_start_ok c"
  shows "\<exists>res. kitserv_http_prepare_response env c w = Some res \<and> prep_post c w res"
proof (cases "resp_status (ta c) = HTTP_X_HANGUP \<or> status_is_error (resp_status (ta c))")
  case True
  with prepare_error_total [OF m r] m show ?thesis
    by (auto simp: kitserv_http_prepare_response_def prep_post_def memory_ok_def)
next
  case False
  with b have bs: "body_start_ok c" by simp
  from m bs show ?thesis
  proof (cases rule: success_total [where e = "os_errno w"])
    case (sent c')
    with False show ?thesis by (simp add: kitserv_http_prepare_response_def prep_post_def)
  next
    case (full c' e')
    from prepare_error_total [OF full(2) error_ready_507 [OF r full(3,4)]] obtain res where
      res: "prepare_error env c' (w\<lparr>os_errno := e'\<rparr>) = Some res" "prep_post c' (w\<lparr>os_errno := e'\<rparr>) res" by blast
    from prep_post_less [OF res(2) full(3,4)] res(1) full(1) False show ?thesis
      by (simp add: kitserv_http_prepare_response_def)
  qed
qed

end
