(* ===== verification/Http_Serve_Safety.thy ===== *)
theory Http_Serve_Safety
  imports Http_Serve Http_Prepare_Laws
begin

text \<open>
  Serving requests, from one readiness event to the next. \<open>serve_inv\<close> is the invariant
  of a client between calls of \<open>kitserv_http_serve_client\<close>; under it, whatever the peer
  sends and however the socket behaves, a call is defined, returns, and keeps it: for a
  server of static files, and for one with endpoints that behave (\<open>endpoints_behave\<close>).
\<close>

section \<open>The single stages\<close>

lemma vectors_bytes: "vectors_ok c \<Longrightarrow> response_bytes c \<noteq> None"
  by (simp add: vectors_ok_def response_bytes_def vec_bytes_def)

lemma response_bytes_advance:
  assumes "response_bytes c \<noteq> None" "advance_bufs n (ta c) = (b, t)"
  shows "response_bytes (c\<lparr>ta := t\<rparr>) \<noteq> None"
proof -
  from assms(1) obtain data where "response_bytes c = Some data" by auto
  then obtain b0 b1 b2 where v: "vec_bytes (resp_start c) (resp_buf0 (ta c)) = Some b0"
    "vec_bytes (resp_headers c) (resp_buf1 (ta c)) = Some b1"
    "vec_bytes (b_buf (resp_body c)) (resp_buf2 (ta c)) = Some b2" by (rule response_bytesE)
  from v assms(2) vec_bytes_skip [OF v(1), of n] vec_bytes_skip [OF v(2), of n] vec_bytes_skip [OF v(3), of n]
  show ?thesis by (auto simp: response_bytes_def advance_bufs_def Let_def split: if_splits)
qed

lemma os_put_frame: "os_put data w = (rc, w') \<Longrightarrow> os_in w' = os_in w \<and> os_fds w' = os_fds w"
  by (auto simp: os_put_def split: if_splits list.splits wr_event.splits)

lemma send_total:
  "response_bytes c \<noteq> None \<Longrightarrow> state (ta c) = HTTP_STATE_SEND \<Longrightarrow>
   \<exists>c' w'. kitserv_http_send_response c w = Some (0, c', w') \<and> send_frame c' = send_frame c \<and>
     os_in w' = os_in w \<and> os_fds w' = os_fds w \<and>
     (state (ta c') = HTTP_STATE_SEND \<and> response_bytes c' \<noteq> None \<or> state (ta c') = HTTP_STATE_SEND_FILE)"
proof (induction c w rule: kitserv_http_send_response.induct)
  case (1 c w)
  then obtain data where d: "response_bytes c = Some data" by auto
  obtain rc w1 where p: "os_put data w = (rc, w1)" by (cases "os_put data w")
  note f = os_put_frame [OF p]
  note step = kitserv_http_send_response.simps [of c w]
  show ?case
  proof (cases "rc < 0")
    case True
    with d p f "1.prems" show ?thesis by (simp add: step)
  next
    case False
    obtain b t where a: "advance_bufs (nat rc) (ta c) = (b, t)" by (cases "advance_bufs (nat rc) (ta c)")
    note fr = advance_frame [OF a]
    show ?thesis
    proof (cases b)
      case True
      have "send_frame (c\<lparr>ta := t\<lparr>state := HTTP_STATE_SEND_FILE\<rparr>\<rparr>) = send_frame c"
        using fr by (simp add: send_frame_def)
      with True False d p a f show ?thesis by (simp add: step)
    next
      case more: False
      have st: "state (ta (c\<lparr>ta := t\<rparr>)) = HTTP_STATE_SEND"
        using a "1.prems"(2) by (auto simp: advance_bufs_def Let_def split: if_splits)
      from more have b: "b = False" by simp
      from "1.IH" [OF d p [symmetric] False a [symmetric] b response_bytes_advance [OF "1.prems"(1) a] st]
      show ?thesis using more False d p a f fr by (auto simp: step)
    qed
  qed
qed

text \<open>What sending a file changes.\<close>

definition file_frame :: "kitserv_client \<Rightarrow> kitserv_client" where
  "file_frame c = c\<lparr>ta := (ta c)\<lparr>state := HTTP_STATE_SEND, resp_fd := 0, resp_body_pos := 0\<rparr>\<rparr>"

lemma sendfile_loop_in:
  assumes "sendfile_loop content fd pos to_pos w = (rc, pos', w')"
  shows "os_in w' = os_in w"
proof (cases "0 \<le> pos")
  case True
  from sendfile_progress [OF this assms] show ?thesis by simp
next
  case False
  with assms show ?thesis by (auto simp: sendfile_loop.simps [of content fd pos] sendfile_def)
qed

lemma send_file_total:
  assumes "kitserv_http_send_response_file content c w = (rc, c', w')" "state (ta c) = HTTP_STATE_SEND_FILE"
  shows "file_frame c' = file_frame c \<and> os_in w' = os_in w \<and>
    (rc = -1 \<or> rc = 0 \<and> (state (ta c') = HTTP_STATE_SEND_FILE \<or>
       state (ta c') = HTTP_STATE_DONE \<and> \<not> status_is_error (resp_status (ta c'))))"
proof -
  obtain rc1 p1 w1 where l: "sendfile_loop content (resp_fd (ta c)) (resp_body_pos (ta c)) (resp_body_end (ta c)) w = (rc1, p1, w1)"
    by (cases "sendfile_loop content (resp_fd (ta c)) (resp_body_pos (ta c)) (resp_body_end (ta c)) w") auto
  define res where "res c1 w2 = (if status_is_error (resp_status (ta (set_state HTTP_STATE_DONE c1))) \<or>
      req_version (ta (set_state HTTP_STATE_DONE c1)) = HTTP_1_0 then -1 else 0 :: int, set_state HTTP_STATE_DONE c1, w2)"
    for c1 and w2 :: os
  have finished: ?thesis if "res c1 w2 = (rc, c', w')" "file_frame c1 = file_frame c" "os_in w2 = os_in w" for c1 w2
    using that by (auto simp: res_def file_frame_def split: if_splits)
  let ?c1 = "c\<lparr>ta := (ta c)\<lparr>resp_body_pos := p1\<rparr>\<rparr>"
  obtain c2 w2 where cl: "close_fd_to_zero ?c1 w1 = (c2, w2)" by (cases "close_fd_to_zero ?c1 w1")
  have fr: "file_frame ?c1 = file_frame c" "file_frame c2 = file_frame c" "os_in w2 = os_in w1" "os_in w1 = os_in w"
    using cl sendfile_loop_in [OF l] by (auto simp: file_frame_def close_fd_to_zero_def split: if_splits)
  note unf = assms(1) [unfolded kitserv_http_send_response_file_def Let_def l prod.case cl]
  show ?thesis
  proof (cases "resp_fd (ta c) > 0 \<and> req_method (ta c) \<noteq> HTTP_HEAD")
    case False
    from finished [OF _ refl refl] unf [unfolded if_not_P [OF False]] show ?thesis by (simp only: res_def)
  next
    case True
    note unf = unf [unfolded if_P [OF True]]
    consider "p1 > resp_body_end (ta ?c1)" | "\<not> p1 > resp_body_end (ta ?c1)" "rc1 < 0"
      | "\<not> p1 > resp_body_end (ta ?c1)" "\<not> rc1 < 0" by linarith
    then show ?thesis
    proof cases
      case 1
      from finished [OF _ fr(2) fr(3) [unfolded fr(4)]] unf [unfolded if_P [OF 1]] show ?thesis by (simp only: res_def)
    next
      case 2
      with unf [unfolded if_not_P [OF 2(1)] if_P [OF 2(2)]] fr assms(2) show ?thesis by (auto split: if_splits)
    next
      case 3
      from finished [OF _ fr(1,4)] unf [unfolded if_not_P [OF 3(1)] if_not_P [OF 3(2)]] show ?thesis
        by (simp only: res_def)
    qed
  qed
qed

text \<open>When nothing blocks: every read gives bytes, an end or an error, every write takes something.\<close>

definition calm_in :: "rd_event list \<Rightarrow> bool" where
  "calm_in evs \<longleftrightarrow> Block \<notin> set evs \<and> Err EAGAIN \<notin> set evs"

definition calm :: "os \<Rightarrow> bool" where
  "calm w \<longleftrightarrow> calm_in (os_in w) \<and> taking w"

lemma calm_cong: "os_in w' = os_in w \<Longrightarrow> taking w \<longrightarrow> taking w' \<Longrightarrow> calm w \<longrightarrow> calm w'"
  by (simp add: calm_def)

lemma taking_cong: "os_wr w' = os_wr w \<Longrightarrow> taking w' = taking w"
  by (simp add: taking_def)

lemma os_put_calm: "os_put data w = (rc, w') \<Longrightarrow> taking w \<Longrightarrow> taking w' \<and> 0 \<le> rc"
  by (auto simp: taking_def os_put_def split: if_splits list.splits wr_event.splits)

lemma send_calm:
  "kitserv_http_send_response c w = Some (rc, c', w') \<Longrightarrow> taking w \<Longrightarrow>
   taking w' \<and> state (ta c') = HTTP_STATE_SEND_FILE"
proof (induction c w rule: kitserv_http_send_response.induct)
  case (1 c w)
  note step = kitserv_http_send_response.simps [of c w]
  obtain data where d: "response_bytes c = Some data" using "1.prems"(1) by (auto simp: step split: option.splits)
  obtain n w1 where p: "os_put data w = (n, w1)" by (cases "os_put data w")
  note f = os_put_calm [OF p "1.prems"(2)]
  then have n: "\<not> n < 0" by simp
  obtain b t where a: "advance_bufs (nat n) (ta c) = (b, t)" by (cases "advance_bufs (nat n) (ta c)")
  show ?case
  proof (cases b)
    case True
    with "1.prems"(1) d p n a f show ?thesis by (auto simp: step)
  next
    case False
    then have b: "b = False" by simp
    have "kitserv_http_send_response (c\<lparr>ta := t\<rparr>) w1 = Some (rc, c', w')" using "1.prems"(1) d p n a b by (simp add: step)
    from "1.IH" [OF d p [symmetric] n a [symmetric] b this] f show ?thesis by simp
  qed
qed

lemma sendfile_loop_calm:
  "sendfile_loop content fd pos to_pos w = (rc, pos', w') \<Longrightarrow> taking w \<Longrightarrow>
   taking w' \<and> (rc < 0 \<longrightarrow> os_errno w' = EINVAL)"
proof (induction content fd pos to_pos w arbitrary: rc pos' w' rule: sendfile_loop.induct)
  case (1 content fd pos to_pos w)
  obtain rc1 p1 w1 where s: "sendfile content fd pos (size_t_of (to_pos - pos + 1)) w = (rc1, p1, w1)"
    by (cases "sendfile content fd pos (size_t_of (to_pos - pos + 1)) w") auto
  have one: "taking w1 \<and> (rc1 < 0 \<longrightarrow> os_errno w1 = EINVAL)"
  proof (cases "pos < 0")
    case True
    with s "1.prems"(2) show ?thesis by (auto simp: sendfile_def taking_def)
  next
    case False
    obtain n x where "os_put (take (min (size_t_of (to_pos - pos + 1)) 0x7ffff000) (drop (nat pos) (content fd))) w = (n, x)"
      by (cases "os_put (take (min (size_t_of (to_pos - pos + 1)) 0x7ffff000) (drop (nat pos) (content fd))) w")
    with os_put_calm [OF this "1.prems"(2)] s False show ?thesis by (auto simp: sendfile_def)
  qed
  show ?case
  proof (cases "rc1 > 0 \<and> p1 \<le> to_pos")
    case True
    then have "sendfile_loop content fd p1 to_pos w1 = (rc, pos', w')"
      using "1.prems"(1) s by (simp add: sendfile_loop.simps [of content fd pos])
    from "1.IH" [OF s [symmetric] refl True this] one show ?thesis by simp
  next
    case False
    with "1.prems"(1) s one show ?thesis by (auto simp: sendfile_loop.simps [of content fd pos])
  qed
qed

lemma send_file_calm:
  assumes "kitserv_http_send_response_file content c w = (rc, c', w')" "taking w"
  shows "taking w' \<and> (rc = 0 \<longrightarrow> state (ta c') = HTTP_STATE_DONE)"
proof -
  obtain rc1 p1 w1 where l: "sendfile_loop content (resp_fd (ta c)) (resp_body_pos (ta c)) (resp_body_end (ta c)) w = (rc1, p1, w1)"
    by (cases "sendfile_loop content (resp_fd (ta c)) (resp_body_pos (ta c)) (resp_body_end (ta c)) w") auto
  note q = sendfile_loop_calm [OF l assms(2)]
  obtain c2 w2 where cl: "close_fd_to_zero (c\<lparr>ta := (ta c)\<lparr>resp_body_pos := p1\<rparr>\<rparr>) w1 = (c2, w2)"
    by (cases "close_fd_to_zero (c\<lparr>ta := (ta c)\<lparr>resp_body_pos := p1\<rparr>\<rparr>) w1")
  then have "taking w2 = taking w1" by (auto simp: close_fd_to_zero_def taking_def split: if_splits)
  with assms(1) l cl q assms(2) show ?thesis
    by (auto simp: kitserv_http_send_response_file_def Let_def split: if_splits)
qed

section \<open>The invariant\<close>

text \<open>Before a request: nothing of a response yet.\<close>

definition idle :: "kitserv_client \<Rightarrow> bool" where
  "idle c \<longleftrightarrow> memory_ok c \<and> resp_status (ta c) = HTTP_X_RESP_STATUS_UNSET \<and> resp_fd (ta c) = 0 \<and>
     \<not> preserve_body_on_error (ta c) \<and> api_allow_flags (ta c) = 0 \<and> req_payload_pos (ta c) = 0 \<and>
     api_endpoint_hit (ta c) = None \<and> api_internal_data (ta c) = None \<and> resp_body_pos (ta c) = 0"

text \<open>
  After it: the bytes behind the request are where the payload says, of which an endpoint may
  have read some, or the connection ends.
\<close>

definition payload_ok :: "kitserv_client \<Rightarrow> bool" where
  "payload_ok c \<longleftrightarrow> 0 \<le> req_payload_pos (ta c) \<and> req_payload_pos (ta c) \<le> req_payload_len (ta c) \<and> 0 < req_payload (ta c) \<and>
     req_payload (ta c) \<le> length (req_headers c) \<and> length (req_headers c) \<le> HTTP_BUFSZ \<and>
     req_payload_len (ta c) = int (length (req_headers c)) - int (req_payload (ta c))"

definition unread :: "kitserv_client \<Rightarrow> string" where
  "unread c = drop (req_payload (ta c) + nat (req_payload_pos (ta c))) (req_headers c)"

text \<open>A request that is about to be answered, and one that an endpoint has been found for.\<close>

definition in_front :: "kitserv_client \<Rightarrow> bool" where
  "in_front c \<longleftrightarrow> static_ready c \<and> memory_ok c \<and> payload_ok c \<and> body_start_ok c \<and> \<not> preserve_body_on_error (ta c) \<and> flags_ok (api_allow_flags (ta c)) \<and>
     (\<exists>p s. req_path (ta c) = Some p \<and> cstr (req_headers c) p = Some s \<and> length s \<le> 4083)"

definition in_service :: "kitserv_client \<Rightarrow> bool" where
  "in_service c \<longleftrightarrow> in_front c \<and> api_endpoint_hit (ta c) \<noteq> None"

definition sending :: "kitserv_client \<Rightarrow> bool" where
  "sending c \<longleftrightarrow> body_ok c \<and> (payload_ok c \<or> status_is_error (resp_status (ta c)))"

definition serve_inv :: "kitserv_client \<Rightarrow> bool" where
  "serve_inv c \<longleftrightarrow> (case state (ta c) of
     HTTP_STATE_READ \<Rightarrow> idle c \<and> recv_ok c
   | HTTP_STATE_SERVE \<Rightarrow> in_service c
   | HTTP_STATE_SEND \<Rightarrow> sending c \<and> response_bytes c \<noteq> None
   | HTTP_STATE_SEND_FILE \<Rightarrow> sending c
   | _ \<Rightarrow> False)"

text \<open>The bytes that are still to be handled; a transaction uses up some.\<close>

definition pending :: "kitserv_client \<Rightarrow> os \<Rightarrow> nat" where
  "pending c w = in_size w + length (req_headers c)"

text \<open>
  What a round promises; with edge-triggered events it must not ask to be called again
  before some call would have blocked.
\<close>

definition round_ok :: "kitserv_client \<Rightarrow> os \<Rightarrow> round \<Rightarrow> bool" where
  "round_ok c w r \<longleftrightarrow> (case r of
     Return rc c' w' \<Rightarrow> sockfd c' = sockfd c \<and> body_ok c' \<and> (rc = -1 \<or> rc = 0 \<and> serve_inv c' \<and> \<not> calm w)
   | Again c' w' \<Rightarrow> sockfd c' = sockfd c \<and> (calm w \<longrightarrow> calm w') \<and> serve_inv c' \<and> pending c' w' < pending c w)"

section \<open>The rounds\<close>

lemma cleanup_idle:
  assumes "body_ok c" "length (req_headers c) \<le> HTTP_BUFSZ"
  shows "serve_inv (cleanup_client ok c)"
proof -
  have b: "buffer_ok (kitserv_buffer_reset ok (resp_body c) (int HTTP_BUFSZ))"
    using assms(1) buffer_reset_ok [of "resp_body c" "int HTTP_BUFSZ" ok] by (simp add: body_ok_def HTTP_BUFSZ_def)
  have "4096 \<le> b_max (kitserv_buffer_reset ok (resp_body c) (int HTTP_BUFSZ))"
    using assms(1) by (simp add: kitserv_buffer_reset_def body_ok_def HTTP_BUFSZ_def realloc_to_def Let_def)
  with b assms(2) show ?thesis
    by (simp add: serve_inv_def cleanup_client_def zero_ta_def idle_def memory_ok_def body_ok_def hdr_ok_def
        zero_iovec_def recv_ok_def loop_ok_def fields_ok_def strings_ok_def path_ok_def request_ptrs_def past_path_def)
qed

lemma idle_unread: "idle c \<Longrightarrow> unread c = drop (req_payload (ta c)) (req_headers c)"
  by (simp add: idle_def unread_def)

lemma finalize_total:
  assumes "body_ok c" "payload_ok c"
  shows "kitserv_http_finalize_transaction ok c = Some (cleanup_client ok (c\<lparr>req_headers := unread c\<rparr>))"
    "serve_inv (cleanup_client ok (c\<lparr>req_headers := unread c\<rparr>))" "length (unread c) < length (req_headers c)"
    "length (unread c) \<le> HTTP_BUFSZ"
proof -
  let ?n = "length (req_headers c) - (req_payload (ta c) + nat (req_payload_pos (ta c)))"
  from assms(2) have n: "nat (req_payload_len (ta c) - req_payload_pos (ta c)) = ?n" "0 < req_payload (ta c)"
    "nat (int (req_payload (ta c)) + req_payload_pos (ta c)) = req_payload (ta c) + nat (req_payload_pos (ta c))"
    "req_payload (ta c) + nat (req_payload_pos (ta c)) \<le> length (req_headers c)" "length (req_headers c) \<le> HTTP_BUFSZ"
    "0 \<le> req_payload_len (ta c) - req_payload_pos (ta c)" "req_payload_len (ta c) - req_payload_pos (ta c) \<le> int HTTP_BUFSZ"
    "0 \<le> int (req_payload (ta c)) + req_payload_pos (ta c)"
    "int (req_payload (ta c)) + req_payload_pos (ta c) + (req_payload_len (ta c) - req_payload_pos (ta c)) \<le> int (length (req_headers c))"
    by (auto simp: payload_ok_def)
  have u: "take ?n (drop (req_payload (ta c) + nat (req_payload_pos (ta c))) (req_headers c)) = unread c" by (simp add: unread_def)
  show "kitserv_http_finalize_transaction ok c = Some (cleanup_client ok (c\<lparr>req_headers := unread c\<rparr>))"
    using n(6-9) unfolding kitserv_http_finalize_transaction_def Let_def n(1,3) u by simp
  show l: "length (unread c) < length (req_headers c)" "length (unread c) \<le> HTTP_BUFSZ" using n(2,4,5) by (simp_all add: unread_def)
  show "serve_inv (cleanup_client ok (c\<lparr>req_headers := unread c\<rparr>))"
    by (rule cleanup_idle) (use assms(1) l in \<open>simp_all add: body_ok_def\<close>)
qed

lemma at_done_ok:
  assumes "body_ok c" "payload_ok c"
  shows "\<exists>r. at_done env c w = Some r \<and> round_ok c w r"
proof -
  note f = finalize_total(1,2) [OF assms, of "alloc_ok env"] finalize_total(3) [OF assms]
  have "pending (cleanup_client (alloc_ok env) (c\<lparr>req_headers := unread c\<rparr>)) w < pending c w"
    using f(3) by (simp add: pending_def cleanup_client_def)
  with f(1,2) show ?thesis by (simp add: at_done_def round_ok_def) (simp add: cleanup_client_def)
qed

text \<open>A step that keeps the buffered bytes and the script of reads keeps the promise.\<close>

lemma round_ok_less:
  "round_ok c' w' r \<Longrightarrow> pending c' w' \<le> pending c w \<Longrightarrow> sockfd c' = sockfd c \<Longrightarrow> calm w \<longrightarrow> calm w' \<Longrightarrow>
   round_ok c w r"
  by (auto simp: round_ok_def split: round.splits)

lemma frame_keeps:
  "file_frame c' = file_frame c \<Longrightarrow> body_ok c' = body_ok c \<and> payload_ok c' = payload_ok c \<and>
     resp_status (ta c') = resp_status (ta c) \<and> length (req_headers c') = length (req_headers c) \<and> sockfd c' = sockfd c"
  "send_frame c' = send_frame c \<Longrightarrow> body_ok c' = body_ok c \<and> payload_ok c' = payload_ok c \<and>
     resp_status (ta c') = resp_status (ta c) \<and> length (req_headers c') = length (req_headers c) \<and> sockfd c' = sockfd c"
proof -
  define g where "g c = (resp_body c, req_headers c, req_payload (ta c), req_payload_pos (ta c),
    req_payload_len (ta c), resp_status (ta c), sockfd c)" for c :: kitserv_client
  have "g (file_frame c) = g c" "g (send_frame c) = g c" for c by (simp_all add: g_def file_frame_def send_frame_def)
  then have "file_frame c' = file_frame c \<Longrightarrow> g c' = g c" "send_frame c' = send_frame c \<Longrightarrow> g c' = g c" by metis+
  moreover have "g c' = g c \<Longrightarrow> body_ok c' = body_ok c \<and> payload_ok c' = payload_ok c \<and>
     resp_status (ta c') = resp_status (ta c) \<and> length (req_headers c') = length (req_headers c) \<and> sockfd c' = sockfd c"
    by (simp add: g_def body_ok_def payload_ok_def)
  ultimately show "file_frame c' = file_frame c \<Longrightarrow> body_ok c' = body_ok c \<and> payload_ok c' = payload_ok c \<and>
     resp_status (ta c') = resp_status (ta c) \<and> length (req_headers c') = length (req_headers c) \<and> sockfd c' = sockfd c"
    "send_frame c' = send_frame c \<Longrightarrow> body_ok c' = body_ok c \<and> payload_ok c' = payload_ok c \<and>
     resp_status (ta c') = resp_status (ta c) \<and> length (req_headers c') = length (req_headers c) \<and> sockfd c' = sockfd c" by blast+
qed

lemma at_send_file_ok:
  assumes "sending c" "state (ta c) = HTTP_STATE_SEND_FILE"
  shows "\<exists>r. at_send_file env content c w = Some r \<and> round_ok c w r"
proof -
  obtain rc c' w' where f: "kitserv_http_send_response_file content c w = (rc, c', w')"
    by (cases "kitserv_http_send_response_file content c w") auto
  from send_file_total [OF f assms(2)] have t: "file_frame c' = file_frame c" "os_in w' = os_in w"
    "rc = -1 \<or> rc = 0 \<and> (state (ta c') = HTTP_STATE_SEND_FILE \<or>
       state (ta c') = HTTP_STATE_DONE \<and> \<not> status_is_error (resp_status (ta c')))" by auto
  note k = frame_keeps(1) [OF t(1)]
  have p: "pending c' w' = pending c w" using t(2) k by (simp add: pending_def in_size_def)
  have sf: "taking w \<Longrightarrow> taking w' \<and> (rc = 0 \<longrightarrow> state (ta c') = HTTP_STATE_DONE)" using send_file_calm [OF f] by blast
  have bo: "body_ok c'" using k assms(1) by (simp add: sending_def)
  have cm: "calm w \<longrightarrow> calm w'" by (rule calm_cong [OF t(2)]) (use sf in blast)
  from t(3) consider "rc = -1" | "rc = 0" "state (ta c') = HTTP_STATE_SEND_FILE"
    | "rc = 0" "state (ta c') = HTTP_STATE_DONE" "\<not> status_is_error (resp_status (ta c'))" by auto
  then show ?thesis
  proof cases
    case 1
    with f k bo show ?thesis by (simp add: at_send_file_def round_ok_def)
  next
    case 2
    with sf have "\<not> calm w" by (auto simp: calm_def)
    with 2 f k assms(1) bo show ?thesis by (simp add: at_send_file_def round_ok_def serve_inv_def sending_def)
  next
    case 3
    with k assms(1) have "body_ok c'" "payload_ok c'" by (auto simp: sending_def)
    from at_done_ok [OF this, of env w'] round_ok_less [of c' w' _ c w] p f k cm 3 show ?thesis
      by (auto simp: at_send_file_def)
  qed
qed

lemma at_send_ok:
  assumes "sending c" "response_bytes c \<noteq> None" "state (ta c) = HTTP_STATE_SEND"
  shows "\<exists>r. at_send env content c w = Some r \<and> round_ok c w r"
proof -
  from send_total [OF assms(2,3)] obtain c' w' where s: "kitserv_http_send_response c w = Some (0, c', w')"
    "send_frame c' = send_frame c" "os_in w' = os_in w"
    "state (ta c') = HTTP_STATE_SEND \<and> response_bytes c' \<noteq> None \<or> state (ta c') = HTTP_STATE_SEND_FILE" by blast
  note k = frame_keeps(2) [OF s(2)]
  have p: "pending c' w' = pending c w" using s(3) k by (simp add: pending_def in_size_def)
  from k assms(1) have sd: "sending c'" by (simp add: sending_def)
  have sf: "taking w \<Longrightarrow> taking w' \<and> state (ta c') = HTTP_STATE_SEND_FILE" using send_calm [OF s(1)] by blast
  have cm: "calm w \<longrightarrow> calm w'" by (rule calm_cong [OF s(3)]) (use sf in blast)
  from s(4) show ?thesis
  proof
    assume st: "state (ta c') = HTTP_STATE_SEND \<and> response_bytes c' \<noteq> None"
    with sf have "\<not> calm w" by (auto simp: calm_def)
    with st s(1) sd k show ?thesis by (simp add: at_send_def round_ok_def serve_inv_def sending_def)
  next
    assume f: "state (ta c') = HTTP_STATE_SEND_FILE"
    from at_send_file_ok [OF sd f, of env content w'] round_ok_less [of c' w' _ c w] p s(1) f k cm show ?thesis
      by (auto simp: at_send_def)
  qed
qed

text \<open>Logging needs the path to be a string; it changes nothing but the log.\<close>

lemma logging_total:
  assumes "path_seen c"
  shows "\<exists>l. (if silent env then Some w else log_transaction env c w) = Some (w\<lparr>os_log := l\<rparr>)"
proof (cases "silent env")
  case True
  then show ?thesis by (intro exI [of _ "os_log w"]) (cases w, simp)
next
  case False
  from assms obtain path where "log_path env c = Some path" by (cases "req_path (ta c)") (auto simp: log_path_def path_seen_def)
  with False show ?thesis by (auto simp: log_transaction_def)
qed

lemma at_prepare_ok:
  assumes m: "memory_ok c" and r: "error_ready c" and seen: "path_seen c" and b: "\<not> status_is_error (resp_status (ta c)) \<longrightarrow> body_start_ok c \<and> payload_ok c"
  shows "\<exists>r. at_prepare env content c w = Some r \<and> round_ok c w r"
proof -
  let ?c = "set_state HTTP_STATE_PREPARE_RESPONSE c"
  have "memory_ok ?c" "error_ready ?c" "\<not> status_is_error (resp_status (ta ?c)) \<longrightarrow> body_start_ok ?c"
    using assms by (simp_all add: memory_ok_def body_ok_def error_ready_def body_start_ok_def)
  from prepare_response_total [OF this, of env w] obtain rc c' w' where
    s: "kitserv_http_prepare_response env ?c w = Some (rc, c', w')" and q: "prep_post ?c w (rc, c', w')" by auto
  from q have io: "os_in w' = os_in w" "os_wr w' = os_wr w" and rp: "request_part c' = request_part ?c" and bo: "body_ok c'"
    by (simp_all add: prep_post_def same_io_def)
  note rd = request_partD [OF rp]
  have cm: "calm w \<longrightarrow> calm w'" by (rule calm_cong [OF io(1)]) (simp add: taking_cong [OF io(2)])
  have p: "pending c' w' = pending c w" using io rd by (simp add: pending_def in_size_def)
  show ?thesis
  proof (cases "rc = -1")
    case True
    with s bo rd show ?thesis by (simp add: at_prepare_def round_ok_def)
  next
    case False
    with q have c': "rc = 0" "state (ta c') = HTTP_STATE_SEND" "vectors_ok c'" "body_ok c'"
      "resp_status (ta c') = resp_status (ta c) \<or> status_is_error (resp_status (ta c'))" by (auto simp: prep_post_def)
    have "path_seen c'" using seen rd by (simp add: path_seen_def)
    then obtain l where l: "(if silent env then Some w' else log_transaction env c' w') = Some (w'\<lparr>os_log := l\<rparr>)"
      using logging_total by blast
    let ?w = "w'\<lparr>os_log := l\<rparr>"
    have pw: "pending c' ?w = pending c w" "calm w \<longrightarrow> calm ?w"
      using p cm by (simp_all add: pending_def in_size_def calm_def calm_in_def taking_def)
    have "sending c'" using c'(4,5) b rd by (auto simp: sending_def payload_ok_def)
    from at_send_ok [OF this vectors_bytes [OF c'(3)] c'(2), of env content ?w] round_ok_less [of c' ?w _ c w] pw s c' rd l
    show ?thesis by (auto simp: at_prepare_def)
  qed
qed

section \<open>Serving\<close>

lemma static_keepD:
  assumes "static_keep c' = static_keep c"
  shows "req_headers c' = req_headers c" "resp_body c' = resp_body c" "resp_buf2 (ta c') = resp_buf2 (ta c)"
    "preserve_body_on_error (ta c') = preserve_body_on_error (ta c)" "api_allow_flags (ta c') = api_allow_flags (ta c)"
    "req_path (ta c') = req_path (ta c)" "req_payload (ta c') = req_payload (ta c)"
    "req_payload_pos (ta c') = req_payload_pos (ta c)" "req_payload_len (ta c') = req_payload_len (ta c)" "sockfd c' = sockfd c"
proof -
  define g where "g c = (req_headers c, resp_body c, resp_buf2 (ta c), preserve_body_on_error (ta c),
    api_allow_flags (ta c), req_path (ta c), req_payload (ta c), req_payload_pos (ta c), req_payload_len (ta c), sockfd c)"
    for c :: kitserv_client
  have "g (static_keep c) = g c" for c by (simp add: g_def static_keep_def)
  with assms have "g c' = g c" by metis
  then show "req_headers c' = req_headers c" "resp_body c' = resp_body c" "resp_buf2 (ta c') = resp_buf2 (ta c)"
    "preserve_body_on_error (ta c') = preserve_body_on_error (ta c)" "api_allow_flags (ta c') = api_allow_flags (ta c)"
    "req_path (ta c') = req_path (ta c)" "req_payload (ta c') = req_payload (ta c)"
    "req_payload_pos (ta c') = req_payload_pos (ta c)" "req_payload_len (ta c') = req_payload_len (ta c)" "sockfd c' = sockfd c"
    by (simp_all add: g_def)
qed

lemma cstr_of_take: "cstr (take k m) p = Some s \<Longrightarrow> cstr m p = Some s"
  using cstr_append [of "take k m" p s "drop k m"] by simp

lemma request_static_ready:
  assumes i: "idle c" and r: "request_ready c"
  shows "static_ready c" "payload_ok c"
    "\<exists>p s. req_path (ta c) = Some p \<and> cstr (req_headers c) p = Some s \<and> length s \<le> 4083"
    "\<exists>p s y. req_path (ta c) = Some p \<and> cstr (req_headers c) p = Some s \<and> version_at (req_headers c) (p + length s) (req_payload (ta c)) y"
proof -
  let ?k = "req_payload (ta c)"
  from r have f: "fields_ok HTTP_PS_REQ_HEAD_LF c ?k" "path_room c ?k 13" and
    n: "length (req_headers c) \<le> HTTP_BUFSZ" "?k \<le> length (req_headers c)"
    "req_payload_len (ta c) = int (length (req_headers c)) - int ?k"
    by (simp_all add: request_ready_def)
  from f(2) obtain x s y where x: "req_path (ta c) = Some x" "cstr (take ?k (req_headers c)) x = Some s" "x + length s + 13 \<le> ?k"
    and y: "version_at (req_headers c) (x + length s) ?k y"
    by (auto simp: path_room_def)
  have str: "\<exists>s. cstr (req_headers c) y = Some s" if "Some y \<in> set (request_ptrs (ta c))" for y
  proof -
    from f(1) that obtain s where "cstr (take ?k (req_headers c)) y = Some s"
      by (auto simp: fields_ok_def strings_ok_def)
    from cstr_of_take [OF this] show ?thesis by blast
  qed
  have "\<exists>p s. req_range (ta c) = Some p \<and> cstr (req_headers c) p = Some s" if rr: "range_requested (ta c)"
  proof -
    from f(1) rr obtain y where "req_range (ta c) = Some y" by (auto simp: fields_ok_def)
    with str [of y] show ?thesis by (simp add: request_ptrs_def)
  qed
  moreover have "\<exists>s. cstr (req_headers c) y = Some s" if "req_modified_since (ta c) = Some y" for y
    using str [of y] that by (simp add: request_ptrs_def)
  moreover have "hdr_ok c" "resp_status (ta c) = HTTP_X_RESP_STATUS_UNSET" "resp_fd (ta c) = 0"
    using i by (simp_all add: idle_def memory_ok_def)
  ultimately show "static_ready c" unfolding static_ready_def using x(1) cstr_of_take [OF x(2)] by blast
  from x(3) n i show "payload_ok c" by (simp add: payload_ok_def idle_def)
  show "\<exists>p s. req_path (ta c) = Some p \<and> cstr (req_headers c) p = Some s \<and> length s \<le> 4083"
    using x n cstr_of_take [OF x(2)] by (intro exI [of _ x] exI [of _ s]) (simp add: HTTP_BUFSZ_def)
  show "\<exists>p s y. req_path (ta c) = Some p \<and> cstr (req_headers c) p = Some s \<and> version_at (req_headers c) (p + length s) ?k y"
    using x(1) cstr_of_take [OF x(2)] y by blast
qed

text \<open>
  What an endpoint is asked to do, on any client it is called with: it keeps the memory and the
  bytes behind the request in order, and either sets a status, with a response that can be
  prepared, or it has to wait for the peer and leaves a client it can be called with again.
\<close>

definition handled :: "kitserv_client \<Rightarrow> os \<Rightarrow> kitserv_client \<Rightarrow> os \<Rightarrow> bool" where
  "handled c w c' w' \<longleftrightarrow> sockfd c' = sockfd c \<and> length (req_headers c') = length (req_headers c) \<and> in_size w' \<le> in_size w \<and>
     (calm w \<longrightarrow> calm w') \<and> body_ok c' \<and>
     (if status_code (resp_status (ta c')) = 0 then state (ta c') = HTTP_STATE_SERVE \<and> in_service c' \<and> \<not> calm w
      else resp_status (ta c') = HTTP_X_HANGUP \<or> memory_ok c' \<and> error_ready c' \<and> path_seen c' \<and>
        (\<not> status_is_error (resp_status (ta c')) \<longrightarrow> body_start_ok c' \<and> payload_ok c'))"

definition endpoints_behave :: "env \<Rightarrow> bool" where
  "endpoints_behave env \<longleftrightarrow> (\<forall>h c w. in_service c \<and> state (ta c) = HTTP_STATE_SERVE \<and> api_endpoint_hit (ta c) = Some h \<longrightarrow>
     (\<exists>c' w'. call_handler env h (api_internal_data (ta c)) c w = Some (c', w') \<and> handled c w c' w'))"

text \<open>
  A server with a web root, whose files have positive descriptors, without API endpoints; or
  with a tree of two levels and endpoints that behave.
\<close>

definition static_server :: "env \<Rightarrow> bool" where
  "static_server env \<longleftrightarrow> api_tree env = None \<and> root (default_context env) \<noteq> None \<and>
     (\<forall>f fd. open_file env f = Inr fd \<longrightarrow> 0 < fd)"

definition able_server :: "env \<Rightarrow> bool" where
  "able_server env \<longleftrightarrow> root (default_context env) \<noteq> None \<and> (\<forall>f fd. open_file env f = Inr fd \<longrightarrow> 0 < fd) \<and>
     (case api_tree env of None \<Rightarrow> True | Some tree \<Rightarrow> proper_tree tree \<and> endpoints_behave env)"

lemma static_able: "static_server env \<Longrightarrow> able_server env"
  by (simp add: static_server_def able_server_def)

text \<open>How the call of \<open>kitserv_http_serve_request\<close> has to end for the round to be in order.\<close>

definition serve_ok :: "env \<Rightarrow> (int \<Rightarrow> string) \<Rightarrow> kitserv_client \<Rightarrow> os \<Rightarrow> (int \<times> kitserv_client \<times> os) ub \<Rightarrow> bool" where
  "serve_ok env content c w res \<longleftrightarrow> (\<exists>c1 w1. res = Some (0, c1, w1) \<and>
     (state (ta c1) = HTTP_STATE_SERVE \<and> round_ok c w (Return 0 c1 w1) \<or>
      state (ta c1) = HTTP_STATE_PREPARE_RESPONSE \<and> (\<exists>rd. at_prepare env content c1 w1 = Some rd \<and> round_ok c w rd)))"

lemma at_serve_serve_ok:
  "serve_ok env content c w (kitserv_http_serve_request env c w) \<Longrightarrow> \<exists>rd. at_serve env content c w = Some rd \<and> round_ok c w rd"
  by (auto simp: serve_ok_def at_serve_def)

lemma serve_ok_less:
  "serve_ok env content c1 w1 res \<Longrightarrow> pending c1 w1 \<le> pending c w \<Longrightarrow> sockfd c1 = sockfd c \<Longrightarrow> calm w \<longrightarrow> calm w1 \<Longrightarrow>
   serve_ok env content c w res"
proof -
  assume a: "serve_ok env content c1 w1 res" "pending c1 w1 \<le> pending c w" "sockfd c1 = sockfd c" "calm w \<longrightarrow> calm w1"
  have "round_ok c w rd" if "round_ok c1 w1 rd" for rd by (rule round_ok_less [OF that a(2-4)])
  with a(1) show ?thesis unfolding serve_ok_def by blast
qed

lemma prepare_serve_ok:
  assumes "memory_ok c" "error_ready c" "path_seen c" "\<not> status_is_error (resp_status (ta c)) \<longrightarrow> body_start_ok c \<and> payload_ok c"
  shows "serve_ok env content c w (Some (to_prepare c w))"
proof -
  let ?c = "set_state HTTP_STATE_PREPARE_RESPONSE c"
  have "memory_ok ?c" "error_ready ?c" "path_seen ?c" "\<not> status_is_error (resp_status (ta ?c)) \<longrightarrow> body_start_ok ?c \<and> payload_ok ?c"
    using assms by (auto simp: memory_ok_def hdr_ok_def body_ok_def error_ready_def path_seen_def body_start_ok_def payload_ok_def)
  from at_prepare_ok [OF this, of env content w] round_ok_less [of ?c w _ c w] show ?thesis
    by (auto simp: serve_ok_def to_prepare_def pending_def)
qed

text \<open>A static file.\<close>

lemma internal_serve_ok:
  assumes env: "able_server env" and i: "in_front c"
  shows "serve_ok env content c w (serve_internal env c w)"
proof -
  obtain p path where path: "req_path (ta c) = Some p" "cstr (req_headers c) p = Some path" "length path \<le> 4083"
    using i by (auto simp: in_front_def)
  from i have ready: "static_ready c" "payload_ok c" by (simp_all add: in_front_def)
  have "\<exists>res. kitserv_http_handle_static_path env c w path None = Some res \<and> static_post c w res"
    by (rule static_path_outcome [OF ready(1)]) (use env in \<open>simp_all add: able_server_def\<close>)
  then obtain res where h0: "kitserv_http_handle_static_path env c w path None = Some res" "static_post c w res" by blast
  obtain rc c1 w1 where res: "res = (rc, c1, w1)" by (cases res)
  note h = h0(1) [unfolded res] and post = h0(2) [unfolded res]
  from post have keep: "static_keep c1 = static_keep c" "os_in w1 = os_in w" "os_wr w1 = os_wr w" by (simp_all add: static_same_def)
  note k = static_keepD [OF keep(1)]
  have serve: "serve_internal env c w = Some (to_prepare c1 w1)" using path h by (simp add: serve_internal_def)
  have "memory_ok c1" using post i k by (auto simp: memory_ok_def body_ok_def in_front_def hdr_ok_def)
  moreover have "error_ready c1" using i k path by (auto simp: error_ready_def in_front_def flags_ok_def)
  moreover have "path_seen c1" using k path by (simp add: path_seen_def)
  moreover have "body_start_ok c1 \<and> payload_ok c1" if "\<not> status_is_error (resp_status (ta c1))"
    using that post ready(2) k
    by (auto simp: body_start_ok_def payload_ok_def KITSERV_FD_HEAD_def split: if_splits)
  ultimately have "serve_ok env content c1 w1 (serve_internal env c w)" unfolding serve by (intro prepare_serve_ok) simp_all
  moreover have "pending c1 w1 \<le> pending c w" using keep(2) k(1) by (simp add: pending_def in_size_def)
  moreover have "sockfd c1 = sockfd c" using k by simp
  moreover have "calm w \<longrightarrow> calm w1" by (rule calm_cong [OF keep(2)]) (simp add: taking_cong [OF keep(3)])
  ultimately show ?thesis by (rule serve_ok_less)
qed

text \<open>An endpoint.\<close>

lemma endpoint_serve_ok:
  assumes env: "endpoints_behave env" and i: "in_service c" "state (ta c) = HTTP_STATE_SERVE"
  shows "serve_ok env content c w (serve_endpoint env c w)"
proof -
  obtain h where h: "api_endpoint_hit (ta c) = Some h" using i(1) by (auto simp: in_service_def)
  with env i obtain c1 w1 where c1: "call_handler env h (api_internal_data (ta c)) c w = Some (c1, w1)" "handled c w c1 w1"
    unfolding endpoints_behave_def by blast
  from c1(2) have k: "sockfd c1 = sockfd c" "pending c1 w1 \<le> pending c w" "calm w \<longrightarrow> calm w1" "body_ok c1"
    by (simp_all add: handled_def pending_def)
  show ?thesis
  proof (cases "status_code (resp_status (ta c1)) = 0")
    case True
    with c1(2) have w: "state (ta c1) = HTTP_STATE_SERVE" "in_service c1" "\<not> calm w" by (simp_all add: handled_def)
    then have "round_ok c w (Return 0 c1 w1)" using k by (simp add: round_ok_def serve_inv_def)
    with h c1(1) True w(1) show ?thesis by (simp add: serve_ok_def serve_endpoint_def)
  next
    case False
    then have e: "serve_endpoint env c w = Some (to_prepare c1 w1)" using h c1(1) by (simp add: serve_endpoint_def)
    show ?thesis
    proof (cases "resp_status (ta c1) = HTTP_X_HANGUP")
      case True
      let ?c = "set_state HTTP_STATE_PREPARE_RESPONSE c1"
      have "at_prepare env content ?c w1 = Some (Return (-1) ?c w1)"
        using True by (simp add: at_prepare_def kitserv_http_prepare_response_def)
      moreover have "round_ok c w (Return (-1) ?c w1)" using k by (simp add: round_ok_def body_ok_def)
      ultimately show ?thesis unfolding e by (simp add: serve_ok_def to_prepare_def)
    next
      case no: False
      from c1(2) False no have "memory_ok c1" "error_ready c1" "path_seen c1"
        "\<not> status_is_error (resp_status (ta c1)) \<longrightarrow> body_start_ok c1 \<and> payload_ok c1" by (simp_all add: handled_def)
      from serve_ok_less [OF prepare_serve_ok [OF this] k(2,1,3)] show ?thesis unfolding e .
    qed
  qed
qed

text \<open>A request that has just been read.\<close>

lemma fresh_in_front:
  assumes "idle c" "request_ready c"
  shows "in_front c"
  using assms request_static_ready [OF assms]
  by (simp add: in_front_def idle_def flags_ok_def body_start_ok_def memory_ok_def body_ok_def buffer_ok_def)

lemma searched_in_front: "in_front c \<Longrightarrow> flags_ok fl \<Longrightarrow> in_front (searched c fl h)"
  by (simp add: in_front_def static_ready_def memory_ok_def hdr_ok_def body_ok_def payload_ok_def body_start_ok_def)

lemma fresh_search:
  assumes i: "idle c" and r: "request_ready c" and t: "proper_tree tree" and p: "req_path (ta c) = Some p"
  defines "q \<equiv> scan_until (\<lambda>x. x \<noteq> CHR ''/'') (req_headers c) p"
  shows "\<exists>x out. peek (req_headers c) q = Some x \<and> parse_api_tree tree c q tree = Some out \<and> search_result c out"
proof -
  from request_static_ready(4) [OF i r] p obtain s y where s: "cstr (req_headers c) p = Some s"
    and y: "version_at (req_headers c) (p + length s) (req_payload (ta c)) y" by auto
  let ?n = "length (takeWhile (\<lambda>x. x = CHR ''/'') s)"
  have q: "q = p + ?n" using scan_cstr [OF s, of "\<lambda>x. x \<noteq> CHR ''/''"] by (simp add: q_def)
  have c: "cstr (req_headers c) q = Some (drop ?n s)" unfolding q by (rule cstr_drop [OF s length_takeWhile_le])
  have "q + length (drop ?n s) = p + length s" using length_takeWhile_le [of "\<lambda>x. x = CHR ''/''" s] by (simp add: q)
  then have "q + length (drop ?n s) < y" "y + 1 < length (req_headers c)" "req_headers c ! y = CHR ''/''" "req_headers c ! (y + 1) = CHR ''1''"
    using y by (simp_all add: version_at_def)
  from search_total [OF t c this] i cstr_next [OF c] show ?thesis by (auto simp: idle_def)
qed

lemma request_serve_ok:
  assumes env: "able_server env" and i: "idle c" and r: "request_ready c" and st: "state (ta c) = HTTP_STATE_SERVE"
  shows "serve_ok env content c w (kitserv_http_serve_request env c w)"
proof (cases "api_tree env")
  case None
  with internal_serve_ok [OF env fresh_in_front [OF i r]] show ?thesis by (simp add: kitserv_http_serve_request_def)
next
  case (Some tree)
  with env have t: "proper_tree tree" "endpoints_behave env" by (simp_all add: able_server_def)
  have f: "in_front c" by (rule fresh_in_front [OF i r])
  have z: "api_allow_flags (ta c) = 0" "api_endpoint_hit (ta c) = None" "api_internal_data (ta c) = None" using i by (simp_all add: idle_def)
  obtain p s where p: "req_path (ta c) = Some p" "cstr (req_headers c) p = Some s" "length s \<le> 4083" using f by (auto simp: in_front_def)
  let ?q = "scan_until (\<lambda>x. x \<noteq> CHR ''/'') (req_headers c) p"
  from fresh_search [OF i r t(1) p(1)] obtain x rc c1 where
    q: "peek (req_headers c) ?q = Some x" "parse_api_tree tree c ?q tree = Some (rc, c1)" "search_result c (rc, c1)" by auto
  have srv: "kitserv_http_serve_request env c w = (if rc \<noteq> 0 then Some (to_prepare c1 w) else serve_endpoint env c1 w)"
    using z Some by (simp add: kitserv_http_serve_request_def Let_def p(1) q(1,2) del: peek_Some)
  from q(3) obtain fl h where fl: "flags_ok fl"
    "rc = 0 \<and> c1 = searched c fl h \<and> (fl = 0 \<longleftrightarrow> h = None) \<or>
     rc = -1 \<and> c1 = set_status HTTP_405_METHOD_NOT_ALLOWED (searched c fl None) \<and> fl \<noteq> 0"
    by (auto simp: search_result_def)
  have less: "serve_ok env content c w res" if "serve_ok env content (searched c fl h') w res" for h' res
    by (rule serve_ok_less [OF that]) (simp_all add: pending_def)
  from fl(2) show ?thesis
  proof (elim disjE conjE)
    assume a: "rc = 0" "c1 = searched c fl h" "fl = 0 \<longleftrightarrow> h = None"
    show ?thesis
    proof (cases h)
      case None
      with a z have "c1 = c" by simp
      with a(1) srv z internal_serve_ok [OF env f] show ?thesis by (simp add: serve_endpoint_def)
    next
      case (Some x)
      with searched_in_front [OF f fl(1)] have "in_service c1" by (simp add: in_service_def a(2))
      from less [of h] endpoint_serve_ok [OF t(2) this] st a(1,2) srv show ?thesis by simp
    qed
  next
    assume a: "rc = -1" "c1 = set_status HTTP_405_METHOD_NOT_ALLOWED (searched c fl None)" "fl \<noteq> 0"
    have "memory_ok c1" "error_ready c1" "path_seen c1" "status_is_error (resp_status (ta c1))"
      using f fl(1) a(2,3) p
      by (simp_all add: in_front_def memory_ok_def hdr_ok_def body_ok_def error_ready_def flags_ok_def path_seen_def status_is_error_def)
    from prepare_serve_ok [OF this(1-3)] this(4) have "serve_ok env content c1 w (Some (to_prepare c1 w))" by simp
    from serve_ok_less [OF this] a srv show ?thesis by (simp add: pending_def)
  qed
qed

lemma at_serve_ok:
  assumes "able_server env" "idle c" "request_ready c" "state (ta c) = HTTP_STATE_SERVE"
  shows "\<exists>rd. at_serve env content c w = Some rd \<and> round_ok c w rd"
  by (rule at_serve_serve_ok [OF request_serve_ok [OF assms]])

text \<open>An endpoint that is called again.\<close>

lemma at_serve_again:
  assumes env: "able_server env" and i: "in_service c" and st: "state (ta c) = HTTP_STATE_SERVE"
  shows "\<exists>rd. at_serve env content c w = Some rd \<and> round_ok c w rd"
proof (rule at_serve_serve_ok, cases "api_tree env")
  case None
  have "in_front c" using i by (simp add: in_service_def)
  from internal_serve_ok [OF env this] None show "serve_ok env content c w (kitserv_http_serve_request env c w)"
    by (simp add: kitserv_http_serve_request_def)
next
  case (Some tree)
  with env have "endpoints_behave env" by (simp add: able_server_def)
  note e = endpoint_serve_ok [OF this i st, of content w]
  have "api_endpoint_hit (ta c) \<noteq> None" using i by (simp add: in_service_def)
  then have "kitserv_http_serve_request env c w = serve_endpoint env c w" using Some by (auto simp: kitserv_http_serve_request_def)
  with e show "serve_ok env content c w (kitserv_http_serve_request env c w)" by simp
qed

section \<open>Reading\<close>

lemma resp_partD:
  assumes "resp_part c' = resp_part c"
  shows "memory_ok c' = memory_ok c" "resp_status (ta c') = resp_status (ta c)" "resp_fd (ta c') = resp_fd (ta c)"
    "preserve_body_on_error (ta c') = preserve_body_on_error (ta c)" "api_allow_flags (ta c') = api_allow_flags (ta c)"
    "req_payload_pos (ta c') = req_payload_pos (ta c)" "sockfd c' = sockfd c"
    "api_endpoint_hit (ta c') = api_endpoint_hit (ta c)" "api_internal_data (ta c') = api_internal_data (ta c)"
    "resp_body_pos (ta c') = resp_body_pos (ta c)"
proof -
  define g where "g c = (resp_headers c, resp_buf1 (ta c), resp_body c, resp_buf2 (ta c), resp_status (ta c), resp_fd (ta c),
    preserve_body_on_error (ta c), api_allow_flags (ta c), req_payload_pos (ta c), sockfd c, api_endpoint_hit (ta c), api_internal_data (ta c), resp_body_pos (ta c))"
    for c :: kitserv_client
  have "g (resp_part c) = g c" for c by (simp add: g_def resp_part_def frame_of_def)
  with assms have "g c' = g c" by metis
  then show "memory_ok c' = memory_ok c" "resp_status (ta c') = resp_status (ta c)" "resp_fd (ta c') = resp_fd (ta c)"
    "preserve_body_on_error (ta c') = preserve_body_on_error (ta c)" "api_allow_flags (ta c') = api_allow_flags (ta c)"
    "req_payload_pos (ta c') = req_payload_pos (ta c)" "sockfd c' = sockfd c"
    "api_endpoint_hit (ta c') = api_endpoint_hit (ta c)" "api_internal_data (ta c') = api_internal_data (ta c)"
    "resp_body_pos (ta c') = resp_body_pos (ta c)"
    by (simp_all add: g_def memory_ok_def body_ok_def hdr_ok_def)
qed

lemma resp_part_idle: "resp_part c' = resp_part c \<Longrightarrow> idle c' = idle c"
proof -
  assume "resp_part c' = resp_part c"
  from resp_partD [OF this] show "idle c' = idle c" by (simp add: idle_def)
qed

lemma sock_read_pending: "sock_read n evs = (Inr bs, evs') \<Longrightarrow>
  sum_list (map ev_size evs') + length bs \<le> sum_list (map ev_size evs)"
proof (induction n evs rule: sock_read.induct)
  case (2 n bs0 evs)
  consider "n = 0" | "n \<noteq> 0" "bs0 = []" | "n \<noteq> 0" "bs0 \<noteq> []" "length bs0 \<le> n" | "n \<noteq> 0" "bs0 \<noteq> []" "n < length bs0" by linarith
  then show ?case
  proof cases
    case 2
    with "2.IH" "2.prems" show ?thesis by simp
  qed (use "2.prems" in auto)
qed (auto split: if_splits)

lemma recv_fill_pending:
  "recv_fill c p r w = (Go c', w') \<Longrightarrow> pending c' w' \<le> pending c w"
  "recv_fill c p r w = (Give rc c', w') \<Longrightarrow> pending c' w' \<le> pending c w"
proof -
  obtain res evs where sr: "sock_read (HTTP_BUFSZ - length (req_headers c)) (os_in w) = (res, evs)"
    by (cases "sock_read (HTTP_BUFSZ - length (req_headers c)) (os_in w)") auto
  have out: "\<exists>c2. (f = Go c2 \<or> (\<exists>rc. f = Give rc c2)) \<and> pending c2 w2 \<le> pending c w"
    if "recv_fill c p r w = (f, w2)" for f w2
  proof (cases res)
    case (Inl e)
    from sock_read_size [OF sr] have "in_size (w\<lparr>os_in := evs, os_errno := e\<rparr>) \<le> in_size w" by (simp add: in_size_def)
    with that Inl sr show ?thesis by (auto simp: recv_fill_def pending_def split: if_splits)
  next
    case (Inr bs)
    from sock_read_pending [OF sr [unfolded Inr]] have "in_size (w\<lparr>os_in := evs\<rparr>) + length bs \<le> in_size w"
      by (simp add: in_size_def)
    with that Inr sr show ?thesis by (cases bs) (auto simp: recv_fill_def pending_def split: if_splits)
  qed
  show "recv_fill c p r w = (Go c', w') \<Longrightarrow> pending c' w' \<le> pending c w"
    "recv_fill c p r w = (Give rc c', w') \<Longrightarrow> pending c' w' \<le> pending c w"
    using out by blast+
qed

lemma parse_from_length:
  assumes "parse_from c p r = Some out"
  shows "length (req_headers (out_client out)) = length (req_headers c)"
proof -
  from assms obtain pc p' r' where "parse_loop (pc, c, p', r') = Some out"
    by (auto simp: parse_from_def split: if_splits option.splits)
  from conjunct1 [OF parse_loop_frame [OF this]]
  have "length (req_headers (no_status (out_client out))) = length (req_headers (no_status c))" by (rule frame_of_length)
  then show ?thesis by (simp add: no_status_def)
qed

lemma recv_loop_pending:
  "recv_loop c p r w = Some (rc, c', w') \<Longrightarrow> pending c' w' \<le> pending c w"
proof (induction c p r w rule: recv_loop.induct)
  case (1 c p r w)
  note step = recv_loop.simps [of c p r w]
  obtain f w1 where f: "recv_fill c p r w = (f, w1)" by (cases "recv_fill c p r w")
  show ?case
  proof (cases f)
    case (Give rc1 c1)
    with f "1.prems" recv_fill_pending(2) [of c p r w rc1 c1 w1] show ?thesis by (simp add: step)
  next
    case (Go c1)
    note p1 = recv_fill_pending(1) [OF f [unfolded Go]]
    from "1.prems" f Go obtain out where out: "parse_from c1 p r = Some out" by (auto simp: step split: option.splits)
    note l = parse_from_length [OF out]
    show ?thesis
    proof (cases out)
      case (Cont m)
      with "1.prems" f Go out show ?thesis by (simp add: step)
    next
      case (Wait m)
      obtain pc c2 p2 r2 where m: "m = (pc, c2, p2, r2)" by (cases m) auto
      have "recv_loop (set_parse_state pc c2) (Some p2) (Some r2) w1 = Some (rc, c', w')"
        using "1.prems" f Go out Wait m by (simp add: step)
      from "1.IH" [OF f [symmetric] Go out Wait m [symmetric] refl refl this] p1 l Wait m show ?thesis
        by (simp add: pending_def)
    next
      case (Stop x)
      with "1.prems" f Go out p1 l show ?thesis by (cases x) (auto simp: step finish_request_def pending_def)
    qed
  qed
qed

text \<open>While reading, what blocks is the only reason to return with nothing parsed.\<close>

lemma sock_read_calm: "sock_read n evs = (res, evs') \<Longrightarrow> calm_in evs \<Longrightarrow> calm_in evs' \<and> res \<noteq> Inl EAGAIN"
  by (induction n evs rule: sock_read.induct) (auto simp: calm_in_def split: if_splits)

lemma recv_fill_calm:
  assumes "recv_fill c p r w = (f, w')" "calm w"
  shows "calm w' \<and> (\<forall>c'. f \<noteq> Give 0 c')"
proof -
  obtain res evs where sr: "sock_read (HTTP_BUFSZ - length (req_headers c)) (os_in w) = (res, evs)"
    by (cases "sock_read (HTTP_BUFSZ - length (req_headers c)) (os_in w)") auto
  from sock_read_calm [OF sr] assms(2) have "calm_in evs" "res \<noteq> Inl EAGAIN" by (simp_all add: calm_def)
  with assms sr show ?thesis
    by (auto simp: recv_fill_def calm_def taking_def split: sum.splits list.splits if_splits)
qed

lemma recv_fill_not_read: "recv_fill c p r w = (Give rc c', w') \<Longrightarrow> rc = 0 \<or> rc = -1"
  by (auto simp: recv_fill_def split: prod.splits sum.splits list.splits if_splits)

lemma recv_loop_calm:
  "recv_loop c p r w = Some (rc, c', w') \<Longrightarrow> calm w \<Longrightarrow> calm w' \<and> (rc = 0 \<longrightarrow> state (ta c') \<noteq> HTTP_STATE_READ)"
proof (induction c p r w rule: recv_loop.induct)
  case (1 c p r w)
  note step = recv_loop.simps [of c p r w]
  obtain f w1 where f: "recv_fill c p r w = (f, w1)" by (cases "recv_fill c p r w")
  note cf = recv_fill_calm [OF f "1.prems"(2)]
  show ?case
  proof (cases f)
    case (Give rc1 c1)
    with f "1.prems" cf recv_fill_not_read [of c p r w rc1 c1 w1] show ?thesis by (auto simp: step)
  next
    case (Go c1)
    from "1.prems"(1) f Go obtain out where out: "parse_from c1 p r = Some out" by (auto simp: step split: option.splits)
    show ?thesis
    proof (cases out)
      case (Cont m)
      with "1.prems" f Go out show ?thesis by (simp add: step)
    next
      case (Wait m)
      obtain pc c2 p2 r2 where m: "m = (pc, c2, p2, r2)" by (cases m) auto
      have "recv_loop (set_parse_state pc c2) (Some p2) (Some r2) w1 = Some (rc, c', w')"
        using "1.prems" f Go out Wait m by (simp add: step)
      from "1.IH" [OF f [symmetric] Go out Wait m [symmetric] refl refl this] cf show ?thesis by simp
    next
      case (Stop x)
      with "1.prems" f Go out cf show ?thesis by (cases x) (auto simp: step finish_request_def)
    qed
  qed
qed

lemma at_read_ok:
  assumes env: "able_server env" and i: "idle c" and ok: "recv_ok c" and st: "state (ta c) = HTTP_STATE_READ"
  shows "\<exists>rd. at_read env content c w = Some rd \<and> round_ok c w rd"
proof -
  from recv_request_safe [OF ok st, of w] obtain rc c' w' where
    r: "kitserv_http_recv_request c w = Some (rc, c', w')" and post: "recv_post c (rc, c', w')" by auto
  have p: "pending c' w' \<le> pending c w" using r by (auto simp: kitserv_http_recv_request_def dest: recv_loop_pending)
  have cm: "calm w \<Longrightarrow> calm w' \<and> (rc = 0 \<longrightarrow> state (ta c') \<noteq> HTTP_STATE_READ)"
    using r by (auto simp: kitserv_http_recv_request_def dest: recv_loop_calm)
  then have cw: "calm w \<longrightarrow> calm w'" by blast
  from post consider
    (again) "rc = 0" "state (ta c') = HTTP_STATE_READ" "recv_ok c'" "resp_part c' = resp_part c"
  | (ready) "rc = 0" "state (ta c') = HTTP_STATE_SERVE" "request_ready c'" "resp_part c' = resp_part c"
  | (failed) "rc = -1" "resp_status (ta c') \<in> recv_failures" "path_seen c'" "resp_part (no_status c') = resp_part (no_status c)"
    unfolding recv_post.simps by blast
  then show ?thesis
  proof cases
    case again
    with i have "serve_inv c'" by (simp add: serve_inv_def resp_part_idle [OF again(4)])
    moreover have "\<not> calm w" using cm again by blast
    moreover have "body_ok c'" using resp_partD(1) [OF again(4)] i by (simp add: idle_def memory_ok_def)
    ultimately show ?thesis using again r resp_partD [OF again(4)] by (simp add: at_read_def round_ok_def)
  next
    case ready
    with i have "idle c'" by (simp add: resp_part_idle [OF ready(4)])
    from at_serve_ok [OF env this ready(3,2), of content w'] round_ok_less [OF _ p resp_partD(7) [OF ready(4)] cw] r ready show ?thesis
      by (auto simp: at_read_def)
  next
    case failed
    note k = resp_partD [OF failed(4)]
    have "memory_ok (no_status c) = memory_ok c" "memory_ok (no_status c') = memory_ok c'"
      by (simp_all add: memory_ok_def body_ok_def no_status_def)
    with k(1) i have mem: "memory_ok c'" by (simp add: idle_def)
    have fd: "sockfd c' = sockfd c" using k(7) by (simp add: no_status_def)
    show ?thesis
    proof (cases "resp_status (ta c') = HTTP_X_HANGUP")
      case True
      with r failed mem fd show ?thesis by (simp add: at_read_def round_ok_def memory_ok_def)
    next
      case False
      note mem
      moreover note failed(3)
      moreover have "error_ready c'" using k(4) failed(2) i by (auto simp: error_ready_def recv_failures_def idle_def no_status_def)
      moreover have "status_is_error (resp_status (ta c'))"
        using failed(2) False by (auto simp: recv_failures_def status_is_error_def)
      ultimately obtain rd where "at_prepare env content c' w' = Some rd" "round_ok c' w' rd"
        using at_prepare_ok [of c' env content w'] by blast
      with round_ok_less [OF _ p fd cw] r failed False show ?thesis by (auto simp: at_read_def)
    qed
  qed
qed

section \<open>The loop\<close>

lemma serve_round_ok:
  assumes "able_server env" "serve_inv c"
  shows "\<exists>rd. serve_round env content c w = Some rd \<and> round_ok c w rd"
  using assms(2) at_read_ok [OF assms(1), of c content w] at_serve_again [OF assms(1), of c content w] at_send_ok [of c env content w] at_send_file_ok [of c env content w]
  by (auto simp: serve_inv_def serve_round_def split: http_transaction_state.splits)

lemma serve_client_total:
  assumes env: "able_server env"
  shows "serve_inv c \<Longrightarrow> \<exists>rc c' w'. kitserv_http_serve_client env content c w = Some (Some (rc, c', w')) \<and>
    sockfd c' = sockfd c \<and> body_ok c' \<and> (rc = -1 \<or> rc = 0 \<and> serve_inv c' \<and> \<not> calm w)"
proof (induction "pending c w" arbitrary: c w rule: less_induct)
  case less
  from serve_round_ok [OF env less.prems] obtain rd where
    r: "serve_round env content c w = Some rd" "round_ok c w rd" by blast
  note step = kitserv_http_serve_client.simps [of env content c w]
  show ?case
  proof (cases rd)
    case (Return rc c' w')
    with r show ?thesis by (simp add: step round_ok_def)
  next
    case (Again c' w')
    with r(2) have a: "serve_inv c'" "pending c' w' < pending c w" "sockfd c' = sockfd c" "calm w \<longrightarrow> calm w'"
      by (simp_all add: round_ok_def)
    from less.hyps [OF a(2,1)] r(1) Again a(3,4) show ?thesis by (auto simp: step)
  qed
qed

section \<open>Properties\<close>

lemma create_ok:
  assumes "heap_alloc h = (True, h1)" "heap_alloc h1 = (True, h2)" "heap_alloc h2 = (True, h3)" "heap_alloc h3 = (True, h4)"
    "heap_alloc h4 = (True, h5)"
  shows "\<exists>c'. kitserv_http_create_client_struct c h = (0, c', h5) \<and> serve_inv c' \<and> state (ta c') = HTTP_STATE_READ \<and> sockfd c' = sockfd c"
proof -
  define c1 where "c1 = c\<lparr>resp_headers := [], resp_start := [], req_cookies := new_cookies,
    resp_body := (resp_body c)\<lparr>b_buf := [], b_block := 4096, b_len := 0, b_max := 4096\<rparr>, req_headers := []\<rparr>"
  have "kitserv_http_create_client_struct c h = (0, cleanup_client (\<lambda>_. True) c1, h5)"
    using assms by (simp add: kitserv_http_create_client_struct_def kitserv_buffer_init_def kitserv_http_reset_client_def
        HTTP_BUFSZ_def c1_def)
  moreover have "serve_inv (cleanup_client (\<lambda>_. True) c1)"
    by (rule cleanup_idle) (simp_all add: c1_def body_ok_def buffer_ok_def HTTP_BUFSZ_def)
  ultimately show ?thesis by (simp add: cleanup_client_def zero_ta_def c1_def)
qed

text \<open>
  C36: creating a client either succeeds, holding its five blocks, with a client that is
  ready to be served, or fails and gives back every block it had obtained.
\<close>

theorem create_client_no_leak:
  "case kitserv_http_create_client_struct c h of (rc, c', h') \<Rightarrow>
     (rc = 0 \<and> serve_inv c' \<and> blocks h' = blocks h + 5) \<or> (rc = -1 \<and> blocks h' = blocks h)"
proof -
  obtain o1 h1 o2 h2 o3 h3 o4 h4 o5 h5 where a: "heap_alloc h = (o1, h1)" "heap_alloc h1 = (o2, h2)" "heap_alloc h2 = (o3, h3)"
    "heap_alloc h3 = (o4, h4)" "heap_alloc h4 = (o5, h5)" by (meson surj_pair)
  have b: "blocks y = (if ok then blocks x + 1 else blocks x)" if "heap_alloc x = (ok, y)" for x y ok
    using that by (auto simp: heap_alloc_def split: list.splits)
  note n = b [OF a(1)] b [OF a(2)] b [OF a(3)] b [OF a(4)] b [OF a(5)]
  show ?thesis
  proof (cases "o1 \<and> o2 \<and> o3 \<and> o4 \<and> o5")
    case True
    with create_ok [of h h1 h2 h3 h4 h5 c] a n show ?thesis by auto
  next
    case False
    then consider "\<not> o1" | "o1" "\<not> o2" | "o1" "o2" "\<not> o3" | "o1" "o2" "o3" "\<not> o4" | "o1" "o2" "o3" "o4" "\<not> o5" by blast
    then show ?thesis
      by cases (use a n in \<open>simp_all add: kitserv_http_create_client_struct_def kitserv_buffer_init_def heap_free_def\<close>)
  qed
qed

lemma sample_ready: "static_server sample_env" "serve_inv fresh_client"
proof -
  show "static_server sample_env" by (auto simp: static_server_def sample_env_def split: if_splits)
  show "serve_inv fresh_client"
    using fresh_client_ok
    by (simp add: serve_inv_def idle_def memory_ok_def body_ok_def fresh_client_def zero_ta_def hdr_ok_def buffer_ok_def zero_iovec_def)
qed

text \<open>An endpoint that waits until the peer has sent something more, and answers with 204.\<close>

definition polite_endpoint :: "kitserv_client \<Rightarrow> os \<Rightarrow> (kitserv_client \<times> os) ub" where
  "polite_endpoint c w = (case os_in w of Block # evs \<Rightarrow> Some (c, w\<lparr>os_in := evs\<rparr>) | _ \<Rightarrow> Some (set_status HTTP_204_NO_CONTENT c, w))"

definition polite_env :: env where
  "polite_env = sample_env\<lparr>api_tree := Some sample_tree, call_handler := (\<lambda>h d. polite_endpoint)\<rparr>"

lemma polite_handled:
  assumes "in_service c" "state (ta c) = HTTP_STATE_SERVE"
  shows "\<exists>c' w'. polite_endpoint c w = Some (c', w') \<and> handled c w c' w'"
proof (cases "\<exists>evs. os_in w = Block # evs")
  case True
  then obtain evs where "os_in w = Block # evs" by blast
  with assms show ?thesis
    by (auto simp: polite_endpoint_def handled_def in_service_def in_front_def static_ready_def memory_ok_def in_size_def calm_def calm_in_def)
next
  case False
  then have "polite_endpoint c w = Some (set_status HTTP_204_NO_CONTENT c, w)"
    by (auto simp: polite_endpoint_def split: list.splits rd_event.splits)
  moreover have "handled c w (set_status HTTP_204_NO_CONTENT c) w"
    using assms
    by (auto simp: handled_def in_service_def in_front_def memory_ok_def hdr_ok_def body_ok_def error_ready_def path_seen_def body_start_ok_def
        payload_ok_def)
  ultimately show ?thesis by blast
qed

lemma polite_able: "able_server polite_env"
proof -
  have "proper_tree sample_tree" by code_simp
  with polite_handled sample_ready(1) show ?thesis
    by (simp add: able_server_def static_server_def polite_env_def endpoints_behave_def)
qed

text \<open>
  C5: serving is defined and ends for every client in the invariant, whatever the peer sends,
  in whatever pieces, however the socket takes the response, and whatever the endpoints answer
  or wait for as long as they behave: a call of \<open>kitserv_http_serve_client\<close> never leaves
  defined behaviour, returns, and either asks for the connection to be closed or leaves the
  client in the invariant, ready to be called again. The example has an endpoint that answers
  with 204 but waits for the peer when a read would block.
\<close>

theorem serving_total:
  assumes "able_server env" "serve_inv c"
  shows "\<exists>rc c' w'. kitserv_http_serve_client env content c w = Some (Some (rc, c', w')) \<and>
    (rc = -1 \<or> rc = 0 \<and> serve_inv c')"
  using serve_client_total [OF assms, of content w] by blast

lemma serving_total_witness:
  "\<exists>rc c' w'. kitserv_http_serve_client polite_env (\<lambda>fd. ''0123456789'') fresh_client
      (quiet_os\<lparr>os_in := [Chunk (''GET /api/get HTTP/1.1'' @ CRLF @ CRLF @ ''GET /..''), Block], os_wr := [Takes 5, WBlock]\<rparr>) =
    Some (Some (rc, c', w')) \<and> (rc = -1 \<or> rc = 0 \<and> serve_inv c')"
  by (rule serving_total [OF polite_able sample_ready(2)])

text \<open>
  C13: the server waits for edge-triggered events, so it must not wait while there is something
  to do: when no read would block, and every write takes something, neither blocking nor
  failing, one call serves the connection to its end and never asks to be called again. (A
  \<^verbatim>\<open>writev\<close> that fails is taken for one that would block, \<open>send_error_ignored\<close>.)
\<close>

theorem waits_only_when_blocked:
  assumes "able_server env" "serve_inv c" "calm w"
  shows "\<exists>c' w'. kitserv_http_serve_client env content c w = Some (Some (-1, c', w'))"
  using serve_client_total [OF assms(1,2), of content w] assms(3) by blast

lemma waits_only_when_blocked_witness:
  "\<exists>c' w'. kitserv_http_serve_client polite_env (\<lambda>fd. ''0123456789'') fresh_client
      (quiet_os\<lparr>os_in := [Chunk (''GET /api/get HTTP/1.1'' @ CRLF @ CRLF @ ''GET /..'')], os_wr := [Takes 5]\<rparr>) =
    Some (Some (-1, c', w'))"
  by (rule waits_only_when_blocked [OF polite_able sample_ready(2)]) (simp add: calm_def calm_in_def taking_def quiet_os_def)

text \<open>
  What a peer sent behind its request is kept for the next one: finishing a transaction
  leaves exactly the unused bytes at the start of the request buffer and everything else as
  in a new client.
\<close>

theorem finalize_keeps_rest:
  assumes "body_ok c" "payload_ok c"
  shows "\<exists>c'. kitserv_http_finalize_transaction ok c = Some c' \<and>
    req_headers c' = drop (req_payload (ta c) + nat (req_payload_pos (ta c))) (req_headers c) \<and>
    ta c' = zero_ta \<and> b_len (resp_body c') = 0 \<and> serve_inv c'"
  using finalize_total(1,2) [OF assms, of ok] by (simp add: unread_def cleanup_client_def)

lemma finalize_keeps_rest_witness:
  defines "c \<equiv> fresh_client\<lparr>req_headers := ''GET...PUT'', ta := zero_ta\<lparr>req_payload := 6, req_payload_len := 3\<rparr>\<rparr>"
  shows "\<exists>c'. kitserv_http_finalize_transaction (\<lambda>n. True) c = Some c' \<and> req_headers c' = ''PUT'' \<and>
    ta c' = zero_ta \<and> b_len (resp_body c') = 0 \<and> serve_inv c'"
proof -
  have "body_ok c" "payload_ok c"
    by (simp_all add: c_def body_ok_def payload_ok_def buffer_ok_def fresh_client_def zero_ta_def HTTP_BUFSZ_def)
  from finalize_keeps_rest [OF this, of "\<lambda>n. True"] show ?thesis by (simp add: c_def zero_ta_def)
qed

text \<open>
  C40: a peer that goes away during a file transfer costs a descriptor: the call reports the
  error with the file still open, and recycling the client forgets the descriptor without
  closing it.
\<close>

theorem aborted_transfer_leaks:
  assumes fd: "resp_fd (ta c) = fd" "0 < fd" "fd \<in> set (os_fds w)" and m: "req_method (ta c) = HTTP_GET"
    and pos: "0 \<le> resp_body_pos (ta c)" "resp_body_pos (ta c) \<le> resp_body_end (ta c)"
      "resp_body_end (ta c) < int (length (content fd))" "resp_body_end (ta c) < 2 ^ 62"
    and w: "os_wr w = WErr e # es" "e \<noteq> EAGAIN"
  shows "\<exists>c' w'. kitserv_http_send_response_file content c w = (-1, c', w') \<and> fd \<in> set (os_fds w') \<and>
    resp_fd (ta (kitserv_http_reset_client ok c')) = 0"
proof -
  let ?n = "resp_body_end (ta c) - resp_body_pos (ta c) + 1"
  have "size_t_of ?n = nat ?n" using pos by simp
  then have "take (min (size_t_of ?n) 0x7ffff000) (drop (nat (resp_body_pos (ta c))) (content fd)) \<noteq> []" using pos by auto
  then have "sendfile content fd (resp_body_pos (ta c)) (size_t_of ?n) w =
      (-1, resp_body_pos (ta c), w\<lparr>os_wr := es, os_errno := e\<rparr>)"
    using pos w by (simp add: sendfile_def os_put_def)
  then have "sendfile_loop content fd (resp_body_pos (ta c)) (resp_body_end (ta c)) w =
      (-1, resp_body_pos (ta c), w\<lparr>os_wr := es, os_errno := e\<rparr>)"
    by (simp add: sendfile_loop.simps [of content fd])
  with fd m pos w show ?thesis
    by (simp add: kitserv_http_send_response_file_def Let_def kitserv_http_reset_client_def cleanup_client_def zero_ta_def)
qed

lemma aborted_transfer_leaks_witness:
  defines "c \<equiv> fresh_client\<lparr>ta := zero_ta\<lparr>req_method := HTTP_GET, resp_fd := 7, resp_body_end := 9\<rparr>\<rparr>"
    and "w \<equiv> quiet_os\<lparr>os_fds := [7], os_wr := [WErr (EOTHER 32)]\<rparr>"
  shows "\<exists>c' w'. kitserv_http_send_response_file (\<lambda>fd. ''0123456789'') c w = (-1, c', w') \<and> 7 \<in> set (os_fds w') \<and>
    resp_fd (ta (kitserv_http_reset_client (\<lambda>n. True) c')) = 0"
  by (rule aborted_transfer_leaks [where e = "EOTHER 32" and es = "[]" and fd = 7]) (simp_all add: c_def w_def zero_ta_def)

end
