(* ===== verification/Connection.thy ===== *)
theory Connection
  imports Http_Serve_Safety
begin

text \<open>
  The connections of a worker (\<^verbatim>\<open>src/kitserv.c\<close>): their array, the list of the free ones that
  runs through it, taking and returning a connection, and the choice of the worker for a new
  one. Each function body between lock and unlock is one operation here. A failed
  \<^verbatim>\<open>assert\<close> and \<^verbatim>\<open>abort()\<close> are \<^term>\<open>None\<close>.
\<close>

section \<open>The operations\<close>

text \<open>A pointer to a connection is an index into the array, NULL is \<^term>\<open>None\<close>.\<close>

record connection =
  next_conn :: "nat option"
  client :: kitserv_client

record connection_container =
  freelist_count :: int
  first_free_conn :: "nat option"
  connections :: "connection list"

text \<open>
  \<open>block\<close> is what \<^verbatim>\<open>malloc\<close> finds in the memory of the array: nothing is known of it. The
  first loop sets the pointers of all connections but the last.
\<close>

definition link_loop :: "connection list \<Rightarrow> connection list" where
  "link_loop cs = fold (\<lambda>i cs. cs[i := (cs ! i)\<lparr>next_conn := Some (i + 1)\<rparr>]) [0..<length cs - 1] cs"

fun create_loop :: "nat list \<Rightarrow> connection list \<Rightarrow> heap \<Rightarrow> (connection list \<times> heap) ub" where
  "create_loop [] cs h = Some (cs, h)"
| "create_loop (i # is) cs h =
     (case kitserv_http_create_client_struct (client (cs ! i)) h of
        (rc, c, h) \<Rightarrow> if rc \<noteq> 0 then None else create_loop is (cs[i := (cs ! i)\<lparr>client := c\<rparr>]) h)"

definition connection_init :: "bool \<Rightarrow> connection list \<Rightarrow> heap \<Rightarrow> (connection_container \<times> heap) ub" where
  "connection_init mutex_ok block h =
     (if \<not> mutex_ok then None
      else case heap_alloc h of
        (False, h) \<Rightarrow> None
      | (True, h) \<Rightarrow> do {
          (cs, h) \<leftarrow> create_loop [0..<length block] (link_loop block) h;
          Some (\<lparr>freelist_count = int (length block), first_free_conn = Some 0, connections = cs\<rparr>, h) })"

text \<open>The assertions of \<open>connection_accept\<close> on a connection taken from the list.\<close>

definition asserted_fresh :: "kitserv_client \<Rightarrow> bool" where
  "asserted_fresh c \<longleftrightarrow> length (req_headers c) = 0 \<and> b_len (resp_body c) = 0 \<and>
     resp_fd (ta c) = 0 \<and> resp_fd (ta c) = KITSERV_FD_DISABLE \<and> state_num (state (ta c)) = 0 \<and>
     parse_state (ta c) = HTTP_PS_NEW \<and> status_code (resp_status (ta c)) = 0"

definition connection_accept :: "connection_container \<Rightarrow> int \<Rightarrow> (nat option \<times> connection_container) ub" where
  "connection_accept ct socket =
     (case first_free_conn ct of
        None \<Rightarrow> Some (None, ct)
      | Some k \<Rightarrow>
          if 0 < freelist_count ct \<and> k < length (connections ct) then
            (let conn = connections ct ! k; c = (client conn)\<lparr>sockfd := socket\<rparr>;
                 ct = ct\<lparr>first_free_conn := next_conn conn, freelist_count := freelist_count ct - 1,
                        connections := (connections ct)[k := conn\<lparr>client := c\<rparr>]\<rparr>
             in if asserted_fresh c then Some (Some k, ct) else None)
          else None)"

definition connection_close :: "(nat \<Rightarrow> bool) \<Rightarrow> connection_container \<Rightarrow> nat \<Rightarrow> connection_container" where
  "connection_close ok ct k =
     (let conn = connections ct ! k; c = kitserv_http_reset_client ok (client conn) in
      ct\<lparr>connections := (connections ct)[k := \<lparr>next_conn = first_free_conn ct, client = c\<rparr>],
        first_free_conn := Some k, freelist_count := freelist_count ct + 1\<rparr>)"

definition score_worker :: "connection_container \<Rightarrow> int ub" where
  "score_worker ct = (if 0 \<le> freelist_count ct then Some (freelist_count ct) else None)"

text \<open>One pass of the loop of \<open>select_client_worker\<close>, and the loop with no one else at work.\<close>

definition select_step :: "nat \<Rightarrow> int \<Rightarrow> nat option \<times> int \<Rightarrow> nat option \<times> int" where
  "select_step i curr_score best = (case best of (best_worker, best_score) \<Rightarrow>
     if curr_score > best_score then (Some i, curr_score) else (best_worker, best_score))"

fun select_loop :: "connection_container list \<Rightarrow> nat \<Rightarrow> nat option \<times> int \<Rightarrow> nat option ub" where
  "select_loop [] i best = Some (fst best)"
| "select_loop (ct # cts) i best = do {
     s \<leftarrow> score_worker ct;
     select_loop cts (i + 1) (select_step i s best) }"

definition select_client_worker :: "connection_container list \<Rightarrow> nat option ub" where
  "select_client_worker workers_list = select_loop workers_list 0 (None, -1)"

text \<open>What serving does to a connection: its client is replaced.\<close>

definition put_client :: "connection_container \<Rightarrow> nat \<Rightarrow> kitserv_client \<Rightarrow> connection_container" where
  "put_client ct k c = ct\<lparr>connections := (connections ct)[k := (connections ct ! k)\<lparr>client := c\<rparr>]\<rparr>"

section \<open>The free list\<close>

text \<open>The pointers from \<open>p\<close> run through the connections \<open>ks\<close> and end in \<open>q\<close>.\<close>

fun links :: "connection list \<Rightarrow> nat option \<Rightarrow> nat list \<Rightarrow> nat option \<Rightarrow> bool" where
  "links cs p [] q \<longleftrightarrow> p = q"
| "links cs p (k # ks) q \<longleftrightarrow> p = Some k \<and> k < length cs \<and> links cs (next_conn (cs ! k)) ks q"

fun follow :: "nat \<Rightarrow> connection list \<Rightarrow> nat option \<Rightarrow> nat list" where
  "follow 0 cs p = []"
| "follow (Suc n) cs p =
     (case p of None \<Rightarrow> [] | Some k \<Rightarrow> if k < length cs then k # follow n cs (next_conn (cs ! k)) else [])"

definition free_slots :: "connection_container \<Rightarrow> nat list" where
  "free_slots ct = follow (nat (freelist_count ct)) (connections ct) (first_free_conn ct)"

definition ready_client :: "kitserv_client \<Rightarrow> bool" where
  "ready_client c \<longleftrightarrow> asserted_fresh c \<and> serve_inv c"

text \<open>The container is in order, its list ends in \<open>last_link\<close>.\<close>

definition pool_ok :: "nat option \<Rightarrow> connection_container \<Rightarrow> bool" where
  "pool_ok last_link ct \<longleftrightarrow> links (connections ct) (first_free_conn ct) (free_slots ct) last_link \<and>
     distinct (free_slots ct) \<and> freelist_count ct = int (length (free_slots ct)) \<and>
     (\<forall>k \<in> set (free_slots ct). ready_client (client (connections ct ! k)))"

lemma follow_links: "links cs p ks q \<Longrightarrow> follow (length ks) cs p = ks"
  by (induction ks arbitrary: p) auto

lemma links_update: "k \<notin> set ks \<Longrightarrow> links (cs[k := x]) p ks q = links cs p ks q"
  by (induction ks arbitrary: p) auto

lemma links_bound: "links cs p ks q \<Longrightarrow> k \<in> set ks \<Longrightarrow> k < length cs"
  by (induction ks arbitrary: p) auto

lemma pool_okI:
  assumes "links (connections ct) (first_free_conn ct) ks q" "distinct ks" "freelist_count ct = int (length ks)"
    "\<forall>k \<in> set ks. ready_client (client (connections ct ! k))"
  shows "pool_ok q ct" "free_slots ct = ks"
proof -
  show "free_slots ct = ks" using follow_links [OF assms(1)] assms(3) by (simp add: free_slots_def)
  with assms show "pool_ok q ct" by (simp add: pool_ok_def)
qed

lemma pool_okD:
  assumes "pool_ok q ct"
  shows "links (connections ct) (first_free_conn ct) (free_slots ct) q" "distinct (free_slots ct)"
    "freelist_count ct = int (length (free_slots ct))" "k \<in> set (free_slots ct) \<Longrightarrow> ready_client (client (connections ct ! k))"
    "k \<in> set (free_slots ct) \<Longrightarrow> k < length (connections ct)"
  using assms links_bound [of "connections ct" "first_free_conn ct" "free_slots ct" q k] by (auto simp: pool_ok_def)

lemma ready_sockfd: "ready_client c \<Longrightarrow> ready_client (c\<lparr>sockfd := fd\<rparr>)"
proof -
  assume r: "ready_client c"
  then have "state (ta c) = HTTP_STATE_READ" by (cases "state (ta c)") (auto simp: ready_client_def asserted_fresh_def)
  with r show ?thesis
    by (auto simp: ready_client_def asserted_fresh_def serve_inv_def idle_def memory_ok_def body_ok_def hdr_ok_def recv_ok_def loop_ok_def
        fields_ok_def strings_ok_def path_ok_def past_path_def)
qed

section \<open>A pool of slots\<close>

text \<open>
  What the server expects of a container: taking gives the first free slot, or, when there is
  none, nothing if the list has an end (and fails if it has not),
  returning a slot that is out makes it free, and what happens to the clients of the slots
  that are out does not concern the pool.
\<close>

locale slot_pool =
  fixes take_slot :: "'p \<Rightarrow> int \<Rightarrow> (nat option \<times> 'p) option"
    and give_slot :: "'p \<Rightarrow> nat \<Rightarrow> 'p"
    and put_slot :: "'p \<Rightarrow> nat \<Rightarrow> 'c \<Rightarrow> 'p"
    and slot_of :: "'p \<Rightarrow> nat \<Rightarrow> 'c"
    and slots :: "'p \<Rightarrow> nat"
    and free :: "'p \<Rightarrow> nat list"
    and valid :: "'p \<Rightarrow> bool"
    and returnable :: "'c \<Rightarrow> bool"
    and bound_to :: "int \<Rightarrow> 'c \<Rightarrow> bool"
    and ended :: bool
  assumes take_none: "valid p \<Longrightarrow> free p = [] \<Longrightarrow> take_slot p fd = (if ended then Some (None, p) else None)"
    and take_some: "valid p \<Longrightarrow> free p = k # ks \<Longrightarrow> \<exists>p'. take_slot p fd = Some (Some k, p') \<and> valid p' \<and> free p' = ks \<and>
      slots p' = slots p \<and> bound_to fd (slot_of p' k) \<and> (\<forall>j. j \<noteq> k \<longrightarrow> slot_of p' j = slot_of p j)"
    and give_valid: "valid p \<Longrightarrow> k < slots p \<Longrightarrow> k \<notin> set (free p) \<Longrightarrow> returnable (slot_of p k) \<Longrightarrow>
      valid (give_slot p k) \<and> free (give_slot p k) = k # free p"
    and give_other: "slots (give_slot p k) = slots p" "j \<noteq> k \<Longrightarrow> slot_of (give_slot p k) j = slot_of p j"
    and put_valid: "valid p \<Longrightarrow> k < slots p \<Longrightarrow> k \<notin> set (free p) \<Longrightarrow> valid (put_slot p k c) \<and> free (put_slot p k c) = free p"
    and put_other: "slots (put_slot p k c) = slots p" "j \<noteq> k \<Longrightarrow> slot_of (put_slot p k c) j = slot_of p j"
      "k < slots p \<Longrightarrow> slot_of (put_slot p k c) k = c"
    and free_slots: "valid p \<Longrightarrow> distinct (free p) \<and> set (free p) \<subseteq> {..<slots p}"
begin

text \<open>The slots that are out, with the free ones, are all slots, each once.\<close>

definition accounted :: "'p \<Rightarrow> nat set \<Rightarrow> bool" where
  "accounted p out \<longleftrightarrow> valid p \<and> out \<inter> set (free p) = {} \<and> out \<union> set (free p) = {..<slots p}"

lemma take_accounted:
  assumes "accounted p out" "take_slot p fd = Some (Some k, p')"
  shows "k \<notin> out" "k < slots p" "accounted p' (insert k out)" "slots p' = slots p" "bound_to fd (slot_of p' k)"
    "j \<noteq> k \<Longrightarrow> slot_of p' j = slot_of p j"
proof -
  from assms(1) have v: "valid p" and o: "out \<inter> set (free p) = {}" "out \<union> set (free p) = {..<slots p}"
    by (simp_all add: accounted_def)
  obtain k0 ks where f: "free p = k0 # ks" using assms(2) take_none [OF v, of fd] by (cases "free p") (auto split: if_splits)
  from take_some [OF v f, of fd] assms(2) have t: "k = k0" "valid p'" "free p' = ks" "slots p' = slots p"
    "bound_to fd (slot_of p' k)" "\<forall>j. j \<noteq> k \<longrightarrow> slot_of p' j = slot_of p j" by auto
  have d: "k \<notin> set ks" using free_slots [OF v] f t(1) by simp
  show "k \<notin> out" "k < slots p" using o f t(1) by auto
  show "accounted p' (insert k out)" using o f t d by (auto simp: accounted_def)
  show "slots p' = slots p" "bound_to fd (slot_of p' k)" "j \<noteq> k \<Longrightarrow> slot_of p' j = slot_of p j" using t by auto
qed

lemma take_total:
  assumes "accounted p out"
  shows "free p = [] \<and> out = {..<slots p} \<and> take_slot p fd = (if ended then Some (None, p) else None) \<or>
    (\<exists>k p'. take_slot p fd = Some (Some k, p'))"
proof (cases "free p")
  case Nil
  with assms take_none [of p fd] show ?thesis by (auto simp: accounted_def)
next
  case (Cons k ks)
  with assms take_some [of p k ks fd] show ?thesis by (auto simp: accounted_def)
qed

lemma give_accounted:
  assumes "accounted p out" "k \<in> out" "returnable (slot_of p k)"
  shows "accounted (give_slot p k) (out - {k})"
proof -
  from assms have "valid p" "k < slots p" "k \<notin> set (free p)" by (auto simp: accounted_def)
  from give_valid [OF this assms(3)] assms(1,2) give_other(1) [of p k] show ?thesis by (auto simp: accounted_def)
qed

lemma put_accounted:
  assumes "accounted p out" "k \<in> out"
  shows "accounted (put_slot p k c) out"
proof -
  from assms have "valid p" "k < slots p" "k \<notin> set (free p)" by (auto simp: accounted_def)
  from put_valid [OF this] assms(1) put_other(1) [of p k c] show ?thesis by (simp add: accounted_def)
qed

lemma slots_balance:
  assumes "accounted p out"
  shows "card out + length (free p) = slots p"
proof -
  from assms have v: "valid p" and o: "out \<inter> set (free p) = {}" "out \<union> set (free p) = {..<slots p}" by (simp_all add: accounted_def)
  have "finite out" using o(2) by (metis finite_Un finite_lessThan)
  then have "card (out \<union> set (free p)) = card out + card (set (free p))" using o(1) by (simp add: card_Un_disjoint)
  moreover have "card (set (free p)) = length (free p)" using free_slots [OF v] by (simp add: distinct_card)
  ultimately show ?thesis using o(2) by simp
qed

end

section \<open>The container is such a pool\<close>

text \<open>What a client must be for its connection to be returned, and whom it serves.\<close>

definition serves :: "int \<Rightarrow> kitserv_client \<Rightarrow> bool" where
  "serves fd c \<longleftrightarrow> serve_inv c \<and> sockfd c = fd"

lemma reset_ready:
  assumes "body_ok c"
  shows "ready_client (kitserv_http_reset_client ok c)"
proof -
  have "body_ok (c\<lparr>req_headers := []\<rparr>)" using assms by (simp add: body_ok_def)
  from cleanup_idle [OF this, of ok] have "serve_inv (kitserv_http_reset_client ok c)"
    by (simp add: kitserv_http_reset_client_def)
  moreover have "b_len (kitserv_buffer_reset ok b n) = 0" for b n
    by (simp add: kitserv_buffer_reset_def realloc_to_def Let_def)
  then have "asserted_fresh (kitserv_http_reset_client ok c)"
    by (simp add: asserted_fresh_def kitserv_http_reset_client_def cleanup_client_def zero_ta_def KITSERV_FD_DISABLE_def)
  ultimately show ?thesis by (simp add: ready_client_def)
qed

lemma accept_some:
  assumes ok: "pool_ok q ct" and f: "free_slots ct = k # ks"
  obtains ct' where "connection_accept ct fd = Some (Some k, ct')" "pool_ok q ct'" "free_slots ct' = ks"
    "length (connections ct') = length (connections ct)" "serves fd (client (connections ct' ! k))"
    "\<And>j. j \<noteq> k \<Longrightarrow> client (connections ct' ! j) = client (connections ct ! j)"
proof -
  note d = pool_okD [OF ok]
  have l: "first_free_conn ct = Some k" "k < length (connections ct)" "links (connections ct) (next_conn (connections ct ! k)) ks q"
    using d(1) f by simp_all
  let ?c = "(client (connections ct ! k))\<lparr>sockfd := fd\<rparr>"
  let ?ct = "ct\<lparr>first_free_conn := next_conn (connections ct ! k), freelist_count := freelist_count ct - 1,
    connections := (connections ct)[k := (connections ct ! k)\<lparr>client := ?c\<rparr>]\<rparr>"
  have k: "k \<notin> set ks" using d(2) f by simp
  have r: "ready_client ?c" by (rule ready_sockfd) (use d(4) f in simp)
  have a: "connection_accept ct fd = Some (Some k, ?ct)"
    using l d(3) f r by (simp add: connection_accept_def Let_def ready_client_def)
  have p: "links (connections ?ct) (first_free_conn ?ct) ks q" using l(3) links_update [OF k] by simp
  have "\<forall>j \<in> set ks. ready_client (client (connections ?ct ! j))"
    using d(4) f k l(2) by (auto simp: nth_list_update)
  from pool_okI [OF p _ _ this] d(2,3) f have "pool_ok q ?ct" "free_slots ?ct = ks" by simp_all
  with a l(2) r show thesis
    by (intro that [of ?ct]) (simp_all add: serves_def ready_client_def)
qed

lemma close_pool:
  assumes ok: "pool_ok q ct" and k: "k < length (connections ct)" "k \<notin> set (free_slots ct)" and b: "body_ok (client (connections ct ! k))"
  shows "pool_ok q (connection_close al ct k)" "free_slots (connection_close al ct k) = k # free_slots ct"
proof -
  note d = pool_okD [OF ok]
  let ?ct = "connection_close al ct k"
  have "links (connections ?ct) (first_free_conn ?ct) (k # free_slots ct) q"
    using d(1) k links_update [OF k(2)] by (simp add: connection_close_def Let_def)
  moreover have "distinct (k # free_slots ct)" using d(2) k by simp
  moreover have "freelist_count ?ct = int (length (k # free_slots ct))" using d(3) by (simp add: connection_close_def Let_def)
  moreover have "\<forall>j \<in> set (k # free_slots ct). ready_client (client (connections ?ct ! j))"
    using d(4) k reset_ready [OF b, of al] by (auto simp: connection_close_def Let_def nth_list_update)
  ultimately show "pool_ok q ?ct" "free_slots ?ct = k # free_slots ct" by (rule pool_okI)+
qed

lemma put_pool:
  assumes ok: "pool_ok q ct" and k: "k \<notin> set (free_slots ct)"
  shows "pool_ok q (put_client ct k c)" "free_slots (put_client ct k c) = free_slots ct"
proof -
  note d = pool_okD [OF ok]
  let ?ct = "put_client ct k c"
  have "links (connections ?ct) (first_free_conn ?ct) (free_slots ct) q"
    using d(1) links_update [OF k] by (simp add: put_client_def)
  moreover have "freelist_count ?ct = int (length (free_slots ct))" using d(3) by (simp add: put_client_def)
  moreover have "\<forall>j \<in> set (free_slots ct). ready_client (client (connections ?ct ! j))"
    using d(4) k by (metis nth_list_update_neq put_client_def connection_container.select_convs(3) connection_container.update_convs(3) connection_container.surjective)
  ultimately show "pool_ok q ?ct" "free_slots ?ct = free_slots ct" using d(2) by (metis pool_okI)+
qed

interpretation pool: slot_pool connection_accept "connection_close ok" put_client
    "\<lambda>ct k. client (connections ct ! k)" "\<lambda>ct. length (connections ct)" free_slots "pool_ok q" body_ok serves "q = None" for ok q
proof
  fix p :: connection_container and fd :: int and k j :: nat and ks and c :: kitserv_client
  show "connection_accept p fd = (if q = None then Some (None, p) else None)" if "pool_ok q p" "free_slots p = []"
    using pool_okD(1,3) [OF that(1)] that(2) by (auto simp: connection_accept_def split: option.splits)
  show "\<exists>p'. connection_accept p fd = Some (Some k, p') \<and> pool_ok q p' \<and> free_slots p' = ks \<and>
      length (connections p') = length (connections p) \<and> serves fd (client (connections p' ! k)) \<and>
      (\<forall>j. j \<noteq> k \<longrightarrow> client (connections p' ! j) = client (connections p ! j))"
    if "pool_ok q p" "free_slots p = k # ks"
    by (rule accept_some [OF that, of fd]) blast
  show "pool_ok q (connection_close ok p k) \<and> free_slots (connection_close ok p k) = k # free_slots p"
    if "pool_ok q p" "k < length (connections p)" "k \<notin> set (free_slots p)" "body_ok (client (connections p ! k))"
    using close_pool [OF that] by simp
  show "length (connections (connection_close ok p k)) = length (connections p)"
    "j \<noteq> k \<Longrightarrow> client (connections (connection_close ok p k) ! j) = client (connections p ! j)"
    by (simp_all add: connection_close_def Let_def)
  show "pool_ok q (put_client p k c) \<and> free_slots (put_client p k c) = free_slots p"
    if "pool_ok q p" "k < length (connections p)" "k \<notin> set (free_slots p)"
    using put_pool [OF that(1,3)] by simp
  show "length (connections (put_client p k c)) = length (connections p)"
    "j \<noteq> k \<Longrightarrow> client (connections (put_client p k c) ! j) = client (connections p ! j)"
    "k < length (connections p) \<Longrightarrow> client (connections (put_client p k c) ! k) = c"
    by (simp_all add: put_client_def)
  show "distinct (free_slots p) \<and> set (free_slots p) \<subseteq> {..<length (connections p)}" if "pool_ok q p"
    using pool_okD(2,5) [OF that] by auto
qed

section \<open>Starting a pool\<close>

lemma create_ready:
  assumes "kitserv_http_create_client_struct c h = (0, c', h')"
  shows "ready_client c'"
proof -
  obtain cc where "c' = kitserv_http_reset_client (\<lambda>_. True) cc" "body_ok cc"
  proof -
    let ?c = "c\<lparr>req_headers := [], resp_headers := [], resp_start := [], req_cookies := new_cookies,
      resp_body := (resp_body c)\<lparr>b_buf := [], b_block := 4096, b_len := 0, b_max := 4096\<rparr>\<rparr>"
    have "c' = kitserv_http_reset_client (\<lambda>_. True) ?c"
      using assms by (auto simp: kitserv_http_create_client_struct_def kitserv_buffer_init_def HTTP_BUFSZ_def Let_def
          split: if_splits prod.splits)
    moreover have "body_ok ?c" by (simp add: body_ok_def buffer_ok_def)
    ultimately show thesis by (rule that)
  qed
  then show ?thesis by (simp add: reset_ready)
qed

text \<open>With memory for all of it.\<close>

lemma create_success:
  assumes "outcomes h = []"
  shows "\<exists>c'. kitserv_http_create_client_struct c h = (0, c', h\<lparr>blocks := blocks h + 5\<rparr>)"
  using assms create_ok [of h "h\<lparr>blocks := blocks h + 1\<rparr>" "h\<lparr>blocks := blocks h + 2\<rparr>" "h\<lparr>blocks := blocks h + 3\<rparr>"
      "h\<lparr>blocks := blocks h + 4\<rparr>" "h\<lparr>blocks := blocks h + 5\<rparr>" c]
  by (auto simp: heap_alloc_def)

lemma create_loop_ready:
  "outcomes h = [] \<Longrightarrow> distinct is \<Longrightarrow> \<forall>i \<in> set is. i < length cs \<Longrightarrow>
   \<exists>cs'. create_loop is cs h = Some (cs', h\<lparr>blocks := blocks h + 5 * length is\<rparr>) \<and> length cs' = length cs \<and>
     (\<forall>j < length cs. next_conn (cs' ! j) = next_conn (cs ! j) \<and> (j \<in> set is \<longrightarrow> ready_client (client (cs' ! j))) \<and>
       (j \<notin> set is \<longrightarrow> cs' ! j = cs ! j))"
proof (induction "is" arbitrary: cs h)
  case Nil
  then show ?case by simp
next
  case (Cons i rest)
  from create_success [OF Cons.prems(1), of "client (cs ! i)"] obtain c where
    c: "kitserv_http_create_client_struct (client (cs ! i)) h = (0, c, h\<lparr>blocks := blocks h + 5\<rparr>)" by blast
  let ?cs = "cs[i := (cs ! i)\<lparr>client := c\<rparr>]" and ?h = "h\<lparr>blocks := blocks h + 5\<rparr>"
  from Cons.IH [of ?h ?cs] Cons.prems obtain cs' where
    ih: "create_loop rest ?cs ?h = Some (cs', ?h\<lparr>blocks := blocks ?h + 5 * length rest\<rparr>)" "length cs' = length ?cs"
      "\<And>j. j < length ?cs \<Longrightarrow> next_conn (cs' ! j) = next_conn (?cs ! j) \<and> (j \<in> set rest \<longrightarrow> ready_client (client (cs' ! j))) \<and>
         (j \<notin> set rest \<longrightarrow> cs' ! j = ?cs ! j)" by auto
  have "next_conn (cs' ! j) = next_conn (cs ! j) \<and> (j \<in> set (i # rest) \<longrightarrow> ready_client (client (cs' ! j))) \<and>
      (j \<notin> set (i # rest) \<longrightarrow> cs' ! j = cs ! j)" if "j < length cs" for j
  proof (cases "j = i")
    case True
    with ih(3) [of j] that Cons.prems(2) create_ready [OF c] show ?thesis by simp
  next
    case False
    with ih(3) [of j] that show ?thesis by simp
  qed
  with ih(1,2) c show ?case by (intro exI [of _ cs']) simp
qed

lemma link_loop_links:
  "length (link_loop cs) = length cs \<and> (\<forall>j < length cs. client (link_loop cs ! j) = client (cs ! j) \<and>
     next_conn (link_loop cs ! j) = (if j < length cs - 1 then Some (j + 1) else next_conn (cs ! j)))"
proof -
  have "n \<le> length cs \<Longrightarrow> (let r = fold (\<lambda>i cs. cs[i := (cs ! i)\<lparr>next_conn := Some (i + 1)\<rparr>]) [0..<n] cs in
      length r = length cs \<and> (\<forall>j < length cs. client (r ! j) = client (cs ! j) \<and>
        next_conn (r ! j) = (if j < n then Some (j + 1) else next_conn (cs ! j))))" for n
    by (induction n) (auto simp: Let_def nth_list_update)
  from this [of "length cs - 1"] show ?thesis by (simp add: link_loop_def Let_def)
qed

lemma links_upto:
  "\<forall>j < length cs. next_conn (cs ! j) = (if j < length cs - 1 then Some (j + 1) else q) \<Longrightarrow> i < length cs \<Longrightarrow>
   links cs (Some i) [i..<length cs] q"
proof (induction "length cs - i" arbitrary: i)
  case 0
  then show ?case by simp
next
  case (Suc n)
  then show ?case
  proof (cases "Suc i < length cs")
    case True
    then have "next_conn (cs ! i) = Some (Suc i)" using Suc.prems by auto
    with Suc.hyps(1) [of "Suc i"] Suc.hyps(2) Suc.prems True show ?thesis by (simp add: upt_conv_Cons)
  next
    case False
    with Suc.prems have "length cs = Suc i" by simp
    with Suc.prems(1) show ?thesis by (simp add: upt_conv_Cons)
  qed
qed

text \<open>Whatever the allocator does: a start that succeeds has found its memory.\<close>

lemma create_loop_started:
  "create_loop is cs h = Some (cs', h') \<Longrightarrow> distinct is \<Longrightarrow> \<forall>i \<in> set is. i < length cs \<Longrightarrow> length cs' = length cs \<and>
     (\<forall>j < length cs. next_conn (cs' ! j) = next_conn (cs ! j) \<and> (j \<in> set is \<longrightarrow> ready_client (client (cs' ! j))) \<and>
       (j \<notin> set is \<longrightarrow> cs' ! j = cs ! j))"
proof (induction "is" arbitrary: cs h)
  case Nil
  then show ?case by simp
next
  case (Cons i rest)
  obtain rc c h1 where c: "kitserv_http_create_client_struct (client (cs ! i)) h = (rc, c, h1)"
    by (cases "kitserv_http_create_client_struct (client (cs ! i)) h") auto
  let ?cs = "cs[i := (cs ! i)\<lparr>client := c\<rparr>]"
  have rc: "rc = 0" "create_loop rest ?cs h1 = Some (cs', h')" using Cons.prems(1) c by (simp_all split: if_splits)
  have ih: "length cs' = length ?cs" "\<And>j. j < length ?cs \<Longrightarrow> next_conn (cs' ! j) = next_conn (?cs ! j) \<and>
      (j \<in> set rest \<longrightarrow> ready_client (client (cs' ! j))) \<and> (j \<notin> set rest \<longrightarrow> cs' ! j = ?cs ! j)"
    using Cons.IH [OF rc(2)] Cons.prems(2,3) by auto
  have "next_conn (cs' ! j) = next_conn (cs ! j) \<and> (j \<in> set (i # rest) \<longrightarrow> ready_client (client (cs' ! j))) \<and>
      (j \<notin> set (i # rest) \<longrightarrow> cs' ! j = cs ! j)" if "j < length cs" for j
  proof (cases "j = i")
    case True
    with ih(2) [of j] that Cons.prems(2) create_ready [OF c [unfolded rc(1)]] show ?thesis by simp
  next
    case False
    with ih(2) [of j] that show ?thesis by simp
  qed
  with ih(1) show ?case by simp
qed

lemma links_last: "links cs p (ks @ [k]) q \<Longrightarrow> next_conn (cs ! k) = q"
  by (induction ks arbitrary: p) auto

lemma connection_started:
  assumes "connection_init m block h = Some (ct, h')" "block \<noteq> []"
  shows "pool_ok (next_conn (last (connections ct))) ct" "next_conn (last (connections ct)) = next_conn (last block)"
    "free_slots ct = [0..<length block]" "length (connections ct) = length block"
proof -
  note l = link_loop_links [of block]
  from assms(1) obtain cs h1 where c: "create_loop [0..<length block] (link_loop block) h1 = Some (cs, h')"
    "ct = \<lparr>freelist_count = int (length block), first_free_conn = Some 0, connections = cs\<rparr>"
    by (auto simp: connection_init_def bind_eq_Some_conv split: if_splits prod.splits bool.splits)
  from create_loop_started [OF c(1)] l have cs: "length cs = length block"
    "\<forall>j < length block. next_conn (cs ! j) = next_conn (link_loop block ! j) \<and> ready_client (client (cs ! j))" by auto
  have "j = length block - 1" if "\<not> j < length block - 1" "j < length block" for j using that by simp
  then have n: "\<forall>j < length cs. next_conn (cs ! j) = (if j < length cs - 1 then Some (j + 1) else next_conn (last block))"
    using cs l assms(2) by (auto simp: last_conv_nth)
  have k: "links (connections ct) (first_free_conn ct) [0..<length block] (next_conn (last block))"
    using links_upto [OF n, of 0] cs(1) assms(2) by (simp add: c(2))
  show q: "next_conn (last (connections ct)) = next_conn (last block)"
  proof -
    have "cs \<noteq> []" "0 < length block" using cs(1) assms(2) by auto
    with n cs(1) show ?thesis by (simp add: c(2) last_conv_nth [of cs])
  qed
  have r: "\<forall>k \<in> set [0..<length block]. ready_client (client (connections ct ! k))" using cs(2) by (simp add: c(2))
  show "pool_ok (next_conn (last (connections ct))) ct" "free_slots ct = [0..<length block]"
    unfolding q by (rule pool_okI [OF k _ _ r]; simp add: c(2))+
  show "length (connections ct) = length block" using cs(1) by (simp add: c(2))
qed

lemma connection_init_pool:
  assumes "outcomes h = []" "block \<noteq> []"
  shows "\<exists>ct. connection_init True block h = Some (ct, h\<lparr>blocks := blocks h + 1 + 5 * length block\<rparr>) \<and>
    pool_ok (next_conn (last block)) ct \<and> free_slots ct = [0..<length block] \<and> length (connections ct) = length block"
proof -
  note l = link_loop_links [of block]
  from create_loop_ready [of "h\<lparr>blocks := blocks h + 1\<rparr>" "[0..<length block]" "link_loop block"] assms(1) l obtain cs where
    c: "create_loop [0..<length block] (link_loop block) (h\<lparr>blocks := blocks h + 1\<rparr>) =
        Some (cs, h\<lparr>blocks := blocks h + 1 + 5 * length block\<rparr>)" "length cs = length block"
      "\<forall>j < length block. next_conn (cs ! j) = next_conn (link_loop block ! j) \<and> ready_client (client (cs ! j))"
    by auto
  let ?ct = "\<lparr>freelist_count = int (length block), first_free_conn = Some 0, connections = cs\<rparr>"
  have i: "connection_init True block h = Some (?ct, h\<lparr>blocks := blocks h + 1 + 5 * length block\<rparr>)"
    using assms(1) c(1) by (simp add: connection_init_def heap_alloc_def)
  have "j = length block - 1" if "\<not> j < length block - 1" "j < length block" for j using that by simp
  then have n: "\<forall>j < length cs. next_conn (cs ! j) = (if j < length cs - 1 then Some (j + 1) else next_conn (last block))"
    using c(2,3) l assms(2) by (auto simp: last_conv_nth)
  have k: "links (connections ?ct) (first_free_conn ?ct) [0..<length block] (next_conn (last block))"
    using links_upto [OF n, of 0] c(2) assms(2) by simp
  have r: "\<forall>k \<in> set [0..<length block]. ready_client (client (connections ?ct ! k))" using c(3) by simp
  from pool_okI [OF k _ _ r] i c(2) show ?thesis by (intro exI [of _ ?ct]) simp
qed

text \<open>Sockets that arrive one after the other, with none closed.\<close>

fun accept_all :: "int list \<Rightarrow> connection_container \<Rightarrow> connection_container ub" where
  "accept_all [] ct = Some ct"
| "accept_all (fd # fds) ct = do { (k, ct) \<leftarrow> connection_accept ct fd; accept_all fds ct }"

lemma accept_all_pool:
  "pool_ok q ct \<Longrightarrow> length fds \<le> length (free_slots ct) \<Longrightarrow>
   \<exists>ct'. accept_all fds ct = Some ct' \<and> pool_ok q ct' \<and> free_slots ct' = drop (length fds) (free_slots ct)"
proof (induction fds arbitrary: ct)
  case Nil
  then show ?case by simp
next
  case (Cons fd fds)
  from Cons.prems(2) obtain k ks where f: "free_slots ct = k # ks" by (cases "free_slots ct") auto
  from accept_some [OF Cons.prems(1) f, of fd] obtain ct1 where
    "connection_accept ct fd = Some (Some k, ct1)" "pool_ok q ct1" "free_slots ct1 = ks" by metis
  with Cons.IH [of ct1] Cons.prems(2) f show ?case by simp
qed

section \<open>Properties\<close>

text \<open>
  Starting a container, with memory for it, gives a free list of all its connections in
  order, each with a client that passes the assertions of \<open>connection_accept\<close>; one block for
  the array and five for each client are held.
\<close>

theorem connection_init_complete:
  assumes "outcomes h = []" "block \<noteq> []"
  shows "\<exists>ct h'. connection_init True block h = Some (ct, h') \<and> blocks h' = blocks h + 1 + 5 * length block \<and>
    free_slots ct = [0..<length block] \<and> freelist_count ct = int (length block) \<and>
    (\<forall>k < length block. asserted_fresh (client (connections ct ! k)))"
proof -
  obtain ct where i: "connection_init True block h = Some (ct, h\<lparr>blocks := blocks h + 1 + 5 * length block\<rparr>)"
    "pool_ok (next_conn (last block)) ct" "free_slots ct = [0..<length block]"
    using connection_init_pool [OF assms] by blast
  from pool_okD(3,4) [OF i(2)] i show ?thesis
    by (intro exI [of _ ct] exI [of _ "h\<lparr>blocks := blocks h + 1 + 5 * length block\<rparr>"]) (simp add: ready_client_def)
qed

definition raw_block :: "nat option \<Rightarrow> connection list" where
  "raw_block p = [\<lparr>next_conn = None, client = fresh_client\<rparr>, \<lparr>next_conn = p, client = fresh_client\<rparr>]"

lemma connection_init_complete_witness:
  "\<exists>ct h'. connection_init True (raw_block None) \<lparr>outcomes = [], blocks = 0\<rparr> = Some (ct, h') \<and> blocks h' = 0 + 1 + 5 * 2 \<and>
    free_slots ct = [0..<2] \<and> freelist_count ct = int 2 \<and> (\<forall>k < 2. asserted_fresh (client (connections ct ! k)))"
  using connection_init_complete [of "\<lparr>outcomes = [], blocks = 0\<rparr>" "raw_block None"] by (simp add: raw_block_def numeral_2_eq_2)

text \<open>
  C28: the pointer of the last connection is never set. The container serves as many
  connections as it has; what the next one meets depends on what \<^verbatim>\<open>malloc\<close> found in the
  memory: with a null pointer there it is refused, with anything else an assertion fails
  and takes the whole server down.
\<close>

theorem full_container:
  assumes "outcomes h = []" "block \<noteq> []" "length fds = length block"
  shows "\<exists>ct h' ct'. connection_init True block h = Some (ct, h') \<and> accept_all fds ct = Some ct' \<and>
    connection_accept ct' fd = (if next_conn (last block) = None then Some (None, ct') else None)"
proof -
  obtain ct h' where i: "connection_init True block h = Some (ct, h')" "pool_ok (next_conn (last block)) ct"
    "free_slots ct = [0..<length block]" using connection_init_pool [OF assms(1,2)] by blast
  from accept_all_pool [OF i(2), of fds] assms(3) i(3) obtain ct' where
    a: "accept_all fds ct = Some ct'" "pool_ok (next_conn (last block)) ct'" "free_slots ct' = []" by auto
  from pool_okD(1,3) [OF a(2)] a(3) have "first_free_conn ct' = next_conn (last block)" "freelist_count ct' = 0" by simp_all
  with i(1) a(1) show ?thesis by (auto simp: connection_accept_def split: option.splits)
qed

lemma full_container_witness:
  "\<exists>ct h' ct'. connection_init True (raw_block (Some 77)) \<lparr>outcomes = [], blocks = 0\<rparr> = Some (ct, h') \<and>
    accept_all [5, 6] ct = Some ct' \<and> connection_accept ct' 7 = None"
  using full_container [of "\<lparr>outcomes = [], blocks = 0\<rparr>" "raw_block (Some 77)" "[5, 6]" 7] by (simp add: raw_block_def)

text \<open>
  C27: a connection is given to one socket at a time, and closing returns it: a connection that
  is taken was not out, serves the socket it was taken for, and after it is closed the pool
  is as it was but for the order of its list; nothing is lost or doubled on the way.
\<close>

theorem connection_taken_once:
  assumes "pool_ok q ct" "out \<inter> set (free_slots ct) = {}" "out \<union> set (free_slots ct) = {..<length (connections ct)}"
    "connection_accept ct fd = Some (Some k, ct')"
  shows "k \<notin> out \<and> serves fd (client (connections ct' ! k)) \<and>
    card (insert k out) + length (free_slots ct') = length (connections ct') \<and>
    (\<forall>c ok. body_ok c \<longrightarrow> free_slots (connection_close ok (put_client ct' k c) k) = k # free_slots ct')"
proof -
  have a: "pool.accounted q ct out" using assms(1-3) by (simp add: pool.accounted_def)
  note t = pool.take_accounted [OF a assms(4)]
  have "free_slots (connection_close ok (put_client ct' k c) k) = k # free_slots ct'" if "body_ok c" for c ok
  proof -
    from t(3) have v: "pool_ok q ct'" "k < length (connections ct')" "k \<notin> set (free_slots ct')"
      by (auto simp: pool.accounted_def)
    note p = pool.put_valid [OF v, of c]
    have "pool_ok q (connection_close ok (put_client ct' k c) k) \<and>
        free_slots (connection_close ok (put_client ct' k c) k) = k # free_slots (put_client ct' k c)"
      by (rule pool.give_valid) (use p v that in \<open>simp_all add: put_client_def\<close>)
    with p show ?thesis by simp
  qed
  with t(1,5) pool.slots_balance [OF t(3)] show ?thesis by blast
qed

lemma connection_taken_once_witness:
  defines "c \<equiv> kitserv_http_reset_client (\<lambda>_. True) fresh_client"
  defines "ct \<equiv> \<lparr>freelist_count = 1, first_free_conn = Some 0, connections = [\<lparr>next_conn = None, client = c\<rparr>]\<rparr>"
  shows "\<exists>ct'. connection_accept ct 9 = Some (Some 0, ct') \<and> serves 9 (client (connections ct' ! 0)) \<and>
    card (insert 0 {}) + length (free_slots ct') = length (connections ct')"
proof -
  have "body_ok fresh_client" by (simp add: body_ok_def buffer_ok_def fresh_client_def)
  from reset_ready [OF this] have c: "ready_client c" by (simp add: c_def)
  have p: "pool_ok None ct" "free_slots ct = [0]"
    by (rule pool_okI [of _ "[0]"]; simp add: ct_def c)+
  from accept_some [OF p, of 9] obtain ct' where a: "connection_accept ct 9 = Some (Some 0, ct')" by blast
  have "set (free_slots ct) = {..<length (connections ct)}" using p(2) by (auto simp: ct_def)
  with connection_taken_once [OF p(1) _ _ a, of "{}"] a show ?thesis by auto
qed

lemma select_loop_best:
  "\<forall>ct \<in> set cts. 0 \<le> freelist_count ct \<Longrightarrow> \<exists>r. select_loop cts i (b, s) = Some r \<and>
   (r = b \<and> (\<forall>j < length cts. freelist_count (cts ! j) \<le> s) \<or>
    (\<exists>j < length cts. r = Some (i + j) \<and> s < freelist_count (cts ! j) \<and>
      (\<forall>k < length cts. freelist_count (cts ! k) \<le> freelist_count (cts ! j)) \<and>
      (\<forall>k < j. freelist_count (cts ! k) < freelist_count (cts ! j))))"
proof (induction cts arbitrary: i b s)
  case Nil
  then show ?case by simp
next
  case (Cons ct cts)
  obtain b1 s1 where 1: "select_step i (freelist_count ct) (b, s) = (b1, s1)" by (cases "select_step i (freelist_count ct) (b, s)")
  then have 2: "freelist_count ct \<le> s1" "s \<le> s1" "b1 = b \<and> s1 = s \<or> b1 = Some i \<and> s1 = freelist_count ct \<and> s < s1"
    by (auto simp: select_step_def split: if_splits)
  from Cons.IH [of "i + 1" b1 s1] Cons.prems obtain r where r: "select_loop cts (i + 1) (b1, s1) = Some r"
    "r = b1 \<and> (\<forall>j < length cts. freelist_count (cts ! j) \<le> s1) \<or>
     (\<exists>j < length cts. r = Some (i + 1 + j) \<and> s1 < freelist_count (cts ! j) \<and>
      (\<forall>k < length cts. freelist_count (cts ! k) \<le> freelist_count (cts ! j)) \<and>
      (\<forall>k < j. freelist_count (cts ! k) < freelist_count (cts ! j)))" by auto
  have run: "select_loop (ct # cts) i (b, s) = Some r" using r(1) 1 Cons.prems by (simp add: score_worker_def)
  from r(2) show ?case
  proof (elim disjE exE conjE)
    assume n: "r = b1" "\<forall>j < length cts. freelist_count (cts ! j) \<le> s1"
    from 2(3) show ?thesis
    proof (elim disjE conjE)
      assume "b1 = b" "s1 = s"
      with n 2(1) have "r = b \<and> (\<forall>j < length (ct # cts). freelist_count ((ct # cts) ! j) \<le> s)"
        by (auto simp: nth_Cons split: nat.splits)
      with run show ?thesis by blast
    next
      assume "b1 = Some i" "s1 = freelist_count ct" "s < s1"
      with n run show ?thesis
        by (intro exI [of _ r] conjI disjI2 exI [of _ 0]) (auto simp: nth_Cons split: nat.splits)
    qed
  next
    fix j assume j: "j < length cts" "r = Some (i + 1 + j)" "s1 < freelist_count (cts ! j)"
      "\<forall>k < length cts. freelist_count (cts ! k) \<le> freelist_count (cts ! j)"
      "\<forall>k < j. freelist_count (cts ! k) < freelist_count (cts ! j)"
    with run 2(1,2) show ?thesis
      by (intro exI [of _ r] conjI disjI2 exI [of _ "Suc j"]) (auto simp: nth_Cons split: nat.splits)
  qed
qed

text \<open>
  C35: a new connection goes to the first of the workers with the most free connections.
\<close>

theorem selects_freest_worker:
  assumes "cts \<noteq> []" "\<forall>ct \<in> set cts. 0 \<le> freelist_count ct"
  shows "\<exists>i < length cts. select_client_worker cts = Some (Some i) \<and>
    (\<forall>j < length cts. freelist_count (cts ! j) \<le> freelist_count (cts ! i)) \<and>
    (\<forall>j < i. freelist_count (cts ! j) < freelist_count (cts ! i))"
proof -
  have "\<not> freelist_count (cts ! 0) \<le> -1" using assms by (cases cts) auto
  moreover have "0 < length cts" using assms(1) by simp
  ultimately show ?thesis using select_loop_best [OF assms(2), of 0 None "-1"]
    by (auto simp: select_client_worker_def)
qed

lemma selects_freest_worker_witness:
  defines "w n \<equiv> \<lparr>freelist_count = n, first_free_conn = None, connections = []\<rparr>"
  shows "\<exists>i < 3. select_client_worker [w 1, w 4, w 4] = Some (Some i) \<and>
    (\<forall>j < i. freelist_count ([w 1, w 4, w 4] ! j) < freelist_count ([w 1, w 4, w 4] ! i))"
proof -
  have "\<forall>ct \<in> set [w 1, w 4, w 4]. 0 \<le> freelist_count ct" by (simp add: w_def)
  from selects_freest_worker [OF _ this] obtain i where "i < length [w 1, w 4, w 4]" "select_client_worker [w 1, w 4, w 4] = Some (Some i)"
    "\<forall>j < i. freelist_count ([w 1, w 4, w 4] ! j) < freelist_count ([w 1, w 4, w 4] ! i)" by blast
  then show ?thesis by (intro exI [of _ i]) simp
qed

end
