(* ===== verification/Queue.thy ===== *)
theory Queue
  imports Http_Types
begin

text \<open>
  The event queue (\<^verbatim>\<open>src/queue.c\<close>, \<^verbatim>\<open>src/include/queue.h\<close>): a wrapper of Linux
  \<^verbatim>\<open>epoll\<close>. The interest list of an epoll descriptor is a map from descriptors to events;
  the data pointer of an event is a connection, by its index.
\<close>

unbundle bit_operations_syntax

section \<open>The kernel's side\<close>

type_synonym epoll_flags = "32 word"

definition EPOLLIN :: epoll_flags where "EPOLLIN = 1"
definition EPOLLOUT :: epoll_flags where "EPOLLOUT = 4"
definition EPOLLEXCLUSIVE :: epoll_flags where "EPOLLEXCLUSIVE = push_bit 28 1"
definition EPOLLET :: epoll_flags where "EPOLLET = push_bit 31 1"

lemmas epoll_flag_defs = EPOLLIN_def EPOLLOUT_def EPOLLEXCLUSIVE_def EPOLLET_def

abbreviation EEXIST :: errno where "EEXIST \<equiv> EOTHER 17"
abbreviation ENOENT :: errno where "ENOENT \<equiv> EOTHER 2"
abbreviation ENOSPC :: errno where "ENOSPC \<equiv> EOTHER 28"

record queue_event =
  events :: epoll_flags
  data_ptr :: nat

type_synonym queue = "int \<rightharpoonup> queue_event"

datatype ctl_op = EPOLL_CTL_ADD | EPOLL_CTL_MOD | EPOLL_CTL_DEL

text \<open>
  \<^verbatim>\<open>epoll_ctl\<close>: the new interest list or the error. \<open>room\<close> tells whether the kernel has room
  for another registration. \<^verbatim>\<open>EPOLLEXCLUSIVE\<close> is refused in a modification.
\<close>

definition epoll_ctl :: "bool \<Rightarrow> queue \<Rightarrow> ctl_op \<Rightarrow> int \<Rightarrow> queue_event \<Rightarrow> errno + queue" where
  "epoll_ctl room q op fd e = (case op of
     EPOLL_CTL_ADD \<Rightarrow> if q fd \<noteq> None then Inl EEXIST else if \<not> room then Inl ENOSPC else Inr (q(fd \<mapsto> e))
   | EPOLL_CTL_MOD \<Rightarrow>
       (case q fd of
          None \<Rightarrow> Inl ENOENT
        | Some e0 \<Rightarrow>
            if events e AND EPOLLEXCLUSIVE \<noteq> 0 \<or> events e0 AND EPOLLEXCLUSIVE \<noteq> 0 then Inl EINVAL
            else Inr (q(fd \<mapsto> e)))
   | EPOLL_CTL_DEL \<Rightarrow> if q fd = None then Inl ENOENT else Inr (q(fd := None)))"

section \<open>The wrapper\<close>

definition QUEUE_IN :: "32 word" where "QUEUE_IN = 1"
definition QUEUE_OUT :: "32 word" where "QUEUE_OUT = 2"

text \<open>\<open>created\<close> is the outcome of \<^verbatim>\<open>epoll_create1(0)\<close>.\<close>

definition kitserv_queue_init :: "errno + int \<Rightarrow> int" where
  "kitserv_queue_init created = (case created of Inl e \<Rightarrow> -1 | Inr qfd \<Rightarrow> if qfd < 0 then -1 else qfd)"

text \<open>\<open>ready\<close> is what \<^verbatim>\<open>epoll_wait\<close> has to report: an error, or events of which it writes at most \<open>n\<close>.\<close>

definition kitserv_queue_wait :: "errno + queue_event list \<Rightarrow> nat \<Rightarrow> int \<times> queue_event list" where
  "kitserv_queue_wait ready n =
     (case ready of Inl e \<Rightarrow> (-1, []) | Inr es \<Rightarrow> (int (length (take n es)), take n es))"

definition wait_events :: "32 word \<Rightarrow> bool \<Rightarrow> epoll_flags" where
  "wait_events type shared =
     (let e = (if shared then EPOLLEXCLUSIVE else EPOLLET);
          e = (if type AND QUEUE_IN \<noteq> 0 then e OR EPOLLIN else e)
      in if type AND QUEUE_OUT \<noteq> 0 then e OR EPOLLOUT else e)"

definition kitserv_queue_add :: "bool \<Rightarrow> queue \<Rightarrow> int \<Rightarrow> nat \<Rightarrow> 32 word \<Rightarrow> bool \<Rightarrow> int \<times> queue" where
  "kitserv_queue_add room q fd p type shared =
     (case epoll_ctl room q EPOLL_CTL_ADD fd \<lparr>events = wait_events type shared, data_ptr = p\<rparr> of
        Inl e \<Rightarrow> (-1, q)
      | Inr q' \<Rightarrow> (0, q'))"

definition kitserv_queue_rearm :: "queue \<Rightarrow> int \<Rightarrow> nat \<Rightarrow> 32 word \<Rightarrow> bool \<Rightarrow> int \<times> queue" where
  "kitserv_queue_rearm q fd p type shared =
     (case epoll_ctl True q EPOLL_CTL_MOD fd \<lparr>events = wait_events type shared, data_ptr = p\<rparr> of
        Inl e \<Rightarrow> (-1, q)
      | Inr q' \<Rightarrow> (0, q'))"

text \<open>The event given to a removal is not initialised; the kernel does not read it.\<close>

definition kitserv_queue_remove :: "queue \<Rightarrow> int \<Rightarrow> int \<times> queue" where
  "kitserv_queue_remove q fd =
     (case epoll_ctl True q EPOLL_CTL_DEL fd \<lparr>events = 0, data_ptr = 0\<rparr> of
        Inl e \<Rightarrow> (-1, q)
      | Inr q' \<Rightarrow> (0, q'))"

definition kitserv_queue_event_to_data :: "queue_event \<Rightarrow> nat" where
  "kitserv_queue_event_to_data e = data_ptr e"

lemmas queue_defs = kitserv_queue_add_def kitserv_queue_rearm_def kitserv_queue_remove_def epoll_ctl_def

section \<open>What the operations do\<close>

lemma wait_events_flags:
  "wait_events type shared AND EPOLLIN \<noteq> 0 \<longleftrightarrow> type AND QUEUE_IN \<noteq> 0"
  "wait_events type shared AND EPOLLOUT \<noteq> 0 \<longleftrightarrow> type AND QUEUE_OUT \<noteq> 0"
  "wait_events type shared AND EPOLLET \<noteq> 0 \<longleftrightarrow> \<not> shared"
  "wait_events type shared AND EPOLLEXCLUSIVE \<noteq> 0 \<longleftrightarrow> shared"
  by (simp_all add: wait_events_def Let_def epoll_flag_defs bit.conj_disj_distrib2)

lemma queue_add_fresh:
  "q fd = None \<Longrightarrow> kitserv_queue_add True q fd p type shared =
     (0, q(fd \<mapsto> \<lparr>events = wait_events type shared, data_ptr = p\<rparr>))"
  by (simp add: queue_defs)

lemma queue_add_full: "kitserv_queue_add False q fd p type shared = (-1, q)"
  by (simp add: queue_defs)

lemma queue_remove_present: "q fd \<noteq> None \<Longrightarrow> kitserv_queue_remove q fd = (0, q(fd := None))"
  by (simp add: queue_defs)

section \<open>Properties\<close>

text \<open>
  A registration that succeeds makes the descriptor wait for exactly the conditions
  asked for, edge-triggered unless it is shared, carries the data pointer, leaves every other
  registration alone, and is undone by the removal.
\<close>

theorem queue_add_registers:
  assumes "kitserv_queue_add room q fd p type shared = (0, q')"
  shows "\<exists>e. q' = q(fd \<mapsto> e) \<and> kitserv_queue_event_to_data e = p \<and>
      (events e AND EPOLLIN \<noteq> 0 \<longleftrightarrow> type AND QUEUE_IN \<noteq> 0) \<and>
      (events e AND EPOLLOUT \<noteq> 0 \<longleftrightarrow> type AND QUEUE_OUT \<noteq> 0) \<and>
      (events e AND EPOLLET \<noteq> 0 \<longleftrightarrow> \<not> shared) \<and>
    q fd = None \<and> kitserv_queue_remove q' fd = (0, q)"
proof -
  from assms have q: "q fd = None" "q' = q(fd \<mapsto> \<lparr>events = wait_events type shared, data_ptr = p\<rparr>)"
    by (auto simp: kitserv_queue_add_def epoll_ctl_def split: if_splits)
  then have "kitserv_queue_remove q' fd = (0, q)" by (simp add: queue_defs fun_upd_idem)
  with q show ?thesis
    by (intro exI [of _ "\<lparr>events = wait_events type shared, data_ptr = p\<rparr>"])
      (simp add: wait_events_flags kitserv_queue_event_to_data_def)
qed

lemma queue_add_registers_witness:
  "\<exists>q'. kitserv_queue_add True Map.empty 7 3 (QUEUE_IN OR QUEUE_OUT) False = (0, q') \<and>
    kitserv_queue_remove q' 7 = (0, Map.empty)"
proof -
  have "kitserv_queue_add True Map.empty 7 3 (QUEUE_IN OR QUEUE_OUT) False =
      (0, [7 \<mapsto> \<lparr>events = wait_events (QUEUE_IN OR QUEUE_OUT) False, data_ptr = 3\<rparr>])"
    by (simp add: queue_add_fresh)
  from queue_add_registers [OF this] this show ?thesis by blast
qed

text \<open>
  Re-arming works for a descriptor that is not shared and never for a shared one, since
  Linux accepts \<^verbatim>\<open>EPOLLEXCLUSIVE\<close> in an addition only.
\<close>

theorem queue_rearm_shared_fails:
  "kitserv_queue_rearm q fd p type True = (-1, q)"
  by (simp add: kitserv_queue_rearm_def epoll_ctl_def wait_events_flags split: option.splits)

end
