(* ===== verification/Socket.thy ===== *)
theory Socket
  imports Http_Types
begin

text \<open>
  Listening, accepting and closing (\<^verbatim>\<open>src/socket.c\<close>). The calls to the kernel follow a
  script of outcomes; what is kept of its state is which sockets are open, their status
  flags, which of them listen, and how many address lists are held.
\<close>

unbundle bit_operations_syntax

section \<open>The kernel's side\<close>

abbreviation EAFNOSUPPORT :: errno where "EAFNOSUPPORT \<equiv> EOTHER 97"
abbreviation EADDRINUSE :: errno where "EADDRINUSE \<equiv> EOTHER 98"

definition AF_INET :: int where "AF_INET = 2"
definition AF_INET6 :: int where "AF_INET6 = 10"
definition SOCK_NONBLOCK :: "32 word" where "SOCK_NONBLOCK = 2048"

record addrinfo =
  ai_family :: int
  ai_socktype :: int
  ai_protocol :: int
  ai_addr :: string

text \<open>The resolver: the addresses of a port or an error code, and the result of naming one.\<close>

record resolver =
  getaddrinfo :: "string \<Rightarrow> int + addrinfo list"
  getnameinfo :: "addrinfo \<Rightarrow> int"

text \<open>
  \<open>sys_script\<close>: for each call to come, success or its error; past the end every call
  succeeds.
\<close>

record sockets =
  sys_script :: "errno option list"
  sock_errno :: errno
  open_socks :: "int list"
  sock_flags :: "int \<Rightarrow> 32 word"
  listening :: "int list"
  infos_held :: nat

definition sys_call :: "sockets \<Rightarrow> bool \<times> sockets" where
  "sys_call s = (case sys_script s of
     [] \<Rightarrow> (True, s)
   | None # es \<Rightarrow> (True, s\<lparr>sys_script := es\<rparr>)
   | Some e # es \<Rightarrow> (False, s\<lparr>sys_script := es, sock_errno := e\<rparr>))"

text \<open>A new descriptor is the lowest that is free.\<close>

definition fresh_fd :: "int list \<Rightarrow> int" where
  "fresh_fd fds = (case List.find (\<lambda>n. n \<notin> set fds) [0..int (length fds)] of Some n \<Rightarrow> n | None \<Rightarrow> 0)"

definition sys_new_socket :: "32 word \<Rightarrow> sockets \<Rightarrow> int \<times> sockets" where
  "sys_new_socket flags s =
     (case sys_call s of
        (False, s) \<Rightarrow> (-1, s)
      | (True, s) \<Rightarrow>
          let fd = fresh_fd (open_socks s) in
          (fd, s\<lparr>open_socks := fd # open_socks s, sock_flags := (sock_flags s)(fd := flags)\<rparr>))"

definition sys_listen :: "int \<Rightarrow> sockets \<Rightarrow> bool \<times> sockets" where
  "sys_listen fd s = (case sys_call s of
     (False, s) \<Rightarrow> (False, s)
   | (True, s) \<Rightarrow> (True, s\<lparr>listening := fd # listening s\<rparr>))"

text \<open>\<^verbatim>\<open>close\<close> gives the descriptor up even where it reports an error.\<close>

definition forget :: "int \<Rightarrow> sockets \<Rightarrow> sockets" where
  "forget fd s = s\<lparr>open_socks := remove1 fd (open_socks s), listening := removeAll fd (listening s)\<rparr>"

definition sys_close :: "int \<Rightarrow> sockets \<Rightarrow> bool \<times> sockets" where
  "sys_close fd s = (case sys_call s of (ok, s) \<Rightarrow> (ok, forget fd s))"

definition freeaddrinfo :: "sockets \<Rightarrow> sockets" where
  "freeaddrinfo s = s\<lparr>infos_held := infos_held s - 1\<rparr>"

section \<open>The wrapper\<close>

definition socket_setnonblock :: "int \<Rightarrow> sockets \<Rightarrow> int \<times> sockets" where
  "socket_setnonblock fd s =
     (case sys_call s of
        (False, s) \<Rightarrow> (-1, s)
      | (True, s) \<Rightarrow>
          let flags = sock_flags s fd OR SOCK_NONBLOCK in
          (case sys_call s of
             (False, s) \<Rightarrow> (-1, s)
           | (True, s) \<Rightarrow> (0, s\<lparr>sock_flags := (sock_flags s)(fd := flags)\<rparr>)))"

text \<open>The error exits: with the socket, and before there is one.\<close>

definition give_up :: "int \<Rightarrow> sockets \<Rightarrow> int \<times> sockets" where
  "give_up fd s = (-1, freeaddrinfo (snd (sys_close fd s)))"

text \<open>
  One address of the right family: \<^verbatim>\<open>socket\<close>, \<^verbatim>\<open>setsockopt\<close>, the flag, \<^verbatim>\<open>bind\<close>,
  \<^verbatim>\<open>listen\<close>.
\<close>

definition bind_address :: "bool \<Rightarrow> sockets \<Rightarrow> int \<times> sockets" where
  "bind_address nonblock s =
     (let (fd, s) = sys_new_socket 0 s in
      if fd < 0 then (-1, freeaddrinfo s)
      else let (ok, s) = sys_call s in
      if \<not> ok then give_up fd s
      else let (rc, s) = (if nonblock then socket_setnonblock fd s else (0, s)) in
      if rc < 0 then give_up fd s
      else let (ok, s) = sys_call s in
      if \<not> ok then give_up fd s
      else let (ok, s) = sys_listen fd s in
      if \<not> ok then give_up fd s
      else (fd, freeaddrinfo s))"

fun bind_first :: "resolver \<Rightarrow> int \<Rightarrow> bool \<Rightarrow> addrinfo list \<Rightarrow> sockets \<Rightarrow> int \<times> sockets" where
  "bind_first net family nonblock [] s = (-1, freeaddrinfo (s\<lparr>sock_errno := EAFNOSUPPORT\<rparr>))"
| "bind_first net family nonblock (pinfo # infos) s =
     (if getnameinfo net pinfo \<noteq> 0 then (-1, freeaddrinfo s)
      else if ai_family pinfo \<noteq> family then bind_first net family nonblock infos s
      else bind_address nonblock s)"

definition find_and_bind_socket :: "resolver \<Rightarrow> string \<Rightarrow> int \<Rightarrow> bool \<Rightarrow> sockets \<Rightarrow> int \<times> sockets" where
  "find_and_bind_socket net port_string family nonblock s =
     (case getaddrinfo net port_string of
        Inl rc \<Rightarrow> (-1, s)
      | Inr infos \<Rightarrow> bind_first net family nonblock infos (s\<lparr>infos_held := infos_held s + 1\<rparr>))"

definition kitserv_socket_prepare :: "resolver \<Rightarrow> string \<Rightarrow> bool \<Rightarrow> bool \<Rightarrow> sockets \<Rightarrow> int \<times> sockets" where
  "kitserv_socket_prepare net port_string use_ipv6 nonblocking_accepts s =
     find_and_bind_socket net port_string (if use_ipv6 then AF_INET6 else AF_INET) nonblocking_accepts s"

text \<open>The branch for Linux; a failure of \<^verbatim>\<open>setsockopt\<close> is only reported.\<close>

definition kitserv_socket_accept :: "int \<Rightarrow> sockets \<Rightarrow> int \<times> sockets" where
  "kitserv_socket_accept lsock s =
     (let (client, s) = sys_new_socket SOCK_NONBLOCK s in
      if client = -1 then (-1, s)
      else let (_, s) = sys_call s in (client, s))"

text \<open>The other branch, for a system without \<^verbatim>\<open>accept4\<close>.\<close>

definition accept_portable :: "int \<Rightarrow> sockets \<Rightarrow> int \<times> sockets" where
  "accept_portable lsock s =
     (let (client, s) = sys_new_socket 0 s in
      if client = -1 then (-1, s)
      else let (rc, s) = socket_setnonblock lsock s in
      if rc \<noteq> 0 then (-1, snd (sys_close lsock s))
      else let (_, s) = sys_call s in (client, s))"

definition kitserv_socket_close :: "int \<Rightarrow> sockets \<Rightarrow> int \<times> sockets" where
  "kitserv_socket_close fd s =
     (case sys_call s of
        (False, s) \<Rightarrow>
          let save_errno = sock_errno s; (_, s) = sys_close fd s in
          (-1, s\<lparr>sock_errno := save_errno\<rparr>)
      | (True, s) \<Rightarrow> (case sys_close fd s of (ok, s) \<Rightarrow> (if ok then 0 else -1, s)))"

section \<open>What they do\<close>

lemma fresh_fd_found: "List.find (\<lambda>n. n \<notin> set fds) [0..int (length fds)] \<noteq> None"
proof
  assume "List.find (\<lambda>n. n \<notin> set fds) [0..int (length fds)] = None"
  then have "{0..int (length fds)} \<subseteq> set fds" by (auto simp: find_None_iff)
  then have "card {0..int (length fds)} \<le> card (set fds)" by (rule card_mono [rotated]) simp
  with card_length [of fds] show False by simp
qed

lemma fresh_fd_new: "fresh_fd fds \<notin> set fds" and fresh_fd_pos: "0 \<le> fresh_fd fds"
proof -
  obtain n where "List.find (\<lambda>n. n \<notin> set fds) [0..int (length fds)] = Some n" using fresh_fd_found [of fds] by auto
  moreover from this have "n \<notin> set fds" "0 \<le> n" by (auto simp: find_Some_iff)
  ultimately show "fresh_fd fds \<notin> set fds" "0 \<le> fresh_fd fds" by (simp_all add: fresh_fd_def)
qed

text \<open>What a call other than those for a socket leaves alone.\<close>

definition same_socks :: "sockets \<Rightarrow> sockets \<Rightarrow> bool" where
  "same_socks s s' \<longleftrightarrow> open_socks s' = open_socks s \<and> listening s' = listening s \<and> infos_held s' = infos_held s"

lemma sys_call_same: "sys_call s = (ok, s') \<Longrightarrow> same_socks s s' \<and> sock_flags s' = sock_flags s"
  by (auto simp: sys_call_def same_socks_def split: list.splits option.splits)

lemma setnonblock_same:
  assumes "socket_setnonblock fd s = (rc, s')"
  shows "same_socks s s' \<and> (rc = 0 \<and> sock_flags s' = (sock_flags s)(fd := sock_flags s fd OR SOCK_NONBLOCK) \<or> rc = -1)"
proof -
  obtain ok s1 where 1: "sys_call s = (ok, s1)" by (cases "sys_call s")
  obtain ok2 s2 where 2: "sys_call s1 = (ok2, s2)" by (cases "sys_call s1")
  from assms 1 2 sys_call_same [OF 1] sys_call_same [OF 2] show ?thesis
    by (auto simp: socket_setnonblock_def same_socks_def Let_def split: bool.splits)
qed

text \<open>A socket that was opened and is closed again.\<close>

lemma give_up_clean:
  assumes "open_socks s = fd # fds" "fd \<notin> set (listening s)" "give_up fd s = (rc, s')"
  shows "rc = -1 \<and> open_socks s' = fds \<and> listening s' = listening s \<and> infos_held s' = infos_held s - 1"
proof -
  obtain ok s1 where 1: "sys_call s = (ok, s1)" by (cases "sys_call s")
  from assms 1 sys_call_same [OF 1] show ?thesis
    by (auto simp: give_up_def sys_close_def forget_def freeaddrinfo_def same_socks_def removeAll_id)
qed

text \<open>The sockets are distinct and only open ones listen.\<close>

definition socks_ok :: "sockets \<Rightarrow> bool" where
  "socks_ok s \<longleftrightarrow> distinct (open_socks s) \<and> set (listening s) \<subseteq> set (open_socks s)"

text \<open>
  What binding may do: a new socket that listens, or nothing; the address list is given back
  in both cases.
\<close>

definition bound :: "bool \<Rightarrow> sockets \<Rightarrow> int \<Rightarrow> sockets \<Rightarrow> bool" where
  "bound nonblock s rc s' \<longleftrightarrow>
     rc = -1 \<and> open_socks s' = open_socks s \<and> listening s' = listening s \<or>
     0 \<le> rc \<and> rc \<notin> set (open_socks s) \<and> open_socks s' = rc # open_socks s \<and> listening s' = rc # listening s \<and>
       sock_flags s' rc = (if nonblock then SOCK_NONBLOCK else 0)"

lemma new_socket_cases:
  assumes "sys_new_socket flags s = (fd, s1)"
  obtains "fd = -1" "same_socks s s1"
  | "0 \<le> fd" "fd \<notin> set (open_socks s)" "open_socks s1 = fd # open_socks s" "listening s1 = listening s"
    "infos_held s1 = infos_held s" "sock_flags s1 = (sock_flags s)(fd := flags)"
proof -
  obtain ok s0 where 0: "sys_call s = (ok, s0)" by (cases "sys_call s")
  show thesis
  proof (cases ok)
    case True
    with assms 0 sys_call_same [OF 0] fresh_fd_pos [of "open_socks s"] fresh_fd_new [of "open_socks s"] show thesis
      by (intro that(2)) (auto simp: sys_new_socket_def same_socks_def Let_def)
  next
    case False
    with assms 0 sys_call_same [OF 0] show thesis by (intro that(1)) (auto simp: sys_new_socket_def same_socks_def)
  qed
qed

lemma bind_address_bound:
  assumes ok: "socks_ok s" and r: "bind_address nonblock s = (rc, s')"
  shows "bound nonblock s rc s' \<and> infos_held s' = infos_held s - 1"
proof -
  obtain fd s1 where 1: "sys_new_socket 0 s = (fd, s1)" by (cases "sys_new_socket 0 s")
  from 1 show ?thesis
  proof (cases rule: new_socket_cases)
    case 1
    with r \<open>sys_new_socket 0 s = (fd, s1)\<close> show ?thesis
      by (auto simp: bind_address_def bound_def freeaddrinfo_def same_socks_def)
  next
    case new: 2
    define like :: "sockets \<Rightarrow> bool" where "like x \<longleftrightarrow> open_socks x = fd # open_socks s \<and> listening x = listening s \<and> infos_held x = infos_held s" for x
    have fail: ?thesis if "like x" "give_up fd x = (rc, s')" for x
    proof -
      from that(1) new(2) ok have "open_socks x = fd # open_socks s" "fd \<notin> set (listening x)"
        by (auto simp: like_def socks_ok_def)
      from give_up_clean [OF this that(2)] that(1) show ?thesis by (simp add: bound_def like_def)
    qed
    obtain ok2 s2 where 2: "sys_call s1 = (ok2, s2)" by (cases "sys_call s1")
    obtain rc3 s3 where 3: "(if nonblock then socket_setnonblock fd s2 else (0, s2)) = (rc3, s3)"
      by (cases "if nonblock then socket_setnonblock fd s2 else (0, s2)")
    obtain ok4 s4 where 4: "sys_call s3 = (ok4, s4)" by (cases "sys_call s3")
    obtain ok5 s5 where 5: "sys_listen fd s4 = (ok5, s5)" by (cases "sys_listen fd s4")
    have l1: "like s1" using new by (simp add: like_def)
    have l2: "like s2" "sock_flags s2 fd = 0" using l1 sys_call_same [OF 2] new(6) by (auto simp: like_def same_socks_def)
    have l3: "like s3" "rc3 < 0 \<or> sock_flags s3 fd = (if nonblock then SOCK_NONBLOCK else 0)"
      using l2 3 setnonblock_same [of fd s2 rc3 s3] by (auto simp: like_def same_socks_def split: if_splits)
    have l4: "like s4" "sock_flags s4 = sock_flags s3" using l3 sys_call_same [OF 4] by (auto simp: like_def same_socks_def)
    have l5: "if ok5 then open_socks s5 = fd # open_socks s \<and> listening s5 = fd # listening s \<and> infos_held s5 = infos_held s
        \<and> sock_flags s5 = sock_flags s4 else like s5"
    proof -
      obtain b x where "sys_call s4 = (b, x)" by (cases "sys_call s4")
      with 5 l4 sys_call_same [OF this] show ?thesis by (auto simp: sys_listen_def like_def same_socks_def split: bool.splits)
    qed
    note unf = r [unfolded bind_address_def 1 Let_def prod.case 2 3 4 5]
    consider "\<not> ok2" | "ok2" "rc3 < 0" | "ok2" "\<not> rc3 < 0" "\<not> ok4" | "ok2" "\<not> rc3 < 0" "ok4" "\<not> ok5" | "ok2" "\<not> rc3 < 0" "ok4" "ok5"
      by blast
    then show ?thesis
      by cases (use unf new fail l2 l3 l4 l5 in \<open>auto simp: bound_def freeaddrinfo_def\<close>)
  qed
qed

lemma bind_first_bound:
  assumes "socks_ok s" "bind_first net family nonblock infos s = (rc, s')"
  shows "bound nonblock s rc s' \<and> infos_held s' = infos_held s - 1"
  using assms(2)
proof (induction infos)
  case Nil
  then show ?case by (auto simp: bound_def freeaddrinfo_def)
next
  case (Cons a infos)
  then show ?case
    using bind_address_bound [OF assms(1), of nonblock rc s'] by (auto simp: bound_def freeaddrinfo_def split: if_splits)
qed

lemma prepare_bound:
  assumes "socks_ok s" "kitserv_socket_prepare net port use_ipv6 nonblock s = (rc, s')"
  shows "bound nonblock s rc s' \<and> infos_held s' = infos_held s"
proof (cases "getaddrinfo net port")
  case (Inl e)
  with assms(2) show ?thesis by (simp add: kitserv_socket_prepare_def find_and_bind_socket_def bound_def)
next
  case (Inr infos)
  have "socks_ok (s\<lparr>infos_held := infos_held s + 1\<rparr>)" using assms(1) by (simp add: socks_ok_def)
  from bind_first_bound [OF this, of net _ nonblock infos rc s'] assms(2) Inr show ?thesis
    by (simp add: kitserv_socket_prepare_def find_and_bind_socket_def bound_def)
qed

section \<open>Properties\<close>

text \<open>
  C29: preparing a listening socket is all or nothing: it gives a new socket that listens, with
  the blocking mode asked for, or -1 with every socket as before; whichever call fails, no
  socket and no address list is left behind.
\<close>

theorem socket_prepare_clean:
  assumes "socks_ok s" "kitserv_socket_prepare net port use_ipv6 nonblock s = (rc, s')"
  shows "bound nonblock s rc s' \<and> infos_held s' = infos_held s"
  using assms by (rule prepare_bound)

definition quiet_socks :: "errno option list \<Rightarrow> sockets" where
  "quiet_socks script = \<lparr>sys_script = script, sock_errno = ENONE, open_socks = [2, 1, 0], sock_flags = (\<lambda>_. 0),
     listening = [], infos_held = 0\<rparr>"

definition dual_stack :: resolver where
  "dual_stack = \<lparr>getaddrinfo = (\<lambda>_. Inr
     [\<lparr>ai_family = AF_INET, ai_socktype = 1, ai_protocol = 6, ai_addr = ''0.0.0.0''\<rparr>,
      \<lparr>ai_family = AF_INET6, ai_socktype = 1, ai_protocol = 6, ai_addr = ''::''\<rparr>]), getnameinfo = (\<lambda>_. 0)\<rparr>"

lemma socket_prepare_clean_witness:
  "\<exists>rc s'. kitserv_socket_prepare dual_stack ''8012'' True False (quiet_socks [None, None, Some EADDRINUSE]) = (rc, s') \<and>
    bound False (quiet_socks [None, None, Some EADDRINUSE]) rc s' \<and> infos_held s' = 0"
proof -
  obtain rc s' where r: "kitserv_socket_prepare dual_stack ''8012'' True False (quiet_socks [None, None, Some EADDRINUSE]) = (rc, s')"
    by (cases "kitserv_socket_prepare dual_stack ''8012'' True False (quiet_socks [None, None, Some EADDRINUSE])")
  have "socks_ok (quiet_socks [None, None, Some EADDRINUSE])" by (simp add: socks_ok_def quiet_socks_def)
  from socket_prepare_clean [OF this r] r show ?thesis by (simp add: quiet_socks_def)
qed

text \<open>
  A port with no address of the wanted family is reported as \<^verbatim>\<open>EAFNOSUPPORT\<close>, which is
  what the fall back to IPv4 looks for.
\<close>

theorem no_family_reported:
  assumes "getaddrinfo net port = Inr infos" "\<forall>a \<in> set infos. ai_family a \<noteq> (if use_ipv6 then AF_INET6 else AF_INET)"
    "\<forall>a \<in> set infos. getnameinfo net a = 0"
  shows "kitserv_socket_prepare net port use_ipv6 nonblock s = (-1, s\<lparr>sock_errno := EAFNOSUPPORT\<rparr>)"
proof -
  have "bind_first net family nonblock infos s = (-1, freeaddrinfo (s\<lparr>sock_errno := EAFNOSUPPORT\<rparr>))"
    if "\<forall>a \<in> set infos. ai_family a \<noteq> family \<and> getnameinfo net a = 0" for family s
    using that by (induction infos) auto
  with assms show ?thesis
    by (simp add: kitserv_socket_prepare_def find_and_bind_socket_def freeaddrinfo_def)
qed

lemma no_family_reported_witness:
  "kitserv_socket_prepare (dual_stack\<lparr>getaddrinfo := (\<lambda>_. Inr
     [\<lparr>ai_family = AF_INET, ai_socktype = 1, ai_protocol = 6, ai_addr = ''0.0.0.0''\<rparr>])\<rparr>) ''8012'' True False (quiet_socks []) =
   (-1, (quiet_socks [])\<lparr>sock_errno := EAFNOSUPPORT\<rparr>)"
  by (rule no_family_reported [where infos = "[\<lparr>ai_family = AF_INET, ai_socktype = 1, ai_protocol = 6, ai_addr = ''0.0.0.0''\<rparr>]"])
    (simp_all add: dual_stack_def AF_INET_def AF_INET6_def)

text \<open>
  Closing a connection always gives its descriptor up, whether the shutdown or the close
  fails, and reports the error of the shutdown.
\<close>

theorem socket_close_closes:
  assumes "kitserv_socket_close fd s = (rc, s')"
  shows "open_socks s' = remove1 fd (open_socks s) \<and> fd \<notin> set (listening s') \<and>
    (case sys_call s of (False, s1) \<Rightarrow> rc = -1 \<and> sock_errno s' = sock_errno s1 | (True, s1) \<Rightarrow> rc = 0 \<or> rc = -1)"
proof -
  obtain b x where 1: "sys_call s = (b, x)" by (cases "sys_call s")
  obtain b' y where 2: "sys_call x = (b', y)" by (cases "sys_call x")
  from assms 1 2 sys_call_same [OF 1] sys_call_same [OF 2] show ?thesis
    by (auto simp: kitserv_socket_close_def sys_close_def forget_def same_socks_def Let_def split: bool.splits if_splits)
qed

lemma socket_close_closes_witness:
  "\<exists>rc s'. kitserv_socket_close 2 (quiet_socks [Some (EOTHER 107)]) = (rc, s') \<and> open_socks s' = [1, 0] \<and> rc = -1"
proof -
  obtain rc s' where r: "kitserv_socket_close 2 (quiet_socks [Some (EOTHER 107)]) = (rc, s')"
    by (cases "kitserv_socket_close 2 (quiet_socks [Some (EOTHER 107)])")
  from socket_close_closes [OF r] r show ?thesis by (simp add: quiet_socks_def sys_call_def)
qed

text \<open>
  Accepting on Linux gives a new socket that does not block, or nothing, and leaves the
  other sockets alone.
\<close>

theorem accept_nonblocking:
  assumes "kitserv_socket_accept lsock s = (fd, s')"
  shows "fd = -1 \<and> open_socks s' = open_socks s \<or>
    0 \<le> fd \<and> fd \<notin> set (open_socks s) \<and> open_socks s' = fd # open_socks s \<and> sock_flags s' fd = SOCK_NONBLOCK"
proof -
  obtain c s1 where 1: "sys_new_socket SOCK_NONBLOCK s = (c, s1)" by (cases "sys_new_socket SOCK_NONBLOCK s")
  obtain b s2 where 2: "sys_call s1 = (b, s2)" by (cases "sys_call s1")
  from 1 show ?thesis
    by (cases rule: new_socket_cases)
      (use assms 1 2 sys_call_same [OF 2] in \<open>auto simp: kitserv_socket_accept_def same_socks_def Let_def split: if_splits\<close>)
qed

lemma accept_nonblocking_witness:
  "\<exists>fd s'. kitserv_socket_accept 2 (quiet_socks []) = (fd, s') \<and> (fd = -1 \<and> open_socks s' = [2, 1, 0] \<or>
    0 \<le> fd \<and> open_socks s' = fd # [2, 1, 0] \<and> sock_flags s' fd = SOCK_NONBLOCK)"
proof -
  obtain fd s' where r: "kitserv_socket_accept 2 (quiet_socks []) = (fd, s')" by (cases "kitserv_socket_accept 2 (quiet_socks [])")
  from accept_nonblocking [OF r] r show ?thesis by (auto simp: quiet_socks_def)
qed

text \<open>
  The branch for systems without \<^verbatim>\<open>accept4\<close> sets the flag on the listening socket: the
  accepted one blocks.
\<close>

theorem accept_portable_blocks:
  assumes "sys_script s = []" "lsock \<in> set (open_socks s)"
  shows "\<exists>s'. accept_portable lsock s = (fresh_fd (open_socks s), s') \<and> sock_flags s' (fresh_fd (open_socks s)) = 0 \<and>
    sock_flags s' lsock = sock_flags s lsock OR SOCK_NONBLOCK"
  using assms fresh_fd_pos [of "open_socks s"] fresh_fd_new [of "open_socks s"]
  by (auto simp: accept_portable_def sys_new_socket_def sys_call_def socket_setnonblock_def Let_def)

lemma accept_portable_blocks_witness:
  "\<exists>s'. accept_portable 2 (quiet_socks []) = (3, s') \<and> sock_flags s' 3 = 0 \<and> sock_flags s' 2 = 0 OR SOCK_NONBLOCK"
proof -
  have "fresh_fd [2, 1, 0] = 3" by (simp add: fresh_fd_def upto.simps)
  with accept_portable_blocks [of "quiet_socks []" 2] show ?thesis by (simp add: quiet_socks_def)
qed

end
