(* ===== verification/Server.thy ===== *)
theory Server
  imports Connection Queue Socket
begin

text \<open>
  The running server (\<open>client_worker\<close> and \<open>accept_worker\<close> of \<^verbatim>\<open>src/kitserv.c\<close>): worker
  threads with a container and an event queue each, accepter threads that hand new sockets
  to them. A step is what one thread does between two points where another can interfere:
  a system call, or a section under the lock of a container. \<^term>\<open>None\<close> as the next state is
  the end of the process by a failed assertion or by undefined behaviour.
\<close>

section \<open>Threads\<close>

text \<open>
  Where an accepter stands: at \<^verbatim>\<open>accept\<close>; in the loop of \<open>select_client_worker\<close> with the
  socket, the next worker and the best so far; before \<open>connection_accept\<close>; before closing a
  socket that found no slot; before \<open>kitserv_queue_add\<close>.
\<close>

datatype accepter_state =
    Accepting
  | Selecting int nat "nat option \<times> int"
  | Taking int nat
  | Rejecting int
  | Adding int nat nat

text \<open>
  Where a worker stands: at \<open>kitserv_queue_wait\<close>; in the loop over the events; and, for a
  connection whose last transaction is over, before taking it out of the queue, closing its
  socket, and returning it to the container.
\<close>

datatype worker_state =
    Waiting
  | Serving "nat list"
  | Removing nat "nat list"
  | Closing nat "nat list"
  | Freeing nat "nat list"

record worker =
  conn_container :: connection_container
  queue :: queue
  wstate :: worker_state

record server =
  workers :: "worker list"
  accepters :: "accepter_state list"
  socks :: sockets

definition MAX_EVENTS :: nat where "MAX_EVENTS = 64"

abbreviation set_accepter :: "nat \<Rightarrow> accepter_state \<Rightarrow> server \<Rightarrow> server" where
  "set_accepter i a s \<equiv> s\<lparr>accepters := (accepters s)[i := a]\<rparr>"

abbreviation set_worker :: "nat \<Rightarrow> worker \<Rightarrow> server \<Rightarrow> server" where
  "set_worker v w s \<equiv> s\<lparr>workers := (workers s)[v := w]\<rparr>"

abbreviation client_of :: "worker \<Rightarrow> nat \<Rightarrow> kitserv_client" where
  "client_of w k \<equiv> client (connections (conn_container w) ! k)"

section \<open>What an accepter does\<close>

definition accept_conn :: "nat \<Rightarrow> int \<Rightarrow> server \<Rightarrow> server" where
  "accept_conn i acceptfd s =
     (case kitserv_socket_accept acceptfd (socks s) of
        (fd, k) \<Rightarrow> set_accepter i (if fd < 0 then Accepting else Selecting fd 0 (None, -1)) (s\<lparr>socks := k\<rparr>))"

definition score_next :: "nat \<Rightarrow> int \<Rightarrow> nat \<Rightarrow> nat option \<times> int \<Rightarrow> server \<Rightarrow> server ub" where
  "score_next i fd j best s = do {
     score \<leftarrow> score_worker (conn_container (workers s ! j));
     Some (set_accepter i (Selecting fd (j + 1) (select_step j score best)) s) }"

text \<open>The result of the selection is dereferenced without a test.\<close>

definition selected :: "nat \<Rightarrow> int \<Rightarrow> nat option \<Rightarrow> server \<Rightarrow> server ub" where
  "selected i fd best_worker s = map_option (\<lambda>v. set_accepter i (Taking fd v) s) best_worker"

definition take_conn :: "nat \<Rightarrow> int \<Rightarrow> nat \<Rightarrow> server \<Rightarrow> server ub" where
  "take_conn i fd v s = do {
     (new_conn, ct) \<leftarrow> connection_accept (conn_container (workers s ! v)) fd;
     let s = set_worker v ((workers s ! v)\<lparr>conn_container := ct\<rparr>) s;
     Some (case new_conn of None \<Rightarrow> set_accepter i (Rejecting fd) s | Some k \<Rightarrow> set_accepter i (Adding fd v k) s) }"

definition reject_conn :: "nat \<Rightarrow> int \<Rightarrow> server \<Rightarrow> server" where
  "reject_conn i fd s = set_accepter i Accepting (s\<lparr>socks := snd (kitserv_socket_close fd (socks s))\<rparr>)"

text \<open>The result of \<open>kitserv_queue_add\<close> is not looked at.\<close>

definition add_conn :: "nat \<Rightarrow> bool \<Rightarrow> int \<Rightarrow> nat \<Rightarrow> nat \<Rightarrow> server \<Rightarrow> server" where
  "add_conn i room fd v k s =
     (case kitserv_queue_add room (queue (workers s ! v)) fd k (QUEUE_IN OR QUEUE_OUT) False of
        (_, q) \<Rightarrow> set_accepter i Accepting (set_worker v ((workers s ! v)\<lparr>queue := q\<rparr>) s))"

section \<open>What a worker does\<close>

definition wait_events_of :: "errno + queue_event list \<Rightarrow> worker \<Rightarrow> worker" where
  "wait_events_of ready w =
     (case kitserv_queue_wait ready MAX_EVENTS of
        (nevents, es) \<Rightarrow> if nevents < 0 then w else w\<lparr>wstate := Serving (map kitserv_queue_event_to_data es)\<rparr>)"

definition served :: "nat \<Rightarrow> nat list \<Rightarrow> int \<times> kitserv_client \<times> os \<Rightarrow> worker \<Rightarrow> worker" where
  "served k ks res w =
     (case res of (rc, c, _) \<Rightarrow> w\<lparr>conn_container := put_client (conn_container w) k c,
        wstate := if rc \<noteq> 0 then Removing k ks else Serving ks\<rparr>)"

definition remove_conn :: "nat \<Rightarrow> nat list \<Rightarrow> worker \<Rightarrow> worker" where
  "remove_conn k ks w = w\<lparr>queue := snd (kitserv_queue_remove (queue w) (sockfd (client_of w k))), wstate := Closing k ks\<rparr>"

definition free_conn :: "(nat \<Rightarrow> bool) \<Rightarrow> nat \<Rightarrow> nat list \<Rightarrow> worker \<Rightarrow> worker" where
  "free_conn ok k ks w = w\<lparr>conn_container := connection_close ok (conn_container w) k, wstate := Serving ks\<rparr>"

text \<open>The events epoll can report: each of a descriptor that is registered, and at most one of each.\<close>

definition reportable :: "queue \<Rightarrow> errno + queue_event list \<Rightarrow> bool" where
  "reportable q ready \<longleftrightarrow> (case ready of
     Inl e \<Rightarrow> True
   | Inr es \<Rightarrow> \<exists>fds. distinct fds \<and> (\<forall>fd \<in> set fds. q fd \<noteq> None) \<and> es = map (\<lambda>fd. the (q fd)) fds)"

section \<open>The steps\<close>

inductive step :: "env \<Rightarrow> (int \<Rightarrow> string) \<Rightarrow> server \<Rightarrow> server ub \<Rightarrow> bool" for env content where
  accepting: "i < length (accepters s) \<Longrightarrow> accepters s ! i = Accepting \<Longrightarrow>
    step env content s (Some (accept_conn i acceptfd s))"
| scoring: "i < length (accepters s) \<Longrightarrow> accepters s ! i = Selecting fd j best \<Longrightarrow> j < length (workers s) \<Longrightarrow>
    step env content s (score_next i fd j best s)"
| selecting: "i < length (accepters s) \<Longrightarrow> accepters s ! i = Selecting fd j best \<Longrightarrow> \<not> j < length (workers s) \<Longrightarrow>
    step env content s (selected i fd (fst best) s)"
| taking: "i < length (accepters s) \<Longrightarrow> accepters s ! i = Taking fd v \<Longrightarrow>
    step env content s (take_conn i fd v s)"
| rejecting: "i < length (accepters s) \<Longrightarrow> accepters s ! i = Rejecting fd \<Longrightarrow>
    step env content s (Some (reject_conn i fd s))"
| adding: "i < length (accepters s) \<Longrightarrow> accepters s ! i = Adding fd v k \<Longrightarrow>
    step env content s (Some (add_conn i room fd v k s))"
| waiting: "v < length (workers s) \<Longrightarrow> wstate (workers s ! v) = Waiting \<Longrightarrow> reportable (queue (workers s ! v)) ready \<Longrightarrow>
    step env content s (Some (set_worker v (wait_events_of ready (workers s ! v)) s))"
| serving: "v < length (workers s) \<Longrightarrow> wstate (workers s ! v) = Serving (k # ks) \<Longrightarrow>
    kitserv_http_serve_client env content (client_of (workers s ! v) k) w = Some res \<Longrightarrow>
    step env content s (map_option (\<lambda>r. set_worker v (served k ks r (workers s ! v)) s) res)"
| batch_done: "v < length (workers s) \<Longrightarrow> wstate (workers s ! v) = Serving [] \<Longrightarrow>
    step env content s (Some (set_worker v ((workers s ! v)\<lparr>wstate := Waiting\<rparr>) s))"
| removing: "v < length (workers s) \<Longrightarrow> wstate (workers s ! v) = Removing k ks \<Longrightarrow>
    step env content s (Some (set_worker v (remove_conn k ks (workers s ! v)) s))"
| closing: "v < length (workers s) \<Longrightarrow> wstate (workers s ! v) = Closing k ks \<Longrightarrow>
    step env content s (Some (set_worker v ((workers s ! v)\<lparr>wstate := Freeing k ks\<rparr>)
      (s\<lparr>socks := snd (kitserv_socket_close (sockfd (client_of (workers s ! v) k)) (socks s))\<rparr>)))"
| freeing: "v < length (workers s) \<Longrightarrow> wstate (workers s ! v) = Freeing k ks \<Longrightarrow>
    step env content s (Some (set_worker v (free_conn (alloc_ok env) k ks (workers s ! v)) s))"

text \<open>
  What a worker does before the barrier, with the memory found for its connections and the
  outcome of creating its queue; \<^verbatim>\<open>abort()\<close> is \<^term>\<open>None\<close>.
\<close>

definition start_worker :: "bool \<Rightarrow> connection list \<Rightarrow> errno + int \<Rightarrow> heap \<Rightarrow> (worker \<times> heap) ub" where
  "start_worker mutex_ok block created h = do {
     (ct, h) \<leftarrow> connection_init mutex_ok block h;
     if kitserv_queue_init created < 0 then None
     else Some (\<lparr>conn_container = ct, queue = Map.empty, wstate = Waiting\<rparr>, h) }"

text \<open>
  The start, behind the barrier, which is passed only when every worker has started. Nothing
  is assumed of the memory that \<^verbatim>\<open>malloc\<close> has found.
\<close>

definition initial :: "server \<Rightarrow> bool" where
  "initial s \<longleftrightarrow> workers s \<noteq> [] \<and> (\<forall>a \<in> set (accepters s). a = Accepting) \<and>
     (\<forall>w \<in> set (workers s). \<exists>mutex_ok block created h h'. block \<noteq> [] \<and> start_worker mutex_ok block created h = Some (w, h'))"

text \<open>The pointers at the ends of the free lists, which the start has left as it found them.\<close>

definition last_pointers :: "server \<Rightarrow> nat option list" where
  "last_pointers s = map (\<lambda>w. next_conn (last (connections (conn_container w)))) (workers s)"

text \<open>
  An accepter is about to take a connection from a worker that has none left, where the list
  of the free ones ends in the pointer \<open>qs ! v\<close>, which is not NULL.
\<close>

definition overrun :: "nat option list \<Rightarrow> server \<Rightarrow> bool" where
  "overrun qs s \<longleftrightarrow> (\<exists>i < length (accepters s). \<exists>fd v. accepters s ! i = Taking fd v \<and> v < length (workers s) \<and>
     freelist_count (conn_container (workers s ! v)) = 0 \<and> qs ! v \<noteq> None)"

inductive reachable :: "env \<Rightarrow> (int \<Rightarrow> string) \<Rightarrow> server \<Rightarrow> bool" for env content where
  start: "initial s \<Longrightarrow> reachable env content s"
| run: "reachable env content s \<Longrightarrow> step env content s (Some s') \<Longrightarrow> reachable env content s'"

end
