(* ===== verification/Server_Safety.thy ===== *)
theory Server_Safety
  imports Server
begin

text \<open>
  The invariant of the running server: in every worker the free slots, those an accepter has
  just taken, the registered ones and the one being closed are different, so that no
  connection is in two hands, and each client is in the state its holder expects.
\<close>

section \<open>Slots that are out\<close>

definition out_of :: "connection_container \<Rightarrow> nat set" where
  "out_of ct = {..<length (connections ct)} - set (free_slots ct)"

lemma out_accounted: "pool_ok z ct \<Longrightarrow> pool.accounted z ct (out_of ct)"
  using pool.free_slots [of z ct] by (auto simp: pool.accounted_def out_of_def)

lemma accounted_out: "pool.accounted z ct out \<Longrightarrow> pool_ok z ct \<and> out_of ct = out"
  by (auto simp: pool.accounted_def out_of_def)

lemma take_out:
  assumes "pool_ok z ct" "connection_accept ct fd = Some (Some k, ct')"
  shows "pool_ok z ct'" "out_of ct' = insert k (out_of ct)" "k \<notin> out_of ct" "serves fd (client (connections ct' ! k))"
    "j \<noteq> k \<Longrightarrow> client (connections ct' ! j) = client (connections ct ! j)"
  using pool.take_accounted [OF out_accounted [OF assms(1)] assms(2)] accounted_out by blast+

lemma take_defined:
  assumes "pool_ok z ct"
  shows "freelist_count ct = 0 \<and> connection_accept ct fd = (if z = None then Some (None, ct) else None) \<or>
    (\<exists>k ct'. connection_accept ct fd = Some (Some k, ct'))"
  using pool.take_total [OF out_accounted [OF assms], of fd] pool_okD(3) [OF assms] by auto

lemma give_out:
  assumes "pool_ok z ct" "k \<in> out_of ct" "body_ok (client (connections ct ! k))"
  shows "pool_ok z (connection_close ok ct k)" "out_of (connection_close ok ct k) = out_of ct - {k}"
    "j \<noteq> k \<Longrightarrow> client (connections (connection_close ok ct k) ! j) = client (connections ct ! j)"
  using accounted_out [OF pool.give_accounted [OF out_accounted [OF assms(1)] assms(2,3), of ok]] pool.give_other(2) by auto

lemma put_out:
  assumes "pool_ok z ct" "k \<in> out_of ct"
  shows "pool_ok z (put_client ct k c)" "out_of (put_client ct k c) = out_of ct"
    "j \<noteq> k \<Longrightarrow> client (connections (put_client ct k c) ! j) = client (connections ct ! j)"
    "client (connections (put_client ct k c) ! k) = c"
  using accounted_out [OF pool.put_accounted [OF out_accounted [OF assms(1)] assms(2), of c]] pool.put_other(2,3) assms(2)
  by (auto simp: out_of_def)

section \<open>Who holds a slot\<close>

fun adds :: "nat \<Rightarrow> accepter_state \<Rightarrow> (int \<times> nat) list" where
  "adds v (Adding fd u k) = (if u = v then [(fd, k)] else [])"
| "adds v a = []"

definition adding_to :: "nat \<Rightarrow> accepter_state list \<Rightarrow> (int \<times> nat) list" where
  "adding_to v accs = concat (map (adds v) accs)"

definition registered :: "queue \<Rightarrow> nat set" where
  "registered q = data_ptr ` ran q"

fun closing_of :: "worker_state \<Rightarrow> nat list" where
  "closing_of (Closing k ks) = [k]"
| "closing_of (Freeing k ks) = [k]"
| "closing_of _ = []"

fun finishing_of :: "worker_state \<Rightarrow> nat list" where
  "finishing_of (Removing k ks) = [k]"
| "finishing_of st = closing_of st"

fun batch_of :: "worker_state \<Rightarrow> nat list" where
  "batch_of Waiting = []"
| "batch_of (Serving ks) = ks"
| "batch_of (Removing k ks) = k # ks"
| "batch_of (Closing k ks) = ks"
| "batch_of (Freeing k ks) = ks"

text \<open>The invariant of a worker, with the connections accepters are adding to it.\<close>

definition worker_ok :: "nat option \<Rightarrow> (int \<times> nat) list \<Rightarrow> worker \<Rightarrow> bool" where
  "worker_ok z A w \<longleftrightarrow> pool_ok z (conn_container w) \<and>
     distinct (map snd A @ closing_of (wstate w)) \<and>
     (snd ` set A \<union> set (closing_of (wstate w))) \<inter> registered (queue w) = {} \<and>
     snd ` set A \<union> set (closing_of (wstate w)) \<union> registered (queue w) \<subseteq> out_of (conn_container w) \<and>
     distinct (batch_of (wstate w)) \<and> set (batch_of (wstate w)) \<subseteq> registered (queue w) \<and>
     (\<forall>fd e. queue w fd = Some e \<longrightarrow> sockfd (client_of w (data_ptr e)) = fd) \<and>
     (\<forall>(fd, k) \<in> set A. serves fd (client_of w k)) \<and>
     (\<forall>k \<in> registered (queue w). k \<notin> set (finishing_of (wstate w)) \<longrightarrow> serve_inv (client_of w k)) \<and>
     (\<forall>k \<in> set (finishing_of (wstate w)). body_ok (client_of w k))"

lemma worker_okD:
  assumes "worker_ok z A w"
  shows "pool_ok z (conn_container w)" "distinct (map snd A)" "distinct (map snd A @ closing_of (wstate w))"
    "(snd ` set A \<union> set (closing_of (wstate w))) \<inter> registered (queue w) = {}"
    "snd ` set A \<union> set (closing_of (wstate w)) \<union> registered (queue w) \<subseteq> out_of (conn_container w)"
    "distinct (batch_of (wstate w))" "set (batch_of (wstate w)) \<subseteq> registered (queue w)"
    "queue w fd = Some e \<Longrightarrow> sockfd (client_of w (data_ptr e)) = fd"
    "(fd, k) \<in> set A \<Longrightarrow> serves fd (client_of w k)"
    "k \<in> registered (queue w) \<Longrightarrow> k \<notin> set (finishing_of (wstate w)) \<Longrightarrow> serve_inv (client_of w k)"
    "k \<in> set (finishing_of (wstate w)) \<Longrightarrow> body_ok (client_of w k)"
  using assms by (auto simp: worker_ok_def)

lemma registeredI: "q fd = Some e \<Longrightarrow> data_ptr e \<in> registered q"
  by (auto simp: registered_def ran_def)

lemma registered_at:
  assumes "worker_ok z A w" "k \<in> registered (queue w)"
  obtains e where "queue w (sockfd (client_of w k)) = Some e" "data_ptr e = k"
proof -
  from assms(2) obtain fd e where e: "queue w fd = Some e" "data_ptr e = k" by (auto simp: registered_def ran_def)
  with worker_okD(8) [OF assms(1) e(1)] show thesis by (intro that [of e]) auto
qed

section \<open>The steps of an accepter\<close>

lemma take_worker_ok:
  assumes ok: "worker_ok z (xs @ ys) w" and t: "connection_accept (conn_container w) fd = Some (Some k, ct)"
  shows "worker_ok z (xs @ (fd, k) # ys) (w\<lparr>conn_container := ct\<rparr>)"
proof -
  note d = worker_okD [OF ok]
  note t = take_out [OF d(1) t]
  have k: "k \<notin> snd ` set (xs @ ys) \<union> set (closing_of (wstate w)) \<union> registered (queue w)" using d(5) t(3) by blast
  have c: "client (connections ct ! j) = client_of w j"
    if "j \<in> snd ` set (xs @ ys) \<union> set (closing_of (wstate w)) \<union> registered (queue w)" for j
    by (rule t(5)) (use k that in blast)
  have f: "j \<in> set (closing_of (wstate w)) \<union> registered (queue w)" if "j \<in> set (finishing_of (wstate w))" for j
    using that d(7) by (cases "wstate w") auto
  show ?thesis
    unfolding worker_ok_def
  proof (intro conjI allI ballI impI)
    show "pool_ok z (conn_container (w\<lparr>conn_container := ct\<rparr>))" using t(1) by simp
    show "distinct (map snd (xs @ (fd, k) # ys) @ closing_of (wstate (w\<lparr>conn_container := ct\<rparr>)))" using d(3) k by auto
    show "(snd ` set (xs @ (fd, k) # ys) \<union> set (closing_of (wstate (w\<lparr>conn_container := ct\<rparr>)))) \<inter>
        registered (queue (w\<lparr>conn_container := ct\<rparr>)) = {}" using d(4) k by auto
    show "snd ` set (xs @ (fd, k) # ys) \<union> set (closing_of (wstate (w\<lparr>conn_container := ct\<rparr>))) \<union>
        registered (queue (w\<lparr>conn_container := ct\<rparr>)) \<subseteq> out_of (conn_container (w\<lparr>conn_container := ct\<rparr>))"
      using d(5) t(2) by auto
    show "distinct (batch_of (wstate (w\<lparr>conn_container := ct\<rparr>)))"
      "set (batch_of (wstate (w\<lparr>conn_container := ct\<rparr>))) \<subseteq> registered (queue (w\<lparr>conn_container := ct\<rparr>))" using d(6,7) by simp_all
    show "sockfd (client_of (w\<lparr>conn_container := ct\<rparr>) (data_ptr e)) = fd'" if "queue (w\<lparr>conn_container := ct\<rparr>) fd' = Some e" for fd' e
      using that d(8) [of fd' e] c [of "data_ptr e"] registeredI [of "queue w" fd' e] by auto
    show "case p of (fd', j) \<Rightarrow> serves fd' (client_of (w\<lparr>conn_container := ct\<rparr>) j)" if "p \<in> set (xs @ (fd, k) # ys)" for p
    proof (cases "p = (fd, k)")
      case True
      with t(4) show ?thesis by simp
    next
      case False
      obtain fd' j where p: "p = (fd', j)" by (cases p)
      with False that have m: "(fd', j) \<in> set (xs @ ys)" by auto
      then have "j \<in> snd ` set (xs @ ys)" by force
      with c [of j] d(9) [OF m] p show ?thesis by auto
    qed
    show "serve_inv (client_of (w\<lparr>conn_container := ct\<rparr>) j)" if "j \<in> registered (queue (w\<lparr>conn_container := ct\<rparr>))"
      "j \<notin> set (finishing_of (wstate (w\<lparr>conn_container := ct\<rparr>)))" for j
      using that d(10) [of j] c [of j] by auto
    show "body_ok (client_of (w\<lparr>conn_container := ct\<rparr>) j)" if "j \<in> set (finishing_of (wstate (w\<lparr>conn_container := ct\<rparr>)))" for j
      using that d(11) [of j] f [of j] c [of j] by auto
  qed
qed

text \<open>Registering, or failing to.\<close>

lemma forget_adding: "worker_ok z (xs @ p # ys) w \<Longrightarrow> worker_ok z (xs @ ys) w"
  by (auto simp: worker_ok_def)

lemma add_worker_ok:
  assumes ok: "worker_ok z (xs @ (fd, k) # ys) w" and a: "kitserv_queue_add room (queue w) fd k type shared = (rc, q)"
  shows "worker_ok z (xs @ ys) (w\<lparr>queue := q\<rparr>)"
proof (cases "queue w fd = None \<and> room")
  case False
  with a have "q = queue w" by (auto simp: queue_defs split: if_splits)
  with forget_adding [OF ok] show ?thesis by simp
next
  case True
  let ?e = "\<lparr>events = wait_events type shared, data_ptr = k\<rparr>"
  from True a have q: "q = (queue w)(fd \<mapsto> ?e)" by (simp add: queue_defs)
  then have r: "registered q = insert k (registered (queue w))"
    using True by (simp add: registered_def)
  note d = worker_okD [OF ok]
  have s: "serves fd (client_of w k)" using d(9) [of fd k] by simp
  have k: "k \<notin> snd ` set (xs @ ys) \<union> set (closing_of (wstate w))" using d(3) by auto
  show ?thesis
    unfolding worker_ok_def
  proof (intro conjI allI ballI impI)
    show "pool_ok z (conn_container (w\<lparr>queue := q\<rparr>))" using d(1) by simp
    show "distinct (map snd (xs @ ys) @ closing_of (wstate (w\<lparr>queue := q\<rparr>)))" using d(3) by auto
    show "(snd ` set (xs @ ys) \<union> set (closing_of (wstate (w\<lparr>queue := q\<rparr>)))) \<inter> registered (queue (w\<lparr>queue := q\<rparr>)) = {}"
      using d(4) r k by auto
    show "snd ` set (xs @ ys) \<union> set (closing_of (wstate (w\<lparr>queue := q\<rparr>))) \<union> registered (queue (w\<lparr>queue := q\<rparr>)) \<subseteq>
        out_of (conn_container (w\<lparr>queue := q\<rparr>))" using d(5) r by auto
    show "distinct (batch_of (wstate (w\<lparr>queue := q\<rparr>)))"
      "set (batch_of (wstate (w\<lparr>queue := q\<rparr>))) \<subseteq> registered (queue (w\<lparr>queue := q\<rparr>))" using d(6,7) r by auto
    show "sockfd (client_of (w\<lparr>queue := q\<rparr>) (data_ptr e)) = fd'" if "queue (w\<lparr>queue := q\<rparr>) fd' = Some e" for fd' e
      using that d(8) [of fd' e] s q by (auto simp: serves_def split: if_splits)
    show "case p of (fd', j) \<Rightarrow> serves fd' (client_of (w\<lparr>queue := q\<rparr>) j)" if "p \<in> set (xs @ ys)" for p
    proof (cases p)
      case (Pair fd' j)
      with that have "(fd', j) \<in> set (xs @ (fd, k) # ys)" by auto
      from d(9) [OF this] Pair show ?thesis by simp
    qed
    show "serve_inv (client_of (w\<lparr>queue := q\<rparr>) j)" if "j \<in> registered (queue (w\<lparr>queue := q\<rparr>))"
      "j \<notin> set (finishing_of (wstate (w\<lparr>queue := q\<rparr>)))" for j
      using that d(10) [of j] r s by (auto simp: serves_def)
    show "body_ok (client_of (w\<lparr>queue := q\<rparr>) j)" if "j \<in> set (finishing_of (wstate (w\<lparr>queue := q\<rparr>)))" for j
      using that d(11) [of j] by simp
  qed
qed

section \<open>The steps of a worker\<close>

lemma wait_worker_ok:
  assumes ok: "worker_ok z A w" and st: "wstate w = Waiting" and rep: "reportable (queue w) ready"
  shows "worker_ok z A (wait_events_of ready w)"
proof (cases ready)
  case (Inl e)
  with ok show ?thesis by (simp add: wait_events_of_def kitserv_queue_wait_def)
next
  case (Inr es)
  note d = worker_okD [OF ok]
  from rep Inr obtain fds where f: "distinct fds" "\<forall>fd \<in> set fds. queue w fd \<noteq> None" "es = map (\<lambda>fd. the (queue w fd)) fds"
    by (auto simp: reportable_def)
  let ?ks = "map kitserv_queue_event_to_data es"
  have e: "data_ptr (the (queue w fd)) \<in> registered (queue w)" "sockfd (client_of w (data_ptr (the (queue w fd)))) = fd"
    if "fd \<in> set fds" for fd
    using f(2) that d(8) [of fd "the (queue w fd)"] registeredI [of "queue w" fd "the (queue w fd)"] by auto
  have "inj_on (\<lambda>fd. data_ptr (the (queue w fd))) (set fds)"
    by (rule inj_on_inverseI [of _ "\<lambda>k. sockfd (client_of w k)"]) (rule e(2))
  then have ks: "distinct ?ks" "set ?ks \<subseteq> registered (queue w)"
    using f(1) e(1) by (auto simp: f(3) kitserv_queue_event_to_data_def distinct_map o_def)
  then have "distinct (take MAX_EVENTS ?ks)" "set (take MAX_EVENTS ?ks) \<subseteq> registered (queue w)"
    by (simp_all only: distinct_take subset_trans [OF set_take_subset])
  then have "worker_ok z A (w\<lparr>wstate := Serving (take MAX_EVENTS ?ks)\<rparr>)"
    using ok st by (simp add: worker_ok_def)
  with Inr show ?thesis by (simp add: wait_events_of_def kitserv_queue_wait_def take_map)
qed

text \<open>The client of a slot that is not the one at hand is not touched.\<close>

lemma serve_worker_ok:
  assumes ok: "worker_ok z A w" and st: "wstate w = Serving (k # ks)"
    and c: "sockfd c = sockfd (client_of w k)" "body_ok c" "rc = 0 \<longrightarrow> serve_inv c"
  shows "worker_ok z A (served k ks (rc, c, os) w)"
proof -
  note d = worker_okD [OF ok]
  have k: "k \<in> registered (queue w)" "k \<in> out_of (conn_container w)" "k \<notin> snd ` set A" "k \<notin> set ks"
    using d(4-7) st by auto
  note p = put_out [OF d(1) k(2), where c = c]
  let ?w = "served k ks (rc, c, os) w"
  have w: "conn_container ?w = put_client (conn_container w) k c" "queue ?w = queue w"
    "wstate ?w = (if rc \<noteq> 0 then Removing k ks else Serving ks)" by (simp_all add: served_def)
  have cl: "client_of ?w k = c" "\<And>j. j \<noteq> k \<Longrightarrow> client_of ?w j = client_of w j" using p(3,4) w(1) by auto
  have e: "closing_of (wstate ?w) = []" "set (finishing_of (wstate ?w)) \<subseteq> {k}" "rc \<noteq> 0 \<Longrightarrow> finishing_of (wstate ?w) = [k]"
    "set (batch_of (wstate ?w)) \<subseteq> set (k # ks)" "distinct (batch_of (wstate ?w))"
    using w(3) d(6) st by auto
  show ?thesis
    unfolding worker_ok_def
  proof (intro conjI allI ballI impI)
    show "pool_ok z (conn_container ?w)" using p(1) w(1) by simp
    show "distinct (map snd A @ closing_of (wstate ?w))" using d(2) e(1) by simp
    show "(snd ` set A \<union> set (closing_of (wstate ?w))) \<inter> registered (queue ?w) = {}" using d(4) e(1) w(2) by auto
    show "snd ` set A \<union> set (closing_of (wstate ?w)) \<union> registered (queue ?w) \<subseteq> out_of (conn_container ?w)"
      using d(5) e(1) w p(2) by auto
    show "distinct (batch_of (wstate ?w))" by (rule e(5))
    show "set (batch_of (wstate ?w)) \<subseteq> registered (queue ?w)" using e(4) d(7) st w(2) by auto
    show "sockfd (client_of ?w (data_ptr x)) = fd" if "queue ?w fd = Some x" for fd x
      using that d(8) [of fd x] w(2) cl c(1) by (cases "data_ptr x = k") auto
    show "case p of (fd, j) \<Rightarrow> serves fd (client_of ?w j)" if "p \<in> set A" for p
    proof (cases p)
      case (Pair fd j)
      with that k(3) have "j \<noteq> k" by force
      with Pair that d(9) [of fd j] cl(2) show ?thesis by simp
    qed
    show "serve_inv (client_of ?w j)" if "j \<in> registered (queue ?w)" "j \<notin> set (finishing_of (wstate ?w))" for j
      using that d(10) [of j] w cl c(3) e(3) st by (cases "j = k"; cases "rc = 0") auto
    show "body_ok (client_of ?w j)" if "j \<in> set (finishing_of (wstate ?w))" for j
      using that e(2) cl(1) c(2) by auto
  qed
qed

lemma batch_worker_ok: "worker_ok z A w \<Longrightarrow> wstate w = Serving [] \<Longrightarrow> worker_ok z A (w\<lparr>wstate := Waiting\<rparr>)"
  by (simp add: worker_ok_def)

lemma remove_worker_ok:
  assumes ok: "worker_ok z A w" and st: "wstate w = Removing k ks"
  shows "worker_ok z A (remove_conn k ks w)"
proof -
  note d = worker_okD [OF ok]
  have k: "k \<in> registered (queue w)" "k \<notin> snd ` set A" "k \<notin> set ks" using d(4,6,7) st by auto
  let ?fd = "sockfd (client_of w k)" and ?w = "remove_conn k ks w"
  obtain e where e: "queue w ?fd = Some e" "data_ptr e = k" by (rule registered_at [OF ok k(1)])
  have w: "conn_container ?w = conn_container w" "queue ?w = (queue w)(?fd := None)" "wstate ?w = Closing k ks"
    using e(1) by (simp_all add: remove_conn_def queue_remove_present)
  have r: "registered (queue ?w) = registered (queue w) - {k}"
  proof
    show "registered (queue ?w) \<subseteq> registered (queue w) - {k}"
    proof
      fix j assume "j \<in> registered (queue ?w)"
      then obtain fd x where x: "queue w fd = Some x" "fd \<noteq> ?fd" "data_ptr x = j"
        using w(2) by (auto simp: registered_def ran_def split: if_splits)
      with d(8) [of fd x] registeredI [of "queue w" fd x] show "j \<in> registered (queue w) - {k}" by auto
    qed
    show "registered (queue w) - {k} \<subseteq> registered (queue ?w)"
    proof
      fix j assume "j \<in> registered (queue w) - {k}"
      then obtain fd x where x: "queue w fd = Some x" "data_ptr x = j" "j \<noteq> k" by (auto simp: registered_def ran_def)
      with e have "fd \<noteq> ?fd" by auto
      with x w(2) have "queue ?w fd = Some x" by simp
      from registeredI [of "queue ?w", OF this] x(2) show "j \<in> registered (queue ?w)" by simp
    qed
  qed
  show ?thesis
    unfolding worker_ok_def
  proof (intro conjI allI ballI impI)
    show "pool_ok z (conn_container ?w)" using d(1) w(1) by simp
    show "distinct (map snd A @ closing_of (wstate ?w))" using d(2) k(2) w(3) by auto
    show "(snd ` set A \<union> set (closing_of (wstate ?w))) \<inter> registered (queue ?w) = {}" using d(4) r w(3) by auto
    show "snd ` set A \<union> set (closing_of (wstate ?w)) \<union> registered (queue ?w) \<subseteq> out_of (conn_container ?w)"
      using d(5) r w k(1) by auto
    show "distinct (batch_of (wstate ?w))" using d(6) st w(3) by simp
    show "set (batch_of (wstate ?w)) \<subseteq> registered (queue ?w)" using d(7) st w(3) r k(3) by auto
    show "sockfd (client_of ?w (data_ptr x)) = fd" if "queue ?w fd = Some x" for fd x
      using that d(8) [of fd x] w by (auto split: if_splits)
    show "case p of (fd, j) \<Rightarrow> serves fd (client_of ?w j)" if "p \<in> set A" for p
      using that d(9) [of "fst p" "snd p"] w(1) by (cases p) auto
    show "serve_inv (client_of ?w j)" if "j \<in> registered (queue ?w)" "j \<notin> set (finishing_of (wstate ?w))" for j
      using that d(10) [of j] w r st by auto
    show "body_ok (client_of ?w j)" if "j \<in> set (finishing_of (wstate ?w))" for j
      using that d(11) [of k] w st by auto
  qed
qed

lemma close_worker_ok:
  "worker_ok z A w \<Longrightarrow> wstate w = Closing k ks \<Longrightarrow> worker_ok z A (w\<lparr>wstate := Freeing k ks\<rparr>)"
  by (simp add: worker_ok_def)

lemma free_worker_ok:
  assumes ok: "worker_ok z A w" and st: "wstate w = Freeing k ks"
  shows "worker_ok z A (free_conn al k ks w)"
proof -
  note d = worker_okD [OF ok]
  have k: "k \<in> out_of (conn_container w)" "k \<notin> snd ` set A" "k \<notin> registered (queue w)" "body_ok (client_of w k)"
    using d(3-5) d(11) [of k] st by auto
  note g = give_out [OF d(1) k(1,4), where ok = al]
  let ?w = "free_conn al k ks w"
  have w: "conn_container ?w = connection_close al (conn_container w) k" "queue ?w = queue w" "wstate ?w = Serving ks"
    by (simp_all add: free_conn_def)
  have cl: "client_of ?w j = client_of w j" if "j \<noteq> k" for j using g(3) that w(1) by simp
  show ?thesis
    unfolding worker_ok_def
  proof (intro conjI allI ballI impI)
    show "pool_ok z (conn_container ?w)" using g(1) w(1) by simp
    show "distinct (map snd A @ closing_of (wstate ?w))" using d(2) w(3) by simp
    show "(snd ` set A \<union> set (closing_of (wstate ?w))) \<inter> registered (queue ?w) = {}" using d(4) w by auto
    show "snd ` set A \<union> set (closing_of (wstate ?w)) \<union> registered (queue ?w) \<subseteq> out_of (conn_container ?w)"
      using d(5) w g(2) k by auto
    show "distinct (batch_of (wstate ?w))" "set (batch_of (wstate ?w)) \<subseteq> registered (queue ?w)" using d(6,7) st w by simp_all
    show "sockfd (client_of ?w (data_ptr x)) = fd" if "queue ?w fd = Some x" for fd x
    proof -
      from that w(2) have x: "queue w fd = Some x" by simp
      with k(3) registeredI [of "queue w" fd x] have "data_ptr x \<noteq> k" by auto
      from cl [OF this] d(8) [OF x] show ?thesis by simp
    qed
    show "case p of (fd, j) \<Rightarrow> serves fd (client_of ?w j)" if "p \<in> set A" for p
    proof (cases p)
      case (Pair fd j)
      with that k(2) have "j \<noteq> k" by force
      with Pair that d(9) [of fd j] cl show ?thesis by simp
    qed
    show "serve_inv (client_of ?w j)" if "j \<in> registered (queue ?w)" "j \<notin> set (finishing_of (wstate ?w))" for j
    proof -
      from that(1) w(2) have j: "j \<in> registered (queue w)" by simp
      with k(3) have "j \<noteq> k" by auto
      from cl [OF this] d(10) [OF j] \<open>j \<noteq> k\<close> st show ?thesis by simp
    qed
    show "body_ok (client_of ?w j)" if "j \<in> set (finishing_of (wstate ?w))" for j
      using that w(3) by simp
  qed
qed

section \<open>The whole server\<close>

fun accepter_ok :: "nat \<Rightarrow> accepter_state \<Rightarrow> bool" where
  "accepter_ok n (Selecting fd j (best, sc)) \<longleftrightarrow> (case best of None \<Rightarrow> j = 0 \<and> sc = -1 | Some v \<Rightarrow> v < n)"
| "accepter_ok n (Taking fd v) \<longleftrightarrow> v < n"
| "accepter_ok n (Adding fd v k) \<longleftrightarrow> v < n"
| "accepter_ok n a \<longleftrightarrow> True"

definition server_ok :: "nat option list \<Rightarrow> server \<Rightarrow> bool" where
  "server_ok qs s \<longleftrightarrow> workers s \<noteq> [] \<and>
     (\<forall>v < length (workers s). worker_ok (qs ! v) (adding_to v (accepters s)) (workers s ! v)) \<and>
     (\<forall>a \<in> set (accepters s). accepter_ok (length (workers s)) a)"

lemma server_okD:
  assumes "server_ok qs s"
  shows "workers s \<noteq> []" "v < length (workers s) \<Longrightarrow> worker_ok (qs ! v) (adding_to v (accepters s)) (workers s ! v)"
    "i < length (accepters s) \<Longrightarrow> accepter_ok (length (workers s)) (accepters s ! i)"
  using assms by (auto simp: server_ok_def)

lemma adding_split:
  assumes "i < length accs"
  shows "adding_to v accs = adding_to v (take i accs) @ adds v (accs ! i) @ adding_to v (drop (Suc i) accs)"
    "adding_to v (accs[i := a]) = adding_to v (take i accs) @ adds v a @ adding_to v (drop (Suc i) accs)"
proof -
  show "adding_to v accs = adding_to v (take i accs) @ adds v (accs ! i) @ adding_to v (drop (Suc i) accs)"
    using arg_cong [OF id_take_nth_drop [OF assms], of "adding_to v"] by (simp add: adding_to_def)
  show "adding_to v (accs[i := a]) = adding_to v (take i accs) @ adds v a @ adding_to v (drop (Suc i) accs)"
    using assms by (simp add: adding_to_def upd_conv_take_nth_drop)
qed

lemma adding_same:
  assumes "i < length accs" "adds v (accs ! i) = adds v a"
  shows "adding_to v (accs[i := a]) = adding_to v accs"
  using adding_split [OF assms(1), of v] assms(2) by simp

text \<open>A step of an accepter that neither takes nor registers, and a step of a worker.\<close>

lemma accepter_step_ok:
  assumes "server_ok qs s" "i < length (accepters s)" "\<And>v. adds v (accepters s ! i) = adds v a" "accepter_ok (length (workers s)) a"
  shows "server_ok qs (set_accepter i a (s\<lparr>socks := x\<rparr>))"
  using assms adding_same [OF assms(2) assms(3)] by (auto simp: server_ok_def dest!: subsetD [OF set_update_subset_insert])

lemma accepter_step_ok':
  assumes "server_ok qs s" "i < length (accepters s)" "\<And>v. adds v (accepters s ! i) = adds v a" "accepter_ok (length (workers s)) a"
  shows "server_ok qs (set_accepter i a s)"
  using accepter_step_ok [OF assms, of "socks s"] by simp

lemma worker_step_ok:
  assumes "server_ok qs s" "v < length (workers s)" "worker_ok (qs ! v) (adding_to v (accepters s)) w"
  shows "server_ok qs (set_worker v w (s\<lparr>socks := x\<rparr>))"
  using assms by (auto simp: server_ok_def nth_list_update)

lemma worker_step_ok':
  assumes "server_ok qs s" "v < length (workers s)" "worker_ok (qs ! v) (adding_to v (accepters s)) w"
  shows "server_ok qs (set_worker v w s)"
  using worker_step_ok [OF assms, of "socks s"] by simp

text \<open>A step that moves a connection between an accepter and a worker.\<close>

lemma handover_ok:
  assumes "server_ok qs s" "i < length (accepters s)" "v < length (workers s)" "accepter_ok (length (workers s)) a"
    "\<And>u. u \<noteq> v \<Longrightarrow> adds u (accepters s ! i) = adds u a"
    "worker_ok (qs ! v) (adding_to v ((accepters s)[i := a])) w"
  shows "server_ok qs (set_accepter i a (set_worker v w s))"
  using assms adding_same [OF assms(2) assms(5)]
  by (auto simp: server_ok_def nth_list_update dest!: subsetD [OF set_update_subset_insert])

lemma take_conn_ok:
  assumes ok: "server_ok qs s" and i: "i < length (accepters s)" "accepters s ! i = Taking fd v"
  shows "(\<exists>s'. take_conn i fd v s = Some s' \<and> server_ok qs s') \<or> take_conn i fd v s = None \<and> overrun qs s"
proof -
  have v: "v < length (workers s)" using server_okD(3) [OF ok i(1)] i(2) by simp
  note w = server_okD(2) [OF ok v]
  let ?w = "workers s ! v"
  from take_defined [OF worker_okD(1) [OF w], of fd] show ?thesis
  proof (elim disjE exE conjE)
    assume t: "freelist_count (conn_container ?w) = 0"
      "connection_accept (conn_container ?w) fd = (if qs ! v = None then Some (None, conn_container ?w) else None)"
    have "server_ok qs (set_accepter i (Rejecting fd) s)" by (rule accepter_step_ok' [OF ok i(1)]) (simp_all add: i(2))
    with t i v show ?thesis by (cases "qs ! v") (auto simp: take_conn_def overrun_def)
  next
    fix k ct assume t: "connection_accept (conn_container ?w) fd = Some (Some k, ct)"
    have "adding_to v (accepters s) = adding_to v (take i (accepters s)) @ adding_to v (drop (Suc i) (accepters s))"
      using adding_split(1) [OF i(1), of v] i(2) by simp
    with take_worker_ok [OF _ t] w adding_split(2) [OF i(1), of v "Adding fd v k"]
    have "worker_ok (qs ! v) (adding_to v ((accepters s)[i := Adding fd v k])) (?w\<lparr>conn_container := ct\<rparr>)" by simp
    from handover_ok [OF ok i(1) v _ _ this] i(2) v t show ?thesis by (simp add: take_conn_def)
  qed
qed

lemma add_conn_ok:
  assumes ok: "server_ok qs s" and i: "i < length (accepters s)" "accepters s ! i = Adding fd v k"
  shows "server_ok qs (add_conn i room fd v k s)"
proof -
  have v: "v < length (workers s)" using server_okD(3) [OF ok i(1)] i(2) by simp
  note w = server_okD(2) [OF ok v]
  obtain rc q where a: "kitserv_queue_add room (queue (workers s ! v)) fd k (QUEUE_IN OR QUEUE_OUT) False = (rc, q)"
    by (cases "kitserv_queue_add room (queue (workers s ! v)) fd k (QUEUE_IN OR QUEUE_OUT) False")
  have "adding_to v (accepters s) = adding_to v (take i (accepters s)) @ (fd, k) # adding_to v (drop (Suc i) (accepters s))"
    using adding_split(1) [OF i(1), of v] i(2) by simp
  with add_worker_ok [OF _ a] w adding_split(2) [OF i(1), of v Accepting]
  have "worker_ok (qs ! v) (adding_to v ((accepters s)[i := Accepting])) ((workers s ! v)\<lparr>queue := q\<rparr>)" by simp
  from handover_ok [OF ok i(1) v _ _ this] i(2) a show ?thesis by (simp add: add_conn_def)
qed

lemma score_next_ok:
  assumes ok: "server_ok qs s" and i: "i < length (accepters s)" "accepters s ! i = Selecting fd j best" and j: "j < length (workers s)"
  shows "\<exists>s'. score_next i fd j best s = Some s' \<and> server_ok qs s'"
proof -
  have c: "0 \<le> freelist_count (conn_container (workers s ! j))"
    using pool_okD(3) [OF worker_okD(1) [OF server_okD(2) [OF ok j]]] by simp
  obtain b sc where b: "best = (b, sc)" by (cases best)
  let ?n = "freelist_count (conn_container (workers s ! j))"
  have "accepter_ok (length (workers s)) (Selecting fd (j + 1) (select_step j ?n best))"
    using server_okD(3) [OF ok i(1)] i(2) j c b by (auto simp: select_step_def split: option.splits)
  from accepter_step_ok' [OF ok i(1) _ this] i(2) c show ?thesis by (simp add: score_next_def score_worker_def)
qed

lemma step_ok:
  assumes env: "able_server env" and ok: "server_ok qs s" and st: "step env content s r"
  shows "(\<exists>s'. r = Some s' \<and> server_ok qs s') \<or> r = None \<and> overrun qs s"
  using st
proof cases
  case (accepting i acceptfd)
  obtain fd k where k: "kitserv_socket_accept acceptfd (socks s) = (fd, k)" by (cases "kitserv_socket_accept acceptfd (socks s)")
  have "server_ok qs (set_accepter i (if fd < 0 then Accepting else Selecting fd 0 (None, -1)) (s\<lparr>socks := k\<rparr>))"
    by (rule accepter_step_ok [OF ok accepting(2)]) (simp_all add: accepting(3))
  with accepting k show ?thesis by (simp add: accept_conn_def)
next
  case (scoring i fd j best)
  with score_next_ok [OF ok scoring(2-4)] show ?thesis by simp
next
  case (selecting i fd j best)
  obtain b sc where b: "best = (b, sc)" by (cases best)
  with server_okD(3) [OF ok selecting(2)] server_okD(1) [OF ok] selecting obtain v where v: "b = Some v" "v < length (workers s)"
    by (auto split: option.splits)
  have "server_ok qs (set_accepter i (Taking fd v) s)"
    by (rule accepter_step_ok' [OF ok selecting(2)]) (simp_all add: selecting(3) v)
  with selecting b v show ?thesis by (simp add: selected_def)
next
  case (taking i fd v)
  with take_conn_ok [OF ok taking(2,3)] show ?thesis by simp
next
  case (rejecting i fd)
  have "server_ok qs (reject_conn i fd s)"
    unfolding reject_conn_def by (rule accepter_step_ok [OF ok rejecting(2)]) (simp_all add: rejecting(3))
  with rejecting show ?thesis by simp
next
  case (adding i fd v k room)
  with add_conn_ok [OF ok adding(2,3)] show ?thesis by simp
next
  case (waiting v ready)
  from worker_step_ok' [OF ok waiting(2) wait_worker_ok [OF server_okD(2) [OF ok waiting(2)] waiting(3,4)]] waiting
  show ?thesis by simp
next
  case (serving v k ks w res)
  note wk = server_okD(2) [OF ok serving(2)]
  have k: "k \<in> registered (queue (workers s ! v))" using worker_okD(7) [OF wk] serving(3) by simp
  then have inv: "serve_inv (client_of (workers s ! v) k)" using worker_okD(10) [OF wk k] serving(3) by simp
  from serve_client_total [OF env inv, of content w] obtain rc c os where
    c: "kitserv_http_serve_client env content (client_of (workers s ! v) k) w = Some (Some (rc, c, os))"
      "sockfd c = sockfd (client_of (workers s ! v) k)" "body_ok c" "rc = -1 \<or> rc = 0 \<and> serve_inv c" by blast
  from serve_worker_ok [OF wk serving(3) c(2,3), of rc os] c(4)
  have "worker_ok (qs ! v) (adding_to v (accepters s)) (served k ks (rc, c, os) (workers s ! v))" by auto
  from worker_step_ok' [OF ok serving(2) this] serving(1,4) c(1) show ?thesis by auto
next
  case (batch_done v)
  from worker_step_ok' [OF ok batch_done(2) batch_worker_ok [OF server_okD(2) [OF ok batch_done(2)] batch_done(3)]] batch_done
  show ?thesis by simp
next
  case (removing v k ks)
  from worker_step_ok' [OF ok removing(2) remove_worker_ok [OF server_okD(2) [OF ok removing(2)] removing(3)]] removing
  show ?thesis by simp
next
  case (closing v k ks)
  from worker_step_ok [OF ok closing(2) close_worker_ok [OF server_okD(2) [OF ok closing(2)] closing(3)]] closing
  show ?thesis by simp
next
  case (freeing v k ks)
  from worker_step_ok' [OF ok freeing(2) free_worker_ok [OF server_okD(2) [OF ok freeing(2)] freeing(3)]] freeing
  show ?thesis by simp
qed

lemma initial_ok:
  assumes "initial s"
  shows "server_ok (last_pointers s) s"
proof -
  have n: "adding_to v (accepters s) = []" for v
    using assms by (auto simp: initial_def adding_to_def)
  have "worker_ok (next_conn (last (connections (conn_container w)))) [] w" if w: "w \<in> set (workers s)" for w
  proof -
    from assms w obtain m block created h h' where "block \<noteq> []" "start_worker m block created h = Some (w, h')"
      unfolding initial_def by blast
    then obtain h1 where b: "block \<noteq> []" "connection_init m block h = Some (conn_container w, h1)" "queue w = Map.empty" "wstate w = Waiting"
      by (auto simp: start_worker_def bind_eq_Some_conv split: if_splits)
    from connection_started(1) [OF b(2,1)] b show ?thesis by (simp add: worker_ok_def registered_def)
  qed
  moreover have "accepter_ok (length (workers s)) a" if "a \<in> set (accepters s)" for a
    using assms that by (auto simp: initial_def)
  ultimately show ?thesis using assms n by (auto simp: server_ok_def initial_def last_pointers_def)
qed

lemma reachable_ok: "reachable env content s \<Longrightarrow> able_server env \<Longrightarrow> \<exists>qs. server_ok qs s"
proof (induction rule: reachable.induct)
  case (start s)
  then show ?case using initial_ok by blast
next
  case (run s s')
  with step_ok [OF _ _ run.hyps(2)] show ?case by blast
qed

abbreviation steps :: "env \<Rightarrow> (int \<Rightarrow> string) \<Rightarrow> server \<Rightarrow> server \<Rightarrow> bool" where
  "steps env content \<equiv> rtranclp (\<lambda>s s'. step env content s (Some s'))"

lemma steps_ok:
  assumes "steps env content s s'" "able_server env" "server_ok qs s"
  shows "server_ok qs s'"
  using assms(1) by (induction rule: rtranclp_induct) (use assms(2,3) step_ok in blast)+

section \<open>A worker comes back to its queue\<close>

fun rank :: "worker_state \<Rightarrow> nat" where
  "rank Waiting = 0"
| "rank (Serving ks) = 4 * length ks + 1"
| "rank (Freeing k ks) = 4 * length ks + 2"
| "rank (Closing k ks) = 4 * length ks + 3"
| "rank (Removing k ks) = 4 * length ks + 4"

text \<open>
  What worker \<open>v\<close> does next, when the kernel answers the calls for its connection as in \<open>w\<close>:
  nothing of its own at the queue, and no result at all if serving does not end.
\<close>

definition own_step :: "env \<Rightarrow> (int \<Rightarrow> string) \<Rightarrow> nat \<Rightarrow> os \<Rightarrow> server \<Rightarrow> server ub option" where
  "own_step env content v w s =
     (case wstate (workers s ! v) of
        Waiting \<Rightarrow> None
      | Serving [] \<Rightarrow> Some (Some (set_worker v ((workers s ! v)\<lparr>wstate := Waiting\<rparr>) s))
      | Serving (k # ks) \<Rightarrow> map_option (map_option (\<lambda>r. set_worker v (served k ks r (workers s ! v)) s))
          (kitserv_http_serve_client env content (client_of (workers s ! v) k) w)
      | Removing k ks \<Rightarrow> Some (Some (set_worker v (remove_conn k ks (workers s ! v)) s))
      | Closing k ks \<Rightarrow> Some (Some (set_worker v ((workers s ! v)\<lparr>wstate := Freeing k ks\<rparr>)
          (s\<lparr>socks := snd (kitserv_socket_close (sockfd (client_of (workers s ! v) k)) (socks s))\<rparr>)))
      | Freeing k ks \<Rightarrow> Some (Some (set_worker v (free_conn (alloc_ok env) k ks (workers s ! v)) s)))"

lemma own_step_step:
  assumes o: "own_step env content v w s = Some r" and v: "v < length (workers s)"
  shows "step env content s r"
proof (cases "wstate (workers s ! v)")
  case (Closing k ks)
  from step.closing [OF v Closing] o show ?thesis by (simp add: own_step_def Closing)
qed (use o v in \<open>auto simp: own_step_def intro: step.intros split: list.splits\<close>)

lemma own_step_total:
  assumes env: "able_server env" and ok: "server_ok qs s" and v: "v < length (workers s)" and busy: "wstate (workers s ! v) \<noteq> Waiting"
  shows "\<exists>s'. own_step env content v w s = Some (Some s')"
proof (cases "\<exists>k ks. wstate (workers s ! v) = Serving (k # ks)")
  case True
  then obtain k ks where st: "wstate (workers s ! v) = Serving (k # ks)" by blast
  note wk = server_okD(2) [OF ok v]
  have "k \<in> registered (queue (workers s ! v))" using worker_okD(7) [OF wk] st by simp
  then have "serve_inv (client_of (workers s ! v) k)" using worker_okD(10) [OF wk, of k] st by simp
  from serve_client_total [OF env this, of content w] st show ?thesis by (auto simp: own_step_def)
next
  case False
  with busy show ?thesis by (auto simp: own_step_def split: worker_state.splits list.splits)
qed

lemma take_conn_workers:
  assumes "take_conn i fd u s = Some s'"
  shows "\<exists>ct a. s' = set_accepter i a (set_worker u ((workers s ! u)\<lparr>conn_container := ct\<rparr>) s)"
proof -
  from assms obtain n ct where c: "connection_accept (conn_container (workers s ! u)) fd = Some (n, ct)"
    by (cases "connection_accept (conn_container (workers s ! u)) fd") (auto simp: take_conn_def)
  with assms show ?thesis by (cases n) (auto simp: take_conn_def Let_def)
qed

text \<open>The workers stay the same.\<close>

lemma step_length:
  assumes "step env content s (Some s')"
  shows "length (workers s') = length (workers s)"
  using assms
proof cases
  case (taking i fd u)
  with take_conn_workers [OF taking(1) [symmetric]] show ?thesis by auto
next
  case (serving v k ks w res)
  then show ?thesis by (cases res) auto
qed (auto simp: accept_conn_def score_next_def selected_def reject_conn_def add_conn_def bind_eq_Some_conv
    eq_commute [of "Some s'"] split: prod.splits)

lemma steps_length: "steps env content s s' \<Longrightarrow> length (workers s') = length (workers s)"
  by (induction rule: rtranclp_induct) (auto dest: step_length)

text \<open>Whoever makes a step, a worker that is busy stays as it is or comes closer to its queue.\<close>

lemma step_rank:
  assumes "step env content s (Some s')" and v: "v < length (workers s)" and busy: "wstate (workers s ! v) \<noteq> Waiting"
  shows "wstate (workers s' ! v) = wstate (workers s ! v) \<or> rank (wstate (workers s' ! v)) < rank (wstate (workers s ! v))"
  using assms(1)
proof cases
  case (serving u k ks w res)
  then show ?thesis using v by (cases res; cases "u = v") (auto simp: served_def split: prod.splits)
next
  case (taking i fd u)
  from take_conn_workers [OF taking(1) [symmetric]] obtain ct a where
    "s' = set_accepter i a (set_worker u ((workers s ! u)\<lparr>conn_container := ct\<rparr>) s)" by blast
  then show ?thesis using v by (cases "u = v") simp_all
next
  case (adding i fd u k room)
  then show ?thesis using v by (cases "u = v") (simp_all add: add_conn_def split: prod.splits)
qed (use v busy in \<open>auto simp: accept_conn_def score_next_def selected_def reject_conn_def remove_conn_def
    free_conn_def bind_eq_Some_conv nth_list_update Let_def eq_commute [of "Some s'"] split: prod.splits option.splits if_splits\<close>)

lemma own_step_moves:
  assumes "own_step env content v w s = Some (Some s')" "v < length (workers s)"
  shows "rank (wstate (workers s' ! v)) < rank (wstate (workers s ! v))"
  using assms by (auto simp: own_step_def served_def remove_conn_def free_conn_def split: worker_state.splits list.splits prod.splits)

text \<open>A stretch of the life of the server, with the steps that worker \<open>v\<close> has made in it.\<close>

fun run :: "env \<Rightarrow> (int \<Rightarrow> string) \<Rightarrow> server list \<Rightarrow> bool" where
  "run env content (s # t # ss) \<longleftrightarrow> step env content s (Some t) \<and> run env content (t # ss)"
| "run env content ss \<longleftrightarrow> True"

fun moves :: "nat \<Rightarrow> server list \<Rightarrow> nat" where
  "moves v (s # t # ss) = (if wstate (workers t ! v) = wstate (workers s ! v) then 0 else 1) + moves v (t # ss)"
| "moves v ss = 0"

lemma moves_bounded:
  "run env content (s # ss) \<Longrightarrow> v < length (workers s) \<Longrightarrow> \<forall>t \<in> set (s # ss). wstate (workers t ! v) \<noteq> Waiting \<Longrightarrow>
   moves v (s # ss) \<le> rank (wstate (workers s ! v))"
proof (induction ss arbitrary: s)
  case (Cons t ss)
  from Cons.prems have st: "step env content s (Some t)" and busy: "wstate (workers s ! v) \<noteq> Waiting" by simp_all
  note r = step_rank [OF st Cons.prems(2) busy]
  have "moves v (t # ss) \<le> rank (wstate (workers t ! v))" using Cons.IH [of t] Cons.prems step_length [OF st] by simp
  with r show ?case by auto
qed simp

lemma rank_bound: "rank st \<le> 4 * length (batch_of st) + 3"
  by (cases st) simp_all

section \<open>A small server\<close>

text \<open>One worker with two connections and two accepters, at the start, and a while later.\<close>

definition small_server :: server where
  "small_server =
     \<lparr>workers = [\<lparr>conn_container = fst (the (connection_init True (raw_block None) \<lparr>outcomes = [], blocks = 0\<rparr>)),
        queue = Map.empty, wstate = Waiting\<rparr>],
      accepters = [Accepting, Accepting], socks = quiet_socks []\<rparr>"

lemma small_initial: "initial small_server"
proof -
  obtain ct h' where i: "connection_init True (raw_block None) \<lparr>outcomes = [], blocks = 0\<rparr> = Some (ct, h')"
    using connection_init_pool [of "\<lparr>outcomes = [], blocks = 0\<rparr>" "raw_block None"] by (auto simp: raw_block_def)
  have b: "raw_block None \<noteq> []" "next_conn (last (raw_block None)) = None" by (simp_all add: raw_block_def)
  have w: "workers small_server = [\<lparr>conn_container = ct, queue = Map.empty, wstate = Waiting\<rparr>]"
    "accepters small_server = [Accepting, Accepting]" by (simp_all add: small_server_def i)
  have "start_worker True (raw_block None) (Inr 5) \<lparr>outcomes = [], blocks = 0\<rparr> =
      Some (\<lparr>conn_container = ct, queue = Map.empty, wstate = Waiting\<rparr>, h')"
    using i by (simp add: start_worker_def kitserv_queue_init_def)
  then have "\<exists>m block created h h'. block \<noteq> [] \<and>
      start_worker m block created h = Some (\<lparr>conn_container = ct, queue = Map.empty, wstate = Waiting\<rparr>, h')"
    using b by (intro exI [of _ True] exI [of _ "raw_block None"] exI [of _ "Inr 5"] exI [of _ "\<lparr>outcomes = [], blocks = 0\<rparr>"] exI [of _ h']) simp
  with w show ?thesis by (simp add: initial_def)
qed

lemma small_pointers: "last_pointers small_server = [None]"
proof -
  obtain ct h' where i: "connection_init True (raw_block None) \<lparr>outcomes = [], blocks = 0\<rparr> = Some (ct, h')"
    using connection_init_pool [of "\<lparr>outcomes = [], blocks = 0\<rparr>" "raw_block None"] by (auto simp: raw_block_def)
  have "raw_block None \<noteq> []" "next_conn (last (raw_block None)) = None" by (simp_all add: raw_block_def)
  with connection_started(2) [OF i] i show ?thesis by (simp add: last_pointers_def small_server_def)
qed

lemma small_taken:
  "\<exists>s. reachable polite_env content s \<and> length (workers s) = 1 \<and> length (accepters s) = 2 \<and>
     accepters s ! 0 = Adding 3 0 0 \<and> queue (workers s ! 0) = Map.empty \<and> wstate (workers s ! 0) = Waiting"
proof -
  note r0 = reachable.start [OF small_initial, of polite_env content]
  let ?s1 = "accept_conn 0 3 small_server"
  have a: "kitserv_socket_accept 3 (quiet_socks []) = (3, snd (kitserv_socket_accept 3 (quiet_socks [])))"
    by (simp add: kitserv_socket_accept_def sys_new_socket_def sys_call_def quiet_socks_def Let_def fresh_fd_def upto.simps)
  have s1: "accepters ?s1 = [Selecting 3 0 (None, -1), Accepting]" "length (workers ?s1) = 1"
    using a by (auto simp: accept_conn_def small_server_def split: prod.splits)
  have r1: "reachable polite_env content ?s1"
    by (rule reachable.run [OF r0 step.accepting]) (simp_all add: small_server_def)
  obtain qs where ok1: "server_ok qs ?s1" using reachable_ok [OF r1 polite_able] by blast
  have st: "step polite_env content ?s1 (score_next 0 3 0 (None, -1) ?s1)"
    by (rule step.scoring) (simp_all add: s1)
  have n: "0 \<le> freelist_count (conn_container (workers ?s1 ! 0))"
    using pool_okD(3) [OF worker_okD(1) [OF server_okD(2) [OF ok1, of 0]]] s1(2) by simp
  let ?s2 = "set_accepter 0 (Selecting 3 1 (Some 0, freelist_count (conn_container (workers ?s1 ! 0)))) ?s1"
  have "score_next 0 3 0 (None, -1) ?s1 = Some ?s2" using n by (simp add: score_next_def score_worker_def select_step_def)
  with reachable.run [OF r1] st have r2: "reachable polite_env content ?s2" by simp
  let ?s3 = "set_accepter 0 (Taking 3 0) ?s2"
  have "step polite_env content ?s2 (selected 0 3 (Some 0) ?s2)"
    using step.selecting [of 0 ?s2 3 1 "(Some 0, freelist_count (conn_container (workers ?s1 ! 0)))"] s1 by simp
  then have r3: "reachable polite_env content ?s3" using reachable.run [OF r2] by (simp add: selected_def)
  let ?ct = "conn_container (workers small_server ! 0)"
  have w3: "workers ?s3 = workers small_server" by (auto simp: accept_conn_def split: prod.splits)
  obtain ct where ct: "?ct = ct" "pool_ok None ct" "free_slots ct = [0..<2]"
    using connection_init_pool [of "\<lparr>outcomes = [], blocks = 0\<rparr>" "raw_block None"]
    by (auto simp: small_server_def raw_block_def numeral_2_eq_2)
  have "free_slots ct = 0 # [1]" using ct(3) by (simp add: upt_conv_Cons)
  from accept_some [OF ct(2) this, of 3] obtain ct' where t: "connection_accept ?ct 3 = Some (Some 0, ct')" using ct(1) by blast
  have st3: "step polite_env content ?s3 (take_conn 0 3 0 ?s3)"
    by (rule step.taking) (simp_all add: s1)
  have "take_conn 0 3 0 ?s3 = Some (set_accepter 0 (Adding 3 0 0) (set_worker 0 ((workers ?s3 ! 0)\<lparr>conn_container := ct'\<rparr>) ?s3))"
    using t w3 by (simp add: take_conn_def)
  with st3 reachable.run [OF r3] have
    "reachable polite_env content (set_accepter 0 (Adding 3 0 0) (set_worker 0 ((workers ?s3 ! 0)\<lparr>conn_container := ct'\<rparr>) ?s3))"
    by simp
  then show ?thesis
    by (intro exI conjI) (assumption, simp_all add: s1 accept_conn_def small_server_def split: prod.splits)
qed

section \<open>Properties\<close>

text \<open>
  C14: no connection is in two hands: in every reachable state, a registered connection serves
  the socket it is registered for, no two sockets share one, and none is on the free list,
  just being added, or counted as free.
\<close>

theorem connections_not_shared:
  assumes "able_server env" "reachable env content s" "v < length (workers s)"
    and q: "queue (workers s ! v) fd = Some e" "queue (workers s ! v) fd' = Some e'"
  shows "(data_ptr e = data_ptr e' \<longrightarrow> fd = fd') \<and> sockfd (client_of (workers s ! v) (data_ptr e)) = fd \<and>
    data_ptr e \<notin> set (free_slots (conn_container (workers s ! v))) \<and>
    (\<forall>i < length (accepters s). accepters s ! i \<noteq> Adding fd' v (data_ptr e)) \<and>
    freelist_count (conn_container (workers s ! v)) = int (length (free_slots (conn_container (workers s ! v))))"
proof -
  obtain qs where ok: "server_ok qs s" using reachable_ok [OF assms(2,1)] by blast
  note w = worker_okD [OF server_okD(2) [OF ok assms(3)]]
  have r: "data_ptr e \<in> registered (queue (workers s ! v))" by (rule registeredI [of _ fd]) (rule q(1))
  have "data_ptr e \<notin> set (free_slots (conn_container (workers s ! v)))" using w(5) r by (auto simp: out_of_def)
  moreover have "accepters s ! i \<noteq> Adding fd' v (data_ptr e)" if "i < length (accepters s)" for i
  proof
    assume a: "accepters s ! i = Adding fd' v (data_ptr e)"
    have "(fd', data_ptr e) \<in> set (adding_to v (accepters s))" using adding_split(1) [OF that, of v] a by simp
    then have "data_ptr e \<in> snd ` set (adding_to v (accepters s))" by force
    with w(4) r show False by auto
  qed
  ultimately show ?thesis using w(8) [OF q(1)] w(8) [OF q(2)] pool_okD(3) [OF w(1)] by auto
qed

lemma connections_not_shared_witness:
  "\<exists>s e. reachable polite_env (\<lambda>fd. ''0123456789'') s \<and> queue (workers s ! 0) 3 = Some e \<and>
    sockfd (client_of (workers s ! 0) (data_ptr e)) = 3"
proof -
  obtain s where s: "reachable polite_env (\<lambda>fd. ''0123456789'') s" "length (workers s) = 1" "length (accepters s) = 2"
    "accepters s ! 0 = Adding 3 0 0" "queue (workers s ! 0) = Map.empty" using small_taken by blast
  let ?s = "add_conn 0 True 3 0 0 s"
  have "step polite_env (\<lambda>fd. ''0123456789'') s (Some ?s)" by (rule step.adding) (use s in simp_all)
  with s(1) have r: "reachable polite_env (\<lambda>fd. ''0123456789'') ?s" by (rule reachable.run)
  have "kitserv_queue_add True (queue (workers s ! 0)) 3 0 (QUEUE_IN OR QUEUE_OUT) False =
      (0, (queue (workers s ! 0))(3 \<mapsto> \<lparr>events = wait_events (QUEUE_IN OR QUEUE_OUT) False, data_ptr = 0\<rparr>))"
    by (rule queue_add_fresh) (simp add: s(5))
  then have q: "queue (workers ?s ! 0) 3 = Some \<lparr>events = wait_events (QUEUE_IN OR QUEUE_OUT) False, data_ptr = 0\<rparr>"
    "0 < length (workers ?s)" using s(2) by (simp_all add: add_conn_def)
  from connections_not_shared [OF polite_able r q(2) q(1) q(1)] r q(1) show ?thesis by blast
qed

text \<open>
  C20: a worker always comes back to its queue. In every reachable state in which it has
  something to do, its next step is defined and ends whatever its peer does (\<open>w\<close> is any script
  of reads and writes), without waiting for another thread; and however the threads go on
  from there, a worker that has not been back at its queue has made at most four steps for
  each connection of its batch, and three more.
\<close>

theorem worker_always_returns:
  assumes "able_server env" "reachable env content s" "v < length (workers s)" "wstate (workers s ! v) \<noteq> Waiting"
  shows "(\<forall>w. \<exists>s'. own_step env content v w s = Some (Some s') \<and> step env content s (Some s') \<and>
      wstate (workers s' ! v) \<noteq> wstate (workers s ! v)) \<and>
    (\<forall>ss. run env content (s # ss) \<and> (\<forall>t \<in> set ss. wstate (workers t ! v) \<noteq> Waiting) \<longrightarrow>
      moves v (s # ss) \<le> 4 * length (batch_of (wstate (workers s ! v))) + 3)"
proof (intro conjI allI impI)
  fix w
  obtain qs where "server_ok qs s" using reachable_ok [OF assms(2,1)] by blast
  from own_step_total [OF assms(1) this assms(3,4), of content w] obtain s' where s': "own_step env content v w s = Some (Some s')" by blast
  with own_step_step [OF s' assms(3)] own_step_moves [OF s' assms(3)] show
    "\<exists>s'. own_step env content v w s = Some (Some s') \<and> step env content s (Some s') \<and> wstate (workers s' ! v) \<noteq> wstate (workers s ! v)"
    by force
next
  fix ss assume "run env content (s # ss) \<and> (\<forall>t \<in> set ss. wstate (workers t ! v) \<noteq> Waiting)"
  with moves_bounded [of env content s ss v] rank_bound [of "wstate (workers s ! v)"] assms(3,4)
  show "moves v (s # ss) \<le> 4 * length (batch_of (wstate (workers s ! v))) + 3" by force
qed

text \<open>A worker with an event for a new connection.\<close>

lemma small_busy:
  "\<exists>s. reachable polite_env content s \<and> 0 < length (workers s) \<and> wstate (workers s ! 0) = Serving [0]"
proof -
  obtain s where s: "reachable polite_env content s" "length (workers s) = 1" "length (accepters s) = 2"
    "accepters s ! 0 = Adding 3 0 0" "queue (workers s ! 0) = Map.empty" "wstate (workers s ! 0) = Waiting" using small_taken by blast
  let ?s = "add_conn 0 True 3 0 0 s" and ?e = "\<lparr>events = wait_events (QUEUE_IN OR QUEUE_OUT) False, data_ptr = 0\<rparr>"
  have r: "reachable polite_env content ?s" by (rule reachable.run [OF s(1) step.adding]) (use s in simp_all)
  have "kitserv_queue_add True (queue (workers s ! 0)) 3 0 (QUEUE_IN OR QUEUE_OUT) False = (0, (queue (workers s ! 0))(3 \<mapsto> ?e))"
    by (rule queue_add_fresh) (simp add: s(5))
  then have q: "queue (workers ?s ! 0) 3 = Some ?e" "wstate (workers ?s ! 0) = Waiting" "length (workers ?s) = 1"
    using s(2,6) by (simp_all add: add_conn_def)
  have "reportable (queue (workers ?s ! 0)) (Inr [?e])" using q(1) by (auto simp: reportable_def intro!: exI [of _ "[3]"])
  from reachable.run [OF r step.waiting [OF _ q(2) this]] q(3) show ?thesis
    by (intro exI) (auto simp: wait_events_of_def kitserv_queue_wait_def kitserv_queue_event_to_data_def MAX_EVENTS_def)
qed

lemma worker_always_returns_witness:
  "\<exists>s s'. wstate (workers s ! 0) = Serving [0] \<and> step polite_env (\<lambda>fd. ''0123456789'') s (Some s') \<and>
    own_step polite_env (\<lambda>fd. ''0123456789'') 0 (quiet_os\<lparr>os_in := [Chunk ''GET /'']\<rparr>) s = Some (Some s') \<and> moves 0 [s] \<le> 7"
proof -
  obtain s where s: "reachable polite_env (\<lambda>fd. ''0123456789'') s" "0 < length (workers s)" "wstate (workers s ! 0) = Serving [0]"
    using small_busy by blast
  note t = worker_always_returns [OF polite_able s(1,2)]
  obtain s' where "own_step polite_env (\<lambda>fd. ''0123456789'') 0 (quiet_os\<lparr>os_in := [Chunk ''GET /'']\<rparr>) s = Some (Some s')"
    "step polite_env (\<lambda>fd. ''0123456789'') s (Some s')" using t s(3) by auto
  moreover have "moves 0 [s] \<le> 7" using t s(3) by force
  ultimately show ?thesis using s(3) by blast
qed

text \<open>
  When the kernel refuses the registration of a new connection, its slot is lost: nobody
  holds it any more, and it is not free, not registered, and its socket stays open.
\<close>

theorem refused_registration_loses_slot:
  assumes "able_server env" "reachable env content s" "i < length (accepters s)" "accepters s ! i = Adding fd v k"
  shows "k \<notin> set (free_slots (conn_container (workers (add_conn i False fd v k s) ! v))) \<and>
    k \<notin> registered (queue (workers (add_conn i False fd v k s) ! v)) \<and>
    k \<notin> snd ` set (adding_to v (accepters (add_conn i False fd v k s))) \<and>
    k \<notin> set (closing_of (wstate (workers (add_conn i False fd v k s) ! v))) \<and>
    socks (add_conn i False fd v k s) = socks s"
proof -
  obtain qs where ok: "server_ok qs s" using reachable_ok [OF assms(2,1)] by blast
  have v: "v < length (workers s)" using server_okD(3) [OF ok assms(3)] assms(4) by simp
  have A: "adding_to v (accepters s) = adding_to v (take i (accepters s)) @ (fd, k) # adding_to v (drop (Suc i) (accepters s))"
    using adding_split(1) [OF assms(3), of v] assms(4) by simp
  note w = worker_okD [OF server_okD(2) [OF ok v]]
  have s': "add_conn i False fd v k s = set_accepter i Accepting s" using v by (simp add: add_conn_def queue_add_full)
  have "adding_to v ((accepters s)[i := Accepting]) = adding_to v (take i (accepters s)) @ adding_to v (drop (Suc i) (accepters s))"
    using adding_split(2) [OF assms(3), of v Accepting] by simp
  with w(2) A have "k \<notin> snd ` set (adding_to v ((accepters s)[i := Accepting]))" by auto
  moreover have "k \<in> snd ` set (adding_to v (accepters s))" using A by force
  ultimately show ?thesis using w(3,4,5) s' A by (auto simp: out_of_def)
qed

lemma refused_registration_loses_slot_witness:
  "\<exists>s. accepters s ! 0 = Adding 3 0 0 \<and> 0 \<notin> set (free_slots (conn_container (workers (add_conn 0 False 3 0 0 s) ! 0))) \<and>
    0 \<notin> registered (queue (workers (add_conn 0 False 3 0 0 s) ! 0))"
proof -
  obtain s where s: "reachable polite_env (\<lambda>fd. ''0123456789'') s" "length (accepters s) = 2" "accepters s ! 0 = Adding 3 0 0"
    using small_taken by blast
  with refused_registration_loses_slot [OF polite_able s(1), of 0 3 0 0] show ?thesis by auto
qed

end
