(* ===== verification/Server_Start.thy ===== *)
theory Server_Start
  imports Server_Safety
begin

text \<open>
  Starting the server (\<open>kitserv_server_start\<close> of \<^verbatim>\<open>src/kitserv.c\<close>) up to the point where every
  thread has passed the barrier. The calls that only succeed or fail are arguments, and the
  messages are left out (they are taken not to change \<^verbatim>\<open>errno\<close>). The wait for a signal that
  ends the program is in \<open>Program_Life\<close>.
\<close>

section \<open>Configuration\<close>

record kitserv_config =
  port_string :: string
  num_workers :: int
  num_slots :: int
  bind_ipv4 :: bool
  bind_ipv6 :: bool
  silent_mode :: bool
  http_root_context :: "kitserv_request_context option"
  http_api_tree :: "kitserv_api_tree option"

text \<open>
  Signals, by the numbers of Linux. The mask of a thread is the set of signals it blocks, a
  new thread has that of the thread that creates it; what is ignored is ignored by the process.
\<close>

type_synonym signal = int

definition SIGINT :: signal where "SIGINT = 2"
definition SIGPIPE :: signal where "SIGPIPE = 13"
definition SIGTERM :: signal where "SIGTERM = 15"

record signals =
  blocked :: "signal set"
  ignored :: "signal set"

text \<open>
  The outcomes of the calls in between: the two that fill the signal set, the signal mask, the
  action, memory, the barrier, the threads; and the signals blocked and ignored from the
  outset, which a process has from its parent.
\<close>

record startup =
  inherited :: signals
  sigset_ok :: bool
  sigprocmask_ok :: bool
  sigaction_ok :: bool
  workers_memory :: bool
  accepters_memory :: bool
  barrier_ok :: bool
  thread_ok :: "nat \<Rightarrow> bool"

text \<open>
  What is running at the end: the number of connections of each worker, how many threads
  the barrier waits for, the worker threads, the sockets of the accepter threads, the
  globals of the HTTP layer; the signals the main thread will wait for, the signal state of
  the main thread, the masks of the others.
\<close>

record running =
  slots_each :: int
  barrier_count :: int
  worker_threads :: nat
  accept_fds :: "int list"
  http_env :: env
  wait_set :: "signal set"
  main_signals :: signals
  thread_masks :: "signal set list"

datatype start = Exit int | Abort | Started running

section \<open>The steps of the start\<close>

definition check_config :: "kitserv_config \<Rightarrow> bool" where
  "check_config config \<longleftrightarrow> \<not> (num_slots config \<le> 0) \<and> \<not> (num_workers config \<le> 0) \<and>
     \<not> (num_slots config < num_workers config)"

text \<open>The sum is of type \<^verbatim>\<open>int\<close>; its overflow is undefined.\<close>

definition share_slots :: "kitserv_config \<Rightarrow> int ub" where
  "share_slots config =
     (if num_slots config + num_workers config < 2 ^ 31
      then Some ((num_slots config + num_workers config - 1) div num_workers config) else None)"

text \<open>
  Binding: IPv6 first, with IPv4 in its place where the system has none; then IPv4, which may
  fail where IPv6 already has both. The two flags, which are changed on the way, and the
  sockets, of which those with a flag will be used, or \<^term>\<open>None\<close> for \<^verbatim>\<open>exit(1)\<close>.
\<close>

definition bind_v6 :: "kitserv_config \<Rightarrow> resolver \<Rightarrow> sockets \<Rightarrow> (bool \<times> bool \<times> int \<times> sockets) option" where
  "bind_v6 config net s =
     (if bind_ipv6 config then
        (case kitserv_socket_prepare net (port_string config) True False s of
           (v6sock, s) \<Rightarrow>
             if v6sock < 0 then (if sock_errno s = EAFNOSUPPORT then Some (True, False, v6sock, s) else None)
             else Some (bind_ipv4 config, True, v6sock, s))
      else Some (bind_ipv4 config, False, 0, s))"

definition bind_v4 :: "kitserv_config \<Rightarrow> resolver \<Rightarrow> bool \<times> bool \<times> int \<times> sockets \<Rightarrow>
    ((bool \<times> int) \<times> (bool \<times> int) \<times> sockets) option" where
  "bind_v4 config net st =
     (case st of (bind4, bind6, v6sock, s) \<Rightarrow>
        if bind4 then
          (case kitserv_socket_prepare net (port_string config) False False s of
             (v4sock, s) \<Rightarrow>
               if v4sock < 0 then (if sock_errno s = EADDRINUSE \<and> bind6 then Some ((False, v4sock), (bind6, v6sock), s) else None)
               else Some ((True, v4sock), (bind6, v6sock), s))
        else Some ((False, 0), (bind6, v6sock), s))"

text \<open>
  \<^verbatim>\<open>SIGINT\<close> and \<^verbatim>\<open>SIGTERM\<close> are blocked, \<^verbatim>\<open>SIGPIPE\<close> is ignored: the signal set, and the state
  left behind.
\<close>

definition block_signals :: "startup \<Rightarrow> (signal set \<times> signals) option" where
  "block_signals sys =
     (let sigset = insert SIGTERM (insert SIGINT {}) in
      if \<not> sigset_ok sys then None
      else if \<not> sigprocmask_ok sys then None
      else let st = (inherited sys)\<lparr>blocked := blocked (inherited sys) \<union> sigset\<rparr> in
      if \<not> sigaction_ok sys then None
      else Some (sigset, st\<lparr>ignored := insert SIGPIPE (ignored st)\<rparr>))"

text \<open>
  The barrier counts the two flags; then the threads are created one after the other, each
  with the mask of its creator: the workers, the accepter of IPv4, and that of IPv6.
\<close>

definition start_threads ::
    "kitserv_config \<Rightarrow> startup \<Rightarrow> int \<Rightarrow> env \<Rightarrow> signal set \<times> signals \<Rightarrow> bool \<times> int \<Rightarrow> bool \<times> int \<Rightarrow> start" where
  "start_threads config sys slots env sig v4 v6 =
     (let mask = blocked (snd sig);
          count = num_workers config + (if fst v4 then 1 else 0) + (if fst v6 then 1 else 0) + 1;
          workers = replicate (nat (num_workers config)) mask;
          accepters = (if fst v4 then [(snd v4, mask)] else []) @ (if fst v6 then [(snd v6, mask)] else []) in
      if accepters_memory sys \<and> barrier_ok sys \<and> (\<forall>i < length workers + length accepters. thread_ok sys i)
      then Started \<lparr>slots_each = slots, barrier_count = count,
             worker_threads = length workers, accept_fds = map fst accepters, http_env = env,
             wait_set = fst sig, main_signals = snd sig, thread_masks = workers @ map snd accepters\<rparr>
      else Abort)"

definition kitserv_server_start :: "kitserv_config \<Rightarrow> startup \<Rightarrow> resolver \<Rightarrow> env \<Rightarrow> sockets \<Rightarrow> (start \<times> sockets) ub" where
  "kitserv_server_start config sys net env s =
     (if \<not> check_config config then Some (Exit 1, s)
      else do {
        slots \<leftarrow> share_slots config;
        Some (case kitserv_http_init (env\<lparr>silent := silent_mode config\<rparr>) (http_root_context config) (http_api_tree config) of
            None \<Rightarrow> (Abort, s)
          | Some env \<Rightarrow>
              (case block_signals sys of
                 None \<Rightarrow> (Abort, s)
               | Some sig \<Rightarrow>
                   if \<not> workers_memory sys then (Abort, s)
                   else (case bind_v6 config net s of
                      None \<Rightarrow> (Exit 1, s)
                    | Some st \<Rightarrow>
                        (case bind_v4 config net st of
                           None \<Rightarrow> (Exit 1, s)
                         | Some (v4, v6, s) \<Rightarrow> (start_threads config sys slots env sig v4 v6, s))))) })"

section \<open>What has been bound\<close>

text \<open>The sockets in use, which are open and listen.\<close>

abbreviation in_use :: "bool \<times> int \<Rightarrow> bool \<times> int \<Rightarrow> int list" where
  "in_use v4 v6 \<equiv> (if fst v4 then [snd v4] else []) @ (if fst v6 then [snd v6] else [])"

definition all_listen :: "int list \<Rightarrow> sockets \<Rightarrow> bool" where
  "all_listen fds s \<longleftrightarrow> socks_ok s \<and> distinct fds \<and> set fds \<subseteq> set (open_socks s) \<and> set fds \<subseteq> set (listening s)"

lemma prepare_listens:
  assumes "all_listen fds s" "kitserv_socket_prepare net port v6 nonblock s = (fd, s')"
  shows "if fd < 0 then all_listen fds s' else all_listen (fd # fds) s'"
  using prepare_bound [of s net port v6 nonblock fd s'] assms by (auto simp: all_listen_def bound_def socks_ok_def)

lemma all_listen_swap: "all_listen (a # b # fds) s = all_listen (b # a # fds) s"
  by (auto simp: all_listen_def)

lemma binds_listen:
  assumes "socks_ok s" "bind_v6 config net s = Some st" "bind_v4 config net st = Some (v4, v6, s')"
  shows "all_listen (in_use v4 v6) s' \<and> (bind_ipv4 config \<or> bind_ipv6 config \<longrightarrow> fst v4 \<or> fst v6)"
proof -
  obtain b4 b6 k6 s1 where st: "st = (b4, b6, k6, s1)" by (cases st)
  have none: "all_listen [] s" using assms(1) by (simp add: all_listen_def)
  have 1: "all_listen (if b6 then [k6] else []) s1 \<and> (bind_ipv4 config \<or> bind_ipv6 config \<longrightarrow> b4 \<or> b6)"
    using assms(2) st none prepare_listens [OF none, of net "port_string config" True False k6 s1]
    by (auto simp: bind_v6_def split: if_splits prod.splits)
  obtain k4 s2 where p: "kitserv_socket_prepare net (port_string config) False False s1 = (k4, s2)"
    by (cases "kitserv_socket_prepare net (port_string config) False False s1")
  show ?thesis
    using assms(3) st 1 p prepare_listens [OF conjunct1 [OF 1] p] by (auto simp: bind_v4_def Let_def split: if_splits)
qed

lemma startedD:
  assumes "kitserv_server_start config sys net env s = Some (Started r, s')"
  obtains st v4 v6 env' where "check_config config" "share_slots config = Some (slots_each r)"
    "kitserv_http_init (env\<lparr>silent := silent_mode config\<rparr>) (http_root_context config) (http_api_tree config) = Some env'"
    "bind_v6 config net s = Some st" "bind_v4 config net st = Some (v4, v6, s')"
    "barrier_count r = num_workers config + int (length (in_use v4 v6)) + 1" "worker_threads r = nat (num_workers config)"
    "accept_fds r = in_use v4 v6" "http_env r = env'" "block_signals sys = Some (wait_set r, main_signals r)"
    "thread_masks r = replicate (worker_threads r + length (in_use v4 v6)) (blocked (main_signals r))"
proof -
  let ?init = "kitserv_http_init (env\<lparr>silent := silent_mode config\<rparr>) (http_root_context config) (http_api_tree config)"
  have c: "check_config config" using assms by (auto simp: kitserv_server_start_def split: if_splits)
  note unf = assms [unfolded kitserv_server_start_def]
  obtain slots where sl: "share_slots config = Some slots" using unf c by (cases "share_slots config") auto
  obtain env' where e: "?init = Some env'" using unf c sl by (cases ?init) auto
  obtain sig where sg: "block_signals sys = Some sig" using unf c sl e by (cases "block_signals sys") auto
  have ok: "workers_memory sys" using unf c sl e sg by (auto split: if_splits)
  obtain st where st: "bind_v6 config net s = Some st" using unf c sl e sg ok by (cases "bind_v6 config net s") auto
  obtain v4 v6 s2 where f: "bind_v4 config net st = Some (v4, v6, s2)"
    using unf c sl e sg ok st by (cases "bind_v4 config net st") auto
  have r: "start_threads config sys slots env' sig v4 v6 = Started r" "s2 = s'" using unf c sl e sg ok st f by auto
  have a: "map fst ((if fst v4 then [(snd v4, m)] else []) @ (if fst v6 then [(snd v6, m)] else [])) = in_use v4 v6"
    "replicate n m @ map snd ((if fst v4 then [(snd v4, m)] else []) @ (if fst v6 then [(snd v6, m)] else [])) =
       replicate (n + length (in_use v4 v6)) m" for m :: "signal set" and n
    by (auto simp: replicate_add replicate_append_same)
  have "r = \<lparr>slots_each = slots, barrier_count = num_workers config + int (length (in_use v4 v6)) + 1,
       worker_threads = nat (num_workers config), accept_fds = in_use v4 v6, http_env = env', wait_set = fst sig, main_signals = snd sig,
       thread_masks = replicate (nat (num_workers config) + length (in_use v4 v6)) (blocked (snd sig))\<rparr>"
    using r(1) a [where m = "blocked (snd sig)"] by (auto simp: start_threads_def Let_def split: if_splits)
  then show thesis using c sl e sg st f r(2) by (intro that [of env' st v4 v6]) simp_all
qed

text \<open>
  The slots are shared out evenly and none is missing: at least as many as configured, fewer
  than one more for each worker, and at least one for each.
\<close>

lemma slots_shared:
  assumes "kitserv_server_start config sys net env s = Some (Started r, s')"
  shows "num_slots config \<le> slots_each r * int (worker_threads r) \<and>
    slots_each r * int (worker_threads r) < num_slots config + int (worker_threads r) \<and>
    1 \<le> slots_each r \<and> 1 \<le> worker_threads r \<and> int (worker_threads r) = num_workers config"
proof -
  have f: "check_config config" "share_slots config = Some (slots_each r)" "worker_threads r = nat (num_workers config)"
    by (rule startedD [OF assms], assumption)+
  from f(1) have n: "0 < num_slots config" "0 < num_workers config" "num_workers config \<le> num_slots config"
    by (auto simp: check_config_def)
  have w: "int (worker_threads r) = num_workers config" using f(3) n by simp
  have q: "slots_each r = (num_slots config + num_workers config - 1) div num_workers config"
    using f(2) by (simp add: share_slots_def split: if_splits)
  let ?n = "num_workers config" and ?m = "num_slots config + num_workers config - 1"
  have d: "slots_each r * ?n + ?m mod ?n = ?m" "0 \<le> ?m mod ?n" "?m mod ?n < ?n" using n by (simp_all add: q)
  have "1 \<le> slots_each r" using n zdiv_mono1 [of ?n ?m ?n] by (simp add: q)
  moreover have "1 \<le> worker_threads r" using w n(2) by linarith
  moreover have "num_slots config \<le> slots_each r * ?n" "slots_each r * ?n < num_slots config + ?n" using d by linarith+
  ultimately show ?thesis by (simp add: w)
qed

lemma started_listens:
  assumes "socks_ok s" "kitserv_server_start config sys net env s = Some (Started r, s')"
  shows "all_listen (accept_fds r) s' \<and> (bind_ipv4 config \<or> bind_ipv6 config \<longrightarrow> accept_fds r \<noteq> []) \<and>
    barrier_count r = int (worker_threads r + length (accept_fds r) + 1)"
proof -
  from assms(2) obtain st v4 v6 where f: "check_config config" "bind_v6 config net s = Some st" "bind_v4 config net st = Some (v4, v6, s')"
    "barrier_count r = num_workers config + int (length (in_use v4 v6)) + 1" "worker_threads r = nat (num_workers config)"
    "accept_fds r = in_use v4 v6"
    by (elim startedD) blast
  have "barrier_count r = int (worker_threads r + length (accept_fds r) + 1)" using f(1,4-6) by (simp add: check_config_def)
  with binds_listen [OF assms(1) f(2,3)] f(6) show ?thesis by auto
qed

text \<open>
  No thread takes \<^verbatim>\<open>SIGINT\<close> or \<^verbatim>\<open>SIGTERM\<close>, which the main thread waits for, and a
  broken connection is no signal.
\<close>

lemma started_signals:
  assumes "kitserv_server_start config sys net env s = Some (Started r, s')"
  shows "wait_set r = {SIGINT, SIGTERM} \<and> SIGPIPE \<in> ignored (main_signals r) \<and>
    length (thread_masks r) = worker_threads r + length (accept_fds r) \<and>
    (\<forall>m \<in> set (blocked (main_signals r) # thread_masks r). {SIGINT, SIGTERM} \<subseteq> m)"
proof -
  have b: "block_signals sys = Some (wait_set r, main_signals r)"
    and m: "thread_masks r = replicate (worker_threads r + length (accept_fds r)) (blocked (main_signals r))"
    by (rule startedD [OF assms], simp)+
  from b have "wait_set r = {SIGINT, SIGTERM}" and st: "main_signals r = (inherited sys)
      \<lparr>blocked := insert SIGTERM (insert SIGINT (blocked (inherited sys))), ignored := insert SIGPIPE (ignored (inherited sys))\<rparr>"
    by (auto simp: block_signals_def Let_def split: if_splits)
  moreover from st have "SIGPIPE \<in> ignored (main_signals r)" "{SIGINT, SIGTERM} \<subseteq> blocked (main_signals r)" by simp_all
  ultimately show ?thesis using m by auto
qed

section \<open>Properties\<close>

definition all_well :: startup where
  "all_well = \<lparr>inherited = \<lparr>blocked = {}, ignored = {}\<rparr>, sigset_ok = True, sigprocmask_ok = True, sigaction_ok = True,
     workers_memory = True, accepters_memory = True, barrier_ok = True, thread_ok = (\<lambda>_. True)\<rparr>"

definition sample_config :: kitserv_config where
  "sample_config = \<lparr>port_string = ''8012'', num_workers = 3, num_slots = 8, bind_ipv4 = True, bind_ipv6 = True,
     silent_mode = False, http_root_context = Some (default_context sample_env), http_api_tree = None\<rparr>"

lemma sample_started:
  "\<exists>r s'. kitserv_server_start sample_config all_well dual_stack sample_env (quiet_socks []) = Some (Started r, s') \<and>
     worker_threads r = 3 \<and> length (accept_fds r) = 2"
  by (simp add: kitserv_server_start_def sample_config_def check_config_def share_slots_def kitserv_http_init_def sample_env_def
      all_well_def bind_v6_def bind_v4_def start_threads_def block_signals_def kitserv_socket_prepare_def find_and_bind_socket_def dual_stack_def
      AF_INET_def AF_INET6_def bind_address_def sys_new_socket_def sys_call_def sys_listen_def quiet_socks_def Let_def fresh_fd_def
      upto.simps freeaddrinfo_def)

text \<open>
  C30: a server that starts listens, on as many open sockets as it has accepter threads, at
  least one if any family was asked for, and its barrier waits for exactly the threads that
  were started and the main one, so that the start does not hang.
\<close>

theorem started_server_listens:
  assumes "socks_ok s" "kitserv_server_start config sys net env s = Some (Started r, s')"
  shows "all_listen (accept_fds r) s' \<and> (bind_ipv4 config \<or> bind_ipv6 config \<longrightarrow> accept_fds r \<noteq> []) \<and>
    barrier_count r = int (worker_threads r + length (accept_fds r) + 1)"
  using assms by (rule started_listens)

lemma started_server_listens_witness:
  "\<exists>r s'. kitserv_server_start sample_config all_well dual_stack sample_env (quiet_socks []) = Some (Started r, s') \<and>
     all_listen (accept_fds r) s' \<and> accept_fds r \<noteq> []"
proof -
  obtain r s' where r: "kitserv_server_start sample_config all_well dual_stack sample_env (quiet_socks []) = Some (Started r, s')"
    using sample_started by blast
  have "socks_ok (quiet_socks [])" by (simp add: socks_ok_def quiet_socks_def)
  from started_server_listens [OF this r] r show ?thesis by (simp add: sample_config_def)
qed

text \<open>
  On a system without IPv6, a server that was told to use IPv6 only falls back to IPv4 and
  starts.
\<close>

theorem falls_back_to_ipv4:
  assumes "check_config config" "num_slots config + num_workers config < 2 ^ 31" "http_root_context config = Some ctx" "root ctx \<noteq> None"
    and "bind_ipv6 config" "\<forall>i. thread_ok sys i" "sigset_ok sys" "sigprocmask_ok sys" "sigaction_ok sys" "workers_memory sys" "accepters_memory sys" "barrier_ok sys"
    and "kitserv_socket_prepare net (port_string config) True False s = (-1, s1)" "sock_errno s1 = EAFNOSUPPORT"
    and "kitserv_socket_prepare net (port_string config) False False s1 = (v4, s2)" "0 \<le> v4"
  shows "\<exists>r. kitserv_server_start config sys net env s = Some (Started r, s2) \<and> accept_fds r = [v4]"
  using assms
  by (auto simp: kitserv_server_start_def share_slots_def kitserv_http_init_def bind_v6_def bind_v4_def start_threads_def block_signals_def Let_def)

lemma falls_back_to_ipv4_witness:
  defines "net \<equiv> dual_stack\<lparr>getaddrinfo := (\<lambda>_. Inr
     [\<lparr>ai_family = AF_INET, ai_socktype = 1, ai_protocol = 6, ai_addr = ''0.0.0.0''\<rparr>])\<rparr>"
    and "config \<equiv> sample_config\<lparr>bind_ipv4 := False\<rparr>"
  shows "\<exists>r s2. kitserv_server_start config all_well net sample_env (quiet_socks []) = Some (Started r, s2) \<and> accept_fds r = [3]"
proof -
  let ?s1 = "(quiet_socks [])\<lparr>sock_errno := EAFNOSUPPORT\<rparr>"
  have v6: "kitserv_socket_prepare net (port_string config) True False (quiet_socks []) = (-1, ?s1)"
    by (simp add: net_def kitserv_socket_prepare_def find_and_bind_socket_def dual_stack_def AF_INET_def AF_INET6_def freeaddrinfo_def quiet_socks_def)
  obtain s2 where v4: "kitserv_socket_prepare net (port_string config) False False ?s1 = (3, s2)"
    by (simp add: net_def kitserv_socket_prepare_def find_and_bind_socket_def dual_stack_def AF_INET_def AF_INET6_def bind_address_def
        sys_new_socket_def sys_call_def sys_listen_def quiet_socks_def Let_def fresh_fd_def upto.simps freeaddrinfo_def)
  have "root (default_context sample_env) \<noteq> None" by (simp add: sample_env_def)
  from falls_back_to_ipv4 [OF _ _ _ this _ _ _ _ _ _ _ _ v6 _ v4, of all_well sample_env] show ?thesis
    by (auto simp: config_def sample_config_def check_config_def all_well_def)
qed

end
