(* ===== verification/Main_Program.thy ===== *)
theory Main_Program
  imports Server_Start
begin

text \<open>
  The program (\<^verbatim>\<open>src/main.c\<close>): the options of the command line, with \<^verbatim>\<open>getopt\<close> and
  \<^verbatim>\<open>atoi\<close> of the C library as GNU has them, what it prints, and the start of the server.
  \<^verbatim>\<open>exit(1)\<close> is a \<^term>\<open>Inl\<close> with the message that was written to the standard error (without
  those that \<^verbatim>\<open>getopt\<close> writes itself).
\<close>

section \<open>The C library\<close>

text \<open>\<^verbatim>\<open>atoi\<close> is \<^verbatim>\<open>strtol\<close> cut to 32 bits.\<close>

definition atoi :: "string \<Rightarrow> int" where
  "atoi s = sint (word_of_int (fst (strtoll s)) :: 32 word)"

text \<open>
  Whether a character is an option of the option string, and if so, whether it takes an
  argument.
\<close>

fun lookup_opt :: "string \<Rightarrow> char \<Rightarrow> bool option" where
  "lookup_opt [] c = None"
| "lookup_opt (x # rest) c =
     (if x = c \<and> c \<noteq> CHR '':'' then Some (rest \<noteq> [] \<and> hd rest = CHR '':'') else lookup_opt rest c)"

text \<open>
  One word of options: the options with their arguments, and the words left. An unknown
  option or a missing argument gives a question mark.
\<close>

fun short_opts :: "string \<Rightarrow> string \<Rightarrow> string list \<Rightarrow> (char \<times> string) list \<times> string list" where
  "short_opts optstring [] args = ([], args)"
| "short_opts optstring (c # cs) args =
     (case lookup_opt optstring c of
        None \<Rightarrow> (case short_opts optstring cs args of (os, rest) \<Rightarrow> ((CHR ''?'', []) # os, rest))
      | Some False \<Rightarrow> (case short_opts optstring cs args of (os, rest) \<Rightarrow> ((c, []) # os, rest))
      | Some True \<Rightarrow>
          if cs \<noteq> [] then ([(c, cs)], args)
          else (case args of [] \<Rightarrow> ([(CHR ''?'', [])], []) | a # rest \<Rightarrow> ([(c, a)], rest)))"

lemma short_opts_length: "short_opts optstring cs args = (os, rest) \<Longrightarrow> length rest \<le> length args"
  by (induction cs arbitrary: os) (auto split: option.splits bool.splits prod.splits if_splits list.splits)

text \<open>All options; words that are none are passed over, two dashes end them.\<close>

function getopt :: "string \<Rightarrow> string list \<Rightarrow> (char \<times> string) list" where
  "getopt optstring [] = []"
| "getopt optstring (a # args) =
     (if a = ''--'' then []
      else if 1 < length a \<and> hd a = CHR ''-'' then
        (case short_opts optstring (tl a) args of (os, rest) \<Rightarrow> os @ getopt optstring rest)
      else getopt optstring args)"
  by pat_completeness auto
termination
  by (relation "measure (\<lambda>(_, args). length args)") (auto dest!: sym [where t = "short_opts _ _ _"] short_opts_length)

section \<open>The options\<close>

definition DEFAULT_PORT_STRING :: string where "DEFAULT_PORT_STRING = ''8012''"
definition DEFAULT_FALLBACK_PATH :: string where "DEFAULT_FALLBACK_PATH = ''200.html''"
definition DEFAULT_FALLBACK_ROOT_PATH :: string where "DEFAULT_FALLBACK_ROOT_PATH = ''index.html''"
definition DEFAULT_NUM_WORKERS :: int where "DEFAULT_NUM_WORKERS = 2"
definition DEFAULT_NUM_SLOTS :: int where "DEFAULT_NUM_SLOTS = 128"

text \<open>The configuration points to the context, which the options go on to change; here it holds it.\<close>

definition default_config :: kitserv_config where
  "default_config = \<lparr>port_string = DEFAULT_PORT_STRING, num_workers = DEFAULT_NUM_WORKERS, num_slots = DEFAULT_NUM_SLOTS,
     bind_ipv4 = True, bind_ipv6 = True, silent_mode = False,
     http_root_context = Some \<lparr>root = None, root_fallback = Some DEFAULT_FALLBACK_ROOT_PATH,
       fallback = Some DEFAULT_FALLBACK_PATH, use_http_append_fallback = True\<rparr>,
     http_api_tree = None\<rparr>"

definition on_context :: "(kitserv_request_context \<Rightarrow> kitserv_request_context) \<Rightarrow> kitserv_config \<Rightarrow> kitserv_config" where
  "on_context f cfg = cfg\<lparr>http_root_context := map_option f (http_root_context cfg)\<rparr>"

text \<open>The text of \<open>usage\<close>; \<^verbatim>\<open>argv[0]\<close> is the name of the program.\<close>

definition usage :: "string \<Rightarrow> string" where
  "usage prog_name =
     ''Usage: '' @ prog_name @ '' -w webdir [-p port] [-s slots] [-t threads] [-f fallback] [-r root_fb] [-4] [-6] [-h]'' @ [LF] @
     [TAB] @ ''-w webdir     Root directory from which to serve files.'' @ [LF] @
     [TAB] @ ''-p port       Port to run on (default: '' @ DEFAULT_PORT_STRING @ '').'' @ [LF] @
     [TAB] @ ''-s slots      Number of connection slots to allocate (default: '' @ dec_int DEFAULT_NUM_SLOTS @ '').'' @ [LF] @
     [TAB] @ ''-t threads    Number of worker threads to use for serving clients (default: '' @ dec_int DEFAULT_NUM_WORKERS @
       '').'' @ [LF] @
     [TAB] @ ''-f fallback   Path to fallback resource (default: '' @ DEFAULT_FALLBACK_PATH @ '').'' @ [LF] @
     [TAB] @ ''-r root_fb    Path to fallback resource when the path is / (default: '' @ DEFAULT_FALLBACK_ROOT_PATH @ '').'' @ [LF] @
     [TAB] @ ''-4            Bind IPv4 only.'' @ [LF] @
     [TAB] @ ''-6            Bind IPv6 only, or both when dual binding is enabled (falls back to IPv4 if no IPv6).'' @ [LF] @
     [TAB] @ ''-h            Show this help.'' @ [LF]"

text \<open>One pass of the loop, with the option and \<^verbatim>\<open>optarg\<close>.\<close>

definition option_step :: "string \<Rightarrow> char \<Rightarrow> string \<Rightarrow> kitserv_config \<Rightarrow> string + kitserv_config" where
  "option_step prog_name opt optarg cfg =
     (if opt = CHR ''w'' then Inr (on_context (\<lambda>ctx. ctx\<lparr>root := Some optarg\<rparr>) cfg)
      else if opt = CHR ''p'' then Inr (cfg\<lparr>port_string := optarg\<rparr>)
      else if opt = CHR ''s'' then
        (let n = atoi optarg in
         if n < 1 then Inl (''Invalid slot count ('' @ dec_int n @ '').'' @ [LF]) else Inr (cfg\<lparr>num_slots := n\<rparr>))
      else if opt = CHR ''t'' then
        (let n = atoi optarg in
         if n < 1 then Inl (''Invalid worker count ('' @ dec_int n @ '').'' @ [LF]) else Inr (cfg\<lparr>num_workers := n\<rparr>))
      else if opt = CHR ''f'' then Inr (on_context (\<lambda>ctx. ctx\<lparr>fallback := Some optarg\<rparr>) cfg)
      else if opt = CHR ''r'' then Inr (on_context (\<lambda>ctx. ctx\<lparr>root_fallback := Some optarg\<rparr>) cfg)
      else if opt = CHR ''4'' then Inr (cfg\<lparr>bind_ipv4 := True, bind_ipv6 := False\<rparr>)
      else if opt = CHR ''6'' then Inr (cfg\<lparr>bind_ipv4 := False, bind_ipv6 := True\<rparr>)
      else Inl (usage prog_name))"

fun parse_options :: "string \<Rightarrow> (char \<times> string) list \<Rightarrow> kitserv_config \<Rightarrow> string + kitserv_config" where
  "parse_options prog_name [] cfg = Inr cfg"
| "parse_options prog_name ((opt, optarg) # opts) cfg =
     (case option_step prog_name opt optarg cfg of
        Inl msg \<Rightarrow> Inl msg
      | Inr cfg \<Rightarrow> parse_options prog_name opts cfg)"

definition main_config :: "string list \<Rightarrow> string + kitserv_config" where
  "main_config argv =
     (case parse_options (hd argv) (getopt ''w:p:s:t:f:r:46h'' (tl argv)) default_config of
        Inl msg \<Rightarrow> Inl msg
      | Inr cfg \<Rightarrow> if map_option root (http_root_context cfg) = Some None then Inl (usage (hd argv)) else Inr cfg)"

definition main_program :: "string list \<Rightarrow> startup \<Rightarrow> resolver \<Rightarrow> env \<Rightarrow> sockets \<Rightarrow> (start \<times> sockets) ub" where
  "main_program argv sys net env s =
     (case main_config argv of
        Inl msg \<Rightarrow> Some (Exit 1, s)
      | Inr cfg \<Rightarrow> kitserv_server_start cfg sys net env s)"

section \<open>What comes out\<close>

text \<open>What every option keeps.\<close>

definition config_ok :: "kitserv_config \<Rightarrow> bool" where
  "config_ok cfg \<longleftrightarrow> 1 \<le> num_slots cfg \<and> num_slots cfg < 2 ^ 31 \<and> 1 \<le> num_workers cfg \<and> num_workers cfg < 2 ^ 31 \<and>
     (bind_ipv4 cfg \<or> bind_ipv6 cfg) \<and> http_root_context cfg \<noteq> None \<and> http_api_tree cfg = None \<and> \<not> silent_mode cfg"

lemma atoi_range: "- (2 ^ 31) \<le> atoi s \<and> atoi s < 2 ^ 31"
  using sint_range_size [of "word_of_int (fst (strtoll s)) :: 32 word"] by (simp add: atoi_def word_size)

lemma option_step_ok: "config_ok cfg \<Longrightarrow> option_step prog opt optarg cfg = Inr cfg' \<Longrightarrow> config_ok cfg'"
  using atoi_range [of optarg] by (auto simp: option_step_def config_ok_def on_context_def Let_def split: if_splits)

lemma parse_options_ok: "config_ok cfg \<Longrightarrow> parse_options prog opts cfg = Inr cfg' \<Longrightarrow> config_ok cfg'"
  by (induction prog opts cfg rule: parse_options.induct) (auto dest: option_step_ok split: sum.splits)

lemma default_config_ok: "config_ok default_config"
  by (simp add: config_ok_def default_config_def DEFAULT_NUM_SLOTS_def DEFAULT_NUM_WORKERS_def)

lemma main_configD:
  assumes "main_config argv = Inr cfg"
  shows "config_ok cfg" "\<exists>ctx. http_root_context cfg = Some ctx \<and> root ctx \<noteq> None"
  using assms parse_options_ok [OF default_config_ok, of "hd argv" "getopt ''w:p:s:t:f:r:46h'' (tl argv)"]
  by (auto simp: main_config_def config_ok_def split: if_splits sum.splits)

lemma atoi_dec_nat:
  assumes "n < 2 ^ 31"
  shows "atoi (dec_nat n) = int n"
proof -
  have d: "\<forall>c \<in> set (dec_nat n). isdigit c" using dec_nat_digits by blast
  obtain x xs where x: "dec_nat n = x # xs" by (cases "dec_nat n") auto
  have "strtoll (dec_nat n) = (int n, [], False)"
  proof -
    have tw: "takeWhile isdigit (dec_nat n) = dec_nat n" "dropWhile isdigit (dec_nat n) = []" using d by auto
    have "dropWhile isspace (dec_nat n) = dec_nat n" "\<not> hd (dec_nat n) = CHR ''-''" "\<not> hd (dec_nat n) = CHR ''+''"
      using d x isdigit_not_sign [of x] by auto
    with tw assms show ?thesis by (simp add: strtoll_def Let_def del: takeWhile_eq_all_conv dropWhile_eq_Nil_conv)
  qed
  moreover have "sint (word_of_int (int n) :: 32 word) = int n"
    using assms by (simp add: signed_of_nat signed_take_bit_int_eq_self)
  ultimately show ?thesis by (simp add: atoi_def)
qed

lemma started_static:
  assumes "main_program argv sys net env k = Some (Started r, k')" "\<forall>f fd. open_file env f = Inr fd \<longrightarrow> 0 < fd"
  shows "static_server (http_env r)"
proof -
  from assms(1) obtain cfg where c: "main_config argv = Inr cfg" "kitserv_server_start cfg sys net env k = Some (Started r, k')"
    by (auto simp: main_program_def split: sum.splits)
  note m = main_configD [OF c(1)]
  from c(2) obtain e where "kitserv_http_init (env\<lparr>silent := silent_mode cfg\<rparr>) (http_root_context cfg) (http_api_tree cfg) = Some e"
    and r: "http_env r = e" by (auto elim!: startedD)
  from this(1) have "static_server e" using m assms(2)
    by (auto simp: kitserv_http_init_def static_server_def config_ok_def split: if_splits)
  with r show ?thesis by simp
qed

text \<open>A program that starts the server itself may bring endpoints.\<close>

lemma started_able:
  assumes "kitserv_server_start cfg sys net env k = Some (Started r, k')" "\<forall>f fd. open_file env f = Inr fd \<longrightarrow> 0 < fd"
    and "case http_api_tree cfg of None \<Rightarrow> True | Some tree \<Rightarrow> proper_tree tree \<and> endpoints_behave env"
  shows "able_server (http_env r)"
proof -
  from assms(1) obtain e where "kitserv_http_init (env\<lparr>silent := silent_mode cfg\<rparr>) (http_root_context cfg) (http_api_tree cfg) = Some e"
    and r: "http_env r = e" by (auto elim!: startedD)
  from this(1) have "able_server e" using assms(2,3)
    by (auto simp: kitserv_http_init_def able_server_def endpoints_behave_def split: if_splits option.splits)
  with r show ?thesis by simp
qed

section \<open>Properties\<close>

text \<open>
  C37: whatever the command line, a server is only started with a web root, at least one
  worker and one slot, and at least one address family, and never with API endpoints.
\<close>

theorem main_config_sound:
  assumes "main_config argv = Inr cfg"
  shows "config_ok cfg \<and> (\<exists>ctx. http_root_context cfg = Some ctx \<and> root ctx \<noteq> None)"
  using main_configD [OF assms] by blast

lemma main_config_sound_witness:
  "\<exists>cfg. main_config [''kitserv'', ''-6'', ''-w'', ''/srv'', ''-s9''] = Inr cfg \<and> config_ok cfg"
proof -
  have "\<exists>cfg. main_config [''kitserv'', ''-6'', ''-w'', ''/srv'', ''-s9''] = Inr cfg"
    by (simp add: main_config_def option_step_def atoi_def strtoll_def isspace_def isdigit_def digits_val_def digit_val_def
        default_config_def on_context_def)
  then obtain cfg where c: "main_config [''kitserv'', ''-6'', ''-w'', ''/srv'', ''-s9''] = Inr cfg" by blast
  from main_config_sound [OF c] c show ?thesis by blast
qed

text \<open>
  C32: the numbers of slots and threads are read back from their decimal form, as separate
  words or in one, and the web root as it was given.
\<close>

theorem command_line_read_back:
  assumes "1 \<le> n" "n < 2 ^ 31" "1 \<le> m" "m < 2 ^ 31"
  shows "\<exists>cfg ctx. main_config [prog, ''-s'', dec_nat n, CHR ''-'' # CHR ''t'' # dec_nat m, ''-w'', dir] = Inr cfg \<and>
    num_slots cfg = int n \<and> num_workers cfg = int m \<and> http_root_context cfg = Some ctx \<and> root ctx = Some dir \<and>
    port_string cfg = DEFAULT_PORT_STRING \<and> bind_ipv4 cfg \<and> bind_ipv6 cfg"
  using assms by (simp add: main_config_def option_step_def default_config_def on_context_def atoi_dec_nat)

lemma command_line_read_back_witness:
  "\<exists>cfg ctx. main_config [''kitserv'', ''-s'', dec_nat 300, CHR ''-'' # CHR ''t'' # dec_nat 4, ''-w'', ''/srv''] = Inr cfg \<and>
    num_slots cfg = int 300 \<and> num_workers cfg = int 4 \<and> http_root_context cfg = Some ctx \<and> root ctx = Some ''/srv'' \<and>
    port_string cfg = DEFAULT_PORT_STRING \<and> bind_ipv4 cfg \<and> bind_ipv6 cfg"
  by (rule command_line_read_back) simp_all

text \<open>
  The program as a whole: if it starts, it listens on at least one socket, its workers have
  all the slots between them, and its HTTP layer is a server of static files, for which
  serving is proved to be defined and to end.
\<close>

theorem program_serves_static_files:
  assumes "main_program argv sys net env s = Some (Started r, s')" "socks_ok s" "\<forall>f fd. open_file env f = Inr fd \<longrightarrow> 0 < fd"
  shows "accept_fds r \<noteq> [] \<and> all_listen (accept_fds r) s' \<and> static_server (http_env r)"
proof -
  from assms(1) obtain cfg where c: "main_config argv = Inr cfg" "kitserv_server_start cfg sys net env s = Some (Started r, s')"
    by (auto simp: main_program_def split: sum.splits)
  have "bind_ipv4 cfg \<or> bind_ipv6 cfg" using main_configD(1) [OF c(1)] by (simp add: config_ok_def)
  with started_listens [OF assms(2) c(2)] started_static [OF assms(1,3)] show ?thesis by simp
qed

lemma program_serves_static_files_witness:
  "\<exists>r s'. main_program [''kitserv'', ''-w'', ''/w'', ''-t'', ''3''] all_well dual_stack sample_env (quiet_socks []) = Some (Started r, s') \<and>
    accept_fds r \<noteq> [] \<and> static_server (http_env r)"
proof -
  have c: "main_config [''kitserv'', ''-w'', ''/w'', ''-t'', ''3''] = Inr (default_config\<lparr>num_workers := 3,
      http_root_context := Some \<lparr>root = Some ''/w'', root_fallback = Some DEFAULT_FALLBACK_ROOT_PATH,
       fallback = Some DEFAULT_FALLBACK_PATH, use_http_append_fallback = True\<rparr>\<rparr>)"
    by (simp add: main_config_def option_step_def atoi_def strtoll_def isspace_def isdigit_def digits_val_def digit_val_def
        default_config_def on_context_def)
  have "\<exists>r s'. main_program [''kitserv'', ''-w'', ''/w'', ''-t'', ''3''] all_well dual_stack sample_env (quiet_socks []) = Some (Started r, s')"
    unfolding main_program_def c
    by (simp add: kitserv_server_start_def default_config_def DEFAULT_NUM_SLOTS_def check_config_def share_slots_def kitserv_http_init_def
      all_well_def bind_v6_def bind_v4_def start_threads_def block_signals_def kitserv_socket_prepare_def find_and_bind_socket_def dual_stack_def
      AF_INET_def AF_INET6_def bind_address_def sys_new_socket_def sys_call_def sys_listen_def quiet_socks_def Let_def fresh_fd_def
      upto.simps freeaddrinfo_def)
  then obtain r s' where r: "main_program [''kitserv'', ''-w'', ''/w'', ''-t'', ''3''] all_well dual_stack sample_env (quiet_socks []) = Some (Started r, s')"
    by blast
  have "\<forall>f fd. open_file sample_env f = Inr fd \<longrightarrow> 0 < fd" using sample_ready(1) by (simp add: static_server_def)
  moreover have "socks_ok (quiet_socks [])" by (simp add: socks_ok_def quiet_socks_def)
  ultimately show ?thesis using program_serves_static_files [OF r] r by blast
qed

end
