(* ===== verification/Program_Life.thy ===== *)
theory Program_Life
  imports Main_Program
begin

text \<open>
  The life of the process: from \<^verbatim>\<open>main\<close> (\<^verbatim>\<open>src/main.c\<close>) through the start to the threads of
  \<open>Server\<close> running next to the main thread, which waits for a signal (the end of
  \<open>kitserv_server_start\<close> in \<^verbatim>\<open>src/kitserv.c\<close>), and to the end of the program. Signals arrive
  at any time, also while the threads run.
\<close>

section \<open>The main thread\<close>

text \<open>What \<^verbatim>\<open>main\<close> prints before the start and after the return of \<open>kitserv_server_start\<close>.\<close>

definition banner :: "kitserv_config \<Rightarrow> string list" where
  "banner config = [''Starting on port '' @ port_string config @ ''.'' @ [LF],
     ''Web root:  '' @ the (root (the (http_root_context config))) @ [LF]]"

definition farewell :: "string list" where
  "farewell = [''Kitserv shutting down.'' @ [LF]]"

text \<open>
  How far the process is; \<open>Undefined\<close> is undefined behaviour or a failed assertion in a thread.
  \<open>main_output\<close> is what the main thread has printed; the lines that the workers print to the
  same stream, one for each request, come between these and are not part of it.
\<close>

datatype stage = Running | Exited int | Killed signal | Aborted | Undefined

record process =
  threads :: server
  pending_signals :: "signal set"
  stage :: stage
  main_output :: "string list"

text \<open>
  The loop around \<^verbatim>\<open>sigwait\<close>, with what the call gives: an error ends the process, so that it
  never goes round; a signal ends the start, and with it \<^verbatim>\<open>main\<close>. Nothing is joined or
  released: the threads end with the process.
\<close>

definition caught :: "signal \<Rightarrow> string list" where
  "caught sig = [''Caught signal '' @ dec_int sig @ ''.'' @ [LF]]"

definition main_wait :: "errno + signal \<Rightarrow> process \<Rightarrow> process" where
  "main_wait res p = (case res of
     Inl e \<Rightarrow> p\<lparr>stage := Aborted\<rparr>
   | Inr sig \<Rightarrow> p\<lparr>pending_signals := pending_signals p - {sig}, main_output := main_output p @ caught sig @ farewell, stage := Exited 0\<rparr>)"

section \<open>Signals\<close>

text \<open>
  What Linux does with a signal: one that every thread blocks stays pending; otherwise, if it
  is not ignored, its default action is taken. \<open>fatal\<close> are the signals whose default action
  ends the process.
\<close>

definition deliver :: "(signal \<Rightarrow> bool) \<Rightarrow> running \<Rightarrow> signal \<Rightarrow> process \<Rightarrow> process" where
  "deliver fatal r sig p =
     (if \<forall>m \<in> set (blocked (main_signals r) # thread_masks r). sig \<in> m
      then p\<lparr>pending_signals := insert sig (pending_signals p)\<rparr>
      else if sig \<in> ignored (main_signals r) then p
      else if fatal sig then p\<lparr>stage := Killed sig\<rparr>
      else p)"

section \<open>The process\<close>

text \<open>
  The state behind the barrier, for what the start has set up: as many workers and accepters,
  and connections for each worker.
\<close>

definition launched :: "running \<Rightarrow> server \<Rightarrow> bool" where
  "launched r s \<longleftrightarrow> initial s \<and> length (workers s) = worker_threads r \<and> length (accepters s) = length (accept_fds r) \<and>
     (\<forall>w \<in> set (workers s). int (length (connections (conn_container w))) = slots_each r)"

text \<open>A running process goes on with a step of a thread, a signal, or the return of \<^verbatim>\<open>sigwait\<close>.\<close>

inductive life_step :: "(signal \<Rightarrow> bool) \<Rightarrow> (errno \<Rightarrow> bool) \<Rightarrow> (int \<Rightarrow> string) \<Rightarrow> running \<Rightarrow> process \<Rightarrow> process \<Rightarrow> bool"
  for fatal wait_fails content r where
  thread: "stage p = Running \<Longrightarrow> step (http_env r) content (threads p) s \<Longrightarrow>
    life_step fatal wait_fails content r p (case s of None \<Rightarrow> p\<lparr>stage := Undefined\<rparr> | Some s \<Rightarrow> p\<lparr>threads := s\<rparr>)"
| arrival: "stage p = Running \<Longrightarrow> life_step fatal wait_fails content r p (deliver fatal r sig p)"
| signalled: "stage p = Running \<Longrightarrow> sig \<in> wait_set r \<Longrightarrow> sig \<in> pending_signals p \<Longrightarrow>
    life_step fatal wait_fails content r p (main_wait (Inr sig) p)"
| failing: "stage p = Running \<Longrightarrow> wait_fails e \<Longrightarrow> life_step fatal wait_fails content r p (main_wait (Inl e) p)"

inductive_cases life_stepE: "life_step fatal wait_fails content r p p'"

abbreviation life_steps :: "(signal \<Rightarrow> bool) \<Rightarrow> (errno \<Rightarrow> bool) \<Rightarrow> (int \<Rightarrow> string) \<Rightarrow> running \<Rightarrow> process \<Rightarrow> process \<Rightarrow> bool" where
  "life_steps fatal wait_fails content r \<equiv> rtranclp (life_step fatal wait_fails content r)"

text \<open>The process at the moment the start is done.\<close>

definition begun :: "string list \<Rightarrow> startup \<Rightarrow> resolver \<Rightarrow> env \<Rightarrow> sockets \<Rightarrow> running \<Rightarrow> process \<Rightarrow> bool" where
  "begun argv sys net env k r p \<longleftrightarrow>
     (\<exists>cfg k'. main_config argv = Inr cfg \<and> main_program argv sys net env k = Some (Started r, k') \<and>
        launched r (threads p) \<and> socks (threads p) = k' \<and> pending_signals p = {} \<and> stage p = Running \<and> main_output p = banner cfg)"

section \<open>What holds throughout\<close>

text \<open>
  Seen from outside: while it runs, the threads are in order and the two signals are held
  back for the main thread; how it ends is told by its stage.
\<close>

definition life_ok :: "nat option list \<Rightarrow> (signal \<Rightarrow> bool) \<Rightarrow> (errno \<Rightarrow> bool) \<Rightarrow> string list \<Rightarrow> process \<Rightarrow> bool" where
  "life_ok qs fatal wait_fails start p \<longleftrightarrow> server_ok qs (threads p) \<and>
     (case stage p of
        Running \<Rightarrow> main_output p = start
      | Exited n \<Rightarrow> n = 0 \<and> (\<exists>sig \<in> {SIGINT, SIGTERM}. main_output p = start @ caught sig @ farewell)
      | Killed sig \<Rightarrow> fatal sig \<and> sig \<notin> {SIGINT, SIGTERM, SIGPIPE} \<and> main_output p = start
      | Aborted \<Rightarrow> (\<exists>e. wait_fails e)
      | Undefined \<Rightarrow> overrun qs (threads p))"

text \<open>The signal state of a server that has started.\<close>

definition guarded :: "running \<Rightarrow> bool" where
  "guarded r \<longleftrightarrow> wait_set r = {SIGINT, SIGTERM} \<and> SIGPIPE \<in> ignored (main_signals r) \<and>
     (\<forall>m \<in> set (blocked (main_signals r) # thread_masks r). {SIGINT, SIGTERM} \<subseteq> m)"

lemma guarded_holds_back:
  assumes "guarded r" "sig \<in> {SIGINT, SIGTERM}"
  shows "deliver fatal r sig p = p\<lparr>pending_signals := insert sig (pending_signals p)\<rparr>"
  using assms by (auto simp: guarded_def deliver_def)

lemma guarded_killed:
  assumes "guarded r" "stage (deliver fatal r sig p) = Killed s" "stage p = Running"
  shows "s = sig \<and> fatal sig \<and> sig \<notin> {SIGINT, SIGTERM, SIGPIPE}"
proof -
  from assms(2,3) have k: "\<not> (\<forall>m \<in> set (blocked (main_signals r) # thread_masks r). sig \<in> m)"
    "sig \<notin> ignored (main_signals r)" "fatal sig" "s = sig"
    by (auto simp: deliver_def split: if_splits)
  with assms(1) show ?thesis by (auto simp: guarded_def)
qed

lemma deliver_keeps [simp]: "threads (deliver fatal r sig p) = threads p" "main_output (deliver fatal r sig p) = main_output p"
  by (simp_all add: deliver_def)

lemma deliver_stage: "stage p = Running \<Longrightarrow> stage (deliver fatal r sig p) = Running \<or> stage (deliver fatal r sig p) = Killed sig"
  by (simp add: deliver_def)

lemma life_step_ok:
  assumes "able_server (http_env r)" "guarded r" "life_ok qs fatal wait_fails start p" "life_step fatal wait_fails content r p p'"
  shows "life_ok qs fatal wait_fails start p'"
  using assms(4)
proof cases
  case (thread s)
  have ok: "server_ok qs (threads p)" using assms(3) by (simp add: life_ok_def)
  from step_ok [OF assms(1) ok thread(3)] thread ok assms(3) show ?thesis by (auto simp: life_ok_def)
next
  case (arrival sig)
  from deliver_stage [OF arrival(2), of fatal r sig] show ?thesis
  proof
    assume "stage (deliver fatal r sig p) = Running"
    with arrival assms(3) show ?thesis by (simp add: life_ok_def)
  next
    assume k: "stage (deliver fatal r sig p) = Killed sig"
    from guarded_killed [OF assms(2) k arrival(2)] k arrival assms(3) show ?thesis by (simp add: life_ok_def)
  qed
next
  case (signalled sig)
  then have "sig \<in> {SIGINT, SIGTERM}" using assms(2) by (simp add: guarded_def)
  with signalled assms(3) show ?thesis by (auto simp: life_ok_def main_wait_def)
next
  case (failing e)
  with assms(3) show ?thesis by (auto simp: life_ok_def main_wait_def)
qed

lemma life_steps_ok:
  assumes "life_steps fatal wait_fails content r p p'" "able_server (http_env r)" "guarded r" "life_ok qs fatal wait_fails start p"
  shows "life_ok qs fatal wait_fails start p'"
  using assms(1) by (induction rule: rtranclp_induct) (use assms(2-4) life_step_ok in blast)+

lemma begunD:
  assumes "begun argv sys net env k r p" "\<forall>f fd. open_file env f = Inr fd \<longrightarrow> 0 < fd"
  obtains cfg where "main_config argv = Inr cfg" "able_server (http_env r)" "guarded r"
    "life_ok (last_pointers (threads p)) fatal wait_fails (banner cfg) p" "stage p = Running"
proof -
  from assms(1) obtain cfg k' where b: "main_config argv = Inr cfg" "main_program argv sys net env k = Some (Started r, k')"
    "launched r (threads p)" "stage p = Running" "main_output p = banner cfg" by (auto simp: begun_def)
  have "kitserv_server_start cfg sys net env k = Some (Started r, k')" using b(1,2) by (simp add: main_program_def)
  then have "guarded r" using started_signals by (simp add: guarded_def)
  moreover have "able_server (http_env r)" by (rule static_able [OF started_static [OF b(2) assms(2)]])
  moreover have "server_ok (last_pointers (threads p)) (threads p)" using b(3) by (auto simp: launched_def intro: initial_ok)
  ultimately show thesis using that b by (simp add: life_ok_def)
qed

text \<open>A signal that is held back stays until the main thread takes it.\<close>

lemma pending_stays:
  assumes "life_steps fatal wait_fails content r p p'" "sig \<in> pending_signals p" "stage p' = Running"
  shows "sig \<in> pending_signals p'"
  using assms(1,3)
proof (induction rule: rtranclp_induct)
  case base
  with assms(2) show ?case by simp
next
  case (step p1 p2)
  from step.hyps(2) have "stage p1 = Running" by (auto elim!: life_stepE)
  with step show ?case by (auto elim!: life_stepE simp: main_wait_def deliver_def split: option.splits)
qed

lemma initial_full:
  assumes "initial s" "w \<in> set (workers s)"
  shows "freelist_count (conn_container w) = int (length (connections (conn_container w)))"
proof -
  from assms obtain m block created h h' where b: "block \<noteq> []" "start_worker m block created h = Some (w, h')"
    unfolding initial_def by blast
  then obtain h1 where "connection_init m block h = Some (conn_container w, h1)"
    by (auto simp: start_worker_def bind_eq_Some_conv split: if_splits)
  note c = connection_started [OF this b(1)]
  from pool_okD(3) [OF c(1)] c(3,4) show ?thesis by simp
qed

section \<open>Properties\<close>

text \<open>A program that starts with one worker of two connections, and listens on two sockets.\<close>

definition small_command :: "string list" where
  "small_command = [''kitserv'', ''-w'', ''/w'', ''-t'', ''1'', ''-s'', ''2'']"

text \<open>The same as a configuration of a program that brings endpoints.\<close>

definition endpoint_config :: kitserv_config where
  "endpoint_config = sample_config\<lparr>num_workers := 1, num_slots := 2, http_api_tree := Some sample_tree\<rparr>"

lemma small_launched:
  assumes "worker_threads r = 1" "slots_each r = 2" "length (accept_fds r) = 2"
  shows "launched r small_server"
proof -
  have "length (connections (conn_container (workers small_server ! 0))) = 2"
    using connection_init_pool [of "\<lparr>outcomes = [], blocks = 0\<rparr>" "raw_block None"]
    by (auto simp: small_server_def raw_block_def)
  moreover have "length (workers small_server) = 1" "length (accepters small_server) = 2" by (simp_all add: small_server_def)
  ultimately show ?thesis using small_initial assms by (auto simp: launched_def in_set_conv_nth)
qed

lemma small_program:
  "\<exists>r k'. main_program small_command all_well dual_stack sample_env (quiet_socks []) = Some (Started r, k') \<and>
     launched r small_server"
proof -
  have c: "main_config small_command = Inr (default_config\<lparr>num_workers := 1, num_slots := 2,
      http_root_context := Some \<lparr>root = Some ''/w'', root_fallback = Some DEFAULT_FALLBACK_ROOT_PATH,
       fallback = Some DEFAULT_FALLBACK_PATH, use_http_append_fallback = True\<rparr>\<rparr>)"
    by (simp add: small_command_def main_config_def option_step_def atoi_def strtoll_def isspace_def isdigit_def digits_val_def
        digit_val_def default_config_def on_context_def Let_def)
  have "\<exists>r k'. main_program small_command all_well dual_stack sample_env (quiet_socks []) = Some (Started r, k') \<and>
      worker_threads r = 1 \<and> slots_each r = 2 \<and> length (accept_fds r) = 2"
    unfolding main_program_def c
    by (simp add: kitserv_server_start_def default_config_def check_config_def share_slots_def kitserv_http_init_def
      all_well_def bind_v6_def bind_v4_def start_threads_def block_signals_def kitserv_socket_prepare_def find_and_bind_socket_def dual_stack_def
      AF_INET_def AF_INET6_def bind_address_def sys_new_socket_def sys_call_def sys_listen_def quiet_socks_def Let_def fresh_fd_def
      upto.simps freeaddrinfo_def)
  then show ?thesis using small_launched by blast
qed

lemma small_begun:
  "\<exists>r p. begun small_command all_well dual_stack sample_env (quiet_socks []) r p"
proof -
  obtain r k' where p: "main_program small_command all_well dual_stack sample_env (quiet_socks []) = Some (Started r, k')"
    "launched r small_server" using small_program by blast
  obtain cfg where c: "main_config small_command = Inr cfg" using p(1) by (auto simp: main_program_def split: sum.splits)
  have "launched r (small_server\<lparr>socks := k'\<rparr>)" using p(2) by (simp add: launched_def initial_def)
  then have "begun small_command all_well dual_stack sample_env (quiet_socks []) r
      \<lparr>threads = small_server\<lparr>socks := k'\<rparr>, pending_signals = {}, stage = Running, main_output = banner cfg\<rparr>"
    using c p(1) by (simp add: begun_def)
  then show ?thesis by blast
qed

text \<open>
  C3: the whole program, from the command line on, with every interleaving of its threads and
  of signals: a server that has started runs until it is told to stop. A broken connection is
  no reason to die; the program returns 0 only after the main thread has caught
  \<^verbatim>\<open>SIGINT\<close> or \<^verbatim>\<open>SIGTERM\<close> and said so; a signal that kills it is neither of these; it
  aborts only if \<^verbatim>\<open>sigwait\<close> fails. A thread fails in one situation only: it takes a connection
  from a worker that has none left, and the last \<^verbatim>\<open>next_conn\<close> pointer of that worker, which
  \<^verbatim>\<open>connection_init\<close> does not set, was not NULL in the memory that \<^verbatim>\<open>malloc\<close> had found.
\<close>

theorem program_ends_only_when_told:
  assumes "begun argv sys net env k r p" "\<forall>f fd. open_file env f = Inr fd \<longrightarrow> 0 < fd"
    and "life_steps fatal wait_fails content r p p'"
  shows "\<exists>cfg. main_config argv = Inr cfg \<and> (case stage p' of
      Running \<Rightarrow> main_output p' = banner cfg
    | Exited n \<Rightarrow> n = 0 \<and> (\<exists>sig \<in> {SIGINT, SIGTERM}. main_output p' = banner cfg @ caught sig @ farewell)
    | Killed sig \<Rightarrow> fatal sig \<and> sig \<notin> {SIGINT, SIGTERM, SIGPIPE}
    | Aborted \<Rightarrow> (\<exists>e. wait_fails e)
    | Undefined \<Rightarrow> overrun (last_pointers (threads p)) (threads p'))"
proof -
  obtain cfg where b: "main_config argv = Inr cfg" "able_server (http_env r)" "guarded r" "life_ok (last_pointers (threads p)) fatal wait_fails (banner cfg) p"
    by (rule begunD [OF assms(1,2)])
  from life_steps_ok [OF assms(3) b(2-4)] have "life_ok (last_pointers (threads p)) fatal wait_fails (banner cfg) p'" .
  with b(1) show ?thesis by (auto simp: life_ok_def split: stage.splits)
qed

lemma program_ends_only_when_told_witness:
  "\<exists>r p p'. begun small_command all_well dual_stack sample_env (quiet_socks []) r p \<and>
    life_steps (\<lambda>_. True) (\<lambda>_. False) (\<lambda>fd. ''0123456789'') r p p' \<and> p' \<noteq> p \<and> stage p' = Running \<and>
    (\<exists>cfg. main_config small_command = Inr cfg \<and> main_output p' = banner cfg)"
proof -
  obtain r p where b: "begun small_command all_well dual_stack sample_env (quiet_socks []) r p" using small_begun by blast
  have f: "\<forall>f fd. open_file sample_env f = Inr fd \<longrightarrow> 0 < fd" using sample_ready(1) by (simp add: static_server_def)
  from begunD [OF b f] have g: "guarded r" "stage p = Running" "pending_signals p = {}" using b by (auto simp: begun_def)
  let ?p = "deliver (\<lambda>_. True) r SIGTERM p"
  have d: "?p = p\<lparr>pending_signals := insert SIGTERM (pending_signals p)\<rparr>" by (rule guarded_holds_back [OF g(1)]) simp
  have "life_steps (\<lambda>_. True) (\<lambda>_. False) (\<lambda>fd. ''0123456789'') r p ?p"
    by (rule r_into_rtranclp) (rule life_step.arrival [OF g(2)])
  from program_ends_only_when_told [OF b f this] this b have "\<exists>cfg. main_config small_command = Inr cfg \<and> main_output ?p = banner cfg"
    using d g(2) by auto
  moreover have "?p \<noteq> p" "stage ?p = Running" using d g(2,3) by (auto dest: arg_cong [of _ _ pending_signals])
  ultimately show ?thesis using b \<open>life_steps _ _ _ r p ?p\<close> by blast
qed

text \<open>
  C11: a request to stop is not lost: once \<^verbatim>\<open>SIGINT\<close> or \<^verbatim>\<open>SIGTERM\<close> has arrived, however
  the threads go on and whatever else arrives, as long as the process runs the main thread
  can take the signal, and then the program says which and returns 0.
\<close>

theorem stop_request_honoured:
  assumes "begun argv sys net env k r p" "\<forall>f fd. open_file env f = Inr fd \<longrightarrow> 0 < fd"
    and "life_steps fatal wait_fails content r p q" "stage q = Running" "sig = SIGINT \<or> sig = SIGTERM"
    and "life_steps fatal wait_fails content r (deliver fatal r sig q) p'" "stage p' = Running"
  shows "life_step fatal wait_fails content r q (deliver fatal r sig q) \<and> sig \<in> pending_signals p' \<and>
    life_step fatal wait_fails content r p' (main_wait (Inr sig) p') \<and> stage (main_wait (Inr sig) p') = Exited 0 \<and>
    main_output (main_wait (Inr sig) p') = main_output p' @ [''Caught signal '' @ dec_int sig @ ''.'' @ [LF], ''Kitserv shutting down.'' @ [LF]]"
proof -
  obtain cfg where g: "guarded r" by (rule begunD [OF assms(1,2)])
  have s: "sig \<in> {SIGINT, SIGTERM}" using assms(5) by simp
  have "sig \<in> pending_signals (deliver fatal r sig q)" by (simp add: guarded_holds_back [OF g s])
  then have p: "sig \<in> pending_signals p'" by (rule pending_stays [OF assms(6) _ assms(7)])
  have "sig \<in> wait_set r" using g s by (simp add: guarded_def)
  from life_step.signalled [OF assms(7) this p] p life_step.arrival [OF assms(4)] show ?thesis
    by (simp add: main_wait_def caught_def farewell_def)
qed

lemma stop_request_honoured_witness:
  "\<exists>r p. begun small_command all_well dual_stack sample_env (quiet_socks []) r p \<and>
    life_step (\<lambda>_. True) (\<lambda>_. False) (\<lambda>fd. ''0123456789'') r (deliver (\<lambda>_. True) r SIGINT p)
      (main_wait (Inr SIGINT) (deliver (\<lambda>_. True) r SIGINT p))"
proof -
  obtain r p where b: "begun small_command all_well dual_stack sample_env (quiet_socks []) r p" using small_begun by blast
  have f: "\<forall>f fd. open_file sample_env f = Inr fd \<longrightarrow> 0 < fd" using sample_ready(1) by (simp add: static_server_def)
  obtain g: "guarded r" "stage p = Running" by (rule begunD [OF b f])
  let ?p = "deliver (\<lambda>_. True) r SIGINT p"
  have "?p = p\<lparr>pending_signals := insert SIGINT (pending_signals p)\<rparr>" by (rule guarded_holds_back [OF g(1)]) simp
  then have "stage ?p = Running" using g(2) by simp
  from stop_request_honoured [OF b f rtranclp.rtrancl_refl g(2) _ rtranclp.rtrancl_refl this] b show ?thesis by blast
qed

end
