(* ===== verification/Http_Grammar.thy ===== *)
theory Http_Grammar
  imports Http_Recv_Chunks
begin

text \<open>
  What a string of bytes means as a request. \<open>judge\<close> is the reference: it takes the bytes
  apart by searching for blanks, colons and ends of lines, without pointers and without
  changing anything, and says that they do not hold a whole request yet, or must be refused
  and with which status, or what request they hold and what follows it. The parser of
  \<^verbatim>\<open>src/http.c\<close>, which works in place, gives the same judgement on every string of bytes:
  what it understands is the meaning of the request, read off the fields of its transaction
  by \<open>understood\<close>.
\<close>

section \<open>Requests\<close>

record request =
  rq_method :: http_method
  rq_target :: string
  rq_query :: "string option"
  rq_version :: http_version
  rq_fields :: "(string \<times> string) list"

definition method_name :: "http_method \<Rightarrow> string" where
  "method_name m = (if m = HTTP_GET then ''GET'' else if m = HTTP_PUT then ''PUT'' else if m = HTTP_HEAD then ''HEAD''
     else if m = HTTP_POST then ''POST'' else ''DELETE'')"

fun version_name :: "http_version \<Rightarrow> string" where
  "version_name HTTP_1_1 = ''HTTP/1.1''"
| "version_name HTTP_1_0 = ''HTTP/1.0''"

definition query_part :: "string option \<Rightarrow> string" where
  "query_part q = (case q of None \<Rightarrow> [] | Some q \<Rightarrow> CHR ''?'' # q)"


text \<open>A string as C sees it: up to its first NUL (an escape \<open>%00\<close> decodes to one).\<close>

abbreviation c_string :: "string \<Rightarrow> string" where
  "c_string s \<equiv> takeWhile (\<lambda>x. x \<noteq> NUL) s"

text \<open>The last header of a name counts; names do not depend on the case.\<close>

definition last_field :: "string \<Rightarrow> (string \<times> string) list \<Rightarrow> string option" where
  "last_field nm fs = map_of (rev (map (\<lambda>f. (map tolower (fst f), snd f)) fs)) nm"

record understanding =
  u_method :: http_method
  u_version :: http_version
  u_path :: "string option"
  u_query :: "string option"
  u_cookie :: "string option"
  u_range :: "string option"
  u_modified_since :: "string option"
  u_mimetype :: "string option"
  u_disposition :: "string option"
  u_content_len :: int

definition meaning :: "request \<Rightarrow> understanding" where
  "meaning rq = \<lparr>u_method = rq_method rq, u_version = rq_version rq, u_path = Some (c_string (url_decoded (rq_target rq))),
     u_query = map_option (\<lambda>q. c_string (url_decoded q)) (rq_query rq), u_cookie = last_field ''cookie'' (rq_fields rq),
     u_range = last_field ''range'' (rq_fields rq), u_modified_since = last_field ''if-modified-since'' (rq_fields rq),
     u_mimetype = last_field ''content-type'' (rq_fields rq), u_disposition = last_field ''content-disposition'' (rq_fields rq),
     u_content_len = (case last_field ''content-length'' (rq_fields rq) of None \<Rightarrow> 0 | Some v \<Rightarrow> snd (strtonum v))\<rparr>"

definition string_at :: "mem \<Rightarrow> nat option \<Rightarrow> string option" where
  "string_at m p = (case p of None \<Rightarrow> None | Some p \<Rightarrow> cstr m p)"

definition understood :: "kitserv_client \<Rightarrow> understanding" where
  "understood c = (let s = string_at (req_headers c) in
     \<lparr>u_method = req_method (ta c), u_version = req_version (ta c), u_path = s (req_path (ta c)),
      u_query = s (req_query (ta c)), u_cookie = s (req_fresh_cookies (ta c)), u_range = s (req_range (ta c)),
      u_modified_since = s (req_modified_since (ta c)), u_mimetype = s (req_mimetype (ta c)),
      u_disposition = s (req_disposition (ta c)), u_content_len = req_content_len (ta c)\<rparr>)"

text \<open>
  Requests that are well-formed: printable, without a blank or a second question mark where
  it would end a part, and with a length that is a number.
\<close>

definition plain_field :: "string \<times> string \<Rightarrow> bool" where
  "plain_field f \<longleftrightarrow> NUL \<notin> set (fst f) \<and> CR \<notin> set (fst f) \<and> CHR '':'' \<notin> set (fst f) \<and> NUL \<notin> set (snd f) \<and> CR \<notin> set (snd f) \<and>
     (case snd f of [] \<Rightarrow> True | x # _ \<Rightarrow> x \<noteq> SP \<and> x \<noteq> TAB) \<and>
     (map tolower (fst f) = ''content-length'' \<longrightarrow> fst (strtonum (snd f)) = 0 \<and> 0 \<le> snd (strtonum (snd f)))"

definition plain_request :: "request \<Rightarrow> bool" where
  "plain_request rq \<longleftrightarrow> valid_method (rq_method rq) \<and>
     list_all (\<lambda>x. isprint x \<and> x \<noteq> SP \<and> x \<noteq> CHR ''?'') (rq_target rq) \<and>
     (case rq_query rq of None \<Rightarrow> True | Some q \<Rightarrow> list_all (\<lambda>x. isprint x \<and> x \<noteq> SP) q) \<and>
     \<not> attempted_path_traversal (c_string (url_decoded (rq_target rq))) \<and> list_all plain_field (rq_fields rq)"


section \<open>The reference\<close>

definition split_at :: "char \<Rightarrow> string \<Rightarrow> (string \<times> string) option" where
  "split_at x s = (if x \<in> set s then Some (takeWhile (\<lambda>y. y \<noteq> x) s, tl (dropWhile (\<lambda>y. y \<noteq> x) s)) else None)"

definition split_query :: "string \<Rightarrow> string \<times> string option" where
  "split_query s = (case split_at (CHR ''?'') s of None \<Rightarrow> (s, None) | Some (t, q) \<Rightarrow> (t, Some q))"

text \<open>
  What is known of a request while it is read; an answer that refuses it still uses the
  version and the method, and the log the path.
\<close>

record reading =
  rd_method :: http_method
  rd_version :: http_version
  rd_path :: "string option"

definition nothing_read :: reading where
  "nothing_read = \<lparr>rd_method = 0, rd_version = HTTP_1_1, rd_path = None\<rparr>"

definition target_path :: "request \<Rightarrow> string" where
  "target_path rq = c_string (url_decoded (rq_target rq))"

definition known :: "request \<Rightarrow> reading" where
  "known rq = \<lparr>rd_method = rq_method rq, rd_version = rq_version rq, rd_path = Some (target_path rq)\<rparr>"

datatype judgement =
    Unfinished reading
  | Refused http_status reading
  | Understood request string

definition field_ok :: "string \<times> string \<Rightarrow> bool" where
  "field_ok f \<longleftrightarrow> (map tolower (fst f) = ''content-length'' \<longrightarrow> fst (strtonum (snd f)) = 0 \<and> 0 \<le> snd (strtonum (snd f)))"

text \<open>A header line up to its first NUL: a name, a colon, blanks, a value.\<close>

definition judge_field :: "string \<Rightarrow> (string \<times> string) option" where
  "judge_field line =
     (case split_at (CHR '':'') (c_string line) of
        None \<Rightarrow> None
      | Some (n, v) \<Rightarrow>
          (let f = (n, dropWhile (\<lambda>x. x = SP \<or> x = TAB) v) in if field_ok f then Some f else None))"

lemma split_at_SomeD: "split_at x s = Some (a, b) \<Longrightarrow> s = a @ x # b \<and> x \<notin> set a"
proof -
  assume a: "split_at x s = Some (a, b)"
  then have x: "x \<in> set s" and ab: "a = takeWhile (\<lambda>y. y \<noteq> x) s" "b = tl (dropWhile (\<lambda>y. y \<noteq> x) s)"
    by (auto simp: split_at_def split: if_splits)
  obtain p q where s: "s = p @ x # q" "x \<notin> set p" using split_list_first [OF x] by blast
  have "takeWhile (\<lambda>y. y \<noteq> x) s = p" "dropWhile (\<lambda>y. y \<noteq> x) s = x # q"
    unfolding s(1) using s(2) by (auto intro: takeWhile_stop simp: dropWhile_append3)
  with s ab show ?thesis by simp
qed

lemma split_at_NoneD: "split_at x s = None \<Longrightarrow> x \<notin> set s"
  by (simp add: split_at_def split: if_splits)

lemma split_at_append: "x \<notin> set a \<Longrightarrow> split_at x (a @ x # b) = Some (a, b)"
  by (induction a) (auto simp: split_at_def)

function judge_fields :: "request \<Rightarrow> string \<Rightarrow> judgement" where
  "judge_fields rq s =
     (case split_at CR s of
        None \<Rightarrow> Unfinished (known rq)
      | Some ([], []) \<Rightarrow> Unfinished (known rq)
      | Some ([], x # s) \<Rightarrow> if x = LF then Understood rq s else Refused HTTP_400_BAD_REQUEST (known rq)
      | Some (l # ls, s) \<Rightarrow>
          (case judge_field (l # ls) of
             None \<Rightarrow> Refused HTTP_400_BAD_REQUEST (known rq)
           | Some f \<Rightarrow>
               (case s of
                  [] \<Rightarrow> Unfinished (known rq)
                | x # s \<Rightarrow> if x = LF then judge_fields (rq\<lparr>rq_fields := rq_fields rq @ [f]\<rparr>) s
                           else Refused HTTP_400_BAD_REQUEST (known rq))))"
  by pat_completeness auto
termination
  by (relation "measure (\<lambda>(rq, s). length s)") (auto dest: split_at_SomeD)

declare judge_fields.simps [simp del]

definition version_named :: "string \<Rightarrow> http_version option" where
  "version_named = map_of [(''1.1'', HTTP_1_1), (''1.0'', HTTP_1_0)]"

definition judge_version :: "reading \<Rightarrow> string \<Rightarrow> string option \<Rightarrow> string \<Rightarrow> judgement" where
  "judge_version rd t q s =
     (case split_at CR s of
        None \<Rightarrow> Unfinished rd
      | Some (v, s) \<Rightarrow>
          if take 5 v \<noteq> ''HTTP/'' then Refused HTTP_400_BAD_REQUEST rd
          else (case version_named (drop 5 v) of
              None \<Rightarrow> Refused HTTP_505_VERSION_NOT_SUPPORTED rd
            | Some ver \<Rightarrow>
                (case s of
                   [] \<Rightarrow> Unfinished (rd\<lparr>rd_version := ver\<rparr>)
                 | x # s \<Rightarrow>
                     if x = LF
                     then judge_fields \<lparr>rq_method = rd_method rd, rq_target = t, rq_query = q, rq_version = ver, rq_fields = []\<rparr> s
                     else Refused HTTP_400_BAD_REQUEST (rd\<lparr>rd_version := ver\<rparr>))))"

definition judge_target :: "reading \<Rightarrow> string \<Rightarrow> judgement" where
  "judge_target rd s =
     (case split_at SP s of
        None \<Rightarrow> Unfinished rd
      | Some (a, s) \<Rightarrow>
          if \<not> list_all isprint a then Refused HTTP_400_BAD_REQUEST rd
          else (case split_query a of
              (t, q) \<Rightarrow>
                let path = c_string (url_decoded t); rd = rd\<lparr>rd_path := Some path\<rparr> in
                if attempted_path_traversal path then Refused HTTP_400_BAD_REQUEST rd
                else judge_version rd t q s))"

definition method_named :: "string \<Rightarrow> http_method option" where
  "method_named = map_of [(''GET'', HTTP_GET), (''PUT'', HTTP_PUT), (''HEAD'', HTTP_HEAD), (''POST'', HTTP_POST),
     (''DELETE'', HTTP_DELETE)]"

definition judge :: "reading \<Rightarrow> string \<Rightarrow> judgement" where
  "judge rd s =
     (case split_at SP s of
        None \<Rightarrow> Unfinished rd
      | Some (m, s) \<Rightarrow>
          (case method_named m of
             None \<Rightarrow> Refused HTTP_501_NOT_IMPLEMENTED (rd\<lparr>rd_method := HTTP_GET\<rparr>)
           | Some k \<Rightarrow> judge_target (rd\<lparr>rd_method := k\<rparr>) s))"

text \<open>A request that is understood is well-formed, and its bytes are not empty.\<close>

lemma judge_field_plain: "judge_field line = Some f \<Longrightarrow> CR \<notin> set line \<Longrightarrow> plain_field f"
proof -
  assume f: "judge_field line = Some f" and cr: "CR \<notin> set line"
  then obtain n v where nv: "split_at (CHR '':'') (c_string line) = Some (n, v)" "f = (n, dropWhile (\<lambda>x. x = SP \<or> x = TAB) v)" "field_ok f"
    by (auto simp: judge_field_def Let_def split: option.splits if_splits)
  from split_at_SomeD [OF nv(1)] have s: "c_string line = n @ CHR '':'' # v" "CHR '':'' \<notin> set n" by simp_all
  have "NUL \<notin> set (c_string line)" "CR \<notin> set (c_string line)" using cr by (auto dest: set_takeWhileD)
  then have "NUL \<notin> set n \<union> set v" "CR \<notin> set n \<union> set v" unfolding s(1) by auto
  then have "NUL \<notin> set n \<and> CR \<notin> set n \<and> NUL \<notin> set (snd f) \<and> CR \<notin> set (snd f)"
    using nv(2) by (auto dest: set_dropWhileD)
  moreover have "case snd f of [] \<Rightarrow> True | x # _ \<Rightarrow> x \<noteq> SP \<and> x \<noteq> TAB"
    using nv(2) by (simp add: dropWhile_eq_Cons_conv split: list.split)
  ultimately show ?thesis using s(2) nv(2,3) by (auto simp: plain_field_def field_ok_def)
qed

lemma judge_fields_plain:
  "judge_fields rq s = Understood rq' rest \<Longrightarrow> plain_request rq \<Longrightarrow> plain_request rq' \<and> length rest < length s"
proof (induction rq s rule: judge_fields.induct)
  case (1 rq s)
  note step = "1.prems"(1) [unfolded judge_fields.simps [of rq s]]
  obtain line s1 where s: "split_at CR s = Some (line, s1)" using step by (auto split: option.splits)
  note d = split_at_SomeD [OF s]
  show ?case
  proof (cases line)
    case Nil
    with s step d "1.prems"(2) show ?thesis by (auto split: list.splits if_splits)
  next
    case (Cons l ls)
    with s step obtain f s2 where f: "judge_field line = Some f" "s1 = LF # s2"
      "judge_fields (rq\<lparr>rq_fields := rq_fields rq @ [f]\<rparr>) s2 = Understood rq' rest"
      by (auto split: option.splits list.splits if_splits)
    have "plain_request (rq\<lparr>rq_fields := rq_fields rq @ [f]\<rparr>)"
      using "1.prems"(2) judge_field_plain [OF f(1)] d by (simp add: plain_request_def)
    with "1.IH" s Cons f have "plain_request rq' \<and> length rest < length s2" by simp
    with d f(2) show ?thesis by simp
  qed
qed

lemma split_query_parts:
  assumes "split_query a = (t, q)"
  shows "a = t @ query_part q" "CHR ''?'' \<notin> set t"
  using assms by (auto simp: split_query_def query_part_def split: option.splits dest: split_at_SomeD split_at_NoneD)

theorem judge_plain:
  assumes "judge rd s = Understood rq rest"
  shows "plain_request rq" "length rest < length s"
proof -
  obtain m s1 k where 1: "split_at SP s = Some (m, s1)" "method_named m = Some k" "judge_target (rd\<lparr>rd_method := k\<rparr>) s1 = Understood rq rest"
    using assms by (auto simp: judge_def split: option.splits)
  from 1(3) obtain a s2 t q where 2: "split_at SP s1 = Some (a, s2)" "list_all isprint a" "split_query a = (t, q)"
    "\<not> attempted_path_traversal (c_string (url_decoded t))"
    "judge_version (rd\<lparr>rd_method := k, rd_path := Some (c_string (url_decoded t))\<rparr>) t q s2 = Understood rq rest"
    by (auto simp: judge_target_def Let_def split: option.splits if_splits prod.splits)
  from 2(5) obtain v s3 ver where 3: "split_at CR s2 = Some (v, LF # s3)"
    "judge_fields \<lparr>rq_method = k, rq_target = t, rq_query = q, rq_version = ver, rq_fields = []\<rparr> s3 = Understood rq rest"
    by (auto simp: judge_version_def split: option.splits if_splits list.splits)
  note qp = split_query_parts [OF 2(3)]
  have "valid_method k" using 1(2) by (auto simp: method_named_def valid_method_def split: if_splits)
  moreover have "SP \<notin> set a" using split_at_SomeD [OF 2(1)] by simp
  ultimately have "plain_request \<lparr>rq_method = k, rq_target = t, rq_query = q, rq_version = ver, rq_fields = []\<rparr>"
    using 2(2,4) qp by (auto simp: plain_request_def list_all_iff query_part_def split: option.splits)
  from judge_fields_plain [OF 3(2) this] have "plain_request rq \<and> length rest < length s3" .
  then show "plain_request rq" "length rest < length s"
    using split_at_SomeD [OF 1(1)] split_at_SomeD [OF 2(1)] split_at_SomeD [OF 3(1)] by auto
qed

section \<open>Strings in the block\<close>

text \<open>A pointer to a string in the consumed part, or NULL.\<close>

definition has_str :: "mem \<Rightarrow> nat \<Rightarrow> nat option \<Rightarrow> string option \<Rightarrow> bool" where
  "has_str m k p v \<longleftrightarrow> (case v of None \<Rightarrow> p = None | Some s \<Rightarrow> \<exists>x. p = Some x \<and> cstr (take k m) x = Some s)"

lemma has_str_mono: "has_str m k p v \<Longrightarrow> k \<le> k' \<Longrightarrow> take k m' = take k m \<Longrightarrow> has_str m' k' p v"
  by (auto simp: has_str_def split: option.splits intro: cstr_take_mono)

lemma has_str_at: "has_str m k p v \<Longrightarrow> string_at m p = v"
  using cstr_append [of "take k m" _ _ "drop k m"] by (auto simp: has_str_def string_at_def split: option.splits)

lemma parse_loop_Cont: "parse_step m = Some (Cont m') \<Longrightarrow> parse_loop m = parse_loop m'"
  by (simp add: parse_loop.simps [of m])

text \<open>A scan over a block whose layout is known stops at the delimiter.\<close>

lemma scan_layout:
  "p = length pre \<Longrightarrow> \<forall>c \<in> set s. \<not> P c \<Longrightarrow> P x \<Longrightarrow> scan_until P (pre @ s @ x # post) p = p + length s"
  by (simp add: scan_until_eq takeWhile_stop)

lemma take_layout: "k = length a \<Longrightarrow> take k (a @ b) = a"
  by simp

text \<open>What the path label leaves in the block: both strings decoded, each ended by a NUL.\<close>

lemma path_rewrite_strings:
  assumes m: "m = pre @ t @ query_part qs @ SP # post" and p: "p = length pre"
    and r: "r = p + length (t @ query_part qs)" and t: "NUL \<notin> set t" and q: "\<forall>q. qs = Some q \<longrightarrow> NUL \<notin> set q"
  shows "\<exists>m' q'. path_rewrite m p r None (map_option (\<lambda>_. p + length t) qs) = Some (m', q') \<and> length m' = length m \<and>
    take p m' = pre \<and> drop (Suc r) m' = post \<and> cstr (take (Suc r) m') p = Some (c_string (url_decoded t)) \<and>
    has_str m' (Suc r) q' (map_option (\<lambda>q. c_string (url_decoded q)) qs)"
proof (cases qs)
  case None
  let ?m = "pre @ t @ NUL # post"
  have m0: "m[r := NUL] = ?m" "r < length m" using None m p r by (simp_all add: list_update_append query_part_def)
  have "?m ! r = NUL" using None p r by (simp add: nth_append query_part_def)
  moreover have "p \<le> r" "r < length ?m" using r p None by (simp_all add: query_part_def)
  ultimately obtain m' s where d: "cstr ?m p = Some s" "url_decode ?m p = Some m'"
    "length m' = length ?m" "take p m' = take p ?m" "cstr (take (Suc r) m') p = Some (c_string (url_decoded s))"
    "drop (Suc r) m' = drop (Suc r) ?m" using url_decode_in [of p r ?m] by blast
  have "s = t" using d(1) cstr_at [of t p pre post] t p by simp
  moreover have "path_rewrite m p r None (map_option (\<lambda>_. p + length t) qs) = Some (m', None)"
    using m0 d(2) None by (simp add: path_rewrite_def poke_def)
  moreover have "length m' = length m" "take p m' = pre" "drop (Suc r) m' = post"
    using d(3,4,6) None p r m by (simp_all add: query_part_def)
  ultimately show ?thesis using d(5) None by (intro exI [of _ m'] exI [of _ None]) (simp add: has_str_def)
next
  case (Some q)
  let ?k = "p + length t"
  let ?m = "pre @ t @ NUL # q @ NUL # post"
  have r': "r = ?k + 1 + length q" using r Some by (simp add: query_part_def)
  have m0: "m[r := NUL, ?k := NUL] = ?m" "r < length m" "length ?m = length m"
    using Some m p r' by (simp_all add: list_update_append query_part_def)
  have nr: "?m ! r = NUL" using p r' by (simp add: nth_append)
  have "?k + 1 \<le> r" "r < length ?m" using r' m0 by simp_all
  from url_decode_in [OF this nr] obtain m1 s1 where d1: "cstr ?m (?k + 1) = Some s1"
    "url_decode ?m (?k + 1) = Some m1" "length m1 = length m" "take (?k + 1) m1 = take (?k + 1) ?m"
    "cstr (take (Suc r) m1) (?k + 1) = Some (c_string (url_decoded s1))" "drop (Suc r) m1 = drop (Suc r) ?m" using m0(3) by auto
  have s1: "s1 = q" using d1(1) cstr_at [of q "?k + 1" "pre @ t @ [NUL]" post] assms(5) Some p by simp
  have m1: "take (?k + 1) m1 = pre @ t @ [NUL]" using d1(4) p by simp
  have lk: "?k < length m1" using d1(3) m0(2) r' by simp
  have nk: "m1 ! ?k = NUL"
  proof -
    have "m1 ! ?k = take (?k + 1) m1 ! ?k" by simp
    also have "\<dots> = NUL" unfolding m1 using p by (simp add: nth_append)
    finally show ?thesis .
  qed
  from url_decode_in [OF _ lk nk, of p] obtain m2 s2 where d2: "cstr m1 p = Some s2" "url_decode m1 p = Some m2"
    "length m2 = length m1" "take p m2 = take p m1" "cstr (take (Suc ?k) m2) p = Some (c_string (url_decoded s2))"
    "drop (Suc ?k) m2 = drop (Suc ?k) m1" by auto
  have s2: "s2 = t"
  proof -
    have "take (?k + 1) m1 @ drop (?k + 1) m1 = pre @ t @ NUL # drop (?k + 1) m1" unfolding m1 by simp
    then have "m1 = pre @ t @ NUL # drop (?k + 1) m1" unfolding append_take_drop_id .
    then show ?thesis using cstr_at [of t p pre "drop (?k + 1) m1"] d2(1) t p by simp
  qed
  have tk: "take p m2 = pre"
  proof -
    have "take p m1 = take p (take (?k + 1) m1)" by (simp add: min_def)
    with m1 d2(4) p show ?thesis by simp
  qed
  have kr: "Suc ?k \<le> Suc r" using r' by simp
  have c2: "cstr (take (Suc r) m2) p = Some (c_string (url_decoded t))"
    using cstr_take_mono [OF d2(5) kr refl] s2 by simp
  have "cstr (take (Suc r) m2) (Suc ?k) = cstr (take (Suc r) m1) (Suc ?k)"
    using d2(6) by (simp add: cstr_def drop_take)
  with d1(5) s1 have c1: "cstr (take (Suc r) m2) (Suc ?k) = Some (c_string (url_decoded q))" by simp
  have dr: "drop (Suc r) m2 = post"
  proof -
    have "drop (Suc r) m2 = drop (Suc r - Suc ?k) (drop (Suc ?k) m2)" using kr by simp
    also have "\<dots> = drop (Suc r) ?m" using d2(6) d1(6) kr by simp
    also have "\<dots> = post" using p r' by simp
    finally show ?thesis .
  qed
  have "path_rewrite m p r None (map_option (\<lambda>_. p + length t) qs) = Some (m2, Some (Suc ?k))"
    using m0 r' d1(2) d2(2) Some by (simp add: path_rewrite_def poke_def)
  with tk dr c1 c2 d1(3) d2(3) Some show ?thesis by (simp add: has_str_def)
qed

section \<open>The headers\<close>

definition fields_as :: "mem \<Rightarrow> nat \<Rightarrow> http_transaction \<Rightarrow> (string \<times> string) list \<Rightarrow> bool" where
  "fields_as m k t fs \<longleftrightarrow> has_str m k (req_fresh_cookies t) (last_field ''cookie'' fs) \<and>
     has_str m k (req_range t) (last_field ''range'' fs) \<and>
     has_str m k (req_modified_since t) (last_field ''if-modified-since'' fs) \<and>
     has_str m k (req_mimetype t) (last_field ''content-type'' fs) \<and>
     has_str m k (req_disposition t) (last_field ''content-disposition'' fs) \<and>
     range_requested t = (last_field ''range'' fs \<noteq> None) \<and>
     req_content_len t = (case last_field ''content-length'' fs of None \<Rightarrow> 0 | Some v \<Rightarrow> snd (strtonum v))"

text \<open>What the handlers of \<open>headers\<close> do with a header of the (lower case) name.\<close>

definition store_field :: "string \<Rightarrow> nat \<Rightarrow> string \<Rightarrow> http_transaction \<Rightarrow> http_transaction" where
  "store_field nm q v t =
     (if nm = ''cookie'' then t\<lparr>req_fresh_cookies := Some q\<rparr>
      else if nm = ''range'' then t\<lparr>range_requested := True, req_range := Some q\<rparr>
      else if nm = ''if-modified-since'' then t\<lparr>req_modified_since := Some q\<rparr>
      else if nm = ''content-length'' then t\<lparr>req_content_len := snd (strtonum v)\<rparr>
      else if nm = ''content-type'' then t\<lparr>req_mimetype := Some q\<rparr>
      else if nm = ''content-disposition'' then t\<lparr>req_disposition := Some q\<rparr>
      else t)"

lemma last_field_snoc:
  "last_field nm (fs @ [(n, v)]) = (if map tolower n = nm then Some v else last_field nm fs)"
  by (simp add: last_field_def)

lemma fields_as_store:
  assumes "fields_as m k t fs" "k \<le> k'" "take k m' = take k m" "cstr (take k' m') q = Some v"
  shows "fields_as m' k' (store_field (map tolower n) q v t) (fs @ [(n, v)])"
proof -
  have new: "has_str m' k' (Some q) (Some v)" using assms(4) by (simp add: has_str_def)
  have old: "has_str m k p x \<Longrightarrow> has_str m' k' p x" for p x using has_str_mono assms(2,3) by blast
  show ?thesis using assms(1) by (simp add: fields_as_def last_field_snoc store_field_def new old)
qed

lemma store_field_line:
  "req_method (store_field nm q v t) = req_method t" "req_version (store_field nm q v t) = req_version t"
  "req_path (store_field nm q v t) = req_path t" "req_query (store_field nm q v t) = req_query t"
  by (simp_all add: store_field_def)

lemma dispatch_header_store:
  assumes n: "cstr (req_headers c) p = Some n" "s - p = length n" and v: "cstr (req_headers c) q = Some v"
    and len: "map tolower n = ''content-length'' \<Longrightarrow> fst (strtonum v) = 0 \<and> 0 \<le> snd (strtonum v)"
  shows "dispatch_header headers c p s q = Some (0, c\<lparr>ta := store_field (map tolower n) q v (ta c)\<rparr>)"
proof -
  have l: "length n = length (map tolower n)" by simp
  have skip: "map tolower n \<noteq> map tolower nm \<Longrightarrow> dispatch_header ((nm, k, g) # hs) c p s q = dispatch_header hs c p s q" for nm k g hs
    using n by (simp add: strcasecmp_eq_def)
  have hit: "map tolower n = map tolower nm \<Longrightarrow> k = length (map tolower n) \<Longrightarrow>
      dispatch_header ((nm, k, g) # hs) c p s q = g c q" for nm k g hs
    using n map_eq_imp_length_eq [of tolower n tolower nm] by (simp add: strcasecmp_eq_def)
  have none: "dispatch_header [] c p s q = Some (0, c)" by simp
  have id: "c\<lparr>ta := ta c\<rparr> = c" by simp
  have low: "map tolower ''cookie'' = ''cookie''" "map tolower ''range'' = ''range''"
    "map tolower ''if-modified-since'' = ''if-modified-since''" "map tolower ''content-length'' = ''content-length''"
    "map tolower ''content-type'' = ''content-type''" "map tolower ''content-disposition'' = ''content-disposition''"
    by (simp_all add: tolower_def)
  note run = headers_def skip hit none low
  consider "map tolower n = ''cookie''" | "map tolower n = ''range''" | "map tolower n = ''if-modified-since''"
    | "map tolower n = ''content-length''" | "map tolower n = ''content-type''" | "map tolower n = ''content-disposition''"
    | "map tolower n \<notin> {''cookie'', ''range'', ''if-modified-since'', ''content-length'', ''content-type'', ''content-disposition''}"
    by blast
  then show ?thesis
  proof cases
    case 4
    with len obtain k where k: "strtonum v = (0, k)" "0 \<le> k" by (cases "strtonum v") auto
    have "dispatch_header headers c p s q = parse_header_content_length c q"
      using 4 by (simp add: run del: list.map dispatch_header.simps)
    with 4 k v show ?thesis by (simp add: parse_header_content_length_def Let_def store_field_def)
  qed (simp_all add: run id store_field_def parse_header_cookie_def parse_header_range_def parse_header_if_modified_since_def
      parse_header_content_type_def parse_header_content_disposition_def del: list.map dispatch_header.simps)
qed

text \<open>A transaction in which nothing has been parsed.\<close>

definition unparsed :: "http_transaction \<Rightarrow> bool" where
  "unparsed t \<longleftrightarrow> req_path t = None \<and> req_query t = None \<and> req_mimetype t = None \<and> req_range t = None \<and>
     req_disposition t = None \<and> req_modified_since t = None \<and> req_fresh_cookies t = None \<and>
     \<not> range_requested t \<and> req_content_len t = 0"


end
