(* ===== verification/Http_Judge.thy ===== *)
theory Http_Judge
  imports Http_Grammar
begin

text \<open>
  The parser of \<^verbatim>\<open>src/http.c\<close> gives the judgement of the reference, on every string of bytes:
  label by label, for a block of which what lies before the position has been consumed.
\<close>

section \<open>What the parser has to show for itself\<close>

definition knows :: "kitserv_client \<Rightarrow> nat \<Rightarrow> reading \<Rightarrow> bool" where
  "knows c k rd \<longleftrightarrow> req_method (ta c) = rd_method rd \<and> req_version (ta c) = rd_version rd \<and>
     has_str (req_headers c) k (req_path (ta c)) (rd_path rd)"

fun judged :: "judgement \<Rightarrow> parse_out ub \<Rightarrow> bool" where
  "judged (Unfinished rd) out \<longleftrightarrow> (\<exists>pc c p r k. out = Some (Wait (pc, c, p, r)) \<and> knows c k rd)"
| "judged (Refused s rd) out \<longleftrightarrow> (\<exists>c k. out = Some (Stop (Failed c)) \<and> resp_status (ta c) = s \<and> knows c k rd)"
| "judged (Understood rq rest) out \<longleftrightarrow> (\<exists>c k. out = Some (Stop (Finished c k)) \<and> understood c = meaning rq \<and>
     range_requested (ta c) = (last_field ''range'' (rq_fields rq) \<noteq> None) \<and> drop k (req_headers c) = rest \<and>
     k + length rest = length (req_headers c))"

lemma knows_mono:
  assumes "knows c k rd" "k \<le> k'" "take k (req_headers c') = take k (req_headers c)"
    and "req_method (ta c') = req_method (ta c)" "req_version (ta c') = req_version (ta c)" "req_path (ta c') = req_path (ta c)"
  shows "knows c' k' rd"
  using assms has_str_mono [of "req_headers c" k] by (auto simp: knows_def)

lemma parse_loop_Wait_step: "parse_step m = Some (Wait m') \<Longrightarrow> parse_loop m = Some (Wait m')"
  by (simp add: parse_loop.simps [of m])

lemma parse_loop_Stop_step: "parse_step m = Some (Stop x) \<Longrightarrow> parse_loop m = Some (Stop x)"
  by (simp add: parse_loop.simps [of m])

lemma judged_wait: "parse_step m = Some (Wait (pc, c, p, r)) \<Longrightarrow> knows c k rd \<Longrightarrow> judged (Unfinished rd) (parse_loop m)"
  by (auto simp: parse_loop_Wait_step)

lemma judged_fail:
  "parse_step m = Some (Stop (Failed c)) \<Longrightarrow> resp_status (ta c) = s \<Longrightarrow> knows c k rd \<Longrightarrow> judged (Refused s rd) (parse_loop m)"
  by (auto simp: parse_loop_Stop_step)

lemma judged_bad:
  assumes "parse_step m = bad_request c" "knows c k rd"
  shows "judged (Refused HTTP_400_BAD_REQUEST rd) (parse_loop m)"
proof -
  have "knows (set_status HTTP_400_BAD_REQUEST c) k rd" using assms(2) by (simp add: knows_def)
  from judged_fail [OF _ _ this] assms(1) show ?thesis by (simp add: bad_request_def)
qed

text \<open>Where a scan ends.\<close>

lemma scan_split:
  assumes "split_at x s = Some (a, b)" "m = pre @ s" "p = length pre"
  shows "scan_until (\<lambda>y. y = x) m p = p + length a" "length m = p + length a + 1 + length b" "m = pre @ a @ x # b" "x \<notin> set a"
  using split_at_SomeD [OF assms(1)] assms(2,3) scan_layout [of p pre a "\<lambda>y. y = x" x b] by auto

lemma scan_none:
  assumes "split_at x s = None" "m = pre @ s" "p = length pre"
  shows "scan_until (\<lambda>y. y = x) m p = length m"
proof -
  have "takeWhile (\<lambda>y. y \<noteq> x) s = s" unfolding takeWhile_eq_all_conv using split_at_NoneD [OF assms(1)] by blast
  then show ?thesis using assms(2,3) by (simp add: scan_until_eq del: takeWhile_eq_all_conv)
qed

section \<open>The headers\<close>

text \<open>
  A line with a colon, whatever else is in it: the name and the value are cut out of the
  block, and the label goes on with what the handlers say.
\<close>

lemma field_layout:
  assumes m: "req_headers c = pre @ line @ CR # post" and p: "p = length pre" and l: "CR \<notin> set line" "line \<noteq> []"
    and f: "split_at (CHR '':'') (c_string line) = Some (n, v)"
  obtains pre' q where "parse_step (HTTP_PS_REQ_HEAD, c, p, p) =
      (case dispatch_header headers (c\<lparr>req_headers := pre' @ post\<rparr>) p (p + length n) q of
         None \<Rightarrow> None
       | Some (rc, c') \<Rightarrow> if rc \<noteq> 0 then Some (Stop (Failed c'))
           else Some (Cont (HTTP_PS_REQ_HEAD_LF, c', p + length line + 1, p + length line + 1)))"
    "length pre' = p + length line + 1" "take p pre' = pre" "cstr (pre' @ post) p = Some n"
    "cstr pre' q = Some (dropWhile (\<lambda>x. x = SP \<or> x = TAB) v)"
proof -
  let ?B = "\<lambda>x. x = SP \<or> x = TAB"
  define bl where "bl = takeWhile ?B v"
  define w where "w = dropWhile ?B v"
  define junk where "junk = tl (dropWhile (\<lambda>x. x \<noteq> NUL) (line @ [NUL]))"
  let ?r = "p + length line" and ?s = "p + length n"
  let ?q = "?s + 1 + length bl"
  have v: "v = bl @ w" by (simp add: bl_def w_def)
  from split_at_SomeD [OF f] have n: "c_string line = n @ CHR '':'' # bl @ w" "CHR '':'' \<notin> set n" unfolding v by simp_all
  have nul: "NUL \<notin> set (c_string line)" by (auto dest: set_takeWhileD)
  have "line @ [NUL] = takeWhile (\<lambda>x. x \<noteq> NUL) (line @ [NUL]) @ dropWhile (\<lambda>x. x \<noteq> NUL) (line @ [NUL])" by simp
  moreover have "takeWhile (\<lambda>x. x \<noteq> NUL) (line @ [NUL]) = c_string line" by (induction line) auto
  moreover have "dropWhile (\<lambda>x. x \<noteq> NUL) (line @ [NUL]) = NUL # junk"
  proof -
    have "dropWhile (\<lambda>x. x \<noteq> NUL) (line @ [NUL]) \<noteq> []" by simp
    with hd_dropWhile [OF this] show ?thesis unfolding junk_def by (cases "dropWhile (\<lambda>x. x \<noteq> NUL) (line @ [NUL])") auto
  qed
  ultimately have lay: "line @ [NUL] = n @ CHR '':'' # bl @ w @ NUL # junk" by (simp add: n)
  let ?m1 = "pre @ n @ CHR '':'' # bl @ w @ NUL # junk @ post"
  let ?pre = "pre @ n @ NUL # bl @ w @ NUL # junk"
  have m1: "(req_headers c)[?r := NUL] = ?m1"
  proof -
    have "(req_headers c)[?r := NUL] = pre @ (line @ [NUL]) @ post" using m p by (simp add: list_update_append)
    then show ?thesis unfolding lay by simp
  qed
  have len: "length line = length n + length bl + length w + length junk + 1" using arg_cong [OF lay, of length] by simp
  from m have "req_headers c = pre @ line @ CR # post" .
  from scan_layout [OF p, of line "\<lambda>x. x = CR" CR post] l(1) m have s: "scan_until (\<lambda>x. x = CR) (req_headers c) p = ?r" by auto
  have nn: "NUL \<notin> set n" "NUL \<notin> set bl" "NUL \<notin> set w" using nul unfolding n(1) by auto
  have "cstr ?m1 p = Some (n @ CHR '':'' # bl @ w)" using cstr_at [of "n @ CHR '':'' # bl @ w" p pre "junk @ post"] nn p by auto
  moreover have "takeWhile (\<lambda>x. x \<noteq> CHR '':'') (n @ CHR '':'' # bl @ w) = n" using n(2) by (intro takeWhile_stop) auto
  ultimately have col: "strchr ?m1 p (CHR '':'') = Some (Some ?s)" by (simp add: strchr_def Let_def)
  have m2: "?m1[?s := NUL] = ?pre @ post" using p by (simp add: list_update_append)
  have q: "scan_until (\<lambda>x. x \<noteq> SP \<and> x \<noteq> TAB) (?pre @ post) (?s + 1) = ?q"
  proof -
    obtain x z where x: "w @ NUL # junk @ post = x # z" "x \<noteq> SP \<and> x \<noteq> TAB"
    proof (cases w)
      case Nil
      with that [of NUL "junk @ post"] show thesis by simp
    next
      case (Cons y ys)
      then have "\<not> ?B y" unfolding w_def dropWhile_eq_Cons_conv by simp
      with that [of y "ys @ NUL # junk @ post"] Cons show thesis by simp
    qed
    have "\<forall>x \<in> set bl. \<not> (x \<noteq> SP \<and> x \<noteq> TAB)" by (auto simp: bl_def dest: set_takeWhileD)
    moreover have "?s + 1 = length (pre @ n @ [NUL])" using p by simp
    ultimately have "scan_until (\<lambda>x. x \<noteq> SP \<and> x \<noteq> TAB) ((pre @ n @ [NUL]) @ bl @ x # z) (?s + 1) = ?q"
      using x(2) scan_layout [of "?s + 1" "pre @ n @ [NUL]" bl "\<lambda>x. x \<noteq> SP \<and> x \<noteq> TAB" x z] by simp
    with x(1) show ?thesis by simp
  qed
  have ln: "length ?pre = p + length line + 1" using p len by simp
  have pe: "\<not> past_end c ?r" "?r \<noteq> p" using m p l(2) by (simp_all add: past_end_def)
  have pk: "poke (req_headers c) ?r NUL = Some ?m1" using m p m1 by simp
  have pk2: "poke ?m1 ?s NUL = Some (?pre @ post)" using m2 p by simp
  have qi: "peek (?pre @ post) ?q = Some ((?pre @ post) ! ?q)" using p by (simp add: peek_def)
  have "parse_step (HTTP_PS_REQ_HEAD, c, p, p) =
      (case dispatch_header headers (c\<lparr>req_headers := ?pre @ post\<rparr>) p ?s ?q of
         None \<Rightarrow> None
       | Some (rc, c') \<Rightarrow> if rc \<noteq> 0 then Some (Stop (Failed c')) else Some (Cont (HTTP_PS_REQ_HEAD_LF, c', ?r + 1, ?r + 1)))"
    unfolding parse_step.simps ps_req_head_def s Let_def if_not_P [OF pe(1)] if_P [OF pe(2)] pk Option.bind.simps(2)
      col option.case(2) pk2 q qi by (simp split: option.split prod.split)
  moreover have "take p ?pre = pre" using p by simp
  moreover have "cstr (?pre @ post) p = Some n" using cstr_at [of n p pre "bl @ w @ NUL # junk @ post"] nn p by simp
  moreover have "cstr ?pre ?q = Some w" using cstr_at [of w ?q "pre @ n @ NUL # bl" junk] nn p by simp
  ultimately show thesis using that [OF _ ln] by (simp add: w_def)
qed

lemma dispatch_header_refused:
  assumes n: "cstr (req_headers c) p = Some n" "s - p = length n" and v: "cstr (req_headers c) q = Some v"
    and bad: "\<not> field_ok (n, v)"
  shows "\<exists>k. dispatch_header headers c p s q =
    Some (-1, c\<lparr>ta := (ta c)\<lparr>req_content_len := k, resp_status := HTTP_400_BAD_REQUEST\<rparr>\<rparr>)"
proof -
  have t: "map tolower n = ''content-length''" and b: "fst (strtonum v) \<noteq> 0 \<or> snd (strtonum v) < 0"
    using bad by (auto simp: field_ok_def)
  have len: "length n = 14" using arg_cong [OF t, of length] by simp
  have low: "map tolower ''content-length'' = ''content-length''" by (simp add: tolower_def)
  have "dispatch_header headers c p s q = parse_header_content_length c q"
    using n t len low by (simp add: headers_def strcasecmp_eq_def del: list.map)
  with v b show ?thesis by (cases "strtonum v") (auto simp: parse_header_content_length_def Let_def)
qed

text \<open>What the fields of the transaction hold after some of the headers.\<close>

definition holds :: "kitserv_client \<Rightarrow> nat \<Rightarrow> request \<Rightarrow> bool" where
  "holds c k rq \<longleftrightarrow> knows c k (known rq) \<and> fields_as (req_headers c) k (ta c) (rq_fields rq) \<and>
     has_str (req_headers c) k (req_query (ta c)) (map_option (\<lambda>q. c_string (url_decoded q)) (rq_query rq))"

lemma holds_understood:
  assumes "holds c k rq"
  shows "understood c = meaning rq" "range_requested (ta c) = (last_field ''range'' (rq_fields rq) \<noteq> None)"
  using assms by (auto simp: holds_def knows_def known_def fields_as_def understood_def meaning_def Let_def has_str_at target_path_def)

lemma holds_field:
  assumes "holds c k rq" "k \<le> k'" "take k m = take k (req_headers c)" "cstr (take k' m) q = Some v"
  shows "holds (c\<lparr>req_headers := m, ta := store_field (map tolower n) q v (ta c)\<rparr>) k' (rq\<lparr>rq_fields := rq_fields rq @ [(n, v)]\<rparr>)"
  using assms knows_mono [of c k "known rq" k'] fields_as_store [of "req_headers c" k "ta c" "rq_fields rq" k' m q v n]
    has_str_mono [of "req_headers c" k "req_query (ta c)" _ k' m]
  by (simp add: holds_def known_def target_path_def store_field_line)

lemma c_string_stop: "takeWhile (\<lambda>x. x \<noteq> NUL) (s @ NUL # t) = c_string s"
  by (induction s) auto

lemma field_refused:
  assumes m: "req_headers c = pre @ line @ CR # post" "p = length pre" and l: "CR \<notin> set line" "line \<noteq> []"
    and k: "knows c p rd" and j: "judge_field line = None"
  shows "judged (Refused HTTP_400_BAD_REQUEST rd) (parse_loop (HTTP_PS_REQ_HEAD, c, p, p))"
proof (cases "split_at (CHR '':'') (c_string line)")
  case None
  let ?m = "pre @ line @ NUL # post"
  have s: "scan_until (\<lambda>x. x = CR) (req_headers c) p = p + length line"
    using scan_layout [OF m(2), of line "\<lambda>x. x = CR" CR post] l(1) m(1) by auto
  have "cstr ?m p = Some (c_string line)" using m(2) by (simp add: cstr_def c_string_stop)
  moreover have "takeWhile (\<lambda>x. x \<noteq> CHR '':'') (c_string line) = c_string line"
    unfolding takeWhile_eq_all_conv using split_at_NoneD [OF None] by blast
  ultimately have col: "strchr ?m p (CHR '':'') = Some None" by (simp add: strchr_def del: takeWhile_eq_all_conv)
  have pk: "poke (req_headers c) (p + length line) NUL = Some ?m" using m by (simp add: poke_def list_update_append)
  have pe: "\<not> past_end c (p + length line)" "p + length line \<noteq> p" using m l(2) by (simp_all add: past_end_def)
  have "parse_step (HTTP_PS_REQ_HEAD, c, p, p) = bad_request (c\<lparr>req_headers := ?m\<rparr>)"
    unfolding parse_step.simps ps_req_head_def s Let_def if_not_P [OF pe(1)] if_P [OF pe(2)] pk Option.bind.simps(2) col by simp
  moreover have "knows (c\<lparr>req_headers := ?m\<rparr>) p rd" by (rule knows_mono [OF k]) (use m in simp_all)
  ultimately show ?thesis by (rule judged_bad)
next
  case (Some nv)
  obtain n v where nv: "nv = (n, v)" by (cases nv)
  let ?w = "dropWhile (\<lambda>x. x = SP \<or> x = TAB) v"
  have bad: "\<not> field_ok (n, ?w)" using j Some nv by (auto simp: judge_field_def Let_def split: if_splits)
  from field_layout [OF m l Some [unfolded nv]] obtain pre' q where lay: "parse_step (HTTP_PS_REQ_HEAD, c, p, p) =
      (case dispatch_header headers (c\<lparr>req_headers := pre' @ post\<rparr>) p (p + length n) q of
         None \<Rightarrow> None
       | Some (rc, c') \<Rightarrow> if rc \<noteq> 0 then Some (Stop (Failed c'))
           else Some (Cont (HTTP_PS_REQ_HEAD_LF, c', p + length line + 1, p + length line + 1)))"
    "length pre' = p + length line + 1" "take p pre' = pre" "cstr (pre' @ post) p = Some n" "cstr pre' q = Some ?w" .
  let ?c = "c\<lparr>req_headers := pre' @ post\<rparr>"
  from dispatch_header_refused [of ?c p n "p + length n" q ?w] lay(4) cstr_append [OF lay(5), of post] bad obtain i where
    "dispatch_header headers ?c p (p + length n) q =
       Some (-1, ?c\<lparr>ta := (ta ?c)\<lparr>req_content_len := i, resp_status := HTTP_400_BAD_REQUEST\<rparr>\<rparr>)" by auto
  with lay(1) have st: "parse_step (HTTP_PS_REQ_HEAD, c, p, p) =
      Some (Stop (Failed (?c\<lparr>ta := (ta ?c)\<lparr>req_content_len := i, resp_status := HTTP_400_BAD_REQUEST\<rparr>\<rparr>)))" by simp
  show ?thesis by (rule judged_fail [OF st _ knows_mono [OF k order_refl]]) (use lay(2,3) m in simp_all)
qed

lemma field_taken:
  assumes m: "req_headers c = pre @ line @ CR # post" "p = length pre" and l: "CR \<notin> set line" "line \<noteq> []"
    and h: "holds c p rq" and j: "judge_field line = Some f"
  shows "\<exists>c' pre'. parse_loop (HTTP_PS_REQ_HEAD, c, p, p) = parse_loop (HTTP_PS_REQ_HEAD_LF, c', length pre', length pre') \<and>
    req_headers c' = pre' @ post \<and> holds c' (length pre') (rq\<lparr>rq_fields := rq_fields rq @ [f]\<rparr>)"
proof -
  let ?B = "\<lambda>x. x = SP \<or> x = TAB"
  obtain n v where nv: "split_at (CHR '':'') (c_string line) = Some (n, v)" "f = (n, dropWhile ?B v)" "field_ok f"
    using j by (auto simp: judge_field_def Let_def split: option.splits if_splits)
  from field_layout [OF m l nv(1)] obtain pre' q where lay: "parse_step (HTTP_PS_REQ_HEAD, c, p, p) =
      (case dispatch_header headers (c\<lparr>req_headers := pre' @ post\<rparr>) p (p + length n) q of
         None \<Rightarrow> None
       | Some (rc, c') \<Rightarrow> if rc \<noteq> 0 then Some (Stop (Failed c'))
           else Some (Cont (HTTP_PS_REQ_HEAD_LF, c', p + length line + 1, p + length line + 1)))"
    "length pre' = p + length line + 1" "take p pre' = pre" "cstr (pre' @ post) p = Some n" "cstr pre' q = Some (dropWhile ?B v)" .
  let ?c = "c\<lparr>req_headers := pre' @ post\<rparr>"
  let ?c' = "?c\<lparr>ta := store_field (map tolower n) q (dropWhile ?B v) (ta ?c)\<rparr>"
  have "dispatch_header headers ?c p (p + length n) q = Some (0, ?c')"
    by (rule dispatch_header_store) (use lay(4) cstr_append [OF lay(5), of post] nv in \<open>simp_all add: field_ok_def\<close>)
  with lay(1,2) have "parse_step (HTTP_PS_REQ_HEAD, c, p, p) = Some (Cont (HTTP_PS_REQ_HEAD_LF, ?c', length pre', length pre'))" by simp
  note go = parse_loop_Cont [OF this]
  have "take p (pre' @ post) = take p (req_headers c)" using lay(2,3) m by simp
  from holds_field [OF h _ this, of "length pre'" q "dropWhile ?B v" n] lay(2,5) nv(2) go show ?thesis
    by (intro exI [of _ ?c'] exI [of _ pre']) simp
qed

lemma holds_knows: "holds c k rq \<Longrightarrow> k \<le> k' \<Longrightarrow> knows c k' (known rq)"
  by (auto simp: holds_def intro: knows_mono)

lemma holds_mono: "holds c k rq \<Longrightarrow> k \<le> k' \<Longrightarrow> holds c k' rq"
  by (auto simp: holds_def fields_as_def intro: knows_mono has_str_mono)

lemma known_fields [simp]: "known (rq\<lparr>rq_fields := fs\<rparr>) = known rq"
  by (simp add: known_def target_path_def)

text \<open>The end of a line, and the empty line.\<close>

lemma line_judged:
  assumes "req_headers c = pre @ s" "p = length pre" "holds c p rq"
    and "\<And>s'. s = LF # s' \<Longrightarrow> judged (judge_fields rq s') (parse_loop (HTTP_PS_REQ_HEAD, c, p + 1, p + 1))"
  shows "judged (case s of [] \<Rightarrow> Unfinished (known rq)
      | x # s \<Rightarrow> if x = LF then judge_fields rq s else Refused HTTP_400_BAD_REQUEST (known rq))
    (parse_loop (HTTP_PS_REQ_HEAD_LF, c, p, p))"
proof (cases s)
  case Nil
  then have "parse_step (HTTP_PS_REQ_HEAD_LF, c, p, p) = Some (Wait (HTTP_PS_REQ_HEAD_LF, c, p, p))"
    using assms(1,2) by (simp add: ps_req_head_lf_def past_end_def)
  from judged_wait [OF this holds_knows [OF assms(3) order_refl]] Nil show ?thesis by simp
next
  case (Cons x s')
  show ?thesis
  proof (cases "x = LF")
    case True
    then have "parse_step (HTTP_PS_REQ_HEAD_LF, c, p, p) = Some (Cont (HTTP_PS_REQ_HEAD, c, p + 1, p + 1))"
      using Cons assms(1,2) by (simp add: ps_req_head_lf_def past_end_def peek_def)
    with parse_loop_Cont [OF this] assms(4) Cons True show ?thesis by simp
  next
    case False
    then have "parse_step (HTTP_PS_REQ_HEAD_LF, c, p, p) = bad_request c"
      using Cons assms(1,2) by (simp add: ps_req_head_lf_def past_end_def peek_def)
    from judged_bad [OF this holds_knows [OF assms(3) order_refl]] Cons False show ?thesis by simp
  qed
qed

lemma headers_end_judged:
  assumes "req_headers c = pre @ CR # s" "p = length pre" "holds c p rq"
  shows "judged (case s of [] \<Rightarrow> Unfinished (known rq)
      | x # s \<Rightarrow> if x = LF then Understood rq s else Refused HTTP_400_BAD_REQUEST (known rq))
    (parse_loop (HTTP_PS_REQ_HEAD, c, p, p))"
proof -
  have "scan_until (\<lambda>x. x = CR) (req_headers c) p = p" using scan_layout [OF assms(2), of "[]" "\<lambda>x. x = CR" CR s] assms(1) by simp
  then have "parse_step (HTTP_PS_REQ_HEAD, c, p, p) = Some (Cont (HTTP_PS_REQ_HEAD_LF, c, p, p + 1))"
    using assms by (simp add: ps_req_head_def Let_def past_end_def)
  note go = parse_loop_Cont [OF this]
  note kn = holds_knows [OF assms(3) order_refl]
  have lf: "parse_step (HTTP_PS_REQ_HEAD_LF, c, p, p + 1) = (case s of [] \<Rightarrow> Some (Wait (HTTP_PS_REQ_HEAD_LF, c, p, p + 1))
      | x # s \<Rightarrow> if x = LF then Some (Stop (Finished c (p + 2))) else bad_request c)"
    using assms(1,2) by (auto simp: ps_req_head_lf_def past_end_def peek_def nth_append split: list.split)
  show ?thesis
  proof (cases s)
    case Nil
    with lf judged_wait [OF _ kn] show ?thesis by (simp add: go)
  next
    case (Cons x s')
    show ?thesis
    proof (cases "x = LF")
      case True
      have "drop (p + 2) (req_headers c) = s'" "p + 2 + length s' = length (req_headers c)" using assms(1,2) Cons by simp_all
      with lf Cons True holds_understood [OF assms(3)] show ?thesis by (simp add: go parse_loop_Stop_step)
    next
      case False
      then have "parse_step (HTTP_PS_REQ_HEAD_LF, c, p, p + 1) = bad_request c" using lf Cons by simp
      from judged_bad [OF this kn] Cons False show ?thesis by (simp add: go)
    qed
  qed
qed

theorem fields_judged:
  "req_headers c = pre @ s \<Longrightarrow> p = length pre \<Longrightarrow> holds c p rq \<Longrightarrow>
   judged (judge_fields rq s) (parse_loop (HTTP_PS_REQ_HEAD, c, p, p))"
proof (induction rq s arbitrary: c pre p rule: judge_fields.induct)
  case (1 rq s)
  note J = judge_fields.simps [of rq s]
  note kn = holds_knows [OF "1.prems"(3) order_refl]
  show ?case
  proof (cases "split_at CR s")
    case None
    from scan_none [OF None "1.prems"(1,2)] have "parse_step (HTTP_PS_REQ_HEAD, c, p, p) =
        Some (Wait (HTTP_PS_REQ_HEAD, c, p, length (req_headers c)))"
      by (simp add: ps_req_head_def Let_def past_end_def)
    from judged_wait [OF this kn] None show ?thesis by (simp add: J)
  next
    case (Some ls)
    obtain line s1 where ls: "ls = (line, s1)" by (cases ls)
    note sc = scan_split [OF Some [unfolded ls] "1.prems"(1,2)]
    consider "line = []" | l ls' where "line = l # ls'" "judge_field line = None"
      | l ls' f where "line = l # ls'" "judge_field line = Some f" by (cases line; cases "judge_field line") auto
    then show ?thesis
    proof cases
      case 1
      with sc have "req_headers c = pre @ CR # s1" by simp
      from headers_end_judged [OF this "1.prems"(2,3)] Some ls 1 show ?thesis by (simp add: J split: list.split)
    next
      case 2
      with field_refused [OF sc(3) "1.prems"(2) sc(4) _ kn] Some ls show ?thesis by (simp add: J)
    next
      case (3 l ls' f)
      let ?rq = "rq\<lparr>rq_fields := rq_fields rq @ [f]\<rparr>"
      from 3 field_taken [OF sc(3) "1.prems"(2) sc(4) _ "1.prems"(3)] obtain c' pre' where t:
        "parse_loop (HTTP_PS_REQ_HEAD, c, p, p) = parse_loop (HTTP_PS_REQ_HEAD_LF, c', length pre', length pre')"
        "req_headers c' = pre' @ s1" "holds c' (length pre') ?rq" by blast
      have "judged (case s1 of [] \<Rightarrow> Unfinished (known ?rq)
          | x # s \<Rightarrow> if x = LF then judge_fields ?rq s else Refused HTTP_400_BAD_REQUEST (known ?rq))
        (parse_loop (HTTP_PS_REQ_HEAD_LF, c', length pre', length pre'))"
      proof (rule line_judged [OF t(2) refl t(3)])
        fix s2 assume s1: "s1 = LF # s2"
        have "req_headers c' = (pre' @ [LF]) @ s2" "length pre' + 1 = length (pre' @ [LF])" using t(2) s1 by simp_all
        moreover have "holds c' (length pre' + 1) ?rq" by (rule holds_mono [OF t(3)]) simp
        ultimately show "judged (judge_fields ?rq s2) (parse_loop (HTTP_PS_REQ_HEAD, c', length pre' + 1, length pre' + 1))"
          by (intro "1.IH" [OF Some ls [symmetric] 3(1) 3(2) [unfolded 3(1)] s1 refl])
      qed
      then show ?thesis unfolding known_fields using Some ls 3 t(1) by (simp add: J)
    qed
  qed
qed

section \<open>The start line\<close>

definition unparsed_fields :: "http_transaction \<Rightarrow> bool" where
  "unparsed_fields t \<longleftrightarrow> req_mimetype t = None \<and> req_range t = None \<and> req_disposition t = None \<and>
     req_modified_since t = None \<and> req_fresh_cookies t = None \<and> \<not> range_requested t \<and> req_content_len t = 0"

lemma version_judged:
  assumes m: "req_headers c = pre @ s" "p = length pre"
    and k: "knows c p rd" "rd_path rd = Some (c_string (url_decoded t))" "unparsed_fields (ta c)"
    and q: "has_str (req_headers c) p (req_query (ta c)) (map_option (\<lambda>q. c_string (url_decoded q)) q)"
  shows "judged (judge_version rd t q s) (parse_loop (HTTP_PS_REQ_VERSION, c, p, p))"
proof (cases "split_at CR s")
  case None
  from scan_none [OF None m] have "parse_step (HTTP_PS_REQ_VERSION, c, p, p) =
      Some (Wait (HTTP_PS_REQ_VERSION, c, p, length (req_headers c)))"
    by (simp add: ps_req_version_def Let_def past_end_def)
  from judged_wait [OF this k(1)] None show ?thesis by (simp add: judge_version_def)
next
  case (Some vs)
  obtain v s1 where vs: "vs = (v, s1)" by (cases vs)
  note sc = scan_split [OF Some [unfolded vs] m]
  let ?r = "p + length v"
  have pe: "\<not> past_end c ?r" using sc(2) by (simp add: past_end_def)
  note unf = parse_step.simps ps_req_version_def sc(1) Let_def if_not_P [OF pe]
  have http: "bufscmp (req_headers c) p ''HTTP/'' = Some (take 5 v = ''HTTP/'')" if "5 \<le> length v"
  proof -
    have five: "length ''HTTP/'' = 5" by simp
    show ?thesis unfolding bufscmp_def five using that sc(3) m(2) by simp
  qed
  show ?thesis
  proof (cases "take 5 v = ''HTTP/''")
    case False
    have "parse_step (HTTP_PS_REQ_VERSION, c, p, p) = bad_request c"
    proof (cases "length v < 5")
      case short: True
      then show ?thesis unfolding unf by simp
    next
      case long: False
      then have "bufscmp (req_headers c) p ''HTTP/'' = Some False" using http False by simp
      with long show ?thesis unfolding unf by simp
    qed
    from judged_bad [OF this k(1)] Some vs False show ?thesis by (simp add: judge_version_def)
  next
    case True
    have l: "5 \<le> length v" using arg_cong [OF True, of length] by simp
    have http: "bufscmp (req_headers c) p ''HTTP/'' = Some True" using http [OF l] True by simp
    have ver: "bufscmp (req_headers c) (p + 5) x = Some (drop 5 v = x)" if "length x = 3" "length v = 8" for x
      using that l sc(3) m(2) by (simp add: bufscmp_def)
    show ?thesis
    proof (cases "version_named (drop 5 v)")
      case no: None
      have "parse_step (HTTP_PS_REQ_VERSION, c, p, p) = version_not_supported c"
      proof (cases "length v = 8")
        case l8: True
        have "drop 5 v \<noteq> ''1.1''" "drop 5 v \<noteq> ''1.0''" using no by (auto simp: version_named_def)
        then show ?thesis unfolding unf using l8 http ver [of "''1.1''"] ver [of "''1.0''"] by simp
      next
        case False
        then have "length v - 5 \<noteq> 3" using l by simp
        with l show ?thesis unfolding unf using http by simp
      qed
      then have "parse_step (HTTP_PS_REQ_VERSION, c, p, p) = Some (Stop (Failed (set_status HTTP_505_VERSION_NOT_SUPPORTED c)))"
        by (simp add: version_not_supported_def)
      from judged_fail [OF this, of _ p rd] k(1) Some vs True no show ?thesis by (simp add: judge_version_def knows_def)
    next
      case (Some x)
      let ?c = "c\<lparr>ta := (ta c)\<lparr>req_version := x\<rparr>\<rparr>" and ?rd = "rd\<lparr>rd_version := x\<rparr>"
      let ?rq = "\<lparr>rq_method = rd_method rd, rq_target = t, rq_query = q, rq_version = x, rq_fields = []\<rparr>"
      have d: "drop 5 v = ''1.1'' \<and> x = HTTP_1_1 \<or> drop 5 v = ''1.0'' \<and> x = HTTP_1_0"
        using Some by (simp add: version_named_def split: if_splits)
      then have "length (drop 5 v) = 3" by (elim disjE conjE) (simp_all del: length_drop)
      then have l8: "length v = 8" using l by simp
      have "parse_step (HTTP_PS_REQ_VERSION, c, p, p) = Some (Cont (HTTP_PS_REQ_VERSION_LF, ?c, ?r + 1, ?r + 1))"
        using d
      proof
        assume "drop 5 v = ''1.1'' \<and> x = HTTP_1_1"
        then show ?thesis unfolding unf using l8 http ver [of "''1.1''"] by simp
      next
        assume "drop 5 v = ''1.0'' \<and> x = HTTP_1_0"
        then show ?thesis unfolding unf using l8 http ver [of "''1.1''"] ver [of "''1.0''"] by simp
      qed
      note go = parse_loop_Cont [OF this]
      have kn: "knows ?c (?r + 1) ?rd" using k(1) has_str_mono [of "req_headers c" p _ _ "?r + 1" "req_headers c"] by (simp add: knows_def)
      have "holds ?c (?r + 2) ?rq"
        using k has_str_mono [of "req_headers c" p _ _ "?r + 2" "req_headers c"] q
        by (simp add: holds_def knows_def known_def target_path_def unparsed_fields_def fields_as_def has_str_def [of _ _ _ None] last_field_def)
      then have fields: "judged (judge_fields ?rq s2) (parse_loop (HTTP_PS_REQ_HEAD, ?c, ?r + 2, ?r + 2))" if "s1 = LF # s2" for s2
        using fields_judged [of ?c "pre @ v @ [CR, LF]" s2 "?r + 2" ?rq] sc(3) m(2) that by simp
      have lf: "parse_step (HTTP_PS_REQ_VERSION_LF, ?c, ?r + 1, ?r + 1) = (case s1 of [] \<Rightarrow> Some (Wait (HTTP_PS_REQ_VERSION_LF, ?c, ?r + 1, ?r + 1))
          | x # s \<Rightarrow> if x = LF then Some (Cont (HTTP_PS_REQ_HEAD, ?c, ?r + 2, ?r + 2)) else bad_request ?c)"
        using sc(3) m(2) by (auto simp: ps_req_version_lf_def past_end_def peek_def nth_append split: list.split)
      show ?thesis
      proof (cases s1)
        case Nil
        from lf Nil judged_wait [OF _ kn] \<open>split_at CR s = Some vs\<close> vs True Some show ?thesis by (simp add: judge_version_def go)
      next
        case (Cons y s2)
        show ?thesis
        proof (cases "y = LF")
          case eq: True
          from lf Cons eq parse_loop_Cont [of "(HTTP_PS_REQ_VERSION_LF, ?c, ?r + 1, ?r + 1)"] fields [of s2]
            \<open>split_at CR s = Some vs\<close> vs True Some show ?thesis by (simp add: judge_version_def go)
        next
          case ne: False
          then have "parse_step (HTTP_PS_REQ_VERSION_LF, ?c, ?r + 1, ?r + 1) = bad_request ?c" using lf Cons by simp
          from judged_bad [OF this kn] \<open>split_at CR s = Some vs\<close> vs True Some Cons ne show ?thesis by (simp add: judge_version_def go)
        qed
      qed
    qed
  qed
qed

lemma path_scan_segment:
  "p = length pre \<Longrightarrow> path_scan (pre @ a @ post) p (p + length a) old = Some (if list_all isprint a
     then Query (if old = None \<and> CHR ''?'' \<in> set a then Some (p + length (takeWhile (\<lambda>x. x \<noteq> CHR ''?'') a)) else old)
     else Unprintable)"
proof (induction a arbitrary: pre p old)
  case Nil
  show ?case by (subst path_scan.simps) simp
next
  case (Cons x a)
  from Cons.prems Cons.IH [of "Suc p" "pre @ [x]"] show ?case
    by (subst path_scan.simps) (auto simp: peek_def nth_append)
qed

lemma path_scan_split:
  assumes "split_query a = (t, q)" "p = length pre"
  shows "path_scan (pre @ a @ post) p (p + length a) None = Some (if list_all isprint a
     then Query (map_option (\<lambda>_. p + length t) q) else Unprintable)"
proof (cases q)
  case None
  then have "CHR ''?'' \<notin> set a" using split_query_parts [OF assms(1)] by (simp add: query_part_def)
  with path_scan_segment [OF assms(2), of a post None] None show ?thesis by simp
next
  case (Some u)
  have a: "a = t @ CHR ''?'' # u" "CHR ''?'' \<notin> set t"
    using split_query_parts [OF assms(1)] Some by (simp_all add: query_part_def)
  have "takeWhile (\<lambda>x. x \<noteq> CHR ''?'') a = t" unfolding a(1) using a(2) by (intro takeWhile_stop) auto
  with path_scan_segment [OF assms(2), of a post None] a(1) Some show ?thesis by simp
qed

lemma target_judged:
  assumes m: "req_headers c = pre @ s" "p = length pre"
    and k: "knows c p rd" "rd_path rd = None" "unparsed (ta c)"
  shows "judged (judge_target rd s) (parse_loop (HTTP_PS_REQ_PATH, c, p, p))"
proof (cases "split_at SP s")
  case None
  from scan_none [OF None m] have "parse_step (HTTP_PS_REQ_PATH, c, p, p) =
      Some (Wait (HTTP_PS_REQ_PATH, c, p, length (req_headers c)))"
    by (simp add: ps_req_path_def Let_def past_end_def)
  from judged_wait [OF this k(1)] None show ?thesis by (simp add: judge_target_def)
next
  case (Some as)
  obtain a s1 where as: "as = (a, s1)" by (cases as)
  obtain t q where tq: "split_query a = (t, q)" by (cases "split_query a")
  note sc = scan_split [OF Some [unfolded as] m]
  note a = split_query_parts [OF tq]
  let ?r = "p + length a" and ?path = "c_string (url_decoded t)"
  have pe: "\<not> past_end c ?r" using sc(2) by (simp add: past_end_def)
  have ps: "path_scan (req_headers c) p ?r None =
      Some (if list_all isprint a then Query (map_option (\<lambda>_. p + length t) q) else Unprintable)"
    using path_scan_split [OF tq m(2), of "SP # s1"] sc(3) by simp
  note unf = parse_step.simps ps_req_path_alt sc(1) Let_def if_not_P [OF pe] ps Option.bind.simps(2)
  show ?thesis
  proof (cases "list_all isprint a")
    case False
    then have "parse_step (HTTP_PS_REQ_PATH, c, p, p) = bad_request c" unfolding unf by simp
    from judged_bad [OF this k(1)] Some as tq False show ?thesis by (simp add: judge_target_def)
  next
    case True
    have "\<not> isprint NUL" by (simp add: isprint_def)
    then have "NUL \<notin> set a" using True unfolding list_all_iff by blast
    then have nt: "NUL \<notin> set t" "\<forall>x. q = Some x \<longrightarrow> NUL \<notin> set x" unfolding a(1) by (auto simp: query_part_def)
    have lay: "req_headers c = pre @ t @ query_part q @ SP # s1" "?r = p + length (t @ query_part q)"
      using sc(3) unfolding a(1) by simp_all
    from path_rewrite_strings [OF lay(1) m(2) lay(2) nt] obtain m' q' where w:
      "path_rewrite (req_headers c) p ?r None (map_option (\<lambda>_. p + length t) q) = Some (m', q')" "length m' = length (req_headers c)"
      "take p m' = pre" "drop (Suc ?r) m' = s1" "cstr (take (Suc ?r) m') p = Some ?path"
      "has_str m' (Suc ?r) q' (map_option (\<lambda>q. c_string (url_decoded q)) q)" by (elim exE conjE) (rule that; assumption)
    have cs: "cstr m' p = Some ?path" using cstr_append [OF w(5), of "drop (Suc ?r) m'"] by simp
    let ?c = "c\<lparr>req_headers := m', ta := (ta c)\<lparr>req_query := q', req_path := Some p\<rparr>\<rparr>" and ?rd = "rd\<lparr>rd_path := Some ?path\<rparr>"
    have q0: "req_query (ta c) = None" using k(3) by (simp add: unparsed_def)
    have step: "parse_step (HTTP_PS_REQ_PATH, c, p, p) = (if attempted_path_traversal ?path then bad_request ?c
        else Some (Cont (HTTP_PS_REQ_VERSION, ?c, ?r + 1, ?r + 1)))"
      unfolding unf using True w(1) cs q0 by simp
    have kn: "knows ?c (?r + 1) ?rd" using k(1) w(5) by (simp add: knows_def has_str_def)
    show ?thesis
    proof (cases "attempted_path_traversal ?path")
      case bad: True
      then have "parse_step (HTTP_PS_REQ_PATH, c, p, p) = bad_request ?c" using step by simp
      from judged_bad [OF this kn] Some as tq True bad show ?thesis by (simp add: judge_target_def Let_def)
    next
      case ok: False
      then have "parse_step (HTTP_PS_REQ_PATH, c, p, p) = Some (Cont (HTTP_PS_REQ_VERSION, ?c, ?r + 1, ?r + 1))" using step by simp
      note go = parse_loop_Cont [OF this]
      have "req_headers ?c = take (Suc ?r) m' @ s1" "?r + 1 = length (take (Suc ?r) m')"
        using w(2,4) sc(2) append_take_drop_id [of "Suc ?r" m'] by simp_all
      from version_judged [OF this kn, of t q] k(3) w(6)
      have "judged (judge_version ?rd t q s1) (parse_loop (HTTP_PS_REQ_VERSION, ?c, ?r + 1, ?r + 1))"
        by (simp add: unparsed_fields_def unparsed_def)
      then show ?thesis unfolding go using Some as tq True ok by (simp add: judge_target_def Let_def)
    qed
  qed
qed

lemma bufscmp_word:
  assumes "m = a @ SP # b" "length a = length x"
  shows "bufscmp m 0 (x @ [SP]) = Some (a = x)"
  using assms by (auto simp: bufscmp_def)

lemma method_at_named:
  assumes "m = [] @ a @ SP # b"
  shows "method_at m 0 (length a) = Some (method_named a)"
proof -
  have m: "m = a @ SP # b" using assms by simp
  have w: "length a = 3 \<Longrightarrow> bufscmp m 0 ''GET '' = Some (a = ''GET'')" "length a = 3 \<Longrightarrow> bufscmp m 0 ''PUT '' = Some (a = ''PUT'')"
    "length a = 4 \<Longrightarrow> bufscmp m 0 ''HEAD '' = Some (a = ''HEAD'')" "length a = 4 \<Longrightarrow> bufscmp m 0 ''POST '' = Some (a = ''POST'')"
    "length a = 6 \<Longrightarrow> bufscmp m 0 ''DELETE '' = Some (a = ''DELETE'')"
    using bufscmp_word [OF m, of "''GET''"] bufscmp_word [OF m, of "''PUT''"] bufscmp_word [OF m, of "''HEAD''"]
      bufscmp_word [OF m, of "''POST''"] bufscmp_word [OF m, of "''DELETE''"] by simp_all
  have l: "a = ''GET'' \<Longrightarrow> length a = 3" "a = ''PUT'' \<Longrightarrow> length a = 3" "a = ''HEAD'' \<Longrightarrow> length a = 4"
    "a = ''POST'' \<Longrightarrow> length a = 4" "a = ''DELETE'' \<Longrightarrow> length a = 6" by simp_all
  consider "length a = 3" | "length a = 4" | "length a = 6" | "length a \<noteq> 3" "length a \<noteq> 4" "length a \<noteq> 6" by blast
  then show ?thesis
  proof cases
    case 1
    then have "a \<noteq> ''HEAD''" "a \<noteq> ''POST''" "a \<noteq> ''DELETE''" using l by linarith+
    with 1 w(1,2) show ?thesis by (simp add: method_at_def method_named_def)
  next
    case 2
    then have "a \<noteq> ''GET''" "a \<noteq> ''PUT''" "a \<noteq> ''DELETE''" using l by linarith+
    with 2 w(3,4) show ?thesis by (simp add: method_at_def method_named_def)
  next
    case 3
    then have "a \<noteq> ''GET''" "a \<noteq> ''PUT''" "a \<noteq> ''HEAD''" "a \<noteq> ''POST''" using l by linarith+
    with 3 w(5) show ?thesis by (simp add: method_at_def method_named_def)
  next
    case 4
    then have "a \<noteq> ''GET''" "a \<noteq> ''PUT''" "a \<noteq> ''HEAD''" "a \<noteq> ''POST''" "a \<noteq> ''DELETE''" using l by blast+
    with 4 show ?thesis by (simp add: method_at_def method_named_def)
  qed
qed

text \<open>
  The whole parser, on a client that holds the bytes \<open>s\<close> and has not begun with them.
\<close>

theorem parser_judged:
  assumes m: "req_headers c = s" and k: "req_method (ta c) = rd_method rd" "req_version (ta c) = rd_version rd" "rd_path rd = None"
    and u: "unparsed (ta c)"
  shows "judged (judge rd s) (parse_loop (HTTP_PS_NEW, c, 0, 0))"
proof -
  have "parse_step (HTTP_PS_NEW, c, 0, 0) = Some (Cont (HTTP_PS_REQ_METHOD, c, 0, 0))" by simp
  note new = parse_loop_Cont [OF this]
  have kn: "knows (c\<lparr>ta := (ta c)\<lparr>resp_status := st, req_method := x\<rparr>\<rparr>) n (rd\<lparr>rd_method := x\<rparr>)"
    "knows (c\<lparr>ta := (ta c)\<lparr>req_method := x\<rparr>\<rparr>) n (rd\<lparr>rd_method := x\<rparr>)" "knows c n rd" for x n st
    using k u by (simp_all add: knows_def unparsed_def has_str_def)
  have m0: "req_headers c = [] @ s" "0 = length []" using m by simp_all
  show ?thesis
  proof (cases "split_at SP s")
    case None
    from scan_none [OF None m0] have "parse_step (HTTP_PS_REQ_METHOD, c, 0, 0) =
        Some (Wait (HTTP_PS_REQ_METHOD, c, 0, length (req_headers c)))"
      by (simp add: ps_req_method_def Let_def past_end_def)
    from judged_wait [OF this kn(3)] None show ?thesis by (simp add: judge_def new)
  next
    case (Some ms)
    obtain a s1 where ms: "ms = (a, s1)" by (cases ms)
    note sc = scan_split [OF Some [unfolded ms] m0]
    have meth: "method_at (req_headers c) 0 (length a) = Some (method_named a)"
      using sc(3) by (rule method_at_named)
    show ?thesis
    proof (cases "method_named a")
      case no: None
      let ?c = "c\<lparr>ta := (ta c)\<lparr>resp_status := HTTP_501_NOT_IMPLEMENTED, req_method := HTTP_GET\<rparr>\<rparr>"
      have "parse_step (HTTP_PS_REQ_METHOD, c, 0, 0) = Some (Stop (Failed ?c))"
        using sc(1,2) meth no by (simp add: ps_req_method_def Let_def past_end_def)
      from judged_fail [OF this _ kn(1)] Some ms no show ?thesis by (simp add: judge_def new)
    next
      case x: (Some x)
      let ?c = "c\<lparr>ta := (ta c)\<lparr>req_method := x\<rparr>\<rparr>" and ?p = "length a + 1"
      have "parse_step (HTTP_PS_REQ_METHOD, c, 0, 0) = Some (Cont (HTTP_PS_REQ_PATH, ?c, ?p, ?p))"
        using sc(1,2) meth x by (simp add: ps_req_method_def Let_def past_end_def)
      note go = parse_loop_Cont [OF this]
      have "req_headers ?c = (a @ [SP]) @ s1" "?p = length (a @ [SP])" using sc(3) by simp_all
      from target_judged [OF this kn(2)] k(3) u
      have "judged (judge_target (rd\<lparr>rd_method := x\<rparr>) s1) (parse_loop (HTTP_PS_REQ_PATH, ?c, ?p, ?p))"
        by (simp add: unparsed_def)
      then show ?thesis using Some ms x by (simp add: judge_def new go)
    qed
  qed
qed

end
