(* ===== verification/Http_Recv_Window.thy ===== *)
theory Http_Recv_Window
  imports Http_Recv_Chunks
begin

text \<open>
  A call only sees what there is room for. Receiving behaves as if the peer had sent no
  more than the buffer can take: bytes beyond it stay where they are, for the next request.
  This carries what is known of inputs that fit into the buffer over to connections of any
  length.
\<close>

section \<open>The script up to a number of bytes\<close>

fun cut :: "nat \<Rightarrow> rd_event list \<Rightarrow> rd_event list" where
  "cut n [] = []"
| "cut n (Chunk bs # evs) =
     (if length bs \<le> n then Chunk bs # cut (n - length bs) evs else if n = 0 then [] else [Chunk (take n bs)])"
| "cut n (Block # evs) = Block # cut n evs"
| "cut n (Err e # evs) = Err e # cut n evs"

lemma data_of_cut: "\<forall>ev \<in> set evs. quiet ev \<Longrightarrow> data_of (cut n evs) = take n (data_of evs)"
  by (induction n evs rule: cut.induct) auto

lemma cut_quiet: "\<forall>ev \<in> set evs. quiet ev \<Longrightarrow> \<forall>ev \<in> set (cut n evs). quiet ev"
  by (induction n evs rule: cut.induct) auto

lemma cut_Nil: "0 < n \<Longrightarrow> cut n evs = [] \<longleftrightarrow> evs = []"
  by (induction n evs rule: cut.induct) auto

text \<open>Reading at most as much as the script was cut to makes no difference.\<close>

lemma sock_read_cut:
  "sock_read n evs = (res, evs') \<Longrightarrow>
   sock_read n (cut n evs) = (res, cut (n - (case res of Inl e \<Rightarrow> 0 | Inr bs \<Rightarrow> length bs)) evs')"
proof (induction n evs rule: sock_read.induct)
  case (2 n bs evs)
  consider "n = 0" | "n \<noteq> 0" "bs = []" | "n \<noteq> 0" "bs \<noteq> []" "length bs \<le> n" | "n < length bs" "n \<noteq> 0" by linarith
  then show ?case
  proof cases
    case 1
    with "2.prems" sock_read_full show ?thesis by (auto split: if_splits)
  next
    case 2
    with "2.IH" "2.prems" show ?thesis by simp
  qed (use "2.prems" in auto)
qed (auto split: if_splits)

lemma sock_read_data:
  "sock_read n evs = (res, evs') \<Longrightarrow> data_of evs = (case res of Inl e \<Rightarrow> [] | Inr bs \<Rightarrow> bs) @ data_of evs'"
  by (induction n evs rule: sock_read.induct) (auto split: if_splits)

section \<open>Receiving through the window\<close>

text \<open>The kernel as a client sees it: the script up to the room in the buffer.\<close>

definition window :: "kitserv_client \<Rightarrow> os \<Rightarrow> os" where
  "window c w = w\<lparr>os_in := cut (HTTP_BUFSZ - length (req_headers c)) (os_in w)\<rparr>"

lemma window_length: "length (req_headers c') = length (req_headers c) \<Longrightarrow> window c' w = window c w"
  by (simp add: window_def)

text \<open>What a step reads goes from the script into the buffer.\<close>

definition moved :: "kitserv_client \<Rightarrow> os \<Rightarrow> kitserv_client \<Rightarrow> os \<Rightarrow> bool" where
  "moved c w c' w' \<longleftrightarrow> (\<exists>d. data_of (os_in w) = d @ data_of (os_in w') \<and>
     length (req_headers c') = length (req_headers c) + length d)"

lemma moved_trans: "moved c w c1 w1 \<Longrightarrow> moved c1 w1 c2 w2 \<Longrightarrow> moved c w c2 w2"
  by (auto simp: moved_def)

lemma moved_length: "moved c w c1 w1 \<Longrightarrow> length (req_headers c2) = length (req_headers c1) \<Longrightarrow> moved c w c2 w1"
  by (simp add: moved_def)

fun fill_client :: "fill \<Rightarrow> kitserv_client" where
  "fill_client (Go c) = c"
| "fill_client (Give rc c) = c"

lemma recv_fill_window:
  assumes "recv_fill c p r w = (f, w')"
  shows "recv_fill c p r (window c w) = (f, window (fill_client f) w') \<and> moved c w (fill_client f) w'"
proof -
  let ?k = "HTTP_BUFSZ - length (req_headers c)"
  obtain res evs where sr: "sock_read ?k (os_in w) = (res, evs)" by (cases "sock_read ?k (os_in w)")
  note cr = sock_read_cut [OF sr] and d = sock_read_data [OF sr]
  show ?thesis
  proof (cases res)
    case (Inl e)
    with assms sr cr d show ?thesis by (auto simp: recv_fill_def window_def moved_def split: if_splits)
  next
    case (Inr bs)
    with assms sr cr d show ?thesis by (cases bs) (auto simp: recv_fill_def window_def moved_def split: if_splits)
  qed
qed

lemma recv_loop_window:
  "loop_ok c p r \<Longrightarrow> recv_loop c p r w = Some (rc, c', w') \<Longrightarrow>
   recv_loop c p r (window c w) = Some (rc, c', window c' w') \<and> moved c w c' w'"
proof (induction c p r w arbitrary: rc c' w' rule: recv_loop.induct)
  case (1 c p r w)
  note step = recv_loop.simps [of c p r]
  obtain f w1 where f: "recv_fill c p r w = (f, w1)" by (cases "recv_fill c p r w") auto
  note v = recv_fill_window [OF f]
  from f "1.prems"(1) show ?case
  proof (cases rule: recv_fill_cases)
    case (go c1)
    with v have v1: "recv_fill c p r (window c w) = (Go c1, window c1 w1)" "moved c w c1 w1" by simp_all
    from go(2) show ?thesis
    proof (cases rule: parse_from_out)
      case (wait pc c2 p2 r2)
      let ?c2 = "set_parse_state pc c2"
      have l: "length (req_headers ?c2) = length (req_headers c1)" using frame_of_length [OF wait(3)] by simp
      have "recv_loop ?c2 (Some p2) (Some r2) w1 = Some (rc, c', w')" using "1.prems"(2) f go(1) wait(1) by (simp add: step)
      with "1.IH" f go(1) wait(1,2) have
        "recv_loop ?c2 (Some p2) (Some r2) (window ?c2 w1) = Some (rc, c', window c' w') \<and> moved ?c2 w1 c' w'" by simp
      with v1 wait(1) window_length [OF l] moved_trans [OF moved_length [OF v1(2) l]] show ?thesis by (simp add: step)
    next
      case (failed c2)
      have l: "length (req_headers c2) = length (req_headers c1)" using frame_of_length [OF failed(4)] by (simp add: no_status_def)
      have e: "rc = -1" "c' = c2" "w' = w1" using "1.prems"(2) f go(1) failed(1) by (simp_all add: step)
      with v1 failed(1) window_length [OF l] moved_length [OF v1(2) l] show ?thesis by (simp add: step)
    next
      case (finished c2 q)
      have l: "length (req_headers (finish_request c2 q)) = length (req_headers c1)"
        using frame_of_length [OF finished(3)] by (simp add: finish_request_def)
      have e: "rc = 0" "c' = finish_request c2 q" "w' = w1" using "1.prems"(2) f go(1) finished(1) by (simp_all add: step)
      with v1 finished(1) window_length [OF l] moved_length [OF v1(2) l] show ?thesis by (simp add: step)
    qed
  next
    case again
    with "1.prems"(2) f v show ?thesis by (simp add: step)
  next
    case (fail s)
    with "1.prems"(2) f v show ?thesis by (simp add: step)
  qed
qed

text \<open>The whole reception of a request, over any number of calls.\<close>

theorem recv_all_window:
  "recv_ok c \<Longrightarrow> state (ta c) = HTTP_STATE_READ \<Longrightarrow> recv_all c w = Some (rc, c', w') \<Longrightarrow>
   recv_all c (window c w) = Some (rc, c', window c' w') \<and> moved c w c' w'"
proof (induction c w rule: recv_all.induct)
  case (1 c w)
  note step = recv_all.simps [of c]
  obtain rc1 c1 w1 where k: "kitserv_http_recv_request c w = Some (rc1, c1, w1)"
    using "1.prems"(3) by (auto simp: step split: option.splits)
  have lo: "loop_ok c (req_parse_blk (ta c)) (req_parse_iter (ta c))" using "1.prems"(1) by (simp add: recv_ok_def)
  from recv_loop_window [OF lo k [unfolded kitserv_http_recv_request_def]] have
    v: "kitserv_http_recv_request c (window c w) = Some (rc1, c1, window c1 w1)" "moved c w c1 w1"
    by (simp_all add: kitserv_http_recv_request_def)
  show ?case
  proof (cases "rc1 = 0 \<and> state (ta c1) = HTTP_STATE_READ")
    case True
    from recv_request_safe [OF "1.prems"(1,2), of w] k True have "recv_ok c1" by (auto simp: recv_failures_def)
    moreover have "recv_all c1 w1 = Some (rc, c', w')" using "1.prems"(3) k True by (simp add: step)
    ultimately have "recv_all c1 (window c1 w1) = Some (rc, c', window c' w') \<and> moved c1 w1 c' w'"
      using "1.IH" [OF k refl refl True] True by simp
    with v True moved_trans [OF v(2)] show ?thesis by (simp add: step)
  next
    case False
    with "1.prems"(3) k v show ?thesis by (cases "rc = 0") (simp_all add: step)
  qed
qed

end
