(* ===== verification/Http_Request.thy ===== *)
theory Http_Request
  imports Http_Judge Http_Recv_Window
begin

text \<open>
  Requests as text: \<open>print_request\<close> gives the bytes a client sends for a request. The
  reference judges them to be this request, and so the parser reads a printed request back.
\<close>

section \<open>Receiving what the reference understands\<close>

text \<open>What is understood depends on the block up to the payload only.\<close>

lemma understood_grow:
  assumes "strings_ok c k"
  shows "understood (grow_c c d) = understood c"
proof -
  have "string_at (req_headers c @ d) p = string_at (req_headers c) p" if p: "p \<in> set (request_ptrs (ta c))" for p
  proof (cases p)
    case (Some x)
    with p assms obtain s where "cstr (take k (req_headers c)) x = Some s" by (auto simp: strings_ok_def)
    from cstr_append [OF this, of "drop k (req_headers c)"] have "cstr (req_headers c) x = Some s" by simp
    with Some cstr_append [OF this, of d] show ?thesis by (simp add: string_at_def)
  qed (simp add: string_at_def)
  then show ?thesis by (simp add: understood_def request_ptrs_def Let_def)
qed

lemma understood_nobook: "understood (nobook c) = understood c"
  by (simp add: understood_def nobook_def)

lemma understood_finish: "understood (finish_request c k) = understood c"
  by (simp add: understood_def finish_request_def)

definition shows_reading :: "kitserv_client \<Rightarrow> reading \<Rightarrow> bool" where
  "shows_reading c rd \<longleftrightarrow> req_method (ta c) = rd_method rd \<and> req_version (ta c) = rd_version rd \<and>
     string_at (req_headers c) (req_path (ta c)) = rd_path rd"

text \<open>What the calls of \<open>kitserv_http_recv_request\<close> end with, for \<open>n\<close> bytes that are judged.\<close>

fun received_as :: "judgement \<Rightarrow> nat \<Rightarrow> int \<times> kitserv_client \<times> os \<Rightarrow> bool" where
  "received_as (Understood rq rest) n (rc, c, w) \<longleftrightarrow> rc = 0 \<and> state (ta c) = HTTP_STATE_SERVE \<and> understood c = meaning rq \<and>
     range_requested (ta c) = (last_field ''range'' (rq_fields rq) \<noteq> None) \<and>
     drop (req_payload (ta c)) (req_headers c) @ data_of (os_in w) = rest"
| "received_as (Refused s rd) n (rc, c, w) \<longleftrightarrow> rc = -1 \<and> resp_status (ta c) = s \<and> shows_reading c rd"
| "received_as (Unfinished rd) n (rc, c, w) \<longleftrightarrow> rc = -1 \<and> shows_reading c rd \<and>
     resp_status (ta c) = (if n < HTTP_BUFSZ then HTTP_X_HANGUP else HTTP_431_REQUEST_HEADER_FIELDS_TOO_LARGE)"

lemma failed_shows:
  assumes k: "knows c1 k rd" and b: "nobook c1 = nobook (grow_c c d)" and s: "path_seen c"
  shows "shows_reading c rd"
proof -
  define g where "g c = (req_method (ta c), req_version (ta c), req_path (ta c), resp_status (ta c), req_headers c)" for c :: kitserv_client
  have "g (nobook c) = g c" for c by (simp add: g_def nobook_def)
  then have "g c1 = g (grow_c c d)" using b by metis
  then have f: "req_method (ta c1) = req_method (ta c)" "req_version (ta c1) = req_version (ta c)" "req_path (ta c1) = req_path (ta c)"
    "req_headers c1 = req_headers c @ d" by (simp_all add: g_def)
  from k have "string_at (req_headers c1) (req_path (ta c1)) = rd_path rd" by (auto simp: knows_def intro: has_str_at)
  moreover have "string_at (req_headers c @ d) (req_path (ta c)) = string_at (req_headers c) (req_path (ta c))"
    using s cstr_append by (auto simp: path_seen_def string_at_def split: option.split)
  ultimately show ?thesis using k f by (simp add: shows_reading_def knows_def)
qed

lemma waiting_shows:
  assumes "knows c1 k rd" "nobook c = nobook (set_status s c1)"
  shows "shows_reading c rd" "resp_status (ta c) = s"
proof -
  define g where "g c = (req_method (ta c), req_version (ta c), req_path (ta c), resp_status (ta c), req_headers c)" for c :: kitserv_client
  have "g (nobook c) = g c" for c by (simp add: g_def nobook_def)
  then have "g c = g (set_status s c1)" using assms(2) by metis
  then have f: "req_method (ta c) = req_method (ta c1)" "req_version (ta c) = req_version (ta c1)" "req_path (ta c) = req_path (ta c1)"
    "resp_status (ta c) = s" "req_headers c = req_headers c1" by (simp_all add: g_def)
  with assms(1) show "shows_reading c rd" "resp_status (ta c) = s" by (auto simp: shows_reading_def knows_def intro: has_str_at)
qed

theorem receive_judged:
  assumes "recv_ok c" "state (ta c) = HTTP_STATE_READ" "parse_state (ta c) = HTTP_PS_NEW" "unparsed (ta c)"
    and "\<forall>ev \<in> set (os_in w). quiet ev" "os_in w \<noteq> []"
    and "req_headers c @ data_of (os_in w) = s" "length s \<le> HTTP_BUFSZ"
    and "req_method (ta c) = rd_method rd" "req_version (ta c) = rd_version rd" "rd_path rd = None"
  shows "\<exists>res. recv_all c w = Some res \<and> recv_post c res \<and> received_as (judge rd s) (length s) res"
proof -
  let ?c = "grow_c c (data_of (os_in w))"
  have "judged (judge rd s) (parse_loop (HTTP_PS_NEW, ?c, 0, 0))"
    by (rule parser_judged) (use assms in simp_all)
  note j = this
  have len: "length (req_headers c) + length (data_of (os_in w)) = length s" using arg_cong [OF assms(7), of length] by simp
  then have "length (req_headers c) + length (data_of (os_in w)) \<le> HTTP_BUFSZ" using assms(8) by simp
  from recv_all_verdict [OF assms(1,2,5,6) this] recv_all_post [OF assms(1,2), of w] assms(3) obtain rc c' w' where
    r: "recv_all c w = Some (rc, c', w')" "recv_post c (rc, c', w')" "rc = 0 \<longrightarrow> state (ta c') \<noteq> HTTP_STATE_READ"
    and v: "verdict (parse_loop (HTTP_PS_NEW, ?c, 0, 0)) (length s) (rc, c', w')" by (auto simp: machine_of_def len)
  have "received_as (judge rd s) (length s) (rc, c', w')"
  proof (cases "judge rd s")
    case (Unfinished x)
    with j v show ?thesis by (auto dest: waiting_shows)
  next
    case (Refused st x)
    with j obtain c1 k where c1: "parse_loop (HTTP_PS_NEW, ?c, 0, 0) = Some (Stop (Failed c1))" "resp_status (ta c1) = st" "knows c1 k x" by auto
    with v have f: "rc = -1" "nobook c1 = nobook (grow_c c' (data_of (os_in w')))" by simp_all
    have "path_seen c'" using r(2) f(1) by simp
    from failed_shows [OF c1(3) f(2) this] have "shows_reading c' x" .
    moreover have "resp_status (ta c') = resp_status (ta c1)"
      using arg_cong [OF f(2), of "\<lambda>c. resp_status (ta c)"] by (simp add: nobook_def)
    ultimately show ?thesis using Refused f(1) c1(2) by simp
  next
    case (Understood rq rest)
    with j obtain c1 k where c1: "parse_loop (HTTP_PS_NEW, ?c, 0, 0) = Some (Stop (Finished c1 k))" "understood c1 = meaning rq"
      "range_requested (ta c1) = (last_field ''range'' (rq_fields rq) \<noteq> None)" "drop k (req_headers c1) = rest" by auto
    with v have f: "rc = 0" "c' = finish_request c' k" "request_ready c'"
      "nobook (finish_request c1 k) = nobook (finish_request (grow_c c' (data_of (os_in w'))) k)" by simp_all
    have st: "req_payload (ta c') = k" "state (ta c') = HTTP_STATE_SERVE"
      using arg_cong [OF f(2), of "\<lambda>c. req_payload (ta c)"] arg_cong [OF f(2), of "\<lambda>c. state (ta c)"]
      by (simp_all add: finish_request_def)
    have "understood c' = understood (finish_request (grow_c c' (data_of (os_in w'))) k)"
      using understood_grow [of c' "req_payload (ta c')"] f(3)
      by (simp add: understood_finish request_ready_def fields_ok_def)
    also have "\<dots> = understood c1"
      using arg_cong [OF f(4), of understood] by (simp add: understood_nobook understood_finish)
    finally have u: "understood c' = meaning rq" using c1(2) by simp
    have "req_headers c1 = req_headers c' @ data_of (os_in w')"
      using arg_cong [OF f(4), of req_headers] by (simp add: finish_request_def)
    with c1(4) f(3) st(1) have "drop k (req_headers c') @ data_of (os_in w') = rest" by (simp add: request_ready_def)
    moreover have "range_requested (ta c') = range_requested (ta c1)"
      using arg_cong [OF f(4), of "\<lambda>c. range_requested (ta c)"] by (simp add: nobook_def finish_request_def)
    ultimately show ?thesis using Understood f(1) u st c1(3) by simp
  qed
  with r show ?thesis by blast
qed

text \<open>
  Only what there is room for is looked at; what comes behind it may be of any length, and
  stays in the socket.
\<close>

lemma receive_judged_any:
  assumes c: "recv_ok c" "state (ta c) = HTTP_STATE_READ" "parse_state (ta c) = HTTP_PS_NEW" "unparsed (ta c)"
    and q: "\<forall>ev \<in> set (os_in w). quiet ev" "os_in w \<noteq> []" and room: "length (req_headers c) < HTTP_BUFSZ"
    and s: "req_headers c @ data_of (os_in w) = s"
    and rd: "req_method (ta c) = rd_method rd" "req_version (ta c) = rd_version rd" "rd_path rd = None"
  shows "\<exists>rc c' w' v'. recv_all c w = Some (rc, c', w') \<and>
    received_as (judge rd (take HTTP_BUFSZ s)) (length s) (rc, c', v') \<and> data_of (os_in w') = data_of (os_in v') @ drop HTTP_BUFSZ s"
proof -
  let ?n = "HTTP_BUFSZ - length (req_headers c)" and ?v = "window c w" and ?s = "take HTTP_BUFSZ s"
  have d: "data_of (os_in ?v) = take ?n (data_of (os_in w))" using data_of_cut [OF q(1)] by (simp add: window_def)
  have m: "req_headers c @ data_of (os_in ?v) = ?s" using d room s by auto
  have q': "\<forall>ev \<in> set (os_in ?v). quiet ev" "os_in ?v \<noteq> []"
    using cut_quiet [OF q(1)] cut_Nil [of ?n "os_in w"] q(2) room by (auto simp: window_def)
  have "length ?s \<le> HTTP_BUFSZ" by simp
  from receive_judged [OF c q' m this rd] obtain rc c1 v1 where
    r: "recv_all c ?v = Some (rc, c1, v1)" "received_as (judge rd ?s) (length ?s) (rc, c1, v1)" by auto
  obtain rc' c2 w1 where all: "recv_all c w = Some (rc', c2, w1)" using recv_all_post [OF c(1,2), of w] by auto
  from recv_all_window [OF c(1,2) all] r(1) have e: "rc' = rc" "c2 = c1" "v1 = window c1 w1" "moved c w c1 w1" by simp_all
  from recv_all_window [OF c(1,2) r(1)] have mv: "moved c ?v c1 v1" by simp
  from e(4) mv obtain x y where x: "data_of (os_in w) = x @ data_of (os_in w1)" and y: "data_of (os_in ?v) = y @ data_of (os_in v1)"
    and xy: "length x = length y" by (auto simp: moved_def)
  have "take (length x) (data_of (os_in ?v)) = take (length x) (data_of (os_in w))"
  proof -
    have "length y \<le> ?n" using arg_cong [OF y, of length] by (simp add: d min_def split: if_splits)
    then show ?thesis unfolding d xy by simp
  qed
  then have "x = y" using x y xy by simp
  have "?s @ drop HTTP_BUFSZ s = (req_headers c @ x) @ data_of (os_in w1)" using s x by simp
  moreover have "?s = (req_headers c @ x) @ data_of (os_in v1)" using m y \<open>x = y\<close> by simp
  ultimately have more: "data_of (os_in w1) = data_of (os_in v1) @ drop HTTP_BUFSZ s" by simp
  have "received_as (judge rd ?s) (length s) (rc, c1, v1)"
    using r(2) by (cases "judge rd ?s") (auto simp: min_def split: if_splits)
  with all e(1,2) more show ?thesis by blast
qed

section \<open>Printed requests\<close>

definition print_field :: "string \<times> string \<Rightarrow> string" where
  "print_field f = fst f @ CHR '':'' # SP # snd f @ CRLF"

definition print_request :: "request \<Rightarrow> string" where
  "print_request rq = method_name (rq_method rq) @ SP # rq_target rq @ query_part (rq_query rq) @ SP #
     version_name (rq_version rq) @ CRLF @ concat (map print_field (rq_fields rq)) @ CRLF"

lemma print_request_parts:
  "print_request rq @ post = method_name (rq_method rq) @ SP # rq_target rq @ query_part (rq_query rq) @ SP #
     version_name (rq_version rq) @ CR # LF # concat (map print_field (rq_fields rq)) @ CRLF @ post"
  by (simp add: print_request_def)

lemma judge_printed_field:
  assumes "plain_field (n, v)"
  shows "judge_field (n @ CHR '':'' # SP # v) = Some (n, v)"
proof -
  have nv: "NUL \<notin> set n" "NUL \<notin> set v" "CHR '':'' \<notin> set n" using assms by (auto simp: plain_field_def)
  then have c: "c_string (n @ CHR '':'' # SP # v) = n @ CHR '':'' # SP # v" unfolding takeWhile_eq_all_conv by auto
  moreover have "dropWhile (\<lambda>x. x = SP \<or> x = TAB) v = v" using assms by (cases v) (simp_all add: plain_field_def)
  moreover have "field_ok (n, v)" using assms by (simp add: plain_field_def field_ok_def)
  ultimately show ?thesis unfolding judge_field_def c split_at_append [OF nv(3)] by simp
qed

lemma judge_printed_fields:
  "list_all plain_field fs \<Longrightarrow> judge_fields rq (concat (map print_field fs) @ CRLF @ post) =
     Understood (rq\<lparr>rq_fields := rq_fields rq @ fs\<rparr>) post"
proof (induction fs arbitrary: rq)
  case Nil
  have "split_at CR (CRLF @ post) = Some ([], LF # post)" using split_at_append [of CR "[]" "LF # post"] by simp
  then show ?case by (simp add: judge_fields.simps [of rq])
next
  case (Cons f fs)
  obtain n v where f: "f = (n, v)" by (cases f)
  let ?line = "n @ CHR '':'' # SP # v" and ?rest = "concat (map print_field fs) @ CRLF @ post"
  have p: "plain_field (n, v)" using Cons.prems f by simp
  then have "CR \<notin> set ?line" by (auto simp: plain_field_def)
  from split_at_append [OF this, of "LF # ?rest"] have
    s: "split_at CR (concat (map print_field (f # fs)) @ CRLF @ post) = Some (?line, LF # ?rest)"
    by (simp add: f print_field_def)
  obtain l ls where ll: "?line = l # ls" by (cases ?line) auto
  from Cons.IH [of "rq\<lparr>rq_fields := rq_fields rq @ [f]\<rparr>"] Cons.prems judge_printed_field [OF p] show ?case
    unfolding judge_fields.simps [of rq] s by (simp add: ll f)
qed

theorem judge_printed:
  assumes "plain_request rq"
  shows "judge rd (print_request rq @ post) = Understood rq post"
proof -
  let ?hs = "concat (map print_field (rq_fields rq)) @ CRLF @ post"
  let ?a = "rq_target rq @ query_part (rq_query rq)"
  have v: "valid_method (rq_method rq)" and pr: "list_all (\<lambda>x. isprint x \<and> x \<noteq> SP \<and> x \<noteq> CHR ''?'') (rq_target rq)"
    "case rq_query rq of None \<Rightarrow> True | Some q \<Rightarrow> list_all (\<lambda>x. isprint x \<and> x \<noteq> SP) q"
    and tr: "\<not> attempted_path_traversal (c_string (url_decoded (rq_target rq)))" and fs: "list_all plain_field (rq_fields rq)"
    using assms by (simp_all add: plain_request_def)
  have "SP \<notin> set (method_name (rq_method rq))" by (simp add: method_name_def)
  note s0 = split_at_append [OF this]
  have m: "method_named (method_name (rq_method rq)) = Some (rq_method rq)"
    using v by (auto simp: valid_method_def method_named_def method_name_def)
  have "SP \<notin> set ?a" using pr by (auto simp: list_all_iff query_part_def split: option.splits)
  note s1 = split_at_append [OF this]
  have "isprint (CHR ''?'')" by (simp add: isprint_def)
  then have p: "list_all isprint ?a" using pr by (auto simp: list_all_iff query_part_def split: option.splits)
  have "CHR ''?'' \<notin> set (rq_target rq)" using pr by (auto simp: list_all_iff)
  from split_at_append [OF this] this have sq: "split_query ?a = (rq_target rq, rq_query rq)"
    by (cases "rq_query rq") (simp_all add: split_query_def query_part_def split_at_def)
  have "CR \<notin> set (version_name (rq_version rq))" by (cases "rq_version rq") simp_all
  note s2 = split_at_append [OF this]
  have vn: "take 5 (version_name x) = ''HTTP/'' \<and> version_named (drop 5 (version_name x)) = Some x" for x
    by (cases x) (simp_all add: version_named_def)
  have "judge rd (print_request rq @ post) = judge_fields \<lparr>rq_method = rq_method rq, rq_target = rq_target rq,
      rq_query = rq_query rq, rq_version = rq_version rq, rq_fields = []\<rparr> ?hs"
    using s1 [of "version_name (rq_version rq) @ CR # LF # ?hs"] s2 [of "LF # ?hs"] vn m sq p tr
    unfolding print_request_parts by (simp add: judge_def s0 judge_target_def judge_version_def)
  with judge_printed_fields [OF fs, of _ post] show ?thesis by simp
qed

theorem parse_printed:
  assumes rq: "plain_request rq" and m: "req_headers c = print_request rq @ post" and t: "unparsed (ta c)"
  obtains c' where "parse_loop (HTTP_PS_NEW, c, 0, 0) = Some (Stop (Finished c' (length (print_request rq))))"
    "drop (length (print_request rq)) (req_headers c') = post" "understood c' = meaning rq" "range_requested (ta c') = (last_field ''range'' (rq_fields rq) \<noteq> None)"
proof -
  let ?rd = "\<lparr>rd_method = req_method (ta c), rd_version = req_version (ta c), rd_path = None\<rparr>"
  have "judged (judge ?rd (print_request rq @ post)) (parse_loop (HTTP_PS_NEW, c, 0, 0))"
    by (rule parser_judged [OF m _ _ _ t]) simp_all
  then obtain c' k where p: "parse_loop (HTTP_PS_NEW, c, 0, 0) = Some (Stop (Finished c' k))" "understood c' = meaning rq"
    "range_requested (ta c') = (last_field ''range'' (rq_fields rq) \<noteq> None)" "drop k (req_headers c') = post"
    "k + length post = length (req_headers c')" by (auto simp: judge_printed [OF rq])
  have "length (req_headers c') = length (req_headers c)" using parse_loop_frame [OF p(1)] by (auto dest: frame_of_length)
  then have "k = length (print_request rq)" using p(5) m by simp
  with p that show thesis by simp
qed

text \<open>
  C10: a request that is written out and sent, in pieces of any size, is understood as it was
  meant: the method, the version, the decoded path and query, and the values of the six
  headers the server reads, the last of each name, whatever the case of its letters; and
  what follows the request is left, in order, for the payload. The request has to fit into
  the buffer of \<^verbatim>\<open>HTTP_BUFSZ\<close> bytes, what follows it may be of any length.
\<close>

theorem request_roundtrip:
  assumes "plain_request rq" "recv_ok c" "state (ta c) = HTTP_STATE_READ" "parse_state (ta c) = HTTP_PS_NEW" "unparsed (ta c)"
    and "\<forall>ev \<in> set (os_in w). quiet ev" "req_headers c @ data_of (os_in w) = print_request rq @ rest" "os_in w \<noteq> []"
    and "length (req_headers c) < HTTP_BUFSZ" "length (print_request rq) \<le> HTTP_BUFSZ"
  shows "\<exists>c' w'. recv_all c w = Some (0, c', w') \<and> state (ta c') = HTTP_STATE_SERVE \<and> understood c' = meaning rq \<and>
    drop (req_payload (ta c')) (req_headers c') @ data_of (os_in w') = rest"
proof -
  let ?rd = "\<lparr>rd_method = req_method (ta c), rd_version = req_version (ta c), rd_path = None\<rparr>"
  let ?n = "HTTP_BUFSZ - length (print_request rq)"
  have s: "take HTTP_BUFSZ (print_request rq @ rest) = print_request rq @ take ?n rest"
    "drop HTTP_BUFSZ (print_request rq @ rest) = drop ?n rest" using assms(10) by simp_all
  from receive_judged_any [OF assms(2-6,8,9,7), of ?rd, unfolded s judge_printed [OF assms(1)]] obtain rc c' w' v' where
    "recv_all c w = Some (rc, c', w')" "received_as (Understood rq (take ?n rest)) (length (print_request rq @ rest)) (rc, c', v')"
    "data_of (os_in w') = data_of (os_in v') @ drop ?n rest" by auto
  then show ?thesis by (auto simp flip: append_assoc)
qed

definition sample_request :: request where
  "sample_request = \<lparr>rq_method = HTTP_GET, rq_target = ''/a%20b'', rq_query = Some ''q=1'', rq_version = HTTP_1_1,
     rq_fields = [(''Cookie'', ''a=b''), (''Host'', ''h''), (''COOKIE'', ''c=d'')]\<rparr>"

text \<open>
  C6: the parser computes the reference on every string of bytes, of which it looks at the first
  \<^verbatim>\<open>HTTP_BUFSZ\<close>. However they arrive, the calls of \<^verbatim>\<open>kitserv_http_recv_request\<close> end with
  the request the reference understands in these, and all of its rest; or with the status of
  the reference when it refuses, with the method, version and path read so far; or, when it
  finds the request unfinished, with a hang-up, or with 431 when the buffer is full.
\<close>

theorem request_judged:
  assumes "recv_ok c" "state (ta c) = HTTP_STATE_READ" "parse_state (ta c) = HTTP_PS_NEW" "unparsed (ta c)"
    and "\<forall>ev \<in> set (os_in w). quiet ev" "os_in w \<noteq> []" "length (req_headers c) < HTTP_BUFSZ"
    and "req_headers c @ data_of (os_in w) = s"
    and "req_method (ta c) = rd_method rd" "req_version (ta c) = rd_version rd" "rd_path rd = None"
  shows "\<exists>rc c' w'. recv_all c w = Some (rc, c', w') \<and>
    (case judge rd (take HTTP_BUFSZ s) of
       Understood rq rest \<Rightarrow> rc = 0 \<and> state (ta c') = HTTP_STATE_SERVE \<and> understood c' = meaning rq \<and>
         drop (req_payload (ta c')) (req_headers c') @ data_of (os_in w') = rest @ drop HTTP_BUFSZ s
     | Refused st rd' \<Rightarrow> rc = -1 \<and> resp_status (ta c') = st \<and> shows_reading c' rd'
     | Unfinished rd' \<Rightarrow> rc = -1 \<and> shows_reading c' rd' \<and>
         resp_status (ta c') = (if length s < HTTP_BUFSZ then HTTP_X_HANGUP else HTTP_431_REQUEST_HEADER_FIELDS_TOO_LARGE))"
proof -
  from receive_judged_any [OF assms] obtain rc c' w' v' where
    "recv_all c w = Some (rc, c', w')" "received_as (judge rd (take HTTP_BUFSZ s)) (length s) (rc, c', v')"
    "data_of (os_in w') = data_of (os_in v') @ drop HTTP_BUFSZ s" by blast
  then show ?thesis by (cases "judge rd (take HTTP_BUFSZ s)") (auto simp flip: append_assoc)
qed

lemma request_judged_witness:
  defines "w \<equiv> \<lparr>os_in = [Chunk ''GET /a'', Block, Chunk (''/../b HTTP/1.1'' @ CRLF)],
    os_wr = [], os_out = [], os_fds = [], os_errno = ENONE, os_log = []\<rparr>"
  shows "\<exists>c' w'. recv_all fresh_client w = Some (-1, c', w') \<and> resp_status (ta c') = HTTP_400_BAD_REQUEST \<and>
    req_method (ta c') = HTTP_GET \<and> string_at (req_headers c') (req_path (ta c')) = Some ''/a/../b''"
proof -
  let ?s = "''GET /a/../b HTTP/1.1'' @ CRLF"
  have j: "judge nothing_read ?s = Refused HTTP_400_BAD_REQUEST (nothing_read\<lparr>rd_method := HTTP_GET, rd_path := Some ''/a/../b''\<rparr>)"
    by code_simp
  have p: "unparsed (ta fresh_client)" "parse_state (ta fresh_client) = HTTP_PS_NEW" "req_method (ta fresh_client) = rd_method nothing_read"
    "req_version (ta fresh_client) = rd_version nothing_read" "rd_path nothing_read = None"
    by (simp_all add: unparsed_def fresh_client_def zero_ta_def nothing_read_def)
  have q: "\<forall>ev \<in> set (os_in w). quiet ev" "os_in w \<noteq> []" "length (req_headers fresh_client) < HTTP_BUFSZ"
      "req_headers fresh_client @ data_of (os_in w) = ?s" and t: "take HTTP_BUFSZ ?s = ?s"
    by (simp_all add: w_def fresh_client_simps HTTP_BUFSZ_def)
  from request_judged [OF fresh_client_ok p(2,1) q p(3-5), unfolded t j] show ?thesis
    by (auto simp: shows_reading_def nothing_read_def)
qed

lemma sample_request_plain: "plain_request sample_request"
  by (simp add: plain_request_def sample_request_def valid_method_def plain_field_def isprint_def tolower_def
      url_decoded.simps attempted_path_traversal_def isxdigit_def hex_val_def)

lemma request_roundtrip_witness:
  defines "w \<equiv> \<lparr>os_in = [Chunk (take 7 (print_request sample_request)), Block, Chunk (drop 7 (print_request sample_request) @ ''xyz'')],
    os_wr = [], os_out = [], os_fds = [], os_errno = ENONE, os_log = []\<rparr>"
  shows "\<exists>c' w'. recv_all fresh_client w = Some (0, c', w') \<and> state (ta c') = HTTP_STATE_SERVE \<and>
    understood c' = meaning sample_request \<and> drop (req_payload (ta c')) (req_headers c') @ data_of (os_in w') = ''xyz''"
  by (rule request_roundtrip [OF sample_request_plain fresh_client_ok])
    (simp_all add: w_def fresh_client_simps unparsed_def fresh_client_def zero_ta_def HTTP_BUFSZ_def print_request_def
      sample_request_def method_name_def query_part_def print_field_def)

end
