(* ===== verification/Static_Answer.thy ===== *)
theory Static_Answer
  imports Http_Serve_Safety Http_Request
begin

text \<open>
  What a static server answers, as a function of the request alone. \<open>plan\<close> is the decision
  (which file, which part of it, or which error), \<open>answer\<close> the bytes and whether the
  connection stays open. They are written without clients, buffers or positions; the lemmas
  show that \<open>kitserv_http_handle_static_path\<close> and the stages after it produce just them.
\<close>

section \<open>The decision\<close>

text \<open>The candidates are tried in order until one is a regular file or stops the search.\<close>

fun pick :: "env \<Rightarrow> string list \<Rightarrow> http_status + (string \<times> stat)" where
  "pick env [] = Inl HTTP_404_NOT_FOUND"
| "pick env (f # fs) =
     (if PATH_MAX \<le> int (length f) then Inl HTTP_414_URI_TOO_LONG
      else (case stat_file env f of
          Inl e \<Rightarrow> if e = EACCES then Inl HTTP_403_PERMISSION_DENIED else pick env fs
        | Inr st \<Rightarrow> if st_isreg st then Inr (f, st) else pick env fs))"

text \<open>The part of a file of \<open>n\<close> bytes that a \<open>Range\<close> header asks for; an invalid one is ignored.\<close>

datatype span = Whole | Part int int | Unsatisfiable

definition asked_span :: "string option \<Rightarrow> int \<Rightarrow> span" where
  "asked_span r n =
     (case r of
        None \<Rightarrow> Whole
      | Some s \<Rightarrow>
          (case range_spec s of
             None \<Rightarrow> Whole
           | Some (f, t) \<Rightarrow>
               let t = (if t < 0 \<or> n \<le> t then n - 1 else t) in
               if f < 0 then Part (n - t) (n - 1) else if n < f then Unsatisfiable else Part f t))"

text \<open>
  An error, with the headers that precede the generic ones, and whether the length of its
  body is announced as 1 (a \<open>HEAD\<close> request that got as far as its file); or a success, with
  its headers, the length it announces, and the part of a file that is its body.
\<close>

datatype plan =
  Refuse http_status string bool
| Deliver http_status string int "(string \<times> int \<times> int) option"

definition span_bounds :: "span \<Rightarrow> int \<Rightarrow> int \<times> int" where
  "span_bounds sp n = (case sp of Part a b \<Rightarrow> (a, b) | _ \<Rightarrow> (0, n - 1))"

definition range_line :: "span \<Rightarrow> int \<Rightarrow> string" where
  "range_line sp n = (case sp of
     Part a b \<Rightarrow> ''content-range'' @ '': '' @ (''bytes '' @ dec_int a @ ''-'' @ dec_int b @ ''/'' @ dec_int n) @ CRLF
   | Whole \<Rightarrow> []
   | Unsatisfiable \<Rightarrow> ''content-range'' @ '': '' @ (''*/'' @ dec_int n) @ CRLF)"

definition file_lines :: "string \<Rightarrow> string \<Rightarrow> string" where
  "file_lines f d = ''content-type'' @ '': '' @ guess_mime_type (strrchr_dot f) @ CRLF @
     ''accept-ranges'' @ '': '' @ ''bytes'' @ CRLF @ ''last-modified'' @ '': '' @ d @ CRLF"

definition plan_file :: "env \<Rightarrow> request \<Rightarrow> string \<Rightarrow> stat \<Rightarrow> plan" where
  "plan_file env rq f st =
     (let get = (rq_method rq = HTTP_GET); n = st_size st;
          sp = asked_span (last_field ''range'' (rq_fields rq)) n; (a, b) = span_bounds sp n in
      if get \<and> (case open_file env f of Inl e \<Rightarrow> True | Inr fd \<Rightarrow> False) then Refuse HTTP_500_INTERNAL_ERROR [] False
      else if sp = Unsatisfiable then Refuse HTTP_416_RANGE_NOT_SATISFIABLE (range_line sp n) (\<not> get)
      else (case date env (st_mtime st) of
          None \<Rightarrow> Refuse HTTP_500_INTERNAL_ERROR [] (\<not> get)
        | Some d \<Rightarrow>
            let h = range_line sp n @ file_lines f d;
                whole = Deliver (if sp = Whole then HTTP_200_OK else HTTP_206_PARTIAL_CONTENT) h (b - a + 1)
                  (if get then Some (f, a, b) else None) in
            (case last_field ''if-modified-since'' (rq_fields rq) of
               None \<Rightarrow> whole
             | Some s \<Rightarrow>
                 (case parse_date env s of
                    None \<Rightarrow> Refuse HTTP_400_BAD_REQUEST [] (\<not> get)
                  | Some t \<Rightarrow>
                      if st_mtime st \<le> t then Deliver HTTP_304_NOT_MODIFIED h (if get then - a else b - a + 1) None
                      else whole))))"

definition plan :: "env \<Rightarrow> request \<Rightarrow> plan" where
  "plan env rq =
     (if rq_method rq AND HTTP_GET = 0 then Refuse HTTP_405_METHOD_NOT_ALLOWED (''allow: GET, HEAD'' @ CRLF) False
      else (case pick env (candidates (default_context env) (target_path rq) (target_path rq)) of
          Inl s \<Rightarrow> Refuse s [] False
        | Inr (f, st) \<Rightarrow> plan_file env rq f st))"

section \<open>The answer\<close>

definition refusal_text :: "request \<Rightarrow> http_status \<Rightarrow> string" where
  "refusal_text rq s = error_text s @ (if s = HTTP_404_NOT_FOUND then target_path rq else [])"

definition file_part :: "env \<Rightarrow> (int \<Rightarrow> string) \<Rightarrow> (string \<times> int \<times> int) option \<Rightarrow> string" where
  "file_part env content body = (case body of None \<Rightarrow> []
     | Some (f, a, b) \<Rightarrow> (case open_file env f of Inl e \<Rightarrow> [] | Inr fd \<Rightarrow> take (nat (b - a + 1)) (drop (nat a) (content fd))))"

definition answer :: "env \<Rightarrow> (int \<Rightarrow> string) \<Rightarrow> request \<Rightarrow> string \<times> bool" where
  "answer env content rq =
     (case plan env rq of
        Refuse s h marked \<Rightarrow>
          (get_version_string (rq_version rq) @ get_status_string s @ h @ ''content-type: text/plain'' @ CRLF @
             closing_headers (if marked then 1 else int (length (refusal_text rq s))) @
             (if rq_method rq = HTTP_HEAD then [] else refusal_text rq s), False)
      | Deliver s h n body \<Rightarrow>
          (get_version_string (rq_version rq) @ get_status_string s @ h @ closing_headers n @ file_part env content body,
             rq_version rq = HTTP_1_1))"

text \<open>Requests one behind the other: the answers in order, up to the first that ends the connection.\<close>

fun answers :: "env \<Rightarrow> (int \<Rightarrow> string) \<Rightarrow> request list \<Rightarrow> string \<times> bool" where
  "answers env content [] = ([], True)"
| "answers env content (rq # rqs) =
     (case answer env content rq of
        (out, False) \<Rightarrow> (out, False)
      | (out, True) \<Rightarrow> (case answers env content rqs of (out', open') \<Rightarrow> (out @ out', open')))"

text \<open>The line of the log for each request that is answered, unless the server is silent.\<close>

definition planned_status :: "plan \<Rightarrow> http_status" where
  "planned_status p = (case p of Refuse s h marked \<Rightarrow> s | Deliver s h n body \<Rightarrow> s)"

definition log_of :: "env \<Rightarrow> http_status \<Rightarrow> string \<Rightarrow> string list" where
  "log_of env s path = (if silent env then [] else [log_line s path])"

definition log_entry :: "env \<Rightarrow> request \<Rightarrow> string list" where
  "log_entry env rq = log_of env (planned_status (plan env rq)) (target_path rq)"

fun log_entries :: "env \<Rightarrow> (int \<Rightarrow> string) \<Rightarrow> request list \<Rightarrow> string list" where
  "log_entries env content [] = []"
| "log_entries env content (rq # rqs) =
     log_entry env rq @ (if snd (answer env content rq) then log_entries env content rqs else [])"

section \<open>Choosing the file\<close>

lemma attempts_pick:
  assumes "resp_status (ta c) = HTTP_X_RESP_STATUS_UNSET" "os_errno w \<noteq> EACCES"
  shows "\<exists>w'. attempts env c w fs = (case pick env fs of
      Inl s \<Rightarrow> (Give_Up, set_status s c, w') | Inr (f, st) \<Rightarrow> (Path_Set f st, c, w')) \<and>
    os_same w w' \<and> (\<forall>x. pick env fs = Inr x \<longrightarrow> os_errno w' \<noteq> EACCES)"
  using assms(2)
proof (induction fs arbitrary: w)
  case (Cons f fs)
  have IH: "\<exists>w'. attempts env c (w\<lparr>os_errno := e\<rparr>) fs = (case pick env fs of
      Inl s \<Rightarrow> (Give_Up, set_status s c, w') | Inr (f, st) \<Rightarrow> (Path_Set f st, c, w')) \<and>
    os_same w w' \<and> (\<forall>x. pick env fs = Inr x \<longrightarrow> os_errno w' \<noteq> EACCES)" if "e \<noteq> EACCES" for e
    using Cons.IH [of "w\<lparr>os_errno := e\<rparr>"] that by (auto simp: os_same_def)
  show ?case
  proof (cases "PATH_MAX \<le> int (length f)")
    case True
    then show ?thesis by (auto simp: attempt_path_def verify_static_path_def)
  next
    case len: False
    show ?thesis
    proof (cases "stat_file env f")
      case (Inl e)
      with len assms(1) IH [of e] show ?thesis
        by (cases "e = EACCES") (auto simp: attempt_path_def verify_static_path_def)
    next
      case (Inr st)
      have "w\<lparr>os_errno := os_errno w\<rparr> = w" by simp
      with len Inr assms(1) Cons.prems IH [of "os_errno w"] show ?thesis
        by (auto simp: attempt_path_def verify_static_path_def)
    qed
  qed
qed (auto simp: os_same_def)

lemma pick_Inl: "pick env fs = Inl s \<Longrightarrow> s \<in> {HTTP_404_NOT_FOUND, HTTP_403_PERMISSION_DENIED, HTTP_414_URI_TOO_LONG}"
  by (induction fs) (auto split: if_splits sum.splits)

lemma pick_Inr: "pick env fs = Inr (f, st) \<Longrightarrow> f \<in> set fs \<and> stat_file env f = Inr st \<and> st_isreg st"
  by (induction fs) (auto split: if_splits sum.splits)

section \<open>The part asked for\<close>

lemma asked_span_bounds:
  assumes "asked_span r n = Part a b" "0 \<le> n"
  shows "0 \<le> a \<and> a \<le> n + 1 \<and> -1 \<le> b \<and> b < n \<and> (a \<le> b + 1 \<or> n = 0)"
proof -
  from assms(1) obtain s f t where s: "r = Some s" "range_spec s = Some (f, t)"
    by (auto simp: asked_span_def split: option.splits)
  from s(2) show ?thesis
  proof (cases rule: range_spec_cases)
    case first
    with assms s show ?thesis by (auto simp: asked_span_def Let_def split: if_splits)
  next
    case suffix
    with assms s show ?thesis by (auto simp: asked_span_def Let_def split: if_splits)
  qed
qed

lemma range_request_span:
  assumes "range_requested (ta c) = (r \<noteq> None)" "\<And>s. r = Some s \<Longrightarrow> \<exists>p. req_range (ta c) = Some p \<and> cstr (req_headers c) p = Some s"
    and "range_requested (ta c)"
  shows "parse_range_request c n = Some (case asked_span r n of
      Whole \<Rightarrow> (-1, set_status HTTP_400_BAD_REQUEST c)
    | Part a b \<Rightarrow> (0, set_range c a b)
    | Unsatisfiable \<Rightarrow> (-1, set_status HTTP_416_RANGE_NOT_SATISFIABLE c))"
proof -
  from assms(1,3) obtain s where s: "r = Some s" by auto
  from assms(2) [OF s] obtain p where p: "req_range (ta c) = Some p" "cstr (req_headers c) p = Some s" by blast
  show ?thesis unfolding parse_range_request_spec [OF assms(3) p] s
    by (auto simp: asked_span_def Let_def split: option.splits)
qed

section \<open>The stages of a file\<close>

text \<open>What a stage leaves: its headers, the range, and the two flags; the rest is as it was.\<close>

definition staged :: "kitserv_client \<Rightarrow> kitserv_client \<Rightarrow> string \<Rightarrow> int \<times> int \<Rightarrow> bool \<Rightarrow> bool \<Rightarrow> bool" where
  "staged c c' h ab r p \<longleftrightarrow> stage_frame c c' \<and> hdr_content c' = h \<and>
     (resp_body_pos (ta c'), resp_body_end (ta c')) = ab \<and> range_requested (ta c') = r \<and> preserve_headers_on_error (ta c') = p"

lemma hdr_room_content: "hdr_ok c \<Longrightarrow> hdr_room c = HTTP_BUFSZ - length (hdr_content c)"
  by (simp add: hdr_ok_def hdr_content_def hdr_room_def)

lemma dec_int_short: "\<bar>i\<bar> < 2 ^ 63 \<Longrightarrow> length (dec_int i) \<le> 20"
proof -
  assume "\<bar>i\<bar> < 2 ^ 63"
  then have "nat \<bar>i\<bar> < 10 ^ 19" by (simp add: nat_less_iff)
  from dec_nat_length [OF this] show ?thesis by (cases "i < 0") (simp_all add: dec_int_def)
qed

lemma header_add_short:
  assumes "hdr_ok c" "length nm + length v + 4 + length (hdr_content c) < HTTP_BUFSZ"
  obtains m n where "kitserv_http_header_add c e nm v = Some (0, hdr_set c m n, e)" "hdr_ok (hdr_set c m n)"
    "hdr_content (hdr_set c m n) = hdr_content c @ nm @ '': '' @ v @ CRLF"
proof -
  have "length (nm @ '': '' @ v @ CRLF) < hdr_room c" using assms(2) by (simp add: hdr_room_content [OF assms(1)])
  from header_add_fits [OF assms(1) this, of e] that show thesis by blast
qed

lemma range_staged:
  assumes c: "hdr_ok c" "hdr_content c = []" "resp_body_pos (ta c) = 0" "resp_body_end (ta c) = n - 1" "\<not> preserve_headers_on_error (ta c)"
    and r: "range_requested (ta c) = (r \<noteq> None)" "\<And>s. r = Some s \<Longrightarrow> \<exists>p. req_range (ta c) = Some p \<and> cstr (req_headers c) p = Some s"
    and n: "0 \<le> n" "n < 2 ^ 62"
  shows "\<exists>c'. static_range c e n = Some (asked_span r n = Unsatisfiable, c', e) \<and>
    staged c c' (range_line (asked_span r n) n) (span_bounds (asked_span r n) n) (asked_span r n \<noteq> Whole) (asked_span r n = Unsatisfiable) \<and>
    (asked_span r n = Unsatisfiable \<longrightarrow> resp_status (ta c') = HTTP_416_RANGE_NOT_SATISFIABLE)"
proof (cases "range_requested (ta c)")
  case False
  with r(1) have "asked_span r n = Whole" by (simp add: asked_span_def)
  with False c show ?thesis
    by (simp add: static_range_def staged_def stage_frame_def range_line_def span_bounds_def)
next
  case True
  note req = range_request_span [OF r True, of n]
  show ?thesis
  proof (cases "asked_span r n")
    case Whole
    with c True req show ?thesis
      by (simp add: static_range_def staged_def stage_frame_def range_line_def span_bounds_def static_keep_def hdr_ok_def hdr_content_def)
  next
    case (Part a b)
    let ?c = "set_range c a b" and ?v = "''bytes '' @ dec_int a @ ''-'' @ dec_int b @ ''/'' @ dec_int n"
    from asked_span_bounds [OF Part n(1)] n(2) have "\<bar>a\<bar> < 2 ^ 63" "\<bar>b\<bar> < 2 ^ 63" "\<bar>n\<bar> < 2 ^ 63" by auto
    from this [THEN dec_int_short] have "length ?v \<le> 68" by simp
    moreover have ok: "hdr_ok ?c" and e: "hdr_content ?c = []" using c by (simp_all add: hdr_ok_def hdr_content_def)
    ultimately have "length ''content-range'' + length ?v + 4 + length (hdr_content ?c) < HTTP_BUFSZ" by (simp add: HTTP_BUFSZ_def)
    from header_add_short [OF ok this, of e] obtain m k where h:
      "kitserv_http_header_add ?c e ''content-range'' ?v = Some (0, hdr_set ?c m k, e)" "hdr_ok (hdr_set ?c m k)"
      "hdr_content (hdr_set ?c m k) = hdr_content ?c @ ''content-range'' @ '': '' @ ?v @ CRLF" .
    have "static_range c e n = Some (False, hdr_set ?c m k, e)"
      using True req Part h(1) by (simp add: static_range_def http_header_add_content_range_def)
    moreover have "staged c (hdr_set ?c m k) (range_line (Part a b) n) (a, b) True False"
      using h(2,3) c e True by (simp add: staged_def stage_frame_def range_line_def static_keep_def)
    ultimately show ?thesis using Part by (simp add: span_bounds_def)
  next
    case Unsatisfiable
    let ?c = "set_status HTTP_416_RANGE_NOT_SATISFIABLE c" and ?v = "''*/'' @ dec_int n"
    have "length (dec_int n) \<le> 20" using n by (intro dec_int_short) simp
    moreover have ok: "hdr_ok ?c" and e: "hdr_content ?c = []" using c by (simp_all add: hdr_ok_def hdr_content_def)
    ultimately have "length ''content-range'' + length ?v + 4 + length (hdr_content ?c) < HTTP_BUFSZ" by (simp add: HTTP_BUFSZ_def)
    from header_add_short [OF ok this, of e] obtain m k where h:
      "kitserv_http_header_add ?c e ''content-range'' ?v = Some (0, hdr_set ?c m k, e)" "hdr_ok (hdr_set ?c m k)"
      "hdr_content (hdr_set ?c m k) = hdr_content ?c @ ''content-range'' @ '': '' @ ?v @ CRLF" .
    let ?c' = "(hdr_set ?c m k)\<lparr>ta := (ta (hdr_set ?c m k))\<lparr>preserve_headers_on_error := True\<rparr>\<rparr>"
    have "static_range c e n = Some (True, ?c', e)"
      using True req Unsatisfiable h(1) by (simp add: static_range_def)
    moreover have "staged c ?c' (range_line Unsatisfiable n) (0, n - 1) True True"
      using h(2,3) c e True by (simp add: staged_def stage_frame_def range_line_def static_keep_def hdr_ok_def hdr_content_def)
    ultimately show ?thesis using Unsatisfiable by (simp add: span_bounds_def)
  qed
qed

text \<open>The three headers of a file, when its date can be rendered.\<close>

lemma guess_mime_length: "length (guess_mime_type x) \<le> 24"
  by (simp add: guess_mime_type_def split: option.split)

lemma headers_two:
  assumes c: "hdr_ok c" "length (hdr_content c) \<le> 100"
  obtains c' m n where "c' = hdr_set c m n" "hdr_ok c'"
    "hdr_content c' = hdr_content c @ ''content-type'' @ '': '' @ guess_mime_type (strrchr_dot f) @ CRLF @
       ''accept-ranges'' @ '': '' @ ''bytes'' @ CRLF"
    "length (hdr_content c') \<le> 170"
    "static_headers env c e f t = do {
       (rc, c, e) \<leftarrow> kitserv_http_header_add_last_modified (date env) c' e t;
       if rc \<noteq> 0 then Some (True, set_status HTTP_500_INTERNAL_ERROR c, e) else Some (False, c, e) }"
proof -
  have "length ''content-type'' + length (guess_mime_type (strrchr_dot f)) + 4 + length (hdr_content c) < HTTP_BUFSZ"
    using c(2) guess_mime_length [of "strrchr_dot f"] by (simp add: HTTP_BUFSZ_def)
  from header_add_short [OF c(1) this, of e] obtain m1 n1 where h1:
    "kitserv_http_header_add c e ''content-type'' (guess_mime_type (strrchr_dot f)) = Some (0, hdr_set c m1 n1, e)"
    "hdr_ok (hdr_set c m1 n1)"
    "hdr_content (hdr_set c m1 n1) = hdr_content c @ ''content-type'' @ '': '' @ guess_mime_type (strrchr_dot f) @ CRLF" .
  let ?c1 = "hdr_set c m1 n1"
  have l1: "length (hdr_content ?c1) \<le> 140" using c(2) guess_mime_length [of "strrchr_dot f"] by (simp only: h1(3)) simp
  then have "length ''accept-ranges'' + length ''bytes'' + 4 + length (hdr_content ?c1) < HTTP_BUFSZ" by (simp add: HTTP_BUFSZ_def)
  from header_add_short [OF h1(2) this, of e] obtain m2 n2 where h2:
    "kitserv_http_header_add ?c1 e ''accept-ranges'' ''bytes'' = Some (0, hdr_set ?c1 m2 n2, e)" "hdr_ok (hdr_set ?c1 m2 n2)"
    "hdr_content (hdr_set ?c1 m2 n2) = hdr_content ?c1 @ ''accept-ranges'' @ '': '' @ ''bytes'' @ CRLF" .
  have "static_headers env c e f t = do {
       (rc, c, e) \<leftarrow> kitserv_http_header_add_last_modified (date env) (hdr_set ?c1 m2 n2) e t;
       if rc \<noteq> 0 then Some (True, set_status HTTP_500_INTERNAL_ERROR c, e) else Some (False, c, e) }"
    unfolding static_headers_def kitserv_http_header_add_content_type_guess_def h1(1) by (simp add: h2(1))
  moreover have "hdr_set ?c1 m2 n2 = hdr_set c m2 n2" by simp
  moreover have "hdr_content (hdr_set ?c1 m2 n2) = hdr_content c @ ''content-type'' @ '': '' @ guess_mime_type (strrchr_dot f) @ CRLF @
       ''accept-ranges'' @ '': '' @ ''bytes'' @ CRLF"
    unfolding h2(3) h1(3) append_assoc ..
  moreover have "length (hdr_content (hdr_set ?c1 m2 n2)) \<le> 170" using l1 by (simp only: h2(3)) simp
  ultimately show thesis using that [OF _ h2(2), of n2 m2] by metis
qed

lemma headers_staged:
  assumes c: "hdr_ok c" "length (hdr_content c) \<le> 100" and d: "date env t = Some d" "length d < 32"
  shows "\<exists>m n. static_headers env c e f t = Some (False, hdr_set c m n, e) \<and> hdr_ok (hdr_set c m n) \<and>
    hdr_content (hdr_set c m n) = hdr_content c @ file_lines f d"
proof -
  from headers_two [OF c, of f env e t] obtain c2 m n where h: "c2 = hdr_set c m n" "hdr_ok c2"
    "hdr_content c2 = hdr_content c @ ''content-type'' @ '': '' @ guess_mime_type (strrchr_dot f) @ CRLF @
       ''accept-ranges'' @ '': '' @ ''bytes'' @ CRLF"
    "length (hdr_content c2) \<le> 170"
    "static_headers env c e f t = do {
       (rc, c, e) \<leftarrow> kitserv_http_header_add_last_modified (date env) c2 e t;
       if rc \<noteq> 0 then Some (True, set_status HTTP_500_INTERNAL_ERROR c, e) else Some (False, c, e) }" .
  have "length ''last-modified'' + length d + 4 + length (hdr_content c2) < HTTP_BUFSZ" using d(2) h(4) by (simp add: HTTP_BUFSZ_def)
  from header_add_short [OF h(2) this, of e] obtain m3 n3 where h3:
    "kitserv_http_header_add c2 e ''last-modified'' d = Some (0, hdr_set c2 m3 n3, e)" "hdr_ok (hdr_set c2 m3 n3)"
    "hdr_content (hdr_set c2 m3 n3) = hdr_content c2 @ ''last-modified'' @ '': '' @ d @ CRLF" .
  have "static_headers env c e f t = Some (False, hdr_set c2 m3 n3, e)"
    using h(5) h3(1) d(1) by (simp add: kitserv_http_header_add_last_modified_def)
  moreover have "hdr_content (hdr_set c2 m3 n3) = hdr_content c @ file_lines f d"
    unfolding h3(3) h(3) file_lines_def append_assoc ..
  moreover have "hdr_set c2 m3 n3 = hdr_set c m3 n3" unfolding h(1) by simp
  ultimately show ?thesis using h3(2) by metis
qed

text \<open>Without a date the file is not served.\<close>

lemma headers_dateless:
  assumes c: "hdr_ok c" "length (hdr_content c) \<le> 100" and d: "date env t = None"
  shows "\<exists>m n. static_headers env c e f t = Some (True, set_status HTTP_500_INTERNAL_ERROR (hdr_set c m n), e) \<and> hdr_ok (hdr_set c m n)"
proof -
  from headers_two [OF c, of f env e t] obtain c2 m n where h: "c2 = hdr_set c m n" "hdr_ok c2"
    "static_headers env c e f t = do {
       (rc, c, e) \<leftarrow> kitserv_http_header_add_last_modified (date env) c2 e t;
       if rc \<noteq> 0 then Some (True, set_status HTTP_500_INTERNAL_ERROR c, e) else Some (False, c, e) }" .
  have "static_headers env c e f t = Some (True, set_status HTTP_500_INTERNAL_ERROR c2, e)"
    using h(3) d by (simp add: kitserv_http_header_add_last_modified_def)
  with h(1,2) show ?thesis by metis
qed

section \<open>The plan is met\<close>

text \<open>The file that was opened: a descriptor on top of those open before, or the marker.\<close>

definition holds_file :: "bool \<Rightarrow> os \<Rightarrow> kitserv_client \<Rightarrow> os \<Rightarrow> bool" where
  "holds_file get w c1 w1 \<longleftrightarrow>
     (if get then 0 < resp_fd (ta c1) \<and> os_same (w\<lparr>os_fds := resp_fd (ta c1) # os_fds w\<rparr>) w1
      else resp_fd (ta c1) = KITSERV_FD_HEAD \<and> os_same w w1)"

lemma os_same_fds: "os_same (w\<lparr>os_fds := x\<rparr>) w1 \<Longrightarrow> os_same (w\<lparr>os_fds := y\<rparr>) (w1\<lparr>os_fds := y\<rparr>)"
  by (cases w; cases w1) (simp add: os_same_def)

lemma os_same_push:
  assumes "os_same w w1" "os_same (w1\<lparr>os_fds := fd # os_fds w1\<rparr>) w2"
  shows "os_same (w\<lparr>os_fds := fd # os_fds w\<rparr>) w2"
proof -
  have "os_same (w\<lparr>os_fds := os_fds w\<rparr>) w1" using assms(1) by simp
  from os_same_fds [OF this] have "os_same (w\<lparr>os_fds := fd # os_fds w\<rparr>) (w1\<lparr>os_fds := fd # os_fds w1\<rparr>)"
    by (simp add: os_sameD(1) [OF assms(1)])
  from os_same_trans [OF this assms(2)] show ?thesis .
qed

lemma holds_file_close:
  assumes "holds_file get w c1 w1"
  shows "\<exists>w2. close_fd_to_zero c1 w1 = (c1\<lparr>ta := (ta c1)\<lparr>resp_fd := if get then 0 else KITSERV_FD_HEAD\<rparr>\<rparr>, w2) \<and>
    os_same w w2 \<and> os_errno w2 = os_errno w1"
proof (cases get)
  case True
  with assms have s: "0 < resp_fd (ta c1)" "os_same (w\<lparr>os_fds := resp_fd (ta c1) # os_fds w\<rparr>) w1" by (simp_all add: holds_file_def)
  from os_sameD(1) [OF s(2)] have "os_fds w1 = resp_fd (ta c1) # os_fds w" by simp
  moreover have "os_same w (w1\<lparr>os_fds := os_fds w\<rparr>)" using os_same_fds [OF s(2), of "os_fds w"] by simp
  ultimately show ?thesis using True s(1) by (simp add: close_fd_to_zero_def)
next
  case False
  with assms have "resp_fd (ta c1) = KITSERV_FD_HEAD" "os_same w w1" by (simp_all add: holds_file_def)
  moreover have "c1\<lparr>ta := (ta c1)\<lparr>resp_fd := resp_fd (ta c1)\<rparr>\<rparr> = c1" by simp
  ultimately show ?thesis using False by (simp add: close_fd_to_zero_def KITSERV_FD_HEAD_def)
qed

lemma holds_file_cong: "holds_file get w c1 w1 \<Longrightarrow> resp_fd (ta c2) = resp_fd (ta c1) \<Longrightarrow> holds_file get w c2 (w1\<lparr>os_errno := e\<rparr>)"
  by (auto simp: holds_file_def os_same_def split: if_splits)

text \<open>The client and the system after a request has been served as planned.\<close>

definition plan_met :: "env \<Rightarrow> kitserv_client \<Rightarrow> os \<Rightarrow> plan \<Rightarrow> kitserv_client \<Rightarrow> os \<Rightarrow> bool" where
  "plan_met env c w pl c' w' \<longleftrightarrow> static_keep c' = static_keep c \<and> hdr_ok c' \<and>
     (case pl of
        Refuse s h marked \<Rightarrow> resp_status (ta c') = s \<and> status_is_error s \<and> os_same w w' \<and>
          resp_fd (ta c') = (if marked then KITSERV_FD_HEAD else 0) \<and> req_method (ta c') = req_method (ta c) \<and>
          (marked \<longrightarrow> req_method (ta c) = HTTP_HEAD) \<and>
          (if s = HTTP_416_RANGE_NOT_SATISFIABLE
           then preserve_headers_on_error (ta c') \<and> hdr_content c' = h \<and> length h \<le> 64
           else \<not> preserve_headers_on_error (ta c') \<and> h = error_allow c')
      | Deliver s h n body \<Rightarrow> resp_status (ta c') = s \<and> \<not> status_is_error s \<and> s \<noteq> HTTP_X_HANGUP \<and> hdr_content c' = h \<and>
          length h \<le> 250 \<and> response_length c' = n \<and> \<bar>n\<bar> < 2 ^ 63 \<and> os_errno w' \<noteq> EACCES \<and>
          (case body of
             None \<Rightarrow> os_same w w' \<and> resp_fd (ta c') \<le> 0 \<and> (resp_fd (ta c') = 0 \<longrightarrow> req_method (ta c') = HTTP_HEAD)
           | Some (f, a, b) \<Rightarrow> open_file env f = Inr (resp_fd (ta c')) \<and> 0 < resp_fd (ta c') \<and>
               os_same (w\<lparr>os_fds := resp_fd (ta c') # os_fds w\<rparr>) w' \<and> req_method (ta c') = HTTP_GET \<and>
               resp_body_pos (ta c') = a \<and> resp_body_end (ta c') = b \<and>
               (\<exists>st. stat_file env f = Inr st \<and> st_isreg st \<and> 0 \<le> a \<and> b < st_size st \<and> (a \<le> b + 1 \<or> st_size st = 0))))"

text \<open>An error after the file was opened closes it.\<close>

lemma refuse_met:
  assumes h: "holds_file get w c1 w1" and k: "static_keep c1 = static_keep c" "hdr_ok c1"
    and m: "req_method (ta c1) = req_method (ta c)" "\<not> get \<longrightarrow> req_method (ta c) = HTTP_HEAD"
    and s: "resp_status (ta c1) = s" "status_is_error s"
    and p: "if s = HTTP_416_RANGE_NOT_SATISFIABLE then preserve_headers_on_error (ta c1) \<and> hdr_content c1 = hs \<and> length hs \<le> 64
      else \<not> preserve_headers_on_error (ta c1) \<and> hs = [] \<and> s \<noteq> HTTP_405_METHOD_NOT_ALLOWED"
  shows "\<exists>c' w'. err_closefd c1 w1 = (-1, c', w') \<and> plan_met env c w (Refuse s hs (\<not> get)) c' w'"
proof -
  let ?c = "c1\<lparr>ta := (ta c1)\<lparr>resp_fd := if get then 0 else KITSERV_FD_HEAD\<rparr>\<rparr>"
  from holds_file_close [OF h] obtain w2 where cl: "close_fd_to_zero c1 w1 = (?c, w2)" "os_same w w2" by blast
  have "static_keep ?c = static_keep c1" by (simp add: static_keep_def)
  then have "plan_met env c w (Refuse s hs (\<not> get)) ?c w2"
    using k m s p cl(2) by (auto simp: plan_met_def error_allow_def hdr_ok_def hdr_content_def)
  with cl(1) show ?thesis by (simp add: err_closefd_def)
qed

text \<open>A request as the stages need it: understood, with nothing of a response yet.\<close>

definition asked :: "request \<Rightarrow> kitserv_client \<Rightarrow> bool" where
  "asked rq c \<longleftrightarrow> static_ready c \<and> hdr_content c = [] \<and> resp_body_pos (ta c) = 0 \<and> b_len (resp_body c) = 0 \<and> \<not> preserve_headers_on_error (ta c) \<and> api_allow_flags (ta c) = 0 \<and>
     understood c = meaning rq \<and> range_requested (ta c) = (last_field ''range'' (rq_fields rq) \<noteq> None) \<and> valid_method (rq_method rq)"

lemma asked_strings:
  assumes "asked rq c"
  shows "req_method (ta c) = rq_method rq" "req_version (ta c) = rq_version rq"
    "\<exists>p. req_path (ta c) = Some p \<and> cstr (req_headers c) p = Some (target_path rq)"
    "last_field ''range'' (rq_fields rq) = Some s \<Longrightarrow> \<exists>p. req_range (ta c) = Some p \<and> cstr (req_headers c) p = Some s"
    "req_modified_since (ta c) = None \<Longrightarrow> last_field ''if-modified-since'' (rq_fields rq) = None"
    "req_modified_since (ta c) = Some p \<Longrightarrow> cstr (req_headers c) p = last_field ''if-modified-since'' (rq_fields rq)"
proof -
  from assms have u: "understood c = meaning rq" by (simp add: asked_def)
  note e = u [THEN arg_cong]
  show "req_method (ta c) = rq_method rq" "req_version (ta c) = rq_version rq"
    using e [of u_method] e [of u_version] by (simp_all add: understood_def meaning_def Let_def)
  show "\<exists>p. req_path (ta c) = Some p \<and> cstr (req_headers c) p = Some (target_path rq)"
    using e [of u_path] by (auto simp: understood_def meaning_def Let_def string_at_def target_path_def split: option.splits)
  show "last_field ''range'' (rq_fields rq) = Some s \<Longrightarrow> \<exists>p. req_range (ta c) = Some p \<and> cstr (req_headers c) p = Some s"
    using e [of u_range] by (auto simp: understood_def meaning_def Let_def string_at_def split: option.splits)
  show "req_modified_since (ta c) = None \<Longrightarrow> last_field ''if-modified-since'' (rq_fields rq) = None"
    "req_modified_since (ta c) = Some p \<Longrightarrow> cstr (req_headers c) p = last_field ''if-modified-since'' (rq_fields rq)"
    using e [of u_modified_since] by (simp_all add: understood_def meaning_def Let_def string_at_def)
qed

lemma deliver_met:
  assumes h: "holds_file get w c1 w1" and k: "static_keep c1 = static_keep c" "hdr_ok c1" and e: "os_errno w1 \<noteq> EACCES"
    and m: "req_method (ta c1) = rq_method rq" "get = (rq_method rq = HTTP_GET)"
    and hs: "hdr_content c1 = hs" "length hs \<le> 250"
    and ab: "resp_body_pos (ta c1) = a" "resp_body_end (ta c1) = b" "\<bar>b - a + 1\<bar> < 2 ^ 63"
      "0 \<le> a" "b < st_size st" "a \<le> b + 1 \<or> st_size st = 0"
    and f: "stat_file env f = Inr st" "st_isreg st" "get \<Longrightarrow> open_file env f = Inr (resp_fd (ta c1))"
    and s: "\<not> status_is_error s" "s \<noteq> HTTP_X_HANGUP"
  shows "plan_met env c w (Deliver s hs (b - a + 1) (if get then Some (f, a, b) else None)) (set_status s c1) w1"
proof -
  have "static_keep (set_status s c1) = static_keep c1" by (simp add: static_keep_def)
  moreover have "response_length (set_status s c1) = b - a + 1"
    using h ab(1,2) by (auto simp: response_length_def holds_file_def KITSERV_FD_HEAD_def split: if_splits)
  moreover have "hdr_ok (set_status s c1)" "hdr_content (set_status s c1) = hs" using k(2) hs(1) by (simp_all add: hdr_ok_def hdr_content_def)
  ultimately show ?thesis
    using h k e m hs ab f s by (cases get) (auto simp: plan_met_def holds_file_def KITSERV_FD_HEAD_def)
qed

lemma not_modified_met:
  assumes h: "holds_file get w c1 w1" and k: "static_keep c1 = static_keep c" "hdr_ok c1" and e: "os_errno w1 \<noteq> EACCES"
    and b0: "b_len (resp_body c) = 0"
    and hs: "hdr_content c1 = hs" "length hs \<le> 250"
    and ab: "resp_body_pos (ta c1) = a" "resp_body_end (ta c1) = b" "\<bar>b - a + 1\<bar> < 2 ^ 63" "\<bar>a\<bar> < 2 ^ 63"
  shows "\<exists>c' w'. close_fd_to_zero (c1\<lparr>ta := (ta c1)\<lparr>resp_status := HTTP_304_NOT_MODIFIED, req_method := HTTP_HEAD\<rparr>\<rparr>) w1 = (c', w') \<and>
    plan_met env c w (Deliver HTTP_304_NOT_MODIFIED hs (if get then - a else b - a + 1) None) c' w'"
proof -
  let ?c1 = "c1\<lparr>ta := (ta c1)\<lparr>resp_status := HTTP_304_NOT_MODIFIED, req_method := HTTP_HEAD\<rparr>\<rparr>"
  let ?c = "?c1\<lparr>ta := (ta ?c1)\<lparr>resp_fd := if get then 0 else KITSERV_FD_HEAD\<rparr>\<rparr>"
  have "holds_file get w ?c1 w1" using h by (simp add: holds_file_def)
  from holds_file_close [OF this] obtain w2 where cl: "close_fd_to_zero ?c1 w1 = (?c, w2)" "os_same w w2" "os_errno w2 = os_errno w1" by blast
  have keep: "static_keep ?c = static_keep c" using k(1) by (simp add: static_keep_def)
  have "b_len (resp_body ?c) = 0" using static_keepD(2) [OF keep] b0 by simp
  then have "response_length ?c = (if get then - a else b - a + 1)"
    using ab(1,2) by (simp add: response_length_def KITSERV_FD_HEAD_def)
  moreover have "hdr_ok ?c" "hdr_content ?c = hs" using k(2) hs(1) by (simp_all add: hdr_ok_def hdr_content_def)
  ultimately have "plan_met env c w (Deliver HTTP_304_NOT_MODIFIED hs (if get then - a else b - a + 1) None) ?c w2"
    using keep cl e hs ab by (simp add: plan_met_def status_is_error_def KITSERV_FD_HEAD_def)
  with cl(1) show ?thesis by blast
qed

text \<open>
  What the files and dates are assumed to be: sizes fit, an opened file has the size it was
  reported with, and a rendered date fits the buffer it is rendered into.
\<close>

definition tidy_files :: "env \<Rightarrow> (int \<Rightarrow> string) \<Rightarrow> bool" where
  "tidy_files env content \<longleftrightarrow> root (default_context env) \<noteq> None \<and> (\<forall>f fd. open_file env f = Inr fd \<longrightarrow> 0 < fd) \<and>
     (\<forall>t d. date env t = Some d \<longrightarrow> length d < 32) \<and>
     (\<forall>f st. stat_file env f = Inr st \<and> st_isreg st \<longrightarrow> 0 \<le> st_size st \<and> st_size st < 2 ^ 62 \<and>
        (\<forall>fd. open_file env f = Inr fd \<longrightarrow> int (length (content fd)) = st_size st))"

definition tidy :: "env \<Rightarrow> (int \<Rightarrow> string) \<Rightarrow> bool" where
  "tidy env content \<longleftrightarrow> api_tree env = None \<and> tidy_files env content"

text \<open>The last section, with the headers in place.\<close>

lemma finish_met:
  assumes a: "asked rq c" and h: "holds_file get w c1 w1" and k: "static_keep c1 = static_keep c" "hdr_ok c1"
    and e: "os_errno w1 \<noteq> EACCES" and np: "\<not> preserve_headers_on_error (ta c1)"
    and m: "req_method (ta c1) = rq_method rq" "get = (rq_method rq = HTTP_GET)" "\<not> get \<longrightarrow> rq_method rq = HTTP_HEAD"
    and fr: "req_headers c1 = req_headers c" "req_modified_since (ta c1) = req_modified_since (ta c)"
    and hs: "hdr_content c1 = range_line sp n @ file_lines f d" "length (hdr_content c1) \<le> 250"
    and ab: "resp_body_pos (ta c1) = fst (span_bounds sp n)" "resp_body_end (ta c1) = snd (span_bounds sp n)"
    and sp: "sp = asked_span (last_field ''range'' (rq_fields rq)) n" "sp \<noteq> Unsatisfiable" "range_requested (ta c1) = (sp \<noteq> Whole)"
    and n: "n = st_size st" "0 \<le> n" "n < 2 ^ 62"
    and f: "stat_file env f = Inr st" "st_isreg st" "get \<Longrightarrow> open_file env f = Inr (resp_fd (ta c1))" and d: "date env (st_mtime st) = Some d"
  shows "\<exists>rc c' w'. static_finish env c1 w1 (st_mtime st) = Some (rc, c', w') \<and> plan_met env c w (plan_file env rq f st) c' w'"
proof -
  obtain x y where xy: "span_bounds sp n = (x, y)" by (cases "span_bounds sp n")
  have b0: "0 \<le> x \<and> x \<le> n + 1 \<and> -1 \<le> y \<and> y < n \<and> (x \<le> y + 1 \<or> n = 0)"
  proof (cases sp)
    case (Part i j)
    with xy have "sp = Part x y" by (simp add: span_bounds_def)
    with asked_span_bounds [of _ n x y] n(2) show ?thesis unfolding sp(1) by blast
  qed (use xy n(2) sp(2) in \<open>auto simp: span_bounds_def\<close>)
  then have b: "0 \<le> x" "y < n" "x \<le> y + 1 \<or> n = 0" "\<bar>y - x + 1\<bar> < 2 ^ 63" "\<bar>x\<bar> < 2 ^ 63"
    using n(3) by (auto simp: abs_less_iff)
  have opn: "\<not> (get \<and> (case open_file env f of Inl e \<Rightarrow> True | Inr fd \<Rightarrow> False))" using f(3) by auto
  let ?hs = "range_line sp n @ file_lines f d"
  let ?s = "if sp = Whole then HTTP_200_OK else HTTP_206_PARTIAL_CONTENT"
  let ?whole = "Deliver ?s ?hs (y - x + 1) (if get then Some (f, x, y) else None)"
  have pl: "plan_file env rq f st = (case last_field ''if-modified-since'' (rq_fields rq) of None \<Rightarrow> ?whole
     | Some s \<Rightarrow> (case parse_date env s of None \<Rightarrow> Refuse HTTP_400_BAD_REQUEST [] (\<not> get)
         | Some t \<Rightarrow> if st_mtime st \<le> t then Deliver HTTP_304_NOT_MODIFIED ?hs (if get then - x else y - x + 1) None else ?whole))"
    unfolding plan_file_def Let_def n(1) [symmetric] sp(1) [symmetric] xy prod.case m(2) [symmetric] if_not_P [OF opn] d
      option.case if_not_P [OF sp(2)] ..
  have stat: "\<not> status_is_error ?s" "?s \<noteq> HTTP_X_HANGUP" by (simp_all add: status_is_error_def)
  have whole: "plan_met env c w ?whole (set_status ?s c1) w1"
    using ab xy b n(1) by (intro deliver_met [OF h k e m(1,2) hs(1) _ _ _ b(4,1) _ _ f stat]) (use hs in simp_all)
  have ok: "(if range_requested (ta c1) then HTTP_206_PARTIAL_CONTENT else HTTP_200_OK) = ?s" using sp(3) by simp
  note unf = static_finish_def Let_def ok
  show ?thesis
  proof (cases "req_modified_since (ta c)")
    case None
    with asked_strings(5) [OF a] whole pl fr(2) show ?thesis by (simp add: unf)
  next
    case (Some p)
    from a Some obtain s0 where "cstr (req_headers c) p = Some s0" by (auto simp: asked_def static_ready_def)
    with asked_strings(6) [OF a Some] have s0: "cstr (req_headers c) p = Some s0" "last_field ''if-modified-since'' (rq_fields rq) = Some s0"
      by simp_all
    note run = unf fr Some option.case s0(1) Option.bind.simps(2)
    show ?thesis
    proof (cases "parse_date env s0")
      case None
      have "holds_file get w (set_status HTTP_400_BAD_REQUEST c1) w1" using h by (simp add: holds_file_def)
      moreover have "static_keep (set_status HTTP_400_BAD_REQUEST c1) = static_keep c" using k(1) by (simp add: static_keep_def)
      moreover have "hdr_ok (set_status HTTP_400_BAD_REQUEST c1)" using k(2) by (simp add: hdr_ok_def)
      ultimately obtain c' w' where "err_closefd (set_status HTTP_400_BAD_REQUEST c1) w1 = (-1, c', w')"
        "plan_met env c w (Refuse HTTP_400_BAD_REQUEST [] (\<not> get)) c' w'"
        using refuse_met [of get w "set_status HTTP_400_BAD_REQUEST c1" w1 c HTTP_400_BAD_REQUEST "[]" env] m np asked_strings(1) [OF a]
        by (auto simp: status_is_error_def)
      with None pl s0(2) show ?thesis by (simp add: run)
    next
      case t: (Some t)
      show ?thesis
      proof (cases "st_mtime st \<le> t")
        case True
        have "b_len (resp_body c) = 0" using a by (simp add: asked_def)
        from not_modified_met [OF h k e this hs(1) hs(2) [unfolded hs(1)] ab, of env] xy b True t pl s0(2) hs(1) show ?thesis by (auto simp: run)
      next
        case False
        with whole t pl s0(2) show ?thesis by (simp add: run)
      qed
    qed
  qed
qed

text \<open>A file that was found: opening, the range, the headers, the end.\<close>

lemma stage_frame_trans: "stage_frame c1 c2 \<Longrightarrow> stage_frame c2 c3 \<Longrightarrow> stage_frame c1 c3"
  by (simp add: stage_frame_def)

lemma serve_planned:
  assumes a: "asked rq c" and t: "tidy_files env content" and f: "stat_file env f = Inr st" "st_isreg st"
    and e: "os_errno w \<noteq> EACCES" and m: "rq_method rq AND HTTP_GET \<noteq> 0"
  shows "\<exists>rc c' w'. static_serve env c w f st = Some (rc, c', w') \<and> plan_met env c w (plan_file env rq f st) c' w'"
proof -
  define get where "get = (rq_method rq = HTTP_GET)"
  define n where "n = st_size st"
  define r where "r = last_field ''range'' (rq_fields rq)"
  define sp where "sp = asked_span r n"
  have meth: "req_method (ta c) = rq_method rq" using asked_strings(1) [OF a] .
  have head: "\<not> get \<longrightarrow> rq_method rq = HTTP_HEAD" using a m by (auto simp: asked_def valid_method_def get_def)
  have n: "0 \<le> n" "n < 2 ^ 62" using t f by (auto simp: tidy_files_def n_def)
  from a have c: "hdr_ok c" "hdr_content c = []" "resp_body_pos (ta c) = 0" "\<not> preserve_headers_on_error (ta c)"
    "resp_fd (ta c) = 0" "range_requested (ta c) = (r \<noteq> None)"
    by (simp_all add: asked_def static_ready_def r_def)
  show ?thesis
  proof (cases "get \<and> (case open_file env f of Inl e \<Rightarrow> True | Inr fd \<Rightarrow> False)")
    case True
    then obtain x where x: "open_file env f = Inl x" by (auto split: sum.splits)
    have "plan_file env rq f st = Refuse HTTP_500_INTERNAL_ERROR [] False"
      unfolding plan_file_def Let_def get_def [symmetric] if_P [OF True] by (simp add: case_prod_beta)
    moreover have "static_serve env c w f st = Some (-1, set_status HTTP_500_INTERNAL_ERROR c, w\<lparr>os_errno := x\<rparr>)"
      using True x meth by (simp add: static_serve_def static_open_def get_def)
    moreover have "plan_met env c w (Refuse HTTP_500_INTERNAL_ERROR [] False) (set_status HTTP_500_INTERNAL_ERROR c) (w\<lparr>os_errno := x\<rparr>)"
      using c by (simp add: plan_met_def static_keep_def hdr_ok_def status_is_error_def error_allow_def)
    ultimately show ?thesis by auto
  next
    case opn: False
    obtain fd where fd: "get \<Longrightarrow> open_file env f = Inr fd \<and> 0 < fd" "\<not> get \<Longrightarrow> fd = KITSERV_FD_HEAD"
      using opn t by (cases get; cases "open_file env f") (auto simp: tidy_files_def)
    define w1 where "w1 = (if get then w\<lparr>os_fds := fd # os_fds w\<rparr> else w)"
    let ?c1 = "c\<lparr>ta := (ta c)\<lparr>resp_fd := fd\<rparr>\<rparr>"
    let ?c2 = "c\<lparr>ta := (ta c)\<lparr>resp_fd := fd, resp_body_end := n - 1\<rparr>\<rparr>"
    have o: "static_open env c w f = (0, ?c1, w1)"
      using fd meth by (cases get) (auto simp: static_open_def get_def w1_def)
    have h2: "holds_file get w ?c2 w1" using fd by (cases get) (simp_all add: holds_file_def w1_def)
    have e1: "os_errno w1 \<noteq> EACCES" using e by (simp add: w1_def)
    have k2: "static_keep ?c2 = static_keep c" by (simp add: static_keep_def)
    have "hdr_ok ?c2" "hdr_content ?c2 = []" "resp_body_pos (ta ?c2) = 0" "resp_body_end (ta ?c2) = n - 1"
      "\<not> preserve_headers_on_error (ta ?c2)" "range_requested (ta ?c2) = (r \<noteq> None)"
      using c by (simp_all add: hdr_ok_def hdr_content_def)
    moreover have "\<exists>p. req_range (ta ?c2) = Some p \<and> cstr (req_headers ?c2) p = Some x" if "r = Some x" for x
      using asked_strings(4) [OF a, of x] that by (simp add: r_def)
    ultimately obtain c3 where c3: "static_range ?c2 (os_errno w1) n = Some (sp = Unsatisfiable, c3, os_errno w1)"
      "staged ?c2 c3 (range_line sp n) (span_bounds sp n) (sp \<noteq> Whole) (sp = Unsatisfiable)"
      "sp = Unsatisfiable \<longrightarrow> resp_status (ta c3) = HTTP_416_RANGE_NOT_SATISFIABLE"
      unfolding sp_def using range_staged [of ?c2 n r "os_errno w1"] n by blast
    note s3 = c3(2) [unfolded staged_def stage_frame_def]
    have h3: "holds_file get w c3 w1" using h2 s3 by (cases get) (simp_all add: holds_file_def)
    have k3: "static_keep c3 = static_keep c" "req_method (ta c3) = req_method (ta c)" "resp_fd (ta c3) = fd" "hdr_ok c3"
      using s3 k2 by simp_all
    have w1: "w1\<lparr>os_errno := os_errno w1\<rparr> = w1" by simp
    note run = static_serve_def o prod.case refl if_not_P Let_def n_def [symmetric] c3(1) Option.bind.simps(2) w1
    have len: "length (range_line sp n) \<le> 100"
    proof (cases sp)
      case (Part x y)
      with asked_span_bounds [of r n x y] n have "\<bar>x\<bar> < 2 ^ 63" "\<bar>y\<bar> < 2 ^ 63" "\<bar>n\<bar> < 2 ^ 63" by (auto simp: sp_def)
      from this [THEN dec_int_short] Part show ?thesis by (simp add: range_line_def)
    next
      case Unsatisfiable
      from n dec_int_short [of n] Unsatisfiable show ?thesis by (simp add: range_line_def)
    qed (simp add: range_line_def)
    show ?thesis
    proof (cases "sp = Unsatisfiable")
      case True
      have pl: "plan_file env rq f st = Refuse HTTP_416_RANGE_NOT_SATISFIABLE (range_line sp n) (\<not> get)"
        unfolding plan_file_def Let_def get_def [symmetric] if_not_P [OF opn] n_def [symmetric] r_def [symmetric] sp_def [symmetric]
          if_P [OF True] by (simp add: case_prod_beta)
      have "length (range_line sp n) \<le> 64" using dec_int_short [of n] n True by (simp add: range_line_def)
      then obtain c' w' where "err_closefd c3 w1 = (-1, c', w')"
        "plan_met env c w (Refuse HTTP_416_RANGE_NOT_SATISFIABLE (range_line sp n) (\<not> get)) c' w'"
        using refuse_met [OF h3 k3(1,4,2), of HTTP_416_RANGE_NOT_SATISFIABLE "range_line sp n" env] s3 c3(3) True meth head
        by (auto simp: status_is_error_def)
      with True pl show ?thesis by (simp add: run)
    next
      case sat: False
      have l3: "length (hdr_content c3) \<le> 100" using s3 len by simp
      show ?thesis
      proof (cases "date env (st_mtime st)")
        case None
        have pl: "plan_file env rq f st = Refuse HTTP_500_INTERNAL_ERROR [] (\<not> get)"
          unfolding plan_file_def Let_def get_def [symmetric] if_not_P [OF opn] n_def [symmetric] r_def [symmetric] sp_def [symmetric]
            if_not_P [OF sat] None by (simp add: case_prod_beta)
        from headers_dateless [OF k3(4) l3 None, of "os_errno w1" f] obtain x k where
          h4: "static_headers env c3 (os_errno w1) f (st_mtime st) =
            Some (True, set_status HTTP_500_INTERNAL_ERROR (hdr_set c3 x k), os_errno w1)" "hdr_ok (hdr_set c3 x k)" by blast
        let ?c4 = "set_status HTTP_500_INTERNAL_ERROR (hdr_set c3 x k)"
        have "holds_file get w ?c4 w1" using h3 by (simp add: holds_file_def)
        moreover have "static_keep ?c4 = static_keep c" using k3(1) by (simp add: static_keep_def)
        moreover have "hdr_ok ?c4" using h4(2) by (simp add: hdr_ok_def)
        ultimately obtain c' w' where "err_closefd ?c4 w1 = (-1, c', w')" "plan_met env c w (Refuse HTTP_500_INTERNAL_ERROR [] (\<not> get)) c' w'"
          using refuse_met [of get w ?c4 w1 c HTTP_500_INTERNAL_ERROR "[]" env] s3 sat meth head k3 by (auto simp: status_is_error_def)
        with pl sat h4(1) show ?thesis by (simp add: run)
      next
        case (Some d)
        have dl: "length d < 32" using t Some by (auto simp: tidy_files_def)
        from headers_staged [OF k3(4) l3 Some dl, of "os_errno w1" f] obtain x k where
          h4: "static_headers env c3 (os_errno w1) f (st_mtime st) = Some (False, hdr_set c3 x k, os_errno w1)"
            "hdr_ok (hdr_set c3 x k)" "hdr_content (hdr_set c3 x k) = hdr_content c3 @ file_lines f d" by blast
        let ?c4 = "hdr_set c3 x k"
        have "length (file_lines f d) \<le> 140" using dl guess_mime_length [of "strrchr_dot f"] by (simp add: file_lines_def)
        then have l4: "length (hdr_content ?c4) \<le> 250" using l3 h4(3) by simp
        have h5: "holds_file get w ?c4 w1" using h3 by (simp add: holds_file_def)
        have k4: "static_keep ?c4 = static_keep c" using k3(1) by (simp add: static_keep_def)
        have f4: "\<not> preserve_headers_on_error (ta ?c4)" "req_method (ta ?c4) = rq_method rq" "req_headers ?c4 = req_headers c"
          "req_modified_since (ta ?c4) = req_modified_since (ta c)" "hdr_content ?c4 = range_line sp n @ file_lines f d"
          "resp_body_pos (ta ?c4) = fst (span_bounds sp n)" "resp_body_end (ta ?c4) = snd (span_bounds sp n)"
          "range_requested (ta ?c4) = (sp \<noteq> Whole)" "get \<Longrightarrow> open_file env f = Inr (resp_fd (ta ?c4))"
          using h4(3) s3 sat meth fd(1) by (simp_all add: prod_eq_iff)
        from finish_met [OF a h5 k4 h4(2) e1 f4(1,2) get_def head f4(3,4,5) l4 f4(6,7) sp_def [unfolded r_def] sat f4(8) n_def n f f4(9) Some]
        obtain rc c' w' where "static_finish env ?c4 w1 (st_mtime st) = Some (rc, c', w')"
          "plan_met env c w (plan_file env rq f st) c' w'" by blast
        with sat h4(1) show ?thesis by (simp add: run)
      qed
    qed
  qed
qed

text \<open>The whole call, from the check of the method.\<close>

lemma static_planned:
  assumes a: "asked rq c" and t: "tidy_files env content" and e: "os_errno w \<noteq> EACCES"
  shows "\<exists>rc c' w'. kitserv_http_handle_static_path env c w (target_path rq) None = Some (rc, c', w') \<and>
    plan_met env c w (plan env rq) c' w'"
proof -
  note meth = asked_strings(1) [OF a]
  from a have ready: "hdr_ok c" "resp_status (ta c) = HTTP_X_RESP_STATUS_UNSET" "resp_fd (ta c) = 0"
    "\<not> preserve_headers_on_error (ta c)" "api_allow_flags (ta c) = 0"
    by (simp_all add: asked_def static_ready_def)
  show ?thesis
  proof (cases "rq_method rq AND HTTP_GET = 0")
    case True
    let ?c = "set_status HTTP_405_METHOD_NOT_ALLOWED c"
    have "kitserv_http_handle_static_path env c w (target_path rq) None = Some (-1, ?c, w\<lparr>os_errno := ENOTSUP\<rparr>)"
      using True meth by (simp add: kitserv_http_handle_static_path_def)
    moreover have "plan_met env c w (plan env rq) ?c (w\<lparr>os_errno := ENOTSUP\<rparr>)"
      using ready by (simp add: plan_def True plan_met_def status_is_error_def error_allow_def static_keep_def hdr_ok_def)
    ultimately show ?thesis by blast
  next
    case False
    obtain p where p: "req_path (ta c) = Some p" "cstr (req_headers c) p = Some (target_path rq)"
      using asked_strings(3) [OF a] by blast
    obtain dirname where "root (default_context env) = Some dirname" using t by (auto simp: tidy_files_def)
    note run = kitserv_http_handle_static_path_def False p meth this choose_path_attempts
    let ?fs = "candidates (default_context env) (target_path rq) (target_path rq)"
    from attempts_pick [OF ready(2) e, of env ?fs] obtain w1 where
      w1: "attempts env c w ?fs = (case pick env ?fs of Inl s \<Rightarrow> (Give_Up, set_status s c, w1) | Inr (f, st) \<Rightarrow> (Path_Set f st, c, w1))"
        "os_same w w1" "\<And>x. pick env ?fs = Inr x \<Longrightarrow> os_errno w1 \<noteq> EACCES" by blast
    show ?thesis
    proof (cases "pick env ?fs")
      case (Inl s)
      have "kitserv_http_handle_static_path env c w (target_path rq) None = Some (-1, set_status s c, w1)"
        using w1(1) Inl by (simp add: run)
      moreover have "plan_met env c w (plan env rq) (set_status s c) w1"
        using ready pick_Inl [OF Inl] Inl False w1(2)
        by (auto simp: plan_def plan_met_def status_is_error_def error_allow_def static_keep_def hdr_ok_def)
      ultimately show ?thesis by blast
    next
      case (Inr x)
      obtain f st where x: "x = (f, st)" by (cases x)
      from pick_Inr [OF Inr [unfolded x]] have f: "stat_file env f = Inr st" "st_isreg st" by simp_all
      from serve_planned [OF a t f w1(3) [OF Inr] False] obtain rc c' w' where
        s: "static_serve env c w1 f st = Some (rc, c', w')" "plan_met env c w1 (plan_file env rq f st) c' w'" by blast
      have "kitserv_http_handle_static_path env c w (target_path rq) None = Some (rc, c', w')"
        using w1(1) Inr x s(1) by (simp add: run)
      moreover have "plan_met env c w (plan env rq) c' w'"
        using s(2) w1(2) Inr x False
        by (auto simp: plan_def plan_met_def split: plan.splits option.splits
            intro: os_same_trans [OF w1(2)] os_same_push [OF w1(2)])
      ultimately show ?thesis by blast
    qed
  qed
qed

text \<open>
  A range and a condition together: the 304 announces the negated start of the range as its
  length, since the position was set before the file was found to be unchanged.
\<close>

lemma not_modified_range_length:
  assumes "rq_method rq = HTTP_GET" "open_file env f = Inr fd" "asked_span (last_field ''range'' (rq_fields rq)) (st_size st) = Part a b"
    and "date env (st_mtime st) = Some d" "last_field ''if-modified-since'' (rq_fields rq) = Some s"
    and "parse_date env s = Some t" "st_mtime st \<le> t"
  shows "plan_file env rq f st =
    Deliver HTTP_304_NOT_MODIFIED (range_line (Part a b) (st_size st) @ file_lines f d) (- a) None"
  using assms by (simp add: plan_file_def span_bounds_def)

end
