(* ===== verification/Static_Pipeline.thy ===== *)
theory Static_Pipeline
  imports Static_Answer
begin

text \<open>
  The server against its specification. One round of \<open>kitserv_http_serve_client\<close> turns one
  printed request into the bytes of its \<open>answer\<close>; a call turns everything a peer has
  pipelined into \<open>answers\<close>, and waits or closes as they say, with no file left open.
\<close>

section \<open>Between requests\<close>

text \<open>A client that has just been created or recycled, with some bytes of the next request.\<close>

definition ready :: "kitserv_client \<Rightarrow> bool" where
  "ready c \<longleftrightarrow> ta c = zero_ta \<and> body_ok c \<and> b_len (resp_body c) = 0 \<and> length (req_headers c) \<le> HTTP_BUFSZ"

lemma ready_idle:
  assumes "ready c"
  shows "idle c" "loop_ok c None None" "unparsed (ta c)" "state (ta c) = HTTP_STATE_READ" "parse_state (ta c) = HTTP_PS_NEW"
    "req_parse_blk (ta c) = None" "req_parse_iter (ta c) = None"
  using assms
  by (simp_all add: ready_def idle_def memory_ok_def hdr_ok_def zero_ta_def zero_iovec_def loop_ok_def fields_ok_def strings_ok_def
      path_ok_def past_path_def request_ptrs_def unparsed_def)

lemma finalize_ready:
  assumes "body_ok c" "payload_ok c"
  shows "\<exists>c'. kitserv_http_finalize_transaction ok c = Some c' \<and> ready c' \<and> req_headers c' = unread c \<and> sockfd c' = sockfd c"
proof -
  note f = finalize_total(1,2) [OF assms, of ok] finalize_total(4) [OF assms]
  let ?c = "c\<lparr>req_headers := unread c\<rparr>"
  have "idle (cleanup_client ok ?c)" using f(2) by (simp add: serve_inv_def cleanup_client_def zero_ta_def)
  then have "ready (cleanup_client ok ?c)"
    using f(3) by (simp add: ready_def idle_def memory_ok_def) (simp add: cleanup_client_def kitserv_buffer_reset_def realloc_to_def Let_def)
  with f(1) show ?thesis by (simp add: cleanup_client_def)
qed

section \<open>A request comes in\<close>

definition received :: "request \<Rightarrow> string \<Rightarrow> kitserv_client \<Rightarrow> bool" where
  "received rq rest c \<longleftrightarrow> idle c \<and> request_ready c \<and> asked rq c \<and> state (ta c) = HTTP_STATE_SERVE \<and>
     api_endpoint_hit (ta c) = None \<and> api_internal_data (ta c) = None \<and>
     drop (req_payload (ta c)) (req_headers c) = rest"

lemma received_unread: "received rq rest c \<Longrightarrow> unread c = rest"
  by (simp add: received_def idle_unread)

lemma resp_part_ready:
  assumes "resp_part c' = resp_part c" "ready c"
  shows "idle c'" "hdr_content c' = []" "resp_body_pos (ta c') = 0" "b_len (resp_body c') = 0"
    "\<not> preserve_headers_on_error (ta c')" "api_allow_flags (ta c') = 0"
    "api_endpoint_hit (ta c') = None" "api_internal_data (ta c') = None"
proof -
  define g where "g c = (resp_headers c, resp_buf1 (ta c), resp_body_pos (ta c), resp_body c,
    preserve_headers_on_error (ta c), api_allow_flags (ta c), api_endpoint_hit (ta c), api_internal_data (ta c))" for c :: kitserv_client
  have "g (resp_part c) = g c" for c by (simp add: g_def resp_part_def frame_of_def)
  with assms(1) have "g c' = g c" by metis
  moreover have "idle c' = idle c" by (rule resp_part_idle [OF assms(1)])
  ultimately show "idle c'" "hdr_content c' = []" "resp_body_pos (ta c') = 0" "b_len (resp_body c') = 0"
    "\<not> preserve_headers_on_error (ta c')" "api_allow_flags (ta c') = 0"
    "api_endpoint_hit (ta c') = None" "api_internal_data (ta c') = None"
    using ready_idle(1) [OF assms(2)] assms(2) by (simp_all add: g_def hdr_content_def ready_def zero_ta_def zero_iovec_def)
qed

text \<open>Once its bytes are in the buffer, a request is received in one call.\<close>

lemma receive_buffered:
  assumes rq: "plain_request rq" and c: "ready c" and fill: "recv_fill c None None w = (Go c0, w0)" "ready c0"
    and m: "req_headers c0 = print_request rq @ rest"
  shows "\<exists>c'. kitserv_http_recv_request c w = Some (0, c', w0) \<and> received rq rest c'"
proof -
  note r0 = ready_idle [OF fill(2)]
  from parse_printed [OF rq m r0(3)] obtain c1 where p:
    "parse_loop (HTTP_PS_NEW, c0, 0, 0) = Some (Stop (Finished c1 (length (print_request rq))))"
    "drop (length (print_request rq)) (req_headers c1) = rest" "understood c1 = meaning rq"
    "range_requested (ta c1) = (last_field ''range'' (rq_fields rq) \<noteq> None)" by blast
  have pf: "parse_from c0 None None = Some (Stop (Finished c1 (length (print_request rq))))"
    using p(1) r0(5) by (simp add: parse_from_def)
  have "request_ready (finish_request c1 (length (print_request rq))) \<and> frame_of c1 = frame_of c0"
    by (rule parse_from_out [OF r0(2)]) (use pf in simp_all)
  then have rd: "request_ready (finish_request c1 (length (print_request rq)))" and fr: "frame_of c1 = frame_of c0" by simp_all
  let ?c = "finish_request c1 (length (print_request rq))"
  note k = resp_part_ready [OF resp_part_frame [OF fr] fill(2)]
  have "idle ?c" using k(1) by (simp add: finish_request_def idle_def memory_ok_def body_ok_def hdr_ok_def)
  moreover from this rd have "static_ready ?c" by (rule request_static_ready(1))
  moreover have "valid_method (rq_method rq)" using rq by (simp add: plain_request_def)
  ultimately have "received rq rest ?c"
    using k p(2-4) rd by (simp add: received_def asked_def understood_finish) (simp add: finish_request_def hdr_content_def)
  moreover have "kitserv_http_recv_request c w = Some (0, ?c, w0)"
    using fill(1) pf ready_idle(6,7) [OF c] by (simp add: kitserv_http_recv_request_def recv_loop.simps [of c None None])
  ultimately show ?thesis by blast
qed

section \<open>The answer goes out\<close>

text \<open>What preparing a success and sending leave alone.\<close>

definition out_frame :: "kitserv_client \<Rightarrow> kitserv_client" where
  "out_frame c = c\<lparr>resp_start := [], resp_headers := [], ta := (ta c)\<lparr>state := HTTP_STATE_SEND, resp_buf0 := zero_iovec,
     resp_buf1 := zero_iovec, resp_buf2 := zero_iovec\<rparr>\<rparr>"

lemma out_frameD:
  assumes "out_frame c' = out_frame c"
  shows "resp_status (ta c') = resp_status (ta c)" "resp_fd (ta c') = resp_fd (ta c)" "req_method (ta c') = req_method (ta c)"
    "resp_body_pos (ta c') = resp_body_pos (ta c)" "resp_body_end (ta c') = resp_body_end (ta c)"
    "req_version (ta c') = req_version (ta c)" "body_ok c' = body_ok c" "payload_ok c' = payload_ok c"
    "req_payload (ta c') = req_payload (ta c)" "req_headers c' = req_headers c" "sockfd c' = sockfd c"
    "req_path (ta c') = req_path (ta c)" "unread c' = unread c"
proof -
  define g where "g c = (resp_status (ta c), resp_fd (ta c), req_method (ta c), resp_body_pos (ta c), resp_body_end (ta c),
    req_version (ta c), resp_body c, req_payload (ta c), req_payload_pos (ta c), req_payload_len (ta c), req_headers c, sockfd c, req_path (ta c))"
    for c :: kitserv_client
  have "g (out_frame c) = g c" for c by (simp add: g_def out_frame_def)
  with assms have "g c' = g c" by metis
  then show "resp_status (ta c') = resp_status (ta c)" "resp_fd (ta c') = resp_fd (ta c)" "req_method (ta c') = req_method (ta c)"
    "resp_body_pos (ta c') = resp_body_pos (ta c)" "resp_body_end (ta c') = resp_body_end (ta c)"
    "req_version (ta c') = req_version (ta c)" "body_ok c' = body_ok c" "payload_ok c' = payload_ok c"
    "req_payload (ta c') = req_payload (ta c)" "req_headers c' = req_headers c" "sockfd c' = sockfd c"
    "req_path (ta c') = req_path (ta c)" "unread c' = unread c"
    by (simp_all add: g_def body_ok_def payload_ok_def unread_def)
qed

lemma send_frame_out: "send_frame c' = send_frame c \<Longrightarrow> out_frame c' = out_frame c"
proof -
  assume a: "send_frame c' = send_frame c"
  have "out_frame (send_frame c) = out_frame c" for c by (simp add: out_frame_def send_frame_def)
  with a show ?thesis by metis
qed

text \<open>A success without a body in memory: status line, headers, closing headers.\<close>

lemma success_sendable:
  assumes ok: "hdr_ok c" and s: "\<not> status_is_error (resp_status (ta c))" "resp_status (ta c) \<noteq> HTTP_X_HANGUP"
    and z: "resp_buf2 (ta c) = zero_iovec" and nb: "resp_fd (ta c) \<noteq> 0 \<or> req_method (ta c) = HTTP_HEAD"
    and l: "length (hdr_content c) \<le> 250" "\<bar>response_length c\<bar> < 2 ^ 63"
  shows "\<exists>c'. kitserv_http_prepare_response env c w = Some (0, c', w) \<and>
    sendable c' (start_line c) (hdr_content c @ closing_headers (response_length c)) [] \<and> out_frame c' = out_frame c"
proof -
  have w: "w\<lparr>os_errno := os_errno w\<rparr> = w" by simp
  have "length (closing_headers (response_length c)) < hdr_room c"
    using dec_int_short [OF l(2)] l(1) by (simp add: hdr_room_content [OF ok] closing_headers_def SERVER_NAME_def HTTP_BUFSZ_def)
  with ok obtain m n m' n' where p: "prepare_success c (os_errno w) = Some (True, set_bases (hdr_set (start_set c m n) m' n'), os_errno w)"
      "n = length (start_line c)" "take n m = start_line c"
      "n' \<le> length m'" "n' \<le> HTTP_BUFSZ" "take n' m' = hdr_content c @ closing_headers (response_length c)"
    by (cases rule: prepare_success_cases [where e = "os_errno w"]) auto
  let ?c = "set_bases (hdr_set (start_set c m n) m' n')"
  have "sendable ?c (start_line c) (hdr_content c @ closing_headers (response_length c)) []"
    using p z nb take_length_le [OF p(3)]
    by (auto simp: sendable_def set_bases_def Let_def hdr_content_def zero_iovec_def)
  moreover have "out_frame ?c = out_frame c" using nb by (auto simp: out_frame_def set_bases_def Let_def)
  moreover have "kitserv_http_prepare_response env c w = Some (0, ?c, w)"
    using s p(1) by (simp add: kitserv_http_prepare_response_def w)
  ultimately show ?thesis by blast
qed

text \<open>Over a socket that takes everything, the stage after the preparation.\<close>

lemma sent_then_file:
  assumes "sendable c st h b" "os_wr w = []"
  shows "\<exists>c'. at_send env content c w = at_send_file env content c' (w\<lparr>os_out := os_out w @ st @ h @ b\<rparr>) \<and>
    state (ta c') = HTTP_STATE_SEND_FILE \<and> out_frame c' = out_frame c"
proof -
  from send_whole [OF sendable_bytes [OF assms(1)] assms(2)] obtain c' where
    s: "kitserv_http_send_response c w = Some (0, c', w\<lparr>os_out := os_out w @ st @ h @ b\<rparr>)"
    "state (ta c') = HTTP_STATE_SEND_FILE" "send_frame c' = send_frame c" by blast
  have "at_send env content c w = at_send_file env content c' (w\<lparr>os_out := os_out w @ st @ h @ b\<rparr>)"
    using s(1,2) by (simp add: at_send_def)
  with s(2) send_frame_out [OF s(3)] show ?thesis by blast
qed

text \<open>A file over such a socket: only the output changes.\<close>

lemma sendfile_plain:
  assumes "sendfile content fd pos k w = (rc, pos', w')" "os_wr w = []" "0 \<le> pos"
  shows "w' = w\<lparr>os_out := os_out w'\<rparr> \<and> os_wr w' = [] \<and> 0 \<le> pos'"
  using assms by (auto simp: sendfile_def os_put_def split: if_splits)

lemma sendfile_loop_plain:
  "sendfile_loop content fd pos stop w = (rc, pos', w') \<Longrightarrow> os_wr w = [] \<Longrightarrow> 0 \<le> pos \<Longrightarrow> w' = w\<lparr>os_out := os_out w'\<rparr>"
proof (induction content fd pos stop w arbitrary: rc pos' w' rule: sendfile_loop.induct)
  case (1 content fd pos stop w)
  obtain rc1 p1 w1 where s: "sendfile content fd pos (size_t_of (stop - pos + 1)) w = (rc1, p1, w1)"
    by (cases "sendfile content fd pos (size_t_of (stop - pos + 1)) w") auto
  note p = sendfile_plain [OF s "1.prems"(2,3)]
  note step = "1.prems"(1) [unfolded sendfile_loop.simps [of content fd pos] s prod.case]
  show ?case
  proof (cases "0 < rc1 \<and> p1 \<le> stop")
    case True
    with p have "w' = w1\<lparr>os_out := os_out w'\<rparr>"
      using "1.IH" [OF s [symmetric] refl True step [unfolded if_P [OF True]]] by simp
    also have "\<dots> = w\<lparr>os_out := os_out w'\<rparr>" by (subst conjunct1 [OF p]) simp
    finally show ?thesis .
  next
    case False
    with step p show ?thesis by simp
  qed
qed

lemma part_sent:
  assumes "os_wr w = []" "0 \<le> a" "b < int (length (content fd))" "b < 2 ^ 62" "a \<le> b + 1 \<or> content fd = []"
  shows "\<exists>rc p. sendfile_loop content fd a b w =
      (rc, p, w\<lparr>os_out := os_out w @ take (nat (b - a + 1)) (drop (nat a) (content fd))\<rparr>) \<and> b < p"
proof (cases "a \<le> b")
  case True
  have "taking w" using assms(1) by (simp add: taking_def)
  from sendfile_whole [of w a b content fd, OF this assms(2) True assms(3,4)] obtain rc w' where
    s: "sendfile_loop content fd a b w = (rc, b + 1, w')"
    "os_out w' = os_out w @ take (nat (b - a + 1)) (drop (nat a) (content fd))" by blast
  have "w' = w\<lparr>os_out := os_out w @ take (nat (b - a + 1)) (drop (nat a) (content fd))\<rparr>"
    using sendfile_loop_plain [OF s(1) assms(1,2)] unfolding s(2) .
  with s(1) show ?thesis by auto
next
  case False
  then have e: "take k (drop (nat a) (content fd)) = []" if "k = size_t_of (b - a + 1) \<or> k = nat (b - a + 1)" for k
    using assms(5) that by (auto simp: size_t_of_def)
  have "sendfile content fd a (size_t_of (b - a + 1)) w = (0, a, w)"
    using assms(2) e [of "size_t_of (b - a + 1)"] by (auto simp: sendfile_def os_put_def)
  then have "sendfile_loop content fd a b w = (0, a, w)" by (simp add: sendfile_loop.simps [of content fd a])
  with e [of "nat (b - a + 1)"] False show ?thesis by simp
qed

section \<open>The end of a round\<close>

lemma asked_start_line: "asked rq c \<Longrightarrow> static_keep c1 = static_keep c \<Longrightarrow> resp_status (ta c1) = s \<Longrightarrow>
  start_line c1 = get_version_string (rq_version rq) @ get_status_string s"
proof -
  assume a: "asked rq c" and k: "static_keep c1 = static_keep c" and s: "resp_status (ta c1) = s"
  have "req_version (ta c1) = req_version (ta c)"
    using arg_cong [OF k, of "\<lambda>c. req_version (ta c)"] by (simp add: static_keep_def)
  with s asked_strings(2) [OF a] show ?thesis by (simp add: start_line_def)
qed

text \<open>The line of the log that a request leaves.\<close>

lemma logged:
  assumes "asked rq c" "req_path (ta c') = req_path (ta c)" "req_headers c' = req_headers c"
    and "resp_status (ta c') = planned_status (plan env rq)"
  shows "(if silent env then Some w else log_transaction env c' w) = Some (w\<lparr>os_log := os_log w @ log_entry env rq\<rparr>)"
proof -
  from asked_strings(3) [OF assms(1)] obtain p where "req_path (ta c) = Some p" "cstr (req_headers c) p = Some (target_path rq)" by blast
  with assms(2-4) show ?thesis
    by (cases w) (simp add: log_transaction_def log_path_def log_entry_def log_of_def)
qed

text \<open>When a refusal has been sent the connection ends.\<close>

lemma refusal_sent:
  assumes "resp_fd (ta c) \<le> 0" "status_is_error (resp_status (ta c))"
  shows "at_send_file env content c w = Some (Return (-1) (set_state HTTP_STATE_DONE c) w)"
  using assms by (simp add: at_send_file_def kitserv_http_send_response_file_def Let_def)

text \<open>A refusal: the error response is prepared, and logged.\<close>

definition refusal_bytes :: "request \<Rightarrow> http_status \<Rightarrow> string \<Rightarrow> bool \<Rightarrow> string" where
  "refusal_bytes rq s h marked =
     get_version_string (rq_version rq) @ get_status_string s @ h @ ''content-type: text/plain'' @ CRLF @
       closing_headers (if marked then 1 else int (length (refusal_text rq s))) @
       (if rq_method rq = HTTP_HEAD then [] else refusal_text rq s)"

lemma refused_prepared:
  assumes r: "received rq rest c" and pl: "plan env rq = Refuse s h marked" and pm: "plan_met env c w (Refuse s h marked) c1 w1"
  obtains c2 st hd bd where "at_prepare env content (set_state HTTP_STATE_PREPARE_RESPONSE c1) w1 =
      at_send env content c2 (w1\<lparr>os_log := os_log w1 @ log_entry env rq\<rparr>)"
    "sendable c2 st hd bd" "st @ hd @ bd = refusal_bytes rq s h marked" "length (st @ hd @ bd) \<le> 2 * HTTP_BUFSZ"
    "resp_fd (ta c2) \<le> 0" "status_is_error (resp_status (ta c2))"
    "os_out w1 = os_out w" "os_wr w1 = os_wr w" "os_fds w1 = os_fds w" "os_log w1 = os_log w"
proof -
  let ?c = "set_state HTTP_STATE_PREPARE_RESPONSE c1"
  from r have i: "idle c" and rd: "request_ready c" and a: "asked rq c" by (simp_all add: received_def)
  from pm have pm: "static_keep c1 = static_keep c" "hdr_ok c1" "resp_status (ta c1) = s" "status_is_error s" "os_same w w1"
    "resp_fd (ta c1) = (if marked then KITSERV_FD_HEAD else 0)" "req_method (ta c1) = req_method (ta c)"
    "marked \<longrightarrow> req_method (ta c) = HTTP_HEAD"
    "if s = HTTP_416_RANGE_NOT_SATISFIABLE
     then preserve_headers_on_error (ta c1) \<and> hdr_content c1 = h \<and> length h \<le> 64
     else \<not> preserve_headers_on_error (ta c1) \<and> h = error_allow c1"
    by (simp_all add: plan_met_def)
  note k = static_keepD [OF pm(1)]
  have fd: "resp_fd (ta ?c) \<le> 0" using pm(6) by (simp add: KITSERV_FD_HEAD_def)
  have len: "length (hdr_content c1) = hdr_len c1" using pm(2) by (simp add: hdr_content_def hdr_ok_def)
  obtain p path where path: "req_path (ta c) = Some p" "cstr (req_headers c) p = Some path" "length path \<le> 4083"
    using request_static_ready(3) [OF i rd] by blast
  with asked_strings(3) [OF a] have pt: "path = target_path rq" by auto
  have "status_is_error (resp_status (ta ?c))" using pm(3,4) by simp
  moreover have "preserve_headers_on_error (ta ?c) \<longrightarrow> hdr_ok ?c \<and> hdr_len ?c \<le> 64"
    using pm(2,9) len by (auto simp: hdr_ok_def split: if_splits)
  moreover have "\<not> preserve_body_on_error (ta ?c)" "buffer_ok (resp_body ?c)" "4096 \<le> b_max (resp_body ?c)" "resp_buf2 (ta ?c) = zero_iovec"
    using i k by (simp_all add: idle_def memory_ok_def body_ok_def)
  moreover have "resp_status (ta ?c) = HTTP_405_METHOD_NOT_ALLOWED \<longrightarrow>
      api_allow_flags (ta ?c) = 0 \<or> allow_list (api_allow_flags (ta ?c)) \<noteq> []" using k a by (simp add: asked_def)
  moreover have "resp_status (ta ?c) = HTTP_404_NOT_FOUND \<longrightarrow>
      (\<exists>p s. req_path (ta ?c) = Some p \<and> cstr (req_headers ?c) p = Some s \<and> length s \<le> 4083)" using k path by auto
  ultimately obtain c2 where c2: "kitserv_http_prepare_response env ?c w1 = Some (0, c2, w1)"
    "sendable c2 (start_line ?c)
      ((if preserve_headers_on_error (ta ?c) then hdr_content ?c else error_allow ?c) @ ''content-type: text/plain'' @ CRLF @
        closing_headers (if resp_fd (ta ?c) < 0 then 1 else int (length (error_body ?c))))
      (if no_body ?c then [] else error_body ?c)"
    "resp_fd (ta c2) = min 0 (resp_fd (ta ?c))" "resp_status (ta c2) = resp_status (ta ?c)"
    using error_response_kept [of ?c env w1] fd by (auto simp: close_fd_to_zero_def)
  have st: "state (ta c2) = HTTP_STATE_SEND" using c2(2) by (simp add: sendable_def)
  have eb: "error_body ?c = refusal_text rq s" using pm(3) k path pt by (simp add: error_body_def error_path_def refusal_text_def)
  have hh: "(if preserve_headers_on_error (ta ?c) then hdr_content ?c else error_allow ?c) = h"
    using pm(9) by (simp add: hdr_content_def error_allow_def split: if_splits)
  have sl: "start_line ?c = get_version_string (rq_version rq) @ get_status_string s"
    using asked_start_line [OF a pm(1,3)] by (simp add: start_line_def)
  have nb: "no_body ?c = (rq_method rq = HTTP_HEAD)" "(resp_fd (ta ?c) < 0) = marked"
    using pm(6,7,8) asked_strings(1) [OF a] by (auto simp: no_body_def KITSERV_FD_HEAD_def)
  let ?h = "h @ ''content-type: text/plain'' @ CRLF @ closing_headers (if marked then 1 else int (length (refusal_text rq s)))"
  let ?b = "if rq_method rq = HTTP_HEAD then [] else refusal_text rq s"
  have "memory_ok ?c" "error_ready ?c" "\<not> status_is_error (resp_status (ta ?c)) \<longrightarrow> body_start_ok ?c"
    using pm(2,3,4) i k path by (auto simp: memory_ok_def body_ok_def idle_def hdr_ok_def error_ready_def)
  then have "prep_post ?c w1 (0, c2, w1)" using prepare_response_total [of ?c env w1] c2(1) by auto
  then have rp: "request_part c2 = request_part ?c" by (simp add: prep_post_def)
  have rq2: "req_path (ta c2) = req_path (ta c)" "req_headers c2 = req_headers c"
    using request_partD [OF rp] k by simp_all
  let ?l = "w1\<lparr>os_log := os_log w1 @ log_entry env rq\<rparr>"
  have lg: "(if silent env then Some w1 else log_transaction env c2 w1) = Some ?l"
    by (rule logged [OF a rq2]) (use c2(4) pm(3) pl in \<open>simp add: planned_status_def\<close>)
  have "length h \<le> 64"
    using pm(9) by (cases "api_allow_flags (ta c1) = 0") (auto simp: error_allow_def k i allow_list_def split: if_splits)
  moreover have "length (get_version_string (rq_version rq)) \<le> 16" "length (get_status_string s) \<le> 64" "length (error_text s) \<le> 64"
    by (cases "rq_version rq"; simp) (cases s; simp)+
  moreover have "length (refusal_text rq s) \<le> 4200" using calculation(4) path pt by (simp add: refusal_text_def)
  moreover have "\<bar>if marked then 1 else int (length (refusal_text rq s))\<bar> < 2 ^ 63" using calculation(5) by simp
  note dec_int_short [OF this]
  ultimately have len: "length ((get_version_string (rq_version rq) @ get_status_string s) @ ?h @ ?b) \<le> 2 * HTTP_BUFSZ"
    by (simp add: closing_headers_def SERVER_NAME_def HTTP_BUFSZ_def)
  have "at_prepare env content ?c w1 = at_send env content c2 ?l" using c2(1) st lg by (simp add: at_prepare_def)
  moreover have "resp_fd (ta c2) \<le> 0" "status_is_error (resp_status (ta c2))" using c2(3,4) pm(3,4) by simp_all
  ultimately show thesis
    using os_sameD [OF pm(5)] len
    by (intro that [OF _ c2(2) [unfolded eb hh sl nb]]) (simp_all add: refusal_bytes_def)
qed

text \<open>It goes out, and the connection is to be closed.\<close>

lemma refused_round:
  assumes r: "received rq rest c" and pl: "plan env rq = Refuse s h marked" and pm: "plan_met env c w (Refuse s h marked) c1 w1"
    and w: "os_wr w = []"
  shows "\<exists>c' w'. at_prepare env content (set_state HTTP_STATE_PREPARE_RESPONSE c1) w1 = Some (Return (-1) c' w') \<and>
    os_out w' = os_out w @ refusal_bytes rq s h marked \<and> os_fds w' = os_fds w \<and> os_log w' = os_log w @ log_entry env rq"
proof -
  obtain c2 st hd bd where p: "at_prepare env content (set_state HTTP_STATE_PREPARE_RESPONSE c1) w1 =
      at_send env content c2 (w1\<lparr>os_log := os_log w1 @ log_entry env rq\<rparr>)"
    "sendable c2 st hd bd" "st @ hd @ bd = refusal_bytes rq s h marked" "resp_fd (ta c2) \<le> 0" "status_is_error (resp_status (ta c2))"
    "os_out w1 = os_out w" "os_wr w1 = os_wr w" "os_fds w1 = os_fds w" "os_log w1 = os_log w"
    by (rule refused_prepared [OF r pl pm])
  let ?l = "w1\<lparr>os_log := os_log w1 @ log_entry env rq\<rparr>"
  let ?w = "?l\<lparr>os_out := os_out ?l @ st @ hd @ bd\<rparr>"
  have "os_wr ?l = []" using p(7) w by simp
  from sent_then_file [OF p(2) this, of env content] obtain c3 where
    c3: "at_send env content c2 ?l = at_send_file env content c3 ?w" "out_frame c3 = out_frame c2" by blast
  have f: "resp_fd (ta c3) \<le> 0" "status_is_error (resp_status (ta c3))" using out_frameD(1,2) [OF c3(2)] p(4,5) by simp_all
  have "at_send_file env content c3 ?w = Some (Return (-1) (set_state HTTP_STATE_DONE c3) ?w)" by (rule refusal_sent [OF f])
  with p c3(1) show ?thesis by simp
qed

text \<open>After a success: the next round starts with what the peer sent after the request.\<close>

lemma done_round:
  assumes f: "kitserv_http_send_response_file content c w = (if req_version (ta c) = HTTP_1_0 then -1 else 0, c', w')"
    and st: "state (ta c') = HTTP_STATE_DONE" and k: "file_frame c' = file_frame c" and b: "body_ok c" "payload_ok c"
  shows "\<exists>c''. at_send_file env content c w =
      Some (if req_version (ta c) = HTTP_1_1 then Again c'' w' else Return (-1) c'' w') \<and>
    (req_version (ta c) = HTTP_1_1 \<longrightarrow> ready c'' \<and> req_headers c'' = unread c \<and> sockfd c'' = sockfd c)"
proof (cases "req_version (ta c)")
  case HTTP_1_0
  with f show ?thesis by (simp add: at_send_file_def)
next
  case HTTP_1_1
  have "body_ok c'" "payload_ok c'" using frame_keeps(1) [OF k] b by simp_all
  from finalize_ready [OF this, of "alloc_ok env"] obtain c'' where
    "kitserv_http_finalize_transaction (alloc_ok env) c' = Some c''" "ready c''"
    "req_headers c'' = unread c'" "sockfd c'' = sockfd c'" by blast
  moreover have "unread c' = unread c" "sockfd c' = sockfd c"
    using arg_cong [OF k, of unread] arg_cong [OF k, of sockfd] by (simp_all add: file_frame_def unread_def)
  ultimately show ?thesis using HTTP_1_1 f st by (simp add: at_send_file_def at_done_def)
qed

text \<open>The body of a success: nothing, or the part of the file that was opened, which is then closed.\<close>

definition body_source :: "env \<Rightarrow> (string \<times> int \<times> int) option \<Rightarrow> kitserv_client \<Rightarrow> os \<Rightarrow> os \<Rightarrow> bool" where
  "body_source env body c w w1 \<longleftrightarrow> (case body of
     None \<Rightarrow> os_same w w1 \<and> resp_fd (ta c) \<le> 0 \<and> (resp_fd (ta c) = 0 \<longrightarrow> req_method (ta c) = HTTP_HEAD)
   | Some (f, a, b) \<Rightarrow> open_file env f = Inr (resp_fd (ta c)) \<and> 0 < resp_fd (ta c) \<and>
       os_same (w\<lparr>os_fds := resp_fd (ta c) # os_fds w\<rparr>) w1 \<and> req_method (ta c) = HTTP_GET \<and>
       resp_body_pos (ta c) = a \<and> resp_body_end (ta c) = b \<and>
       (\<exists>st. stat_file env f = Inr st \<and> st_isreg st \<and> 0 \<le> a \<and> b < st_size st \<and> (a \<le> b + 1 \<or> st_size st = 0)))"

lemma body_source_cong:
  "body_source env body c w w1 \<Longrightarrow> resp_fd (ta c') = resp_fd (ta c) \<Longrightarrow> req_method (ta c') = req_method (ta c) \<Longrightarrow>
   resp_body_pos (ta c') = resp_body_pos (ta c) \<Longrightarrow> resp_body_end (ta c') = resp_body_end (ta c) \<Longrightarrow> body_source env body c' w w1"
  by (simp add: body_source_def split: option.splits prod.splits)

lemma body_sent:
  fixes x :: string and l :: "string list"
  assumes t: "tidy_files env content" and b: "body_source env body c w w1" and w: "os_wr w = []" and s: "\<not> status_is_error (resp_status (ta c))"
  defines "w2 \<equiv> w1\<lparr>os_log := l, os_out := os_out w1 @ x\<rparr>"
  shows "\<exists>c' w'. kitserv_http_send_response_file content c w2 = (if req_version (ta c) = HTTP_1_0 then -1 else 0, c', w') \<and>
    state (ta c') = HTTP_STATE_DONE \<and> file_frame c' = file_frame c \<and>
    os_out w' = os_out w @ x @ file_part env content body \<and> os_fds w' = os_fds w \<and> os_in w' = os_in w \<and> os_wr w' = [] \<and>
    os_errno w' = os_errno w1 \<and> os_log w' = l"
proof (cases body)
  case None
  with b have n: "os_same w w1" "\<not> (resp_fd (ta c) > 0 \<and> req_method (ta c) \<noteq> HTTP_HEAD)" by (auto simp: body_source_def)
  then have "kitserv_http_send_response_file content c w2 =
      (if req_version (ta c) = HTTP_1_0 then -1 else 0, set_state HTTP_STATE_DONE c, w2)"
    using s by (auto simp: kitserv_http_send_response_file_def Let_def)
  with None os_sameD [OF n(1)] w show ?thesis
    by (intro exI [of _ "set_state HTTP_STATE_DONE c"] exI [of _ w2]) (simp add: w2_def file_part_def file_frame_def)
next
  case (Some y)
  obtain f i j where y: "y = (f, i, j)" by (cases y)
  define fd where "fd = resp_fd (ta c)"
  from b Some y obtain st where n: "open_file env f = Inr fd" "0 < fd" "os_same (w\<lparr>os_fds := fd # os_fds w\<rparr>) w1"
    "req_method (ta c) = HTTP_GET" "resp_body_pos (ta c) = i" "resp_body_end (ta c) = j"
    "stat_file env f = Inr st" "st_isreg st" "0 \<le> i" "j < st_size st" "i \<le> j + 1 \<or> st_size st = 0"
    by (auto simp: body_source_def fd_def)
  note io = os_sameD [OF n(3)]
  from t n(1,7,8) have size: "int (length (content fd)) = st_size st" "st_size st < 2 ^ 62" by (auto simp: tidy_files_def)
  have "os_wr w2 = []" "j < int (length (content fd))" "j < 2 ^ 62" "i \<le> j + 1 \<or> content fd = []"
    using io w n(10,11) size by (auto simp: w2_def)
  from part_sent [of w2 i j content fd, OF this(1) n(9) this(2,3,4)] obtain rc p where
    l: "sendfile_loop content fd i j w2 = (rc, p, w2\<lparr>os_out := os_out w2 @ take (nat (j - i + 1)) (drop (nat i) (content fd))\<rparr>)" "j < p" by blast
  let ?w3 = "w2\<lparr>os_out := os_out w2 @ take (nat (j - i + 1)) (drop (nat i) (content fd))\<rparr>"
  let ?c = "c\<lparr>ta := (ta c)\<lparr>resp_body_pos := p, resp_fd := 0, state := HTTP_STATE_DONE\<rparr>\<rparr>"
  let ?w = "?w3\<lparr>os_fds := remove1 fd (os_fds ?w3)\<rparr>"
  have "kitserv_http_send_response_file content c w2 = (if req_version (ta c) = HTTP_1_0 then -1 else 0, ?c, ?w)"
    using l n(2,4,5,6) s by (simp add: kitserv_http_send_response_file_def Let_def fd_def [symmetric] close_fd_to_zero_def)
  moreover have "os_fds ?w = os_fds w" using io by (simp add: w2_def)
  moreover have "file_part env content body = take (nat (j - i + 1)) (drop (nat i) (content fd))"
    using Some y n(1) by (simp add: file_part_def)
  ultimately show ?thesis using io w
    by (intro exI [of _ ?c] exI [of _ ?w]) (simp add: w2_def file_frame_def)
qed

text \<open>A success is prepared, and logged.\<close>

definition delivery_head :: "request \<Rightarrow> http_status \<Rightarrow> string \<Rightarrow> int \<Rightarrow> string" where
  "delivery_head rq s h n = get_version_string (rq_version rq) @ get_status_string s @ h @ closing_headers n"

text \<open>What the rounds after the preparation need of the client.\<close>

definition prepared :: "env \<Rightarrow> request \<Rightarrow> string \<Rightarrow> (string \<times> int \<times> int) option \<Rightarrow> os \<Rightarrow> os \<Rightarrow> kitserv_client \<Rightarrow> bool" where
  "prepared env rq rest body w w1 c \<longleftrightarrow> body_source env body c w w1 \<and> \<not> status_is_error (resp_status (ta c)) \<and> body_ok c \<and> payload_ok c \<and>
     req_version (ta c) = rq_version rq \<and> unread c = rest"

lemma prepared_frame:
  assumes "prepared env rq rest body w w1 c" "out_frame c' = out_frame c"
  shows "prepared env rq rest body w w1 c'"
proof -
  note d = out_frameD [OF assms(2)]
  have "body_source env body c' w w1" using assms(1) by (intro body_source_cong [OF _ d(2,3,4,5)]) (simp add: prepared_def)
  with assms(1) d show ?thesis by (simp add: prepared_def)
qed

lemma delivered_prepared:
  assumes r: "received rq rest c" and pl: "plan env rq = Deliver s h n body"
    and pm: "plan_met env c w (Deliver s h n body) c1 w1"
  obtains c2 st hd where "at_prepare env content (set_state HTTP_STATE_PREPARE_RESPONSE c1) w1 =
      at_send env content c2 (w1\<lparr>os_log := os_log w1 @ log_entry env rq\<rparr>)"
    "sendable c2 st hd []" "st @ hd = delivery_head rq s h n" "length (st @ hd) \<le> 2 * HTTP_BUFSZ"
    "prepared env rq rest body w w1 c2" "os_out w1 = os_out w" "os_wr w1 = os_wr w" "os_log w1 = os_log w" "os_errno w1 \<noteq> EACCES"
proof -
  let ?c = "set_state HTTP_STATE_PREPARE_RESPONSE c1"
  from r have i: "idle c" and rd: "request_ready c" and a: "asked rq c" by (simp_all add: received_def)
  have rest: "unread c1 = rest" if "static_keep c1 = static_keep c"
    using received_unread [OF r] static_keepD [OF that] by (simp add: unread_def)
  from pm have pm: "static_keep c1 = static_keep c" "hdr_ok c1" "resp_status (ta c1) = s" "\<not> status_is_error s" "s \<noteq> HTTP_X_HANGUP"
    "hdr_content c1 = h" "length h \<le> 250" "response_length c1 = n" "\<bar>n\<bar> < 2 ^ 63" "os_errno w1 \<noteq> EACCES"
    and body: "body_source env body c1 w w1"
    by (simp_all add: plan_met_def body_source_def)
  note k = static_keepD [OF pm(1)]
  have v: "req_version (ta c1) = rq_version rq"
    using arg_cong [OF pm(1), of "\<lambda>c. req_version (ta c)"] asked_strings(2) [OF a] by (simp add: static_keep_def)
  have bp: "body_ok c1" "payload_ok c1" using i k request_static_ready(2) [OF i rd] by (simp_all add: idle_def memory_ok_def body_ok_def payload_ok_def)
  have cc: "hdr_content ?c = h" "response_length ?c = n" "start_line ?c = get_version_string (rq_version rq) @ get_status_string s"
    using pm(6,8) asked_start_line [OF a pm(1,3)] by (auto simp: hdr_content_def response_length_def start_line_def)
  have "hdr_ok ?c" "\<not> status_is_error (resp_status (ta ?c))" "resp_status (ta ?c) \<noteq> HTTP_X_HANGUP" "resp_buf2 (ta ?c) = zero_iovec"
    using pm k i by (simp_all add: hdr_ok_def idle_def memory_ok_def)
  moreover have "resp_fd (ta ?c) \<noteq> 0 \<or> req_method (ta ?c) = HTTP_HEAD" using body by (auto simp: body_source_def split: option.splits)
  moreover have "length (hdr_content ?c) \<le> 250" "\<bar>response_length ?c\<bar> < 2 ^ 63" using pm cc by simp_all
  ultimately obtain c2 where c2: "kitserv_http_prepare_response env ?c w1 = Some (0, c2, w1)"
    "sendable c2 (get_version_string (rq_version rq) @ get_status_string s) (h @ closing_headers n) []" "out_frame c2 = out_frame ?c"
    using success_sendable [of ?c env w1] unfolding cc by blast
  have st: "state (ta c2) = HTTP_STATE_SEND" using c2(2) by (simp add: sendable_def)
  have w1: "os_wr w1 = os_wr w" "os_out w1 = os_out w" "os_log w1 = os_log w"
    using body by (auto simp: body_source_def dest: os_sameD(3,4,5) split: option.splits)
  note d2 = out_frameD [OF c2(3)]
  let ?l = "w1\<lparr>os_log := os_log w1 @ log_entry env rq\<rparr>"
  have lg: "(if silent env then Some w1 else log_transaction env c2 w1) = Some ?l"
    by (rule logged [OF a]) (use d2 k pm(3) pl in \<open>simp_all add: planned_status_def\<close>)
  have "prepared env rq rest body w w1 ?c" using body pm(3,4) bp v rest [OF pm(1)]
    by (simp add: prepared_def body_source_cong [OF body] body_ok_def payload_ok_def unread_def)
  then have pr: "prepared env rq rest body w w1 c2" using c2(3) by (rule prepared_frame)
  have "length (get_version_string (rq_version rq)) \<le> 16" "length (get_status_string s) \<le> 64"
    by (cases "rq_version rq"; simp) (cases s; simp)
  with dec_int_short [OF pm(9)] pm(7)
  have len: "length ((get_version_string (rq_version rq) @ get_status_string s) @ (h @ closing_headers n)) \<le> 2 * HTTP_BUFSZ"
    by (simp add: closing_headers_def SERVER_NAME_def HTTP_BUFSZ_def)
  have "at_prepare env content ?c w1 = at_send env content c2 ?l" using c2(1) st lg by (simp add: at_prepare_def)
  then show thesis using pr len w1 pm(10) by (intro that [OF _ c2(2)]) (simp_all add: delivery_head_def)
qed

text \<open>It goes out, and the connection stays open for HTTP/1.1.\<close>

lemma delivered_round:
  assumes r: "received rq rest c" and t: "tidy_files env content" and pl: "plan env rq = Deliver s h n body"
    and pm: "plan_met env c w (Deliver s h n body) c1 w1" and w: "os_wr w = []"
  shows "\<exists>c' w'. at_prepare env content (set_state HTTP_STATE_PREPARE_RESPONSE c1) w1 =
      Some (if rq_version rq = HTTP_1_1 then Again c' w' else Return (-1) c' w') \<and>
    os_out w' = os_out w @ delivery_head rq s h n @ file_part env content body \<and>
    os_fds w' = os_fds w \<and> os_log w' = os_log w @ log_entry env rq \<and> os_in w' = os_in w \<and> os_wr w' = [] \<and> os_errno w' \<noteq> EACCES \<and>
    (rq_version rq = HTTP_1_1 \<longrightarrow> ready c' \<and> req_headers c' = rest)"
proof -
  obtain c2 st hd where p: "at_prepare env content (set_state HTTP_STATE_PREPARE_RESPONSE c1) w1 =
      at_send env content c2 (w1\<lparr>os_log := os_log w1 @ log_entry env rq\<rparr>)"
    "sendable c2 st hd []" "st @ hd = delivery_head rq s h n" "prepared env rq rest body w w1 c2"
    "os_out w1 = os_out w" "os_wr w1 = os_wr w" "os_log w1 = os_log w" "os_errno w1 \<noteq> EACCES"
    by (rule delivered_prepared [OF r pl pm])
  let ?l = "w1\<lparr>os_log := os_log w1 @ log_entry env rq\<rparr>" and ?x = "st @ hd @ []"
  have "os_wr ?l = []" using p(6) w by simp
  from sent_then_file [OF p(2) this, of env content] obtain c3 where
    c3: "at_send env content c2 ?l = at_send_file env content c3 (?l\<lparr>os_out := os_out ?l @ ?x\<rparr>)" "out_frame c3 = out_frame c2" by blast
  from prepared_frame [OF p(4) c3(2)] have q: "body_source env body c3 w w1" "\<not> status_is_error (resp_status (ta c3))" "body_ok c3" "payload_ok c3"
    "req_version (ta c3) = rq_version rq" "unread c3 = rest" by (simp_all add: prepared_def)
  have ou: "?l\<lparr>os_out := os_out ?l @ ?x\<rparr> = w1\<lparr>os_log := os_log w1 @ log_entry env rq, os_out := os_out w1 @ ?x\<rparr>" by simp
  obtain c4 w4 where f: "kitserv_http_send_response_file content c3 (?l\<lparr>os_out := os_out ?l @ ?x\<rparr>) =
      (if req_version (ta c3) = HTTP_1_0 then -1 else 0, c4, w4)"
    "state (ta c4) = HTTP_STATE_DONE" "file_frame c4 = file_frame c3"
    "os_out w4 = os_out w @ ?x @ file_part env content body" "os_fds w4 = os_fds w" "os_in w4 = os_in w" "os_wr w4 = []"
    "os_errno w4 = os_errno w1" "os_log w4 = os_log w1 @ log_entry env rq"
    using body_sent [OF t q(1) w q(2), of ?x "os_log w1 @ log_entry env rq"] unfolding ou by blast
  from done_round [OF f(1-3) q(3,4), of env] obtain c5 where c5:
    "at_send_file env content c3 (?l\<lparr>os_out := os_out ?l @ ?x\<rparr>) =
       Some (if rq_version rq = HTTP_1_1 then Again c5 w4 else Return (-1) c5 w4)"
    "rq_version rq = HTTP_1_1 \<longrightarrow> ready c5 \<and> req_headers c5 = rest" unfolding q(5,6) by blast
  have "at_prepare env content (set_state HTTP_STATE_PREPARE_RESPONSE c1) w1 =
      Some (if rq_version rq = HTTP_1_1 then Again c5 w4 else Return (-1) c5 w4)" using p(1) c3(1) c5(1) by simp
  moreover have "os_out w4 = os_out w @ delivery_head rq s h n @ file_part env content body"
    using f(4) unfolding p(3) [symmetric] by simp
  moreover have "os_log w4 = os_log w @ log_entry env rq" "os_errno w4 \<noteq> EACCES" using f(8,9) p(7,8) by simp_all
  ultimately show ?thesis using f(5-7) c5(2) by blast
qed

section \<open>A round, and a call\<close>

lemma serve_at_prepare:
  assumes t: "api_tree env = None" and a: "asked rq c"
    and h: "kitserv_http_handle_static_path env c w (target_path rq) None = Some (rc, c1, w1)"
  shows "at_serve env content c w = at_prepare env content (set_state HTTP_STATE_PREPARE_RESPONSE c1) w1"
proof -
  from asked_strings(3) [OF a] obtain p where "req_path (ta c) = Some p" "cstr (req_headers c) p = Some (target_path rq)" by blast
  with t h show ?thesis
    by (simp add: at_serve_def kitserv_http_serve_request_def serve_internal_def to_prepare_def)
qed

lemma answered_serve:
  assumes t: "tidy env content" and r: "received rq rest c" and w: "os_wr w = []" "os_errno w \<noteq> EACCES"
  shows "\<exists>out open' c' w'. answer env content rq = (out, open') \<and>
    at_serve env content c w = Some (if open' then Again c' w' else Return (-1) c' w') \<and>
    os_out w' = os_out w @ out \<and> os_fds w' = os_fds w \<and> os_log w' = os_log w @ log_entry env rq \<and>
    (open' \<longrightarrow> ready c' \<and> req_headers c' = rest \<and> os_in w' = os_in w \<and> os_wr w' = [] \<and> os_errno w' \<noteq> EACCES)"
proof -
  from r have a: "asked rq c" by (simp add: received_def)
  from t have n: "api_tree env = None" and t: "tidy_files env content" by (simp_all add: tidy_def)
  from static_planned [OF a t w(2)] obtain rc c2 w2 where
    s: "kitserv_http_handle_static_path env c w (target_path rq) None = Some (rc, c2, w2)" "plan_met env c w (plan env rq) c2 w2" by blast
  note round = serve_at_prepare [OF n a s(1)]
  show ?thesis
  proof (cases "plan env rq")
    case (Refuse s h marked)
    from refused_round [OF r Refuse s(2) [unfolded Refuse] w(1), of content] obtain c3 w3 where
      d: "at_prepare env content (set_state HTTP_STATE_PREPARE_RESPONSE c2) w2 = Some (Return (-1) c3 w3)"
        "os_out w3 = os_out w @ refusal_bytes rq s h marked" "os_fds w3 = os_fds w" "os_log w3 = os_log w @ log_entry env rq" by blast
    have "answer env content rq = (refusal_bytes rq s h marked, False)" by (simp only: answer_def Refuse plan.case refusal_bytes_def)
    moreover have "at_serve env content c w = Some (if False then Again c3 w3 else Return (-1) c3 w3)"
      using round d(1) by simp
    ultimately show ?thesis using d(2,3,4) by blast
  next
    case (Deliver s h n body)
    from delivered_round [OF r t Deliver s(2) [unfolded Deliver] w(1)] obtain c3 w3 where
      d: "at_prepare env content (set_state HTTP_STATE_PREPARE_RESPONSE c2) w2 =
          Some (if rq_version rq = HTTP_1_1 then Again c3 w3 else Return (-1) c3 w3)"
        "os_out w3 = os_out w @ delivery_head rq s h n @ file_part env content body"
        "os_fds w3 = os_fds w" "os_log w3 = os_log w @ log_entry env rq" "os_in w3 = os_in w" "os_wr w3 = []" "os_errno w3 \<noteq> EACCES"
        "rq_version rq = HTTP_1_1 \<longrightarrow> ready c3 \<and> req_headers c3 = rest" by blast
    have "answer env content rq = (delivery_head rq s h n @ file_part env content body, rq_version rq = HTTP_1_1)"
      using Deliver by (simp add: answer_def delivery_head_def)
    moreover have "at_serve env content c w = Some (if rq_version rq = HTTP_1_1 then Again c3 w3 else Return (-1) c3 w3)"
      using round d(1) by simp
    ultimately show ?thesis using d(2-8) by blast
  qed
qed

lemma answered_round:
  assumes t: "tidy env content" and rq: "plain_request rq" and c: "ready c" and fill: "recv_fill c None None w = (Go c0, w0)" "ready c0"
    and m: "req_headers c0 = print_request rq @ rest" and w: "os_wr w0 = []" "os_errno w0 \<noteq> EACCES"
  shows "\<exists>out open' c' w'. answer env content rq = (out, open') \<and>
    serve_round env content c w = Some (if open' then Again c' w' else Return (-1) c' w') \<and>
    os_out w' = os_out w0 @ out \<and> os_fds w' = os_fds w0 \<and> os_log w' = os_log w0 @ log_entry env rq \<and>
    (open' \<longrightarrow> ready c' \<and> req_headers c' = rest \<and> os_in w' = os_in w0 \<and> os_wr w' = [] \<and> os_errno w' \<noteq> EACCES)"
proof -
  from receive_buffered [OF rq c fill m] obtain c1 where
    r: "kitserv_http_recv_request c w = Some (0, c1, w0)" "received rq rest c1" by blast
  then have "serve_round env content c w = at_serve env content c1 w0"
    using ready_idle(4) [OF c] by (simp add: serve_round_def at_read_def received_def)
  with answered_serve [OF t r(2) w] show ?thesis by simp
qed

text \<open>With nothing in the buffer and nothing to read, the call returns and waits.\<close>

lemma waiting_round:
  assumes c: "ready c" and fill: "recv_fill c None None w = (Go c0, w0)" "ready c0" "req_headers c0 = []" and w: "os_in w0 = Block # evs"
  shows "\<exists>c'. serve_round env content c w = Some (Return 0 c' (w0\<lparr>os_in := evs, os_errno := EAGAIN\<rparr>)) \<and> serve_inv c'"
proof -
  note r0 = ready_idle [OF fill(2)]
  have nw: "parse_from c0 None None = Some (Wait (HTTP_PS_REQ_METHOD, c0, 0, 0))"
    using r0(5) fill(3) by (simp add: parse_from_def parse_loop.simps ps_req_method_def past_end_def scan_until.simps)
  let ?c1 = "set_parse_state HTTP_PS_REQ_METHOD c0"
  let ?w = "w0\<lparr>os_in := evs, os_errno := EAGAIN\<rparr>"
  let ?c = "?c1\<lparr>ta := (ta ?c1)\<lparr>req_parse_blk := Some 0, req_parse_iter := Some 0\<rparr>\<rparr>"
  have "sock_read (HTTP_BUFSZ - length (req_headers ?c1)) (os_in w0) = (Inl EAGAIN, evs)" using w fill(3) by (simp add: HTTP_BUFSZ_def)
  then have f: "recv_fill ?c1 (Some 0) (Some 0) w0 = (Give 0 ?c, ?w)"
    using fill(3) by (simp add: recv_fill_def ptr_past_end_def past_end_def)
  have rv: "kitserv_http_recv_request c w = Some (0, ?c, ?w)"
    using fill(1) nw f ready_idle(6,7) [OF c]
    by (simp add: kitserv_http_recv_request_def recv_loop.simps [of c None None] recv_loop.simps [of ?c1 "Some 0" "Some 0" w0])
  have post: "recv_post c (0, ?c, ?w)"
  proof -
    have "recv_ok c" using ready_idle(2,6,7) [OF c] by (simp add: recv_ok_def)
    from recv_request_safe [OF this ready_idle(4) [OF c], of w] rv show ?thesis by auto
  qed
  have st: "state (ta ?c) = HTTP_STATE_READ" using r0(4) by simp
  have "serve_inv ?c"
    using post st ready_idle(1) [OF c] resp_part_idle [of ?c c] by (simp add: serve_inv_def)
  moreover have "serve_round env content c w = Some (Return 0 ?c ?w)"
    using rv st ready_idle(4) [OF c] by (simp add: serve_round_def at_read_def)
  ultimately show ?thesis by blast
qed

text \<open>The whole call, over the requests that are in the buffer.\<close>

lemma answered_call:
  assumes t: "tidy env content"
  shows "list_all plain_request rqs \<Longrightarrow> ready c \<Longrightarrow> recv_fill c None None w = (Go c0, w0) \<Longrightarrow> ready c0 \<Longrightarrow>
    req_headers c0 = concat (map print_request rqs) \<Longrightarrow> os_wr w0 = [] \<Longrightarrow> os_errno w0 \<noteq> EACCES \<Longrightarrow>
    os_in w0 = replicate n Block \<Longrightarrow> length rqs < n \<Longrightarrow>
    \<exists>c' w'. kitserv_http_serve_client env content c w = Some (Some (if snd (answers env content rqs) then 0 else -1, c', w')) \<and>
      os_out w' = os_out w0 @ fst (answers env content rqs) \<and> os_fds w' = os_fds w0 \<and>
      os_log w' = os_log w0 @ log_entries env content rqs \<and>
      (snd (answers env content rqs) \<longrightarrow> serve_inv c')"
proof (induction rqs arbitrary: c c0 w w0 n)
  case Nil
  then obtain k where k: "n = Suc k" by (cases n) auto
  from Nil waiting_round [OF Nil.prems(2,3,4), of "replicate k Block" env content] k show ?case
    by (auto simp: kitserv_http_serve_client.simps [of env content c])
next
  case (Cons rq rqs)
  from Cons.prems obtain k where k: "n = Suc k" "length rqs < k" by (cases n) auto
  have m: "req_headers c0 = print_request rq @ concat (map print_request rqs)" using Cons.prems(5) by simp
  have rq: "plain_request rq" "list_all plain_request rqs" using Cons.prems(1) by simp_all
  from answered_round [OF t rq(1) Cons.prems(2,3,4) m Cons.prems(6,7)] obtain out open' c1 w1 where
    r: "answer env content rq = (out, open')"
      "serve_round env content c w = Some (if open' then Again c1 w1 else Return (-1) c1 w1)"
      "os_out w1 = os_out w0 @ out" "os_fds w1 = os_fds w0" "os_log w1 = os_log w0 @ log_entry env rq"
      "open' \<longrightarrow> ready c1 \<and> req_headers c1 = concat (map print_request rqs) \<and> os_in w1 = os_in w0 \<and> os_wr w1 = [] \<and> os_errno w1 \<noteq> EACCES"
    by blast
  note step = kitserv_http_serve_client.simps [of env content c w]
  show ?case
  proof (cases open')
    case False
    with r show ?thesis by (simp add: step)
  next
    case True
    with r(6) have c1: "ready c1" "req_headers c1 = concat (map print_request rqs)" "os_in w1 = replicate n Block" "os_wr w1 = []"
      using Cons.prems(8) by simp_all
    let ?w = "w1\<lparr>os_in := replicate k Block, os_errno := EAGAIN\<rparr>"
    have room: "HTTP_BUFSZ - length (req_headers c1) \<noteq> 0"
    proof -
      have "length (req_headers c1) < length (req_headers c0)" using c1(2) m by (simp add: print_request_def)
      moreover have "length (req_headers c0) \<le> HTTP_BUFSZ" using Cons.prems(4) by (simp add: ready_def)
      ultimately show ?thesis by simp
    qed
    have fill: "recv_fill c1 None None w1 = (Go c1, ?w)"
      using c1(3) k(1) room by (simp add: recv_fill_def ptr_past_end_def)
    have "os_wr ?w = []" "os_errno ?w \<noteq> EACCES" "os_in ?w = replicate k Block" using c1(4) by simp_all
    from Cons.IH [OF rq(2) c1(1) fill c1(1,2) this k(2)] r True show ?thesis
      by (auto simp: step split: prod.splits)
  qed
qed

section \<open>Properties\<close>

text \<open>A site and two requests for the examples.\<close>

definition sample_requests :: "request list" where
  "sample_requests = [\<lparr>rq_method = HTTP_GET, rq_target = ''/a'', rq_query = None, rq_version = HTTP_1_1,
       rq_fields = [(''Range'', ''bytes=2-4'')]\<rparr>,
     \<lparr>rq_method = HTTP_GET, rq_target = ''/b'', rq_query = None, rq_version = HTTP_1_1, rq_fields = []\<rparr>]"

definition sample_content :: "int \<Rightarrow> string" where
  "sample_content fd = ''0123456789''"

text \<open>The file the examples ask for; the path starts with a slash of its own.\<close>

definition small_site :: env where
  "small_site = \<lparr>default_context = \<lparr>root = Some ''/w'', root_fallback = None, fallback = None, use_http_append_fallback = True\<rparr>,
     api_tree = None, call_handler = (\<lambda>h d c w. None), alloc_ok = (\<lambda>n. True),
     stat_file = (\<lambda>f. if f = ''/w//a.html'' then Inr \<lparr>st_isreg = True, st_size = 10, st_mtime = 5\<rparr> else Inl (EOTHER 2)),
     open_file = (\<lambda>f. if f = ''/w//a.html'' then Inr 7 else Inl (EOTHER 2)),
     date = (\<lambda>t. Some ''Thu, 01 Jan 1970 00:00:05 GMT''), parse_date = (\<lambda>s. None), silent = False, null_text = ''(null)''\<rparr>"

lemma sample_server: "tidy small_site sample_content" "list_all plain_request sample_requests" "ready fresh_client"
proof -
  show "tidy small_site sample_content"
    by (auto simp: tidy_def tidy_files_def small_site_def sample_content_def split: if_splits)
  show "list_all plain_request sample_requests"
    by (simp add: sample_requests_def plain_request_def valid_method_def plain_field_def isprint_def tolower_def
        url_decoded.simps attempted_path_traversal_def)
  show "ready fresh_client" by (simp add: ready_def fresh_client_def body_ok_def buffer_ok_def)
qed

text \<open>
  C12: requests that arrive together, all of them within the \<^verbatim>\<open>HTTP_BUFSZ\<close> bytes of the
  buffer, are answered in one call, with no new event in between, which an edge-triggered
  queue would not give: the call sends the specified answers and returns 0, leaving the
  client ready to be called again, or -1 when an answer ends the connection. This is for a
  socket that takes everything at once (\<open>os_wr\<close> is empty; where it makes the server wait,
  the call returns before, and later calls go on, see \<open>Static_Stream\<close>), and for a peer that keeps its side open (\<open>half_close_drops_requests\<close> shows the other case).
\<close>

theorem pipelined_requests_answered:
  assumes "tidy env content" "ready c" "req_headers c = []" "list_all plain_request rqs" "rqs \<noteq> []"
    and "os_in w = Chunk (concat (map print_request rqs)) # replicate n Block" "length rqs < n"
    and "length (concat (map print_request rqs)) \<le> HTTP_BUFSZ" "os_wr w = []" "os_errno w \<noteq> EACCES"
  shows "\<exists>c' w'. kitserv_http_serve_client env content c w =
      Some (Some (if snd (answers env content rqs) then 0 else -1, c', w')) \<and>
    os_out w' = os_out w @ fst (answers env content rqs) \<and> os_fds w' = os_fds w \<and>
    os_log w' = os_log w @ log_entries env content rqs \<and>
    (snd (answers env content rqs) \<longrightarrow> serve_inv c')"
proof -
  define d where "d = concat (map print_request rqs)"
  let ?w = "w\<lparr>os_in := replicate n Block\<rparr>"
  have ne: "d \<noteq> []" using assms(5) by (cases rqs) (simp_all add: d_def print_request_def)
  have "sock_read (HTTP_BUFSZ - length (req_headers c)) (os_in w) = (Inr d, replicate n Block)"
    using assms(3,6,8) ne by (simp add: HTTP_BUFSZ_def d_def [symmetric])
  with ne have fill: "recv_fill c None None w = (Go (grow_c c d), ?w)"
    by (cases d) (simp_all add: recv_fill_def)
  have rd: "ready (grow_c c d)" using assms(2,3,8) by (simp add: ready_def body_ok_def d_def [symmetric])
  have "req_headers (grow_c c d) = concat (map print_request rqs)" using assms(3) by (simp add: d_def)
  from answered_call [OF assms(1,4,2) fill rd this _ _ _ assms(7)] assms(9,10) show ?thesis by simp
qed

lemma pipelined_requests_answered_witness:
  defines "w \<equiv> quiet_os\<lparr>os_in := Chunk (concat (map print_request sample_requests)) # replicate 3 Block\<rparr>"
  shows "\<exists>c' w'. kitserv_http_serve_client small_site sample_content fresh_client w =
      Some (Some (if snd (answers small_site sample_content sample_requests) then 0 else -1, c', w')) \<and>
    os_out w' = os_out w @ fst (answers small_site sample_content sample_requests) \<and> os_fds w' = os_fds w \<and>
    os_log w' = os_log w @ log_entries small_site sample_content sample_requests \<and>
    (snd (answers small_site sample_content sample_requests) \<longrightarrow> serve_inv c')"
  by (rule pipelined_requests_answered [where n = 3, OF sample_server(1,3) _ sample_server(2)])
    (simp_all add: numeral_3_eq_3 w_def quiet_os_def fresh_client_simps sample_requests_def print_request_def method_name_def query_part_def
      print_field_def HTTP_BUFSZ_def)

text \<open>
  A peer that closes its side after its last request loses the answers to all but the
  first: at the end of the stream the call gives up at once, with requests in the buffer
  that have been received in full.
\<close>

lemma half_close_drops_requests:
  assumes "ready c" "length (req_headers c) < HTTP_BUFSZ" "os_in w = []"
  shows "\<exists>c'. kitserv_http_serve_client env content c w = Some (Some (-1, c', w))"
proof -
  have w: "w\<lparr>os_in := []\<rparr> = w" using assms(3) by (cases w) simp
  have "kitserv_http_recv_request c w = Some (-1, set_status HTTP_X_HANGUP c, w)"
    using assms(2,3) ready_idle(6,7) [OF assms(1)]
    by (simp add: kitserv_http_recv_request_def recv_loop.simps [of c None None w] recv_fill_def w)
  then show ?thesis
    using ready_idle(4) [OF assms(1)] by (simp add: kitserv_http_serve_client.simps [of env content c w] serve_round_def at_read_def)
qed

end
