(* ===== verification/Static_Attend.thy ===== *)
theory Static_Attend
  imports Static_Pipeline
begin

text \<open>
  Attending a client: a worker calls \<open>kitserv_http_serve_client\<close> again at every event, until
  it is told to close. Over a socket that makes the server wait in the middle of an answer,
  the calls together send what one call sends over a socket that takes everything.
\<close>

section \<open>The calls of a worker\<close>

partial_function (option) attend :: "env \<Rightarrow> (int \<Rightarrow> string) \<Rightarrow> kitserv_client \<Rightarrow> os \<Rightarrow> (int \<times> kitserv_client \<times> os) ub option" where
  "attend env content c w =
     (case kitserv_http_serve_client env content c w of
        None \<Rightarrow> None
      | Some None \<Rightarrow> Some None
      | Some (Some (rc, c, w)) \<Rightarrow> if rc = 0 then attend env content c w else Some (Some (rc, c, w)))"

definition after_round :: "env \<Rightarrow> (int \<Rightarrow> string) \<Rightarrow> round ub \<Rightarrow> (int \<times> kitserv_client \<times> os) ub option" where
  "after_round env content rd = (case rd of
     None \<Rightarrow> Some None
   | Some (Return rc c w) \<Rightarrow> if rc = 0 then attend env content c w else Some (Some (rc, c, w))
   | Some (Again c w) \<Rightarrow> attend env content c w)"

lemma after_round_simps [simp]:
  "after_round env content (Some (Return 0 c w)) = attend env content c w"
  "after_round env content (Some (Return (-1) c w)) = Some (Some (-1, c, w))"
  "after_round env content (Some (Again c w)) = attend env content c w"
  by (simp_all add: after_round_def)

lemma attend_round: "attend env content c w = after_round env content (serve_round env content c w)"
proof -
  note step = attend.simps [of env content c w] kitserv_http_serve_client.simps [of env content c w]
  show ?thesis
  proof (cases "serve_round env content c w")
    case None
    then show ?thesis by (simp add: step after_round_def)
  next
    case (Some rd)
    then show ?thesis
    proof (cases rd)
      case (Again c1 w1)
      with Some show ?thesis by (simp add: step attend.simps [of env content c1 w1])
    qed (use Some in \<open>simp add: step after_round_def\<close>)
  qed
qed

section \<open>A socket that makes the server wait\<close>

text \<open>
  What is left of the script of a socket when it has taken the head of a response, in one
  piece, and then a file of \<open>n\<close> bytes, in any pieces, being not ready wherever it wants. In
  one piece, because the rest of a head that is cut is not always sent (\<open>partial_write_loses\<close>).
  No more than \<^verbatim>\<open>0x7ffff000\<close> bytes go out in one call of \<^verbatim>\<open>sendfile\<close>.
\<close>

fun taken_whole :: "nat \<Rightarrow> wr_event list \<Rightarrow> wr_event list option" where
  "taken_whole n [] = Some []"
| "taken_whole n (e # es) = (if n = 0 then Some (e # es) else case e of
     Takes m \<Rightarrow> if n \<le> m then Some es else None
   | WBlock \<Rightarrow> taken_whole n es
   | WErr _ \<Rightarrow> None)"

fun in_pieces :: "nat \<Rightarrow> wr_event list \<Rightarrow> wr_event list option" where
  "in_pieces n [] = Some []"
| "in_pieces n (e # es) = (if n = 0 then Some (e # es) else case e of
     Takes m \<Rightarrow> if 0 < m then in_pieces (n - min m 0x7ffff000) es else None
   | WBlock \<Rightarrow> in_pieces n es
   | WErr _ \<Rightarrow> None)"

definition gone_out :: "nat \<Rightarrow> nat \<Rightarrow> wr_event list \<Rightarrow> wr_event list option" where
  "gone_out h n es = Option.bind (taken_whole h es) (in_pieces n)"

lemma in_pieces_none [simp]: "in_pieces 0 es = Some es"
  by (cases es) simp_all

lemma taken_whole_none [simp]: "taken_whole 0 es = Some es"
  by (cases es) simp_all

lemma gone_out_whole [simp]: "gone_out h 0 es = taken_whole h es"
  by (simp add: gone_out_def bind_split_asm split: bind_splits)

lemma gone_outE:
  assumes "gone_out h n es = Some es'"
  obtains es1 where "taken_whole h es = Some es1" "in_pieces n es1 = Some es'"
  using assms by (auto simp: gone_out_def bind_eq_Some_conv)

text \<open>All that has happened is that bytes went out.\<close>

definition sent :: "string \<Rightarrow> os \<Rightarrow> os \<Rightarrow> bool" where
  "sent data w w' \<longleftrightarrow> os_out w' = os_out w @ data \<and> os_in w' = os_in w \<and> os_fds w' = os_fds w \<and> os_log w' = os_log w \<and>
     (os_errno w \<noteq> EACCES \<longrightarrow> os_errno w' \<noteq> EACCES)"

lemma sent_trans: "sent a w w1 \<Longrightarrow> sent b w1 w2 \<Longrightarrow> sent (a @ b) w w2"
  by (simp add: sent_def)

lemma os_put_whole:
  assumes "taken_whole (length data) (os_wr w) = Some es" "os_put data w = (rc, w')"
  obtains (wait) "rc = -1" "sent [] w w'" "os_errno w' = EAGAIN" "length (os_wr w') < length (os_wr w)"
      "taken_whole (length data) (os_wr w') = Some es"
    | (put) "rc = int (length data)" "sent data w w'" "os_wr w' = es"
proof (cases "data = [] \<or> os_wr w = []")
  case True
  with assms show thesis by (intro put) (auto simp: os_put_def sent_def split: if_splits)
next
  case False
  then obtain e es' where e: "data \<noteq> []" "os_wr w = e # es'" by (cases "os_wr w") auto
  with assms show thesis
  proof (cases e)
    case (Takes m)
    with e assms show thesis by (intro put) (auto simp: os_put_def sent_def min_def split: if_splits)
  next
    case WBlock
    with e assms show thesis by (intro wait) (auto simp: os_put_def sent_def)
  qed simp
qed

lemma os_put_piece:
  assumes "in_pieces n (os_wr w) = Some es" "length data = min n 0x7ffff000" "data \<noteq> []" "os_put data w = (rc, w')"
  obtains (wait) "rc = -1" "sent [] w w'" "os_errno w' = EAGAIN" "length (os_wr w') < length (os_wr w)" "in_pieces n (os_wr w') = Some es"
    | (put) k where "rc = int k" "k \<le> length data" "0 < k" "sent (take k data) w w'" "in_pieces (n - k) (os_wr w') = Some es"
        "length (os_wr w') \<le> length (os_wr w)"
proof (cases "os_wr w")
  case Nil
  then have p: "rc = int (length data)" "w' = w\<lparr>os_out := os_out w @ data\<rparr>" "es = []" using assms by (auto simp: os_put_def)
  have "sent (take (length data) data) w w'" using p by (simp add: sent_def)
  with Nil p assms(3) show thesis by (intro put [of "length data"]) simp_all
next
  case (Cons e es')
  have n: "0 < n" using assms(2,3) by (cases n) auto
  show thesis
  proof (cases e)
    case (Takes m)
    have m: "0 < m" "in_pieces (n - min m 0x7ffff000) es' = Some es" using assms(1) Cons Takes n by (auto split: if_splits)
    have "n - min m (length data) = n - min m 0x7ffff000" unfolding assms(2) by auto
    with m assms Cons Takes n show thesis
      by (intro put [of "min m (length data)"]) (auto simp: os_put_def sent_def min_def)
  next
    case WBlock
    with Cons n assms show thesis by (intro wait) (auto simp: os_put_def sent_def)
  qed (use Cons n assms in simp)
qed

text \<open>The head of a response, however often the socket is not ready.\<close>

lemma attend_send:
  "response_bytes c = Some data \<Longrightarrow> taken_whole (length data) (os_wr w) = Some es \<Longrightarrow> state (ta c) = HTTP_STATE_SEND \<Longrightarrow>
   \<exists>c1 w1. after_round env content (at_send env content c w) = after_round env content (at_send_file env content c1 w1) \<and>
     state (ta c1) = HTTP_STATE_SEND_FILE \<and> out_frame c1 = out_frame c \<and> sent data w w1 \<and> os_wr w1 = es"
proof (induction "length (os_wr w)" arbitrary: w rule: less_induct)
  case less
  obtain rc w1 where p: "os_put data w = (rc, w1)" by (cases "os_put data w")
  note step = kitserv_http_send_response.simps [of c w]
  from less.prems(2) p show ?case
  proof (cases rule: os_put_whole)
    case wait
    let ?w = "w1\<lparr>os_errno := ENONE\<rparr>"
    have s: "sent [] w ?w" using wait(2) by (simp add: sent_def)
    have r: "taken_whole (length data) (os_wr ?w) = Some es" using wait(5) by simp
    have "at_send env content c w = Some (Return 0 c ?w)" using wait p less.prems(1,3) by (simp add: at_send_def step)
    moreover have "attend env content c ?w = after_round env content (at_send env content c ?w)"
      using attend_round [of env content c ?w] less.prems(3) by (simp add: serve_round_def)
    moreover have "length (os_wr ?w) < length (os_wr w)" using wait(4) by simp
    from less.hyps [OF this less.prems(1) r less.prems(3)] sent_trans [OF s] have
      "\<exists>c1 w1. after_round env content (at_send env content c ?w) = after_round env content (at_send_file env content c1 w1) \<and>
        state (ta c1) = HTTP_STATE_SEND_FILE \<and> out_frame c1 = out_frame c \<and> sent data w w1 \<and> os_wr w1 = es" by fastforce
    ultimately show ?thesis by simp
  next
    case k: put
    obtain b t where a: "advance_bufs (length data) (ta c) = (b, t)" by (cases "advance_bufs (length data) (ta c)")
    have b: "b" using advance_all [of "ta c" "length data"] response_lengths [OF less.prems(1)] a by simp
    let ?c = "c\<lparr>ta := t\<lparr>state := HTTP_STATE_SEND_FILE\<rparr>\<rparr>"
    have "kitserv_http_send_response c w = Some (0, ?c, w1)" using less.prems(1) p k(1) a b by (simp add: step)
    then have "at_send env content c w = at_send_file env content ?c w1" by (simp add: at_send_def)
    moreover have "send_frame ?c = send_frame c" using advance_frame [OF a] by (simp add: send_frame_def)
    from send_frame_out [OF this] have "out_frame ?c = out_frame c" .
    ultimately show ?thesis using k(2,3) by (intro exI [of _ ?c] exI [of _ w1]) simp
  qed
qed

text \<open>A file, in pieces: the loop stops behind the last byte, or where the socket is not ready.\<close>

lemma sendfile_loop_pieces:
  "in_pieces (nat (to_pos - pos + 1)) (os_wr w) = Some es \<Longrightarrow> 0 \<le> pos \<Longrightarrow> pos \<le> to_pos \<Longrightarrow> to_pos < int (length (content fd)) \<Longrightarrow> to_pos < 2 ^ 62 \<Longrightarrow>
   sendfile_loop content fd pos to_pos w = (rc, pos', w') \<Longrightarrow>
   sent (take (nat (pos' - pos)) (drop (nat pos) (content fd))) w w' \<and> pos \<le> pos' \<and>
   (pos' = to_pos + 1 \<and> os_wr w' = es \<or> pos' \<le> to_pos \<and> rc < 0 \<and> os_errno w' = EAGAIN \<and> length (os_wr w') < length (os_wr w) \<and>
      in_pieces (nat (to_pos - pos' + 1)) (os_wr w') = Some es) \<and>
   length (os_wr w') \<le> length (os_wr w)"
proof (induction content fd pos to_pos w arbitrary: rc pos' w' rule: sendfile_loop.induct)
  case (1 content fd pos to_pos w)
  let ?n = "size_t_of (to_pos - pos + 1)"
  let ?chunk = "take (min ?n 0x7ffff000) (drop (nat pos) (content fd))"
  have n: "?n = nat (to_pos - pos + 1)" using "1.prems"(2-5) by simp
  then have ne: "?chunk \<noteq> []" using "1.prems"(2-4) by auto
  have len: "length ?chunk = min (nat (to_pos - pos + 1)) 0x7ffff000" using "1.prems"(2-4) unfolding n by auto
  obtain rc1 w1 where p: "os_put ?chunk w = (rc1, w1)" by (cases "os_put ?chunk w")
  note step = "1.prems"(6) [unfolded sendfile_loop.simps [of content fd pos]]
  from "1.prems"(1) len ne p show ?case
  proof (cases rule: os_put_piece)
    case wait
    have "sendfile content fd pos ?n w = (-1, pos, w1)" using p wait(1) "1.prems"(2) by (simp add: sendfile_def)
    with step have "rc = -1" "pos' = pos" "w' = w1" by simp_all
    with wait "1.prems"(3) show ?thesis by simp
  next
    case (put k)
    have k: "0 < k" "int k \<le> to_pos - pos + 1" using put(2,3) "1.prems"(3) unfolding len by auto
    have s: "sendfile content fd pos ?n w = (int k, pos + int k, w1)" using p put(1) "1.prems"(2) k(1) by (simp add: sendfile_def)
    have "k \<le> min ?n 0x7ffff000" using put(2) unfolding len n by simp
    then have "take k ?chunk = take k (drop (nat pos) (content fd))" by (simp only: take_take min.absorb1)
    then have o: "sent (take k (drop (nat pos) (content fd))) w w1" using put(4) by simp
    have e: "in_pieces (nat (to_pos - (pos + int k) + 1)) (os_wr w1) = Some es"
    proof -
      have "nat (to_pos - (pos + int k) + 1) = nat (to_pos - pos + 1) - k" using k by arith
      with put(5) show ?thesis by simp
    qed
    show ?thesis
    proof (cases "pos + int k \<le> to_pos")
      case True
      with step s k(1) have run: "sendfile_loop content fd (pos + int k) to_pos w1 = (rc, pos', w')" by simp
      have c: "0 < int k \<and> pos + int k \<le> to_pos" using k(1) True by simp
      from "1.IH" [OF s [symmetric] refl c e _ True "1.prems"(4,5) run] "1.prems"(2) have
        ih: "sent (take (nat (pos' - (pos + int k))) (drop (nat (pos + int k)) (content fd))) w1 w'" "pos + int k \<le> pos'"
          "pos' = to_pos + 1 \<and> os_wr w' = es \<or> pos' \<le> to_pos \<and> rc < 0 \<and> os_errno w' = EAGAIN \<and> length (os_wr w') < length (os_wr w1) \<and>
             in_pieces (nat (to_pos - pos' + 1)) (os_wr w') = Some es"
          "length (os_wr w') \<le> length (os_wr w1)" by simp_all
      have "take k (drop (nat pos) (content fd)) @ take (nat (pos' - (pos + int k))) (drop (nat (pos + int k)) (content fd)) =
          take (nat (pos' - pos)) (drop (nat pos) (content fd))"
      proof -
        have "nat (pos' - pos) = k + nat (pos' - (pos + int k))" "nat (pos + int k) = k + nat pos"
          using ih(2) "1.prems"(2) by simp_all
        then show ?thesis by (simp only: take_add drop_drop)
      qed
      with sent_trans [OF o ih(1)] ih put(6) show ?thesis by auto
    next
      case False
      with step s have "pos' = pos + int k" "w' = w1" by simp_all
      with False o k e put(6) show ?thesis by simp
    qed
  qed
qed

lemma after_file_wait:
  assumes "kitserv_http_send_response_file content c w = (0, c1, w1)" "state (ta c1) = HTTP_STATE_SEND_FILE"
  shows "after_round env content (at_send_file env content c w) = after_round env content (at_send_file env content c1 w1)"
proof -
  have "at_send_file env content c w = Some (Return 0 c1 w1)" using assms by (simp add: at_send_file_def)
  moreover have "attend env content c1 w1 = after_round env content (at_send_file env content c1 w1)"
    using attend_round [of env content c1 w1] assms(2) by (simp add: serve_round_def)
  ultimately show ?thesis by simp
qed

text \<open>
  The part of a file from \<open>pos\<close> to \<open>b\<close>: the calls come down to a last one, which closes the
  file. The first client and kernel are those of the last call.
\<close>

lemma attend_file:
  assumes "0 < fd" "b < int (length (content fd))" "b < 2 ^ 62"
  shows "in_pieces (nat (b - pos + 1)) (os_wr w) = Some es \<Longrightarrow> state (ta c) = HTTP_STATE_SEND_FILE \<Longrightarrow> resp_fd (ta c) = fd \<Longrightarrow> req_method (ta c) \<noteq> HTTP_HEAD \<Longrightarrow>
    resp_body_end (ta c) = b \<Longrightarrow> resp_body_pos (ta c) = pos \<Longrightarrow> 0 \<le> pos \<Longrightarrow> pos \<le> b + 1 \<or> content fd = [] \<Longrightarrow>
    \<not> status_is_error (resp_status (ta c)) \<Longrightarrow>
    \<exists>c1 w1 c' w'. after_round env content (at_send_file env content c w) = after_round env content (at_send_file env content c1 w1) \<and>
      kitserv_http_send_response_file content c1 w1 = (if req_version (ta c1) = HTTP_1_0 then -1 else 0, c', w') \<and>
      state (ta c') = HTTP_STATE_DONE \<and> file_frame c1 = file_frame c \<and> file_frame c' = file_frame c1 \<and>
      sent (take (nat (b - pos + 1)) (drop (nat pos) (content fd))) w (w'\<lparr>os_fds := os_fds w\<rparr>) \<and>
      os_fds w' = remove1 fd (os_fds w) \<and> os_wr w' = es"
proof (induction "length (os_wr w)" arbitrary: w c pos rule: less_induct)
  case less
  obtain rc p w1 where l: "sendfile_loop content fd pos b w = (rc, p, w1)" by (cases "sendfile_loop content fd pos b w") auto
  let ?c1 = "c\<lparr>ta := (ta c)\<lparr>resp_body_pos := p\<rparr>\<rparr>"
  have last: ?case if o: "sent (take (nat (b - pos + 1)) (drop (nat pos) (content fd))) w w1" and e: "b < p" "os_wr w1 = es"
  proof -
    let ?c2 = "c\<lparr>ta := (ta c)\<lparr>resp_body_pos := p, resp_fd := 0, state := HTTP_STATE_DONE\<rparr>\<rparr>"
    let ?w2 = "w1\<lparr>os_fds := remove1 fd (os_fds w1)\<rparr>"
    have "kitserv_http_send_response_file content c w = (if req_version (ta c) = HTTP_1_0 then -1 else 0, ?c2, ?w2)"
      using l e less.prems assms(1) by (simp add: kitserv_http_send_response_file_def Let_def close_fd_to_zero_def)
    moreover have "file_frame ?c2 = file_frame c" by (simp add: file_frame_def)
    moreover have "sent (take (nat (b - pos + 1)) (drop (nat pos) (content fd))) w (?w2\<lparr>os_fds := os_fds w\<rparr>)"
      "os_fds ?w2 = remove1 fd (os_fds w)" "os_wr ?w2 = es" using o e by (simp_all add: sent_def)
    ultimately show ?thesis by (intro exI [of _ c] exI [of _ w] exI [of _ ?c2] exI [of _ ?w2]) simp
  qed
  show ?case
  proof (cases "pos \<le> b")
    case False
    then have e: "take k (drop (nat pos) (content fd)) = []" if "k = size_t_of (b - pos + 1) \<or> k = nat (b - pos + 1)" for k
      using less.prems(8) that by (auto simp: size_t_of_def)
    have "sendfile content fd pos (size_t_of (b - pos + 1)) w = (0, pos, w)"
      using less.prems(7) e [of "size_t_of (b - pos + 1)"] by (auto simp: sendfile_def os_put_def)
    then have "p = pos" "w1 = w" using l by (simp_all add: sendfile_loop.simps [of content fd pos])
    with last e [of "nat (b - pos + 1)"] False less.prems(1) show ?thesis by (simp add: sent_def)
  next
    case True
    from sendfile_loop_pieces [OF less.prems(1,7) True assms(2,3) l] have
      o: "sent (take (nat (p - pos)) (drop (nat pos) (content fd))) w w1" "pos \<le> p"
      and d: "p = b + 1 \<and> os_wr w1 = es \<or> p \<le> b \<and> rc < 0 \<and> os_errno w1 = EAGAIN \<and> length (os_wr w1) < length (os_wr w) \<and>
        in_pieces (nat (b - p + 1)) (os_wr w1) = Some es" by simp_all
    from d show ?thesis
    proof
      assume p: "p = b + 1 \<and> os_wr w1 = es"
      show ?thesis by (rule last) (use o(1) p in \<open>simp_all add: algebra_simps\<close>)
    next
      assume w: "p \<le> b \<and> rc < 0 \<and> os_errno w1 = EAGAIN \<and> length (os_wr w1) < length (os_wr w) \<and>
        in_pieces (nat (b - p + 1)) (os_wr w1) = Some es"
      have s: "kitserv_http_send_response_file content c w = (0, ?c1, w1)"
        using l w less.prems assms(1) by (simp add: kitserv_http_send_response_file_def Let_def)
      have st: "state (ta ?c1) = HTTP_STATE_SEND_FILE" using less.prems(2) by simp
      have r: "in_pieces (nat (b - p + 1)) (os_wr w1) = Some es" using w by simp
      have "length (os_wr w1) < length (os_wr w)" using w by simp
      from less.hyps [OF this r st] less.prems o(2) w obtain c2 w2 c3 w3 where ih:
        "after_round env content (at_send_file env content ?c1 w1) = after_round env content (at_send_file env content c2 w2)"
        "kitserv_http_send_response_file content c2 w2 = (if req_version (ta c2) = HTTP_1_0 then -1 else 0, c3, w3)"
        "state (ta c3) = HTTP_STATE_DONE" "file_frame c2 = file_frame ?c1" "file_frame c3 = file_frame c2"
        "sent (take (nat (b - p + 1)) (drop (nat p) (content fd))) w1 (w3\<lparr>os_fds := os_fds w1\<rparr>)"
        "os_fds w3 = remove1 fd (os_fds w1)" "os_wr w3 = es" by auto
      have f: "file_frame ?c1 = file_frame c" "os_fds w1 = os_fds w" using o(1) by (simp_all add: file_frame_def sent_def)
      have "take (nat (p - pos)) (drop (nat pos) (content fd)) @ take (nat (b - p + 1)) (drop (nat p) (content fd)) =
          take (nat (b - pos + 1)) (drop (nat pos) (content fd))"
      proof -
        have "nat (b - pos + 1) = nat (p - pos) + nat (b - p + 1)" "nat p = nat (p - pos) + nat pos"
          using o(2) w less.prems(7) by (simp_all add: nat_add_distrib [symmetric])
        then show ?thesis by (simp only: take_add drop_drop)
      qed
      with sent_trans [OF o(1) ih(6)] f(2) have
        "sent (take (nat (b - pos + 1)) (drop (nat pos) (content fd))) w (w3\<lparr>os_fds := os_fds w\<rparr>)" by simp
      with after_file_wait [OF s st] ih(1-5,7,8) f show ?thesis by (intro exI [of _ c2] exI [of _ w2] exI [of _ c3] exI [of _ w3]) simp
    qed
  qed
qed

section \<open>An answer goes out\<close>

text \<open>The body of a success, whatever it is.\<close>

lemma attend_body:
  assumes t: "tidy_files env content" and b: "body_source env body c w w1" and s: "\<not> status_is_error (resp_status (ta c))"
    and st: "state (ta c) = HTTP_STATE_SEND_FILE" and o: "sent x (w1\<lparr>os_log := l\<rparr>) w2"
    and e: "in_pieces (length (file_part env content body)) (os_wr w2) = Some es"
  shows "\<exists>c3 w3 c' w'. after_round env content (at_send_file env content c w2) = after_round env content (at_send_file env content c3 w3) \<and>
    kitserv_http_send_response_file content c3 w3 = (if req_version (ta c3) = HTTP_1_0 then -1 else 0, c', w') \<and>
    state (ta c') = HTTP_STATE_DONE \<and> file_frame c3 = file_frame c \<and> file_frame c' = file_frame c3 \<and>
    sent (x @ file_part env content body) (w1\<lparr>os_log := l, os_fds := os_fds w\<rparr>) w' \<and> os_fds w' = os_fds w \<and> os_wr w' = es"
proof (cases body)
  case None
  with b have n: "os_same w w1" "\<not> (resp_fd (ta c) > 0 \<and> req_method (ta c) \<noteq> HTTP_HEAD)" by (auto simp: body_source_def)
  then have "kitserv_http_send_response_file content c w2 =
      (if req_version (ta c) = HTTP_1_0 then -1 else 0, set_state HTTP_STATE_DONE c, w2)"
    using s by (auto simp: kitserv_http_send_response_file_def Let_def)
  with None os_sameD [OF n(1)] o e show ?thesis
    by (intro exI [of _ c] exI [of _ w2] exI [of _ "set_state HTTP_STATE_DONE c"])
      (simp add: file_part_def file_frame_def sent_def)
next
  case (Some y)
  obtain f i j where y: "y = (f, i, j)" by (cases y)
  define fd where "fd = resp_fd (ta c)"
  from b Some y obtain fs where n: "open_file env f = Inr fd" "0 < fd" "os_same (w\<lparr>os_fds := fd # os_fds w\<rparr>) w1"
    "req_method (ta c) = HTTP_GET" "resp_body_pos (ta c) = i" "resp_body_end (ta c) = j"
    "stat_file env f = Inr fs" "st_isreg fs" "0 \<le> i" "j < st_size fs" "i \<le> j + 1 \<or> st_size fs = 0"
    by (auto simp: body_source_def fd_def)
  note io = os_sameD [OF n(3)]
  from t n(1,7,8) have size: "int (length (content fd)) = st_size fs" "st_size fs < 2 ^ 62" by (auto simp: tidy_files_def)
  have bd: "j < int (length (content fd))" "j < 2 ^ 62" "i \<le> j + 1 \<or> content fd = []" using n(10,11) size by auto
  have m: "req_method (ta c) \<noteq> HTTP_HEAD" using n(4) by simp
  have p: "file_part env content body = take (nat (j - i + 1)) (drop (nat i) (content fd))"
    using Some y n(1) by (simp add: file_part_def)
  have "length (file_part env content body) = nat (j - i + 1)"
    using n(9) bd unfolding p by (auto simp: min_def nat_diff_distrib' nat_le_eq_zle)
  then have r: "in_pieces (nat (j - i + 1)) (os_wr w2) = Some es" using e by simp
  from attend_file [where env = env and content = content, OF n(2) bd(1,2) r st fd_def [symmetric] m n(6,5,9) bd(3) s] obtain c3 w3 c4 w4 where
    a: "after_round env content (at_send_file env content c w2) = after_round env content (at_send_file env content c3 w3)"
    "kitserv_http_send_response_file content c3 w3 = (if req_version (ta c3) = HTTP_1_0 then -1 else 0, c4, w4)"
    "state (ta c4) = HTTP_STATE_DONE" "file_frame c3 = file_frame c" "file_frame c4 = file_frame c3"
    "sent (take (nat (j - i + 1)) (drop (nat i) (content fd))) w2 (w4\<lparr>os_fds := os_fds w2\<rparr>)"
    "os_fds w4 = remove1 fd (os_fds w2)" "os_wr w4 = es" by blast
  have fds: "os_fds w2 = fd # os_fds w" using o io by (simp add: sent_def)
  with a(7) have "os_fds w4 = os_fds w" by simp
  moreover have "sent (x @ file_part env content body) (w1\<lparr>os_log := l, os_fds := os_fds w\<rparr>) w4"
    using sent_trans [OF o a(6)] \<open>os_fds w4 = os_fds w\<close> unfolding p by (simp add: sent_def)
  ultimately show ?thesis using a(1-5,8) by blast
qed

lemma attended_delivery:
  assumes r: "received rq rest c" and t: "tidy_files env content" and pl: "plan env rq = Deliver s h n body"
    and pm: "plan_met env c w (Deliver s h n body) c1 w1"
    and w: "gone_out (length (delivery_head rq s h n)) (length (file_part env content body)) (os_wr w) = Some es"
  shows "\<exists>c' w'. after_round env content (at_prepare env content (set_state HTTP_STATE_PREPARE_RESPONSE c1) w1) =
      after_round env content (Some (if rq_version rq = HTTP_1_1 then Again c' w' else Return (-1) c' w')) \<and>
    sent (delivery_head rq s h n @ file_part env content body) (w\<lparr>os_log := os_log w @ log_entry env rq, os_errno := ENONE\<rparr>) w' \<and> os_wr w' = es \<and>
    (rq_version rq = HTTP_1_1 \<longrightarrow> ready c' \<and> req_headers c' = rest)"
proof -
  obtain es1 where e: "taken_whole (length (delivery_head rq s h n)) (os_wr w) = Some es1"
    "in_pieces (length (file_part env content body)) es1 = Some es" using w by (rule gone_outE)
  obtain c2 st hd where p: "at_prepare env content (set_state HTTP_STATE_PREPARE_RESPONSE c1) w1 =
      at_send env content c2 (w1\<lparr>os_log := os_log w1 @ log_entry env rq\<rparr>)"
    "sendable c2 st hd []" "st @ hd = delivery_head rq s h n" "length (st @ hd) \<le> 2 * HTTP_BUFSZ" "prepared env rq rest body w w1 c2"
    "os_out w1 = os_out w" "os_wr w1 = os_wr w" "os_log w1 = os_log w" "os_errno w1 \<noteq> EACCES"
    by (rule delivered_prepared [OF r pl pm])
  let ?l = "w1\<lparr>os_log := os_log w1 @ log_entry env rq\<rparr>"
  have d: "response_bytes c2 = Some (st @ hd)" "state (ta c2) = HTTP_STATE_SEND"
    "taken_whole (length (st @ hd)) (os_wr ?l) = Some es1"
    using sendable_bytes [OF p(2)] p(2,3,7) e(1) by (simp_all add: sendable_def)
  from attend_send [OF d(1,3,2), of env content] obtain c3 w3 where
    c3: "after_round env content (at_send env content c2 ?l) = after_round env content (at_send_file env content c3 w3)"
    "state (ta c3) = HTTP_STATE_SEND_FILE" "out_frame c3 = out_frame c2" "sent (st @ hd) ?l w3" "os_wr w3 = es1" by blast
  from prepared_frame [OF p(5) c3(3)] have q: "body_source env body c3 w w1" "\<not> status_is_error (resp_status (ta c3))" "body_ok c3"
    "payload_ok c3" "req_version (ta c3) = rq_version rq" "unread c3 = rest" by (simp_all add: prepared_def)
  have "in_pieces (length (file_part env content body)) (os_wr w3) = Some es" using e(2) c3(5) by simp
  from attend_body [OF t q(1,2) c3(2,4) this] obtain c4 w4 c5 w5 where
    a: "after_round env content (at_send_file env content c3 w3) = after_round env content (at_send_file env content c4 w4)"
    "kitserv_http_send_response_file content c4 w4 = (if req_version (ta c4) = HTTP_1_0 then -1 else 0, c5, w5)"
    "state (ta c5) = HTTP_STATE_DONE" "file_frame c4 = file_frame c3" "file_frame c5 = file_frame c4"
    "sent ((st @ hd) @ file_part env content body) (w1\<lparr>os_log := os_log w1 @ log_entry env rq, os_fds := os_fds w\<rparr>) w5"
    "os_fds w5 = os_fds w" "os_wr w5 = es" by blast
  define g where "g c = (req_version (ta c), req_payload (ta c), req_payload_pos (ta c), req_headers c)" for c :: kitserv_client
  have "g (file_frame c) = g c" for c by (simp add: g_def file_frame_def)
  then have "g c4 = g c3" using a(4) by metis
  then have v: "req_version (ta c4) = rq_version rq" "unread c4 = rest" using q(5,6) by (simp_all add: g_def unread_def)
  have bp: "body_ok c4" "payload_ok c4" using frame_keeps(1) [OF a(4)] q(3,4) by simp_all
  from done_round [OF a(2,3,5) bp, of env] obtain c6 where c6:
    "at_send_file env content c4 w4 = Some (if rq_version rq = HTTP_1_1 then Again c6 w5 else Return (-1) c6 w5)"
    "rq_version rq = HTTP_1_1 \<longrightarrow> ready c6 \<and> req_headers c6 = rest" unfolding v by blast
  have "after_round env content (at_prepare env content (set_state HTTP_STATE_PREPARE_RESPONSE c1) w1) =
      after_round env content (Some (if rq_version rq = HTTP_1_1 then Again c6 w5 else Return (-1) c6 w5))"
    using p(1) c3(1) a(1) c6(1) by simp
  moreover have "sent (delivery_head rq s h n @ file_part env content body)
      (w\<lparr>os_log := os_log w @ log_entry env rq, os_errno := ENONE\<rparr>) w5"
  proof -
    have "os_in w1 = os_in w" using q(1) by (auto simp: body_source_def dest: os_sameD(2) split: option.splits)
    with a(6,7) p(6,8,9) show ?thesis unfolding p(3) by (simp add: sent_def)
  qed
  ultimately show ?thesis using c6(2) a(8) by blast
qed

lemma attended_refusal:
  assumes r: "received rq rest c" and pl: "plan env rq = Refuse s h marked" and pm: "plan_met env c w (Refuse s h marked) c1 w1"
    and w: "taken_whole (length (refusal_bytes rq s h marked)) (os_wr w) = Some es"
  shows "\<exists>c' w'. after_round env content (at_prepare env content (set_state HTTP_STATE_PREPARE_RESPONSE c1) w1) = Some (Some (-1, c', w')) \<and>
    os_out w' = os_out w @ refusal_bytes rq s h marked \<and> os_fds w' = os_fds w \<and> os_log w' = os_log w @ log_entry env rq"
proof -
  obtain c2 st hd bd where p: "at_prepare env content (set_state HTTP_STATE_PREPARE_RESPONSE c1) w1 =
      at_send env content c2 (w1\<lparr>os_log := os_log w1 @ log_entry env rq\<rparr>)"
    "sendable c2 st hd bd" "st @ hd @ bd = refusal_bytes rq s h marked" "length (st @ hd @ bd) \<le> 2 * HTTP_BUFSZ"
    "resp_fd (ta c2) \<le> 0" "status_is_error (resp_status (ta c2))"
    "os_out w1 = os_out w" "os_wr w1 = os_wr w" "os_fds w1 = os_fds w" "os_log w1 = os_log w"
    by (rule refused_prepared [OF r pl pm])
  let ?l = "w1\<lparr>os_log := os_log w1 @ log_entry env rq\<rparr>"
  have d: "state (ta c2) = HTTP_STATE_SEND" "taken_whole (length (st @ hd @ bd)) (os_wr ?l) = Some es"
    using p(2,8) w unfolding p(3) by (simp_all add: sendable_def)
  from attend_send [OF sendable_bytes [OF p(2)] d(2,1), of env content] obtain c3 w3 where
    c3: "after_round env content (at_send env content c2 ?l) = after_round env content (at_send_file env content c3 w3)"
    "out_frame c3 = out_frame c2" "sent (st @ hd @ bd) ?l w3" by blast
  have "resp_fd (ta c3) \<le> 0" "status_is_error (resp_status (ta c3))" using out_frameD(1,2) [OF c3(2)] p(5,6) by simp_all
  note e = refusal_sent [OF this, of env content w3]
  have "after_round env content (at_prepare env content (set_state HTTP_STATE_PREPARE_RESPONSE c1) w1) =
      Some (Some (-1, set_state HTTP_STATE_DONE c3, w3))" using p(1) c3(1) e by simp
  moreover have "os_out w3 = os_out w @ refusal_bytes rq s h marked" "os_fds w3 = os_fds w" "os_log w3 = os_log w @ log_entry env rq"
    using c3(3) p(7,9,10) unfolding p(3) by (simp_all add: sent_def)
  ultimately show ?thesis by blast
qed

text \<open>
  What attending comes to from a point on, when the answer has still to be sent: the bytes, the
  lines of the log, and whether the connection stays open, with \<open>rest\<close> in the buffer and \<open>es\<close>
  left of the script of the socket.
\<close>

type_synonym reply = "string \<times> string list \<times> bool"

definition replied :: "env \<Rightarrow> (int \<Rightarrow> string) \<Rightarrow> os \<Rightarrow> string \<Rightarrow> wr_event list \<Rightarrow> round ub \<Rightarrow> reply \<Rightarrow> bool" where
  "replied env content w rest es rd rep \<longleftrightarrow> (case rep of (out, l, open') \<Rightarrow>
     \<exists>c' w'. after_round env content rd = after_round env content (Some (if open' then Again c' w' else Return (-1) c' w')) \<and>
       os_out w' = os_out w @ out \<and> os_fds w' = os_fds w \<and> os_log w' = os_log w @ l \<and>
       (open' \<longrightarrow> ready c' \<and> req_headers c' = rest \<and> os_in w' = os_in w \<and> os_wr w' = es \<and> os_errno w' \<noteq> EACCES))"

text \<open>
  The answer of a static server to a request that has been received, and how much of it goes
  out before the file.
\<close>

definition static_head :: "env \<Rightarrow> request \<Rightarrow> nat" where
  "static_head env rq = (case plan env rq of
     Refuse s h marked \<Rightarrow> length (refusal_bytes rq s h marked)
   | Deliver s h n body \<Rightarrow> length (delivery_head rq s h n))"

definition static_reply :: "env \<Rightarrow> (int \<Rightarrow> string) \<Rightarrow> request \<Rightarrow> reply" where
  "static_reply env content rq = (fst (answer env content rq), log_entry env rq, snd (answer env content rq))"

abbreviation static_file :: "env \<Rightarrow> (int \<Rightarrow> string) \<Rightarrow> request \<Rightarrow> nat" where
  "static_file env content rq \<equiv> length (fst (static_reply env content rq)) - static_head env rq"

lemma attended_static:
  assumes t: "tidy_files env content" and r: "received rq rest c" and w: "os_errno w \<noteq> EACCES"
    and g: "gone_out (static_head env rq) (static_file env content rq) (os_wr w) = Some es"
  shows "\<exists>rc c' w'. kitserv_http_handle_static_path env c w (target_path rq) None = Some (rc, c', w') \<and>
    replied env content w rest es (at_prepare env content (set_state HTTP_STATE_PREPARE_RESPONSE c') w') (static_reply env content rq)"
proof -
  from r have a: "asked rq c" by (simp add: received_def)
  from static_planned [OF a t w] obtain rc c2 w2 where
    s: "kitserv_http_handle_static_path env c w (target_path rq) None = Some (rc, c2, w2)" "plan_met env c w (plan env rq) c2 w2" by blast
  let ?rd = "at_prepare env content (set_state HTTP_STATE_PREPARE_RESPONSE c2) w2"
  have "replied env content w rest es ?rd (static_reply env content rq)"
  proof (cases "plan env rq")
    case (Refuse s h marked)
    obtain es1 where "taken_whole (length (refusal_bytes rq s h marked)) (os_wr w) = Some es1"
      using g by (auto elim!: gone_outE simp: static_head_def Refuse)
    from attended_refusal [OF r Refuse s(2) [unfolded Refuse] this, of content] obtain c3 w3 where
      d: "after_round env content ?rd = Some (Some (-1, c3, w3))"
        "os_out w3 = os_out w @ refusal_bytes rq s h marked" "os_fds w3 = os_fds w" "os_log w3 = os_log w @ log_entry env rq" by blast
    have "answer env content rq = (refusal_bytes rq s h marked, False)" by (simp only: answer_def Refuse plan.case refusal_bytes_def)
    with d show ?thesis by (auto simp: replied_def static_reply_def intro!: exI [of _ c3] exI [of _ w3])
  next
    case (Deliver s h n body)
    have ans: "answer env content rq = (delivery_head rq s h n @ file_part env content body, rq_version rq = HTTP_1_1)"
      using Deliver by (simp add: answer_def delivery_head_def)
    have "gone_out (length (delivery_head rq s h n)) (length (file_part env content body)) (os_wr w) = Some es"
      using g by (simp add: static_head_def Deliver static_reply_def ans)
    from attended_delivery [OF r t Deliver s(2) [unfolded Deliver] this] obtain c3 w3 where
      d: "after_round env content ?rd = after_round env content (Some (if rq_version rq = HTTP_1_1 then Again c3 w3 else Return (-1) c3 w3))"
        "sent (delivery_head rq s h n @ file_part env content body) (w\<lparr>os_log := os_log w @ log_entry env rq, os_errno := ENONE\<rparr>) w3" "os_wr w3 = es"
        "rq_version rq = HTTP_1_1 \<longrightarrow> ready c3 \<and> req_headers c3 = rest" by blast
    with ans d show ?thesis by (auto simp: replied_def static_reply_def sent_def intro!: exI [of _ c3] exI [of _ w3])
  qed
  with s(1) show ?thesis by blast
qed

lemma attended_serve:
  assumes t: "tidy env content" and r: "received rq rest c" and w: "os_errno w \<noteq> EACCES"
    and g: "gone_out (static_head env rq) (static_file env content rq) (os_wr w) = Some es"
  shows "replied env content w rest es (at_serve env content c w) (static_reply env content rq)"
proof -
  from t have n: "api_tree env = None" and t: "tidy_files env content" by (simp_all add: tidy_def)
  from r have "asked rq c" by (simp add: received_def)
  from attended_static [OF t r w g] serve_at_prepare [OF n this] show ?thesis by metis
qed

end
