(* ===== verification/Memory_Reply.thy ===== *)
theory Memory_Reply
  imports Static_Attend
begin

text \<open>
  Answers the body of which is in memory: the text of an error, or what an endpoint has
  written. \<open>outcome\<close> gives their bytes; a client that is ready to have its response prepared
  sends just them, over a socket that makes it wait wherever it wants.
\<close>

section \<open>The bytes\<close>

definition body_bytes :: "kitserv_client \<Rightarrow> string" where
  "body_bytes c = (if status_is_error (resp_status (ta c)) then error_body c else contents (resp_body c))"

definition head_lines :: "kitserv_client \<Rightarrow> string" where
  "head_lines c = (if status_is_error (resp_status (ta c)) then error_allow c @ ''content-type: text/plain'' @ CRLF else hdr_content c)"

definition outcome :: "kitserv_client \<Rightarrow> string" where
  "outcome c = start_line c @ head_lines c @ closing_headers (int (length (body_bytes c))) @
     (if req_method (ta c) = HTTP_HEAD then [] else body_bytes c)"

definition in_memory :: "kitserv_client \<Rightarrow> bool" where
  "in_memory c \<longleftrightarrow> memory_ok c \<and> error_ready c \<and> resp_fd (ta c) = 0 \<and> resp_body_pos (ta c) = 0 \<and>
     \<not> preserve_headers_on_error (ta c) \<and> resp_status (ta c) \<noteq> HTTP_X_HANGUP \<and>
     length (hdr_content c) \<le> 1000 \<and> length (contents (resp_body c)) \<le> HTTP_BUFSZ"

lemma in_memory_state [simp]: "in_memory (set_state s c) = in_memory c"
  by (simp add: in_memory_def memory_ok_def hdr_ok_def body_ok_def error_ready_def hdr_content_def)

lemma outcome_state [simp]: "outcome (set_state s c) = outcome c"
proof -
  have "error_path (set_state s c) = error_path c" by (simp add: error_path_def split: option.split)
  then show ?thesis
    by (simp add: outcome_def body_bytes_def head_lines_def start_line_def error_allow_def error_body_def hdr_content_def)
qed

text \<open>The length that is announced is that of the bytes.\<close>

lemma contents_length: "buffer_ok b \<Longrightarrow> int (length (contents b)) = b_len b"
  by (auto simp: buffer_ok_def contents_def)

lemma memory_length: "in_memory c \<Longrightarrow> response_length c = int (length (contents (resp_body c)))"
  by (simp add: in_memory_def memory_ok_def body_ok_def response_length_def contents_length)

text \<open>A response without a file, whatever its status, is prepared as \<open>outcome\<close> says.\<close>

lemma memory_success:
  assumes m: "in_memory c" and s: "\<not> status_is_error (resp_status (ta c))"
  obtains c2 sl hd bd where "kitserv_http_prepare_response env c w = Some (0, c2, w)" "sendable c2 sl hd bd"
    "sl @ hd @ bd = outcome c" "resp_fd (ta c2) = 0" "resp_status (ta c2) = resp_status (ta c)"
proof -
  have w: "w\<lparr>os_errno := os_errno w\<rparr> = w" by simp
  have ok: "hdr_ok c" and b: "buffer_ok (resp_body c)" and k: "resp_fd (ta c) = 0" "resp_body_pos (ta c) = 0" "resp_status (ta c) \<noteq> HTTP_X_HANGUP"
    "resp_buf2 (ta c) = zero_iovec"
    using m by (simp_all add: in_memory_def memory_ok_def body_ok_def)
  let ?n = "int (length (contents (resp_body c)))"
  have n: "\<bar>?n\<bar> < 2 ^ 63" "length (hdr_content c) \<le> 1000" using m by (simp_all add: in_memory_def HTTP_BUFSZ_def)
  have "length (closing_headers (response_length c)) < hdr_room c"
    using dec_int_short [OF n(1)] n(2) unfolding memory_length [OF m]
    by (simp add: hdr_room_content [OF ok] closing_headers_def SERVER_NAME_def HTTP_BUFSZ_def)
  with ok obtain x i y j where p: "prepare_success c (os_errno w) = Some (True, set_bases (hdr_set (start_set c x i) y j), os_errno w)"
      "i = length (start_line c)" "take i x = start_line c"
      "j \<le> length y" "j \<le> HTTP_BUFSZ" "take j y = hdr_content c @ closing_headers ?n"
    unfolding memory_length [OF m, symmetric] by (cases rule: prepare_success_cases [where e = "os_errno w"]) auto
  let ?c = "set_bases (hdr_set (start_set c x i) y j)"
  let ?bd = "if req_method (ta c) = HTTP_HEAD then [] else contents (resp_body c)"
  have sz: "size_t_of (b_len (resp_body c)) = nat (b_len (resp_body c))" "nat (b_len (resp_body c)) \<le> length (b_buf (resp_body c))"
    using b by (auto simp: size_t_of_def buffer_ok_def)
  have "sendable ?c (start_line c) (hdr_content c @ closing_headers ?n) ?bd"
    using p k sz take_length_le [OF p(3)]
    by (auto simp: sendable_def set_bases_def Let_def hdr_content_def zero_iovec_def contents_def)
  moreover have "kitserv_http_prepare_response env c w = Some (0, ?c, w)"
    using s k(3) p(1) by (simp add: kitserv_http_prepare_response_def w)
  moreover have "start_line c @ (hdr_content c @ closing_headers ?n) @ ?bd = outcome c"
    using s by (simp add: outcome_def body_bytes_def head_lines_def)
  moreover have "resp_fd (ta ?c) = 0" "resp_status (ta ?c) = resp_status (ta c)" using k(1) by (simp_all add: set_bases_def Let_def)
  ultimately show thesis using that by blast
qed

lemma memory_error:
  assumes m: "in_memory c" and s: "status_is_error (resp_status (ta c))"
  obtains c2 sl hd bd where "kitserv_http_prepare_response env c w = Some (0, c2, w)" "sendable c2 sl hd bd"
    "sl @ hd @ bd = outcome c" "resp_fd (ta c2) = 0" "resp_status (ta c2) = resp_status (ta c)"
proof -
  have k: "resp_fd (ta c) = 0" "\<not> preserve_headers_on_error (ta c)" "close_fd_to_zero c w = (c, w)"
    using m by (simp_all add: in_memory_def close_fd_to_zero_def)
  from error_response_kept [of c env w] m s k obtain c2 where
    c2: "kitserv_http_prepare_response env c w = Some (0, c2, w)"
    "sendable c2 (start_line c) (error_allow c @ ''content-type: text/plain'' @ CRLF @ closing_headers (int (length (error_body c))))
      (if no_body c then [] else error_body c)"
    "resp_fd (ta c2) = 0" "resp_status (ta c2) = resp_status (ta c)"
    by (auto simp: in_memory_def memory_ok_def body_ok_def error_ready_def)
  moreover have "start_line c @ (error_allow c @ ''content-type: text/plain'' @ CRLF @ closing_headers (int (length (error_body c)))) @
      (if no_body c then [] else error_body c) = outcome c"
    using s k(1) by (simp add: outcome_def body_bytes_def head_lines_def no_body_def)
  ultimately show thesis using that by blast
qed

text \<open>It is never longer than two of the buffers.\<close>

lemma outcome_fits: "in_memory c \<Longrightarrow> length (outcome c) \<le> 2 * HTTP_BUFSZ"
proof -
  assume m: "in_memory c"
  have "length (get_version_string (req_version (ta c))) \<le> 16" "length (get_status_string (resp_status (ta c))) \<le> 64"
    and t: "length (error_text (resp_status (ta c))) \<le> 64"
    by (cases "req_version (ta c)"; simp) (cases "resp_status (ta c)"; simp)+
  then have sl: "length (start_line c) \<le> 80" by (simp add: start_line_def)
  have "length (error_allow c) \<le> 64"
    by (cases "api_allow_flags (ta c) = 0") (auto simp: error_allow_def allow_list_def)
  then have hl: "length (head_lines c) \<le> 1000" using m by (auto simp: head_lines_def in_memory_def)
  have "length (error_body c) \<le> HTTP_BUFSZ"
    using t m by (auto simp: error_body_def error_path_def in_memory_def error_ready_def HTTP_BUFSZ_def)
  then have bl: "length (body_bytes c) \<le> HTTP_BUFSZ" using m by (simp add: body_bytes_def in_memory_def)
  then have "\<bar>int (length (body_bytes c))\<bar> < 2 ^ 63" by (simp add: HTTP_BUFSZ_def)
  from dec_int_short [OF this] sl hl bl show ?thesis
    by (simp add: outcome_def closing_headers_def SERVER_NAME_def HTTP_BUFSZ_def)
qed

lemma memory_prepared:
  assumes m: "in_memory c"
  obtains c2 sl hd bd where "kitserv_http_prepare_response env c w = Some (0, c2, w)" "sendable c2 sl hd bd"
    "sl @ hd @ bd = outcome c" "resp_fd (ta c2) = 0" "resp_status (ta c2) = resp_status (ta c)"
    "request_part c2 = request_part c" "body_ok c2"
proof -
  obtain c2 sl hd bd where c2: "kitserv_http_prepare_response env c w = Some (0, c2, w)" "sendable c2 sl hd bd"
    "sl @ hd @ bd = outcome c" "resp_fd (ta c2) = 0" "resp_status (ta c2) = resp_status (ta c)"
    using memory_success [OF m] memory_error [OF m] by metis
  have "memory_ok c" "error_ready c" "body_start_ok c"
    using m by (auto simp: in_memory_def body_start_ok_def memory_ok_def body_ok_def buffer_ok_def)
  then have "prep_post c w (0, c2, w)" using prepare_response_total [of c env w] c2(1) by auto
  with that c2 show thesis by (simp add: prep_post_def)
qed

section \<open>They go out\<close>

lemma memory_replied:
  assumes m: "in_memory c" and l: "log_path env c = Some path" and w: "taken_whole (length (outcome c)) (os_wr w) = Some es" "os_errno w \<noteq> EACCES"
    and p: "\<not> status_is_error (resp_status (ta c)) \<Longrightarrow> payload_ok c"
  shows "replied env content w (unread c) es (at_prepare env content c w)
    (outcome c, log_of env (resp_status (ta c)) path, \<not> status_is_error (resp_status (ta c)) \<and> req_version (ta c) = HTTP_1_1)"
proof -
  let ?c = "set_state HTTP_STATE_PREPARE_RESPONSE c" and ?e = "status_is_error (resp_status (ta c))"
  let ?l = "w\<lparr>os_log := os_log w @ log_of env (resp_status (ta c)) path\<rparr>"
  from m have "in_memory ?c" by simp
  then obtain c2 sl hd bd where c2: "kitserv_http_prepare_response env ?c w = Some (0, c2, w)" "sendable c2 sl hd bd"
    "sl @ hd @ bd = outcome c" "resp_fd (ta c2) = 0" "resp_status (ta c2) = resp_status (ta c)"
    "request_part c2 = request_part c" "body_ok c2"
    by (rule memory_prepared [of ?c env w]) (simp_all add: request_part_def)
  have st: "state (ta c2) = HTTP_STATE_SEND" using c2(2) by (simp add: sendable_def)
  define g where "g c = (req_path (ta c), req_headers c, req_version (ta c), req_payload (ta c), req_payload_pos (ta c), req_payload_len (ta c))"
    for c :: kitserv_client
  have "g (request_part c) = g c" for c by (simp add: g_def request_part_def)
  then have g: "g c2 = g c" using c2(6) by metis
  then have "log_path env c2 = Some path" using l by (auto simp: g_def log_path_def split: option.splits)
  then have "(if silent env then Some w else log_transaction env c2 w) = Some ?l"
    using c2(5) by (cases w) (simp add: log_transaction_def log_of_def)
  with c2(1) st have at: "at_prepare env content c w = at_send env content c2 ?l" by (simp add: at_prepare_def)
  have d: "taken_whole (length (sl @ hd @ bd)) (os_wr ?l) = Some es" using w(1) unfolding c2(3) by simp
  from attend_send [OF sendable_bytes [OF c2(2)] d st, of env content] obtain c3 w3 where
    c3: "after_round env content (at_send env content c2 ?l) = after_round env content (at_send_file env content c3 w3)"
    "state (ta c3) = HTTP_STATE_SEND_FILE" "out_frame c3 = out_frame c2" "sent (outcome c) ?l w3" "os_wr w3 = es" unfolding c2(3) by blast
  note f = out_frameD [OF c3(3)]
  note s = c3(4) [unfolded sent_def]
  show ?thesis
  proof (cases ?e)
    case True
    have "resp_fd (ta c3) \<le> 0" "status_is_error (resp_status (ta c3))" using f c2(4,5) True by simp_all
    note e = refusal_sent [OF this, of env content w3]
    show ?thesis unfolding replied_def
      using True at c3(1) e s by (auto intro!: exI [of _ "set_state HTTP_STATE_DONE c3"] exI [of _ w3])
  next
    case False
    have "payload_ok c3" "body_ok c3" using g f c2(7) p [OF False] by (simp_all add: g_def payload_ok_def)
    moreover have "kitserv_http_send_response_file content c3 w3 =
        (if req_version (ta c3) = HTTP_1_0 then -1 else 0, set_state HTTP_STATE_DONE c3, w3)"
      using f c2(4,5) False by (simp add: kitserv_http_send_response_file_def Let_def)
    moreover have "state (ta (set_state HTTP_STATE_DONE c3)) = HTTP_STATE_DONE" "file_frame (set_state HTTP_STATE_DONE c3) = file_frame c3"
      by (simp_all add: file_frame_def)
    ultimately obtain c4 where c4: "at_send_file env content c3 w3 =
        Some (if req_version (ta c3) = HTTP_1_1 then Again c4 w3 else Return (-1) c4 w3)"
      "req_version (ta c3) = HTTP_1_1 \<longrightarrow> ready c4 \<and> req_headers c4 = unread c3"
      using done_round [of content c3 w3] by blast
    have v: "req_version (ta c3) = req_version (ta c)" "unread c3 = unread c" using f g by (simp_all add: g_def unread_def)
    show ?thesis unfolding replied_def
      using False at c3(1,5) c4 s w(2) by (auto simp: v intro!: exI [of _ c4] exI [of _ w3])
  qed
qed

end
