(* ===== verification/Static_Session.thy ===== *)
theory Static_Session
  imports Memory_Reply Http_Recv_Window
begin

text \<open>
  What a server says on a connection, whatever the bytes that arrive. \<open>session_of\<close>
  reads the bytes as a sequence of requests and an ending: the connection is closed because
  nothing follows or what follows is not a whole request, or what follows has to be refused.
  \<open>session_with\<close> says what is sent and logged, given the reply to each request. A refused
  request is answered with the text of its status, without a search for a file.
\<close>

section \<open>The specification\<close>

function session_of :: "string \<Rightarrow> request list \<times> (http_status \<times> reading) option" where
  "session_of s =
     (case judge nothing_read (take HTTP_BUFSZ s) of
        Unfinished rd \<Rightarrow> ([], if length s < HTTP_BUFSZ then None else Some (HTTP_431_REQUEST_HEADER_FIELDS_TOO_LARGE, rd))
      | Refused st rd \<Rightarrow> ([], Some (st, rd))
      | Understood rq rest \<Rightarrow> (case session_of (rest @ drop HTTP_BUFSZ s) of (rqs, e) \<Rightarrow> (rq # rqs, e)))"
  by pat_completeness auto
termination
  by (relation "measure length") (auto dest!: judge_plain(2))

declare session_of.simps [simp del]

definition rejection :: "http_status \<Rightarrow> reading \<Rightarrow> string" where
  "rejection st rd = get_version_string (rd_version rd) @ get_status_string st @ ''content-type: text/plain'' @ CRLF @
     closing_headers (int (length (error_text st))) @ (if rd_method rd = HTTP_HEAD then [] else error_text st)"

definition rejection_line :: "env \<Rightarrow> http_status \<Rightarrow> reading \<Rightarrow> string list" where
  "rejection_line env st rd = log_of env st (case rd_path rd of None \<Rightarrow> null_text env | Some p \<Rightarrow> p)"

text \<open>Requests one behind the other, up to the first reply that ends the connection.\<close>

fun conversation :: "(request \<Rightarrow> reply) \<Rightarrow> request list \<Rightarrow> reply" where
  "conversation rp [] = ([], [], True)"
| "conversation rp (rq # rqs) =
     (case rp rq of
        (out, l, False) \<Rightarrow> (out, l, False)
      | (out, l, True) \<Rightarrow> (case conversation rp rqs of (out', l', open') \<Rightarrow> (out @ out', l @ l', open')))"

definition session_with :: "env \<Rightarrow> (request \<Rightarrow> reply) \<Rightarrow> string \<Rightarrow> string \<times> string list" where
  "session_with env rp s =
     (case session_of s of (rqs, e) \<Rightarrow>
        (case conversation rp rqs of (out, l, open') \<Rightarrow>
           (case (if open' then e else None) of
              None \<Rightarrow> (out, l)
            | Some (st, rd) \<Rightarrow> (out @ rejection st rd, l @ rejection_line env st rd))))"

text \<open>
  What goes out for the bytes \<open>s\<close>: for each answer the length of its head (\<open>hl\<close>), and of the
  file behind it. \<open>takes_heads\<close> says that a socket takes each head in one piece and each file
  in any pieces; it may be not ready at any moment.
\<close>

fun goes_out :: "(request \<Rightarrow> reply) \<Rightarrow> (request \<Rightarrow> nat) \<Rightarrow> request list \<Rightarrow> (http_status \<times> reading) option \<Rightarrow> (nat \<times> nat) list" where
  "goes_out rp hl [] e = (case e of None \<Rightarrow> [] | Some (st, rd) \<Rightarrow> [(length (rejection st rd), 0)])"
| "goes_out rp hl (rq # rqs) e =
     (case rp rq of (out, l, open') \<Rightarrow> (hl rq, length out - hl rq) # (if open' then goes_out rp hl rqs e else []))"

fun takes_all :: "(nat \<times> nat) list \<Rightarrow> wr_event list \<Rightarrow> bool" where
  "takes_all [] es \<longleftrightarrow> True"
| "takes_all ((h, n) # ps) es \<longleftrightarrow> (case gone_out h n es of None \<Rightarrow> False | Some es \<Rightarrow> takes_all ps es)"

definition takes_heads :: "(request \<Rightarrow> reply) \<Rightarrow> (request \<Rightarrow> nat) \<Rightarrow> string \<Rightarrow> wr_event list \<Rightarrow> bool" where
  "takes_heads rp hl s es \<longleftrightarrow> (case session_of s of (rqs, e) \<Rightarrow> takes_all (goes_out rp hl rqs e) es)"

text \<open>A static server: the answer to each request comes from the files.\<close>

definition session :: "env \<Rightarrow> (int \<Rightarrow> string) \<Rightarrow> string \<Rightarrow> string \<times> string list" where
  "session env content = session_with env (static_reply env content)"

lemma static_conversation:
  "conversation (static_reply env content) rqs =
     (fst (answers env content rqs), log_entries env content rqs, snd (answers env content rqs))"
  by (induction rqs) (auto simp: static_reply_def split: prod.splits bool.splits)

text \<open>What is refused, and with what.\<close>

lemma judge_fields_refused: "judge_fields rq s = Refused st rd \<Longrightarrow> st = HTTP_400_BAD_REQUEST"
proof (induction rq s rule: judge_fields.induct)
  case (1 rq s)
  note step = "1.prems" [unfolded judge_fields.simps [of rq s]]
  obtain line s1 where s: "split_at CR s = Some (line, s1)" using step by (auto split: option.splits)
  show ?case
  proof (cases line)
    case Nil
    with s step show ?thesis by (auto split: list.splits if_splits)
  next
    case (Cons l ls)
    show ?thesis
    proof (cases "judge_field (l # ls)")
      case None
      with s Cons step show ?thesis by simp
    next
      case (Some f)
      with s Cons step "1.IH" [OF s refl Cons Some] show ?thesis by (auto split: list.splits if_splits)
    qed
  qed
qed

lemma judge_refused:
  assumes "judge rd s = Refused st rd'"
  shows "st \<in> {HTTP_400_BAD_REQUEST, HTTP_501_NOT_IMPLEMENTED, HTTP_505_VERSION_NOT_SUPPORTED}"
  using assms judge_fields_refused
  by (auto simp: judge_def judge_target_def judge_version_def Let_def split: option.splits if_splits prod.splits list.splits)

section \<open>A refused request is answered\<close>

definition refused :: "http_status \<Rightarrow> reading \<Rightarrow> kitserv_client \<Rightarrow> bool" where
  "refused st rd c \<longleftrightarrow> resp_status (ta c) = st \<and> idle (no_status c) \<and> \<not> preserve_headers_on_error (ta c) \<and>
     hdr_content c = [] \<and> resp_body_pos (ta c) = 0 \<and> b_len (resp_body c) = 0 \<and> path_seen c \<and> shows_reading c rd"

lemma refused_in_memory:
  assumes r: "refused st rd c" and st: "st \<in> recv_failures" "st \<noteq> HTTP_X_HANGUP"
  shows "in_memory c" "outcome c = rejection st rd"
    "log_path env c = Some (case rd_path rd of None \<Rightarrow> null_text env | Some p \<Rightarrow> p)"
proof -
  have e: "status_is_error st" "st \<noteq> HTTP_405_METHOD_NOT_ALLOWED" "st \<noteq> HTTP_404_NOT_FOUND"
    using st by (auto simp: recv_failures_def status_is_error_def)
  show "in_memory c" using r e st(2)
    by (auto simp: refused_def idle_def no_status_def in_memory_def memory_ok_def body_ok_def hdr_ok_def error_ready_def contents_def)
  show "outcome c = rejection st rd"
    using r e by (simp add: refused_def shows_reading_def outcome_def body_bytes_def head_lines_def rejection_def start_line_def
        error_body_def error_allow_def)
  show "log_path env c = Some (case rd_path rd of None \<Rightarrow> null_text env | Some p \<Rightarrow> p)"
    using r by (auto simp: log_path_def refused_def shows_reading_def path_seen_def string_at_def split: option.splits)
qed

lemma rejection_replied:
  assumes r: "refused st rd c" and st: "st \<in> recv_failures" "st \<noteq> HTTP_X_HANGUP" 
    and w: "taken_whole (length (rejection st rd)) (os_wr w) = Some es" "os_errno w \<noteq> EACCES"
  shows "replied env content w rest es (at_prepare env content c w) (rejection st rd, rejection_line env st rd, False)"
proof -
  have "status_is_error (resp_status (ta c))" "resp_status (ta c) = st"
    using r st by (auto simp: refused_def recv_failures_def status_is_error_def)
  moreover have "taken_whole (length (outcome c)) (os_wr w) = Some es" using w(1) refused_in_memory(2) [OF r st] by simp
  ultimately show ?thesis
    using memory_replied [OF refused_in_memory(1,3) [OF r st] _ w(2), of es env content] refused_in_memory(2) [OF r st]
    by (simp add: rejection_line_def replied_def)
qed

section \<open>Receiving whatever comes\<close>

fun taken :: "judgement \<Rightarrow> nat \<Rightarrow> string \<Rightarrow> int \<times> kitserv_client \<times> os \<Rightarrow> bool" where
  "taken (Understood rq rest) n behind (rc, c, w) \<longleftrightarrow>
     rc = 0 \<and> (\<exists>rest1. received rq rest1 c \<and> rest1 @ data_of (os_in w) = rest @ behind)"
| "taken (Refused st rd) n behind (rc, c, w) \<longleftrightarrow> rc = -1 \<and> refused st rd c"
| "taken (Unfinished rd) n behind (rc, c, w) \<longleftrightarrow> rc = -1 \<and>
     refused (if n < HTTP_BUFSZ then HTTP_X_HANGUP else HTTP_431_REQUEST_HEADER_FIELDS_TOO_LARGE) rd c"

lemma refused_reading:
  assumes "recv_post c (-1, c', w')" "ready c" "shows_reading c' rd" "resp_status (ta c') = st"
  shows "refused st rd c'"
proof -
  have p: "resp_part (no_status c') = resp_part (no_status c)" "path_seen c'" using assms(1) by auto
  have "no_status c = c" using assms(2) by (cases c) (simp add: ready_def no_status_def zero_ta_def)
  with p(1) have "resp_part (no_status c') = resp_part c" by simp
  from resp_part_ready [OF this assms(2)] p(2) assms(3,4) show ?thesis
    by (simp add: refused_def no_status_def hdr_content_def)
qed

lemma received_request:
  assumes "received_as (Understood rq rest) n (rc, c', w')" "recv_post c (rc, c', w')" "ready c" "plain_request rq"
  shows "received rq (drop (req_payload (ta c')) (req_headers c')) c'"
proof -
  have r: "rc = 0" "state (ta c') = HTTP_STATE_SERVE" "understood c' = meaning rq"
    "range_requested (ta c') = (last_field ''range'' (rq_fields rq) \<noteq> None)" using assms(1) by simp_all
  then have p: "request_ready c'" "resp_part c' = resp_part c" using assms(2) by auto
  note k = resp_part_ready [OF p(2) assms(3)]
  have "valid_method (rq_method rq)" using assms(4) by (simp add: plain_request_def)
  with k r p(1) request_static_ready(1) [OF k(1) p(1)] show ?thesis by (simp add: received_def asked_def)
qed

lemma receive_fitting:
  assumes c: "ready c" and q: "\<forall>ev \<in> set (os_in w). quiet ev" "os_in w \<noteq> []"
    and s: "req_headers c @ data_of (os_in w) = s" "length s \<le> HTTP_BUFSZ"
  shows "\<exists>res. recv_all c w = Some res \<and> taken (judge nothing_read s) (length s) [] res"
proof -
  note i = ready_idle [OF c]
  have ok: "recv_ok c" using i(2,6,7) by (simp add: recv_ok_def)
  have z: "req_method (ta c) = rd_method nothing_read" "req_version (ta c) = rd_version nothing_read" "rd_path nothing_read = None"
    using c by (simp_all add: ready_def zero_ta_def nothing_read_def)
  from receive_judged [OF ok i(4,5,3) q s z] obtain rc c' w' where r:
    "recv_all c w = Some (rc, c', w')" "recv_post c (rc, c', w')" "received_as (judge nothing_read s) (length s) (rc, c', w')" by auto
  have "taken (judge nothing_read s) (length s) [] (rc, c', w')"
  proof (cases "judge nothing_read s")
    case (Understood rq rest)
    with received_request [OF _ r(2) c judge_plain(1) [OF Understood]] r(3) show ?thesis by auto
  next
    case (Refused st rd)
    with r(2,3) refused_reading [OF _ c] show ?thesis by auto
  next
    case (Unfinished rd)
    with r(3) have f: "rc = -1" "shows_reading c' rd"
      "resp_status (ta c') = (if length s < HTTP_BUFSZ then HTTP_X_HANGUP else HTTP_431_REQUEST_HEADER_FIELDS_TOO_LARGE)" by auto
    from refused_reading [OF r(2) [unfolded f(1)] c f(2,3)] f(1) Unfinished show ?thesis by simp
  qed
  with r(1) show ?thesis by blast
qed

text \<open>Only what there is room for is looked at; what comes behind it may be of any length.\<close>

lemma receive_any:
  assumes c: "ready c" and q: "\<forall>ev \<in> set (os_in w). quiet ev" "os_in w \<noteq> []" and room: "length (req_headers c) < HTTP_BUFSZ"
    and s: "req_headers c @ data_of (os_in w) = s"
  shows "\<exists>res. recv_all c w = Some res \<and> taken (judge nothing_read (take HTTP_BUFSZ s)) (length s) (drop HTTP_BUFSZ s) res"
proof -
  let ?n = "HTTP_BUFSZ - length (req_headers c)" and ?v = "window c w" and ?s = "take HTTP_BUFSZ s"
  note i = ready_idle [OF c]
  have ok: "recv_ok c" using i(2,6,7) by (simp add: recv_ok_def)
  have d: "data_of (os_in ?v) = take ?n (data_of (os_in w))" using data_of_cut [OF q(1)] by (simp add: window_def)
  have m: "req_headers c @ data_of (os_in ?v) = ?s" using d room s by auto
  have q': "\<forall>ev \<in> set (os_in ?v). quiet ev" "os_in ?v \<noteq> []"
    using cut_quiet [OF q(1)] cut_Nil [of ?n "os_in w"] q(2) room by (auto simp: window_def)
  from receive_fitting [OF c q' m] obtain rc c1 v1 where
    r: "recv_all c ?v = Some (rc, c1, v1)" "taken (judge nothing_read ?s) (length ?s) [] (rc, c1, v1)" by auto
  obtain rc' c2 w1 where all: "recv_all c w = Some (rc', c2, w1)" using recv_all_post [OF ok i(4), of w] by auto
  from recv_all_window [OF ok i(4) all] r(1) have e: "rc' = rc" "c2 = c1" "v1 = window c1 w1" "moved c w c1 w1" by simp_all
  from recv_all_window [OF ok i(4) r(1)] have mv: "moved c ?v c1 v1" by simp
  from e(4) mv obtain x y where x: "data_of (os_in w) = x @ data_of (os_in w1)" and y: "data_of (os_in ?v) = y @ data_of (os_in v1)"
    and xy: "length x = length y" by (auto simp: moved_def)
  have "take (length x) (data_of (os_in ?v)) = take (length x) (data_of (os_in w))"
  proof -
    have "length y \<le> ?n" using arg_cong [OF y, of length] by (simp add: d min_def split: if_splits)
    then show ?thesis unfolding d xy by simp
  qed
  then have "x = y" using x y xy by simp
  have "?s @ drop HTTP_BUFSZ s = (req_headers c @ x) @ data_of (os_in w1)" using s x by simp
  moreover have "?s = (req_headers c @ x) @ data_of (os_in v1)" using m y \<open>x = y\<close> by simp
  ultimately have more: "data_of (os_in v1) @ drop HTTP_BUFSZ s = data_of (os_in w1)" by simp
  have "taken (judge nothing_read ?s) (length s) (drop HTTP_BUFSZ s) (rc, c1, w1)"
    using r(2) more by (cases "judge nothing_read ?s") (auto simp: min_def split: if_splits)
  with all e(1,2) show ?thesis by blast
qed

end
