(* ===== verification/Static_Stream.thy ===== *)
theory Static_Stream
  imports Static_Session
begin

text \<open>
  Serving a connection to its end. \<open>attend\<close> is what a worker does with a client: it calls
  \<open>kitserv_http_serve_client\<close> again at every event until it is told to close. However the
  peer's bytes are cut into pieces, requests split or glued together, with pauses anywhere,
  and whatever they are, the answers are those of the specification.
\<close>

section \<open>What receiving takes from the script\<close>

text \<open>The moments at the end of a script at which there is nothing to read.\<close>

definition idle_tail :: "rd_event list \<Rightarrow> nat" where
  "idle_tail evs = length (takeWhile (\<lambda>ev. ev = Block) (rev evs))"

text \<open>
  The peer leaves its side open until \<open>n\<close> requests have been answered: at the end there is
  nothing to read at least once for each of them, and once more. (If it shuts down its side
  before, the server drops what it has not answered yet, \<open>half_close_drops_requests\<close>.)
\<close>

definition stays_open :: "rd_event list \<Rightarrow> nat \<Rightarrow> bool" where
  "stays_open evs n \<longleftrightarrow> n < idle_tail evs"

definition delivers :: "rd_event list \<Rightarrow> bool" where
  "delivers evs \<longleftrightarrow> (\<exists>ev \<in> set evs. ev \<noteq> Block)"

lemma idle_tail_Cons:
  "idle_tail (ev # evs) = (if ev = Block \<and> \<not> delivers evs then Suc (idle_tail evs) else idle_tail evs)"
proof (cases "delivers evs")
  case True
  then show ?thesis by (auto simp: idle_tail_def delivers_def takeWhile_append)
next
  case False
  then have "\<forall>x \<in> set (rev evs). x = Block" by (auto simp: delivers_def)
  then have "length (takeWhile (\<lambda>ev. ev = Block) (rev evs)) = length evs"
    by (subst takeWhile_eq_all_conv [THEN iffD2]) simp_all
  with False show ?thesis by (auto simp: idle_tail_def delivers_def takeWhile_append)
qed

lemma delivers_Cons: "delivers (ev # evs) \<longleftrightarrow> ev \<noteq> Block \<or> delivers evs"
  by (auto simp: delivers_def)

lemma sock_read_tail:
  "sock_read n evs = (Inr (b # bs), evs') \<Longrightarrow> delivers evs \<and> idle_tail evs' = idle_tail evs"
proof (induction n evs rule: sock_read.induct)
  case (2 n x evs)
  consider "n = 0" | "n \<noteq> 0" "x = []" | "n \<noteq> 0" "x \<noteq> []" "length x \<le> n" | "n \<noteq> 0" "x \<noteq> []" "n < length x" by linarith
  then show ?case
  proof cases
    case 2
    with "2.IH" "2.prems" show ?thesis by (simp add: idle_tail_Cons delivers_Cons)
  qed (use "2.prems" in \<open>auto simp: idle_tail_Cons delivers_Cons\<close>)
qed (auto split: if_splits)

definition os_kept :: "os \<Rightarrow> os \<Rightarrow> bool" where
  "os_kept w w' \<longleftrightarrow> os_wr w' = os_wr w \<and> os_out w' = os_out w \<and> os_fds w' = os_fds w \<and> os_log w' = os_log w \<and>
     (os_errno w \<noteq> EACCES \<longrightarrow> os_errno w' \<noteq> EACCES) \<and> (\<forall>ev \<in> set (os_in w'). quiet ev)"

text \<open>One round of the receiving loop either ends it or goes on at the end of the input.\<close>

lemma run_all_Go:
  assumes go: "recv_fill c p r w = (Go c2, w2)" "loop_ok c2 p r" "state (ta c2) = HTTP_STATE_READ"
    and run: "run_all c p r w = Some (rc, c', w')"
  obtains (stop) "w' = w2" | (more) c3 p' r' where "loop_ok c3 (Some p') (Some r')" "state (ta c3) = HTTP_STATE_READ"
    "ptr_past_end c3 (Some r')" "run_all c3 (Some p') (Some r') w2 = Some (rc, c', w')"
proof -
  note step = recv_loop.simps [of c p r w]
  from go(2) show thesis
  proof (cases rule: parse_from_out)
    case (wait pc c3 p' r')
    have "state (ta (set_parse_state pc c3)) = HTTP_STATE_READ" using frame_of_state [OF wait(3)] go(3) by simp
    moreover have "ptr_past_end (set_parse_state pc c3) (Some r')"
      using parse_from_Wait [OF wait(1)] by (simp add: ptr_past_end_def past_end_def)
    moreover have "run_all (set_parse_state pc c3) (Some p') (Some r') w2 = Some (rc, c', w')"
      using run go(1) wait(1) by (simp add: run_all_def step)
    ultimately show thesis using wait(2) more by blast
  next
    case (failed c3)
    with run go(1) stop show thesis by (simp add: run_all_def step)
  next
    case (finished c3 q)
    with run go(1) stop show thesis by (simp add: run_all_def step finish_request_def)
  qed
qed

lemma run_all_events:
  assumes "loop_ok c p r" "state (ta c) = HTTP_STATE_READ" "\<forall>ev \<in> set (os_in w). quiet ev" "run_all c p r w = Some (rc, c', w')"
  shows "os_kept w w' \<and> (rc = 0 \<longrightarrow> idle_tail (os_in w) \<le> Suc (idle_tail (os_in w')) \<and>
    (ptr_past_end c r \<longrightarrow> delivers (os_in w) \<and> idle_tail (os_in w') = idle_tail (os_in w)))"
  using assms
proof (induction "2 * in_size w + (if ptr_past_end c r then 0 else 1)" arbitrary: c p r w rule: less_induct)
  case less
  let ?k = "HTTP_BUFSZ - length (req_headers c)"
  note step = recv_loop.simps [of c p r w]
  have self: "os_kept w w" using less.prems(3) by (simp add: os_kept_def)
  have on: ?case if fill: "recv_fill c p r w = (Go c2, w2)" "loop_ok c2 p r" "state (ta c2) = HTTP_STATE_READ"
    and kept: "os_kept w w2" and sz: "2 * in_size w2 < 2 * in_size w + (if ptr_past_end c r then 0 else 1)"
    and tail: "idle_tail (os_in w) \<le> Suc (idle_tail (os_in w2))"
    and past: "ptr_past_end c r \<Longrightarrow> delivers (os_in w) \<and> idle_tail (os_in w2) = idle_tail (os_in w)" for c2 w2
    using fill less.prems(4)
  proof (cases rule: run_all_Go)
    case stop
    with kept tail past show ?thesis by simp
  next
    case (more c3 p' r')
    have q: "\<forall>ev \<in> set (os_in w2). quiet ev" using kept by (simp add: os_kept_def)
    have "os_kept w2 w' \<and> (rc = 0 \<longrightarrow> idle_tail (os_in w2) \<le> Suc (idle_tail (os_in w')) \<and>
        (ptr_past_end c3 (Some r') \<longrightarrow> delivers (os_in w2) \<and> idle_tail (os_in w') = idle_tail (os_in w2)))"
      by (rule less.hyps [OF _ more(1,2) q more(4)]) (use sz more(3) in simp)
    with more(3) kept tail past show ?thesis by (auto simp: os_kept_def)
  qed
  show ?case
  proof (cases "?k = 0")
    case True
    have sr: "sock_read ?k (os_in w) = (Inr [], os_in w)" unfolding True by (rule sock_read_full)
    have w: "w\<lparr>os_in := os_in w\<rparr> = w" by simp
    show ?thesis
    proof (cases "ptr_past_end c r")
      case past: True
      with sr True less.prems(4) self show ?thesis by (auto simp: run_all_def step recv_fill_def w)
    next
      case False
      with sr True have "recv_fill c p r w = (Go c, w)" by (simp add: recv_fill_def w)
      from on [OF this less.prems(1,2) self] False show ?thesis by simp
    qed
  next
    case False
    then have k: "0 < ?k" by simp
    from less.prems(3) k show ?thesis
    proof (cases rule: sock_read_quiet)
      case eof
      with k have "run_all c p r w = Some (-1, set_status HTTP_X_HANGUP c, w\<lparr>os_in := []\<rparr>)"
        by (simp add: run_all_def step recv_fill_def)
      with less.prems(4) eof show ?thesis by (auto simp: os_kept_def)
    next
      case (block evs')
      let ?w = "w\<lparr>os_in := evs', os_errno := EAGAIN\<rparr>"
      have sz: "in_size ?w < in_size w" using block by (simp add: in_size_def)
      have kept: "os_kept w ?w" using less.prems(3) block(1) by (simp add: os_kept_def)
      show ?thesis
      proof (cases "ptr_past_end c r")
        case True
        let ?c = "c\<lparr>ta := (ta c)\<lparr>req_parse_blk := p, req_parse_iter := r\<rparr>\<rparr>"
        have run: "run_all ?c p r ?w = Some (rc, c', w')"
          using True block less.prems(2,4) by (simp add: run_all_def step recv_fill_def recv_all_run_all [of ?c])
        have past: "ptr_past_end ?c r" using True by (auto simp: ptr_past_end_def past_end_def split: option.splits)
        have "loop_ok ?c p r" using less.prems(1) by (auto simp: loop_ok_def split: if_splits)
        moreover have "state (ta ?c) = HTTP_STATE_READ" using less.prems(2) by simp
        moreover have "\<forall>ev \<in> set (os_in ?w). quiet ev" using less.prems(3) block(1) by simp
        ultimately have "os_kept ?w w' \<and> (rc = 0 \<longrightarrow> idle_tail (os_in ?w) \<le> Suc (idle_tail (os_in w')) \<and>
            (ptr_past_end ?c r \<longrightarrow> delivers (os_in ?w) \<and> idle_tail (os_in w') = idle_tail (os_in ?w)))"
          by (intro less.hyps [OF _ _ _ _ run]) (use sz past in simp)
        with past kept block(1) show ?thesis by (auto simp: os_kept_def idle_tail_Cons delivers_Cons)
      next
        case past: False
        with block have "recv_fill c p r w = (Go c, ?w)" by (simp add: recv_fill_def)
        from on [OF this less.prems(1,2) kept] sz past block(1) show ?thesis by (simp add: idle_tail_Cons)
      qed
    next
      case (bytes bs evs')
      let ?w = "w\<lparr>os_in := evs'\<rparr>"
      have sz: "in_size ?w < in_size w" using bytes(1,2) by (auto intro: in_size_read)
      have go: "recv_fill c p r w = (Go (grow_c c bs), ?w)" using bytes(1,2) by (cases bs) (simp_all add: recv_fill_def)
      have ok: "loop_ok (grow_c c bs) p r" using bytes less.prems(1) k by (intro loop_ok_grow) auto
      have kept: "os_kept w ?w" using bytes(5) by (simp add: os_kept_def)
      have tl: "delivers (os_in w) \<and> idle_tail evs' = idle_tail (os_in w)"
        using bytes(1,2) sock_read_tail [of ?k "os_in w" _ _ evs'] by (cases bs) auto
      from on [OF go ok _ kept] sz tl less.prems(2) show ?thesis by simp
    qed
  qed
qed

section \<open>Attending a client that sends\<close>

text \<open>However many calls the reception of a request takes, attending goes on with its outcome.\<close>

lemma attend_received:
  "recv_all c w = Some (rc, c1, w1) \<Longrightarrow> state (ta c) = HTTP_STATE_READ \<Longrightarrow>
   (rc = 0 \<Longrightarrow> rd = at_serve env content c1 w1) \<Longrightarrow>
   (rc \<noteq> 0 \<Longrightarrow> rd = (if resp_status (ta c1) = HTTP_X_HANGUP then Some (Return (-1) c1 w1) else at_prepare env content c1 w1)) \<Longrightarrow>
   attend env content c w = after_round env content rd"
proof (induction c w rule: recv_all.induct)
  case (1 c w)
  obtain rc0 c0 w0 where k: "kitserv_http_recv_request c w = Some (rc0, c0, w0)"
    using "1.prems"(1) by (auto simp: recv_all.simps [of c w] split: option.splits)
  show ?case
  proof (cases "rc0 = 0 \<and> state (ta c0) = HTTP_STATE_READ")
    case True
    have "recv_all c0 w0 = Some (rc, c1, w1)" using "1.prems"(1) k True by (simp add: recv_all.simps [of c w])
    from "1.IH" [OF k refl refl True this conjunct2 [OF True] "1.prems"(3,4)]
    have "attend env content c0 w0 = after_round env content rd" by blast
    moreover have "serve_round env content c w = Some (Return 0 c0 w0)"
      using "1.prems"(2) k True by (simp add: serve_round_def at_read_def)
    ultimately show ?thesis by (simp add: attend_round [of env content c w])
  next
    case False
    then have "rc0 = rc" "c0 = c1" "w0 = w1" using "1.prems"(1) k by (auto simp: recv_all.simps [of c w])
    with False k "1.prems"(2-4) have "serve_round env content c w = rd"
      by (cases "rc = 0") (simp_all add: serve_round_def at_read_def)
    then show ?thesis by (simp add: attend_round [of env content c w])
  qed
qed

section \<open>A whole connection\<close>

lemma session_cases:
  "judge nothing_read (take HTTP_BUFSZ s) = Understood rq rest \<Longrightarrow>
     session_of s = (rq # fst (session_of (rest @ drop HTTP_BUFSZ s)), snd (session_of (rest @ drop HTTP_BUFSZ s)))"
  "judge nothing_read (take HTTP_BUFSZ s) = Refused st rd \<Longrightarrow> session_of s = ([], Some (st, rd))"
  "judge nothing_read (take HTTP_BUFSZ s) = Unfinished rd \<Longrightarrow> length s < HTTP_BUFSZ \<Longrightarrow> session_of s = ([], None)"
  "judge nothing_read (take HTTP_BUFSZ s) = Unfinished rd \<Longrightarrow> \<not> length s < HTTP_BUFSZ \<Longrightarrow>
     session_of s = ([], Some (HTTP_431_REQUEST_HEADER_FIELDS_TOO_LARGE, rd))"
  by (simp_all add: session_of.simps [of s] split: prod.split)

lemma session_understood:
  assumes "judge nothing_read (take HTTP_BUFSZ s) = Understood rq rest"
  shows "session_with env rp s = (case rp rq of
      (out, l, False) \<Rightarrow> (out, l)
    | (out, l, True) \<Rightarrow> (case session_with env rp (rest @ drop HTTP_BUFSZ s) of (out', l') \<Rightarrow> (out @ out', l @ l')))"
  using session_cases(1) [OF assms]
  by (auto simp: session_with_def split: prod.splits bool.splits option.splits)

lemma session_refused: "session_of s = ([], Some (st, rd)) \<Longrightarrow> session_with env rp s = (rejection st rd, rejection_line env st rd)"
  by (simp add: session_with_def)

lemma session_nothing: "session_of s = ([], None) \<Longrightarrow> session_with env rp s = ([], [])"
  by (simp add: session_with_def)

text \<open>What the socket has to take first.\<close>

lemma takes_understood:
  assumes "takes_heads rp hl s es" "judge nothing_read (take HTTP_BUFSZ s) = Understood rq rest" "rp rq = (out, l, open')"
  obtains es' where "gone_out (hl rq) (length out - hl rq) es = Some es'" "open' \<longrightarrow> takes_heads rp hl (rest @ drop HTTP_BUFSZ s) es'"
  using assms(1,3) session_cases(1) [OF assms(2)]
  by (auto simp: takes_heads_def case_prod_beta split: option.splits if_splits)

lemma takes_refused:
  assumes "takes_heads rp hl s es" "session_of s = ([], Some (st, rd))"
  obtains es' where "taken_whole (length (rejection st rd)) es = Some es'"
  using assms by (auto simp: takes_heads_def elim!: gone_outE split: option.splits)

text \<open>
  A server that gives the reply \<open>rp\<close>, with a head of the length \<open>hl\<close>, to every request that
  \<open>fits\<close>, from the moment it has been received, answers whole connections accordingly.
\<close>

locale answering =
  fixes env :: env and content :: "int \<Rightarrow> string" and fits :: "request \<Rightarrow> bool" and rp :: "request \<Rightarrow> reply"
    and hl :: "request \<Rightarrow> nat"
  assumes serves: "fits rq \<Longrightarrow> received rq rest c \<Longrightarrow> gone_out (hl rq) (length (fst (rp rq)) - hl rq) (os_wr w) = Some es \<Longrightarrow>
    os_errno w \<noteq> EACCES \<Longrightarrow> replied env content w rest es (at_serve env content c w) (rp rq)"
begin

lemma attend_session:
  "ready c \<Longrightarrow> \<forall>ev \<in> set (os_in w). quiet ev \<Longrightarrow> req_headers c @ data_of (os_in w) = s \<Longrightarrow>
    length (req_headers c) < HTTP_BUFSZ \<Longrightarrow> stays_open (os_in w) (length (fst (session_of s))) \<Longrightarrow>
    takes_heads rp hl s (os_wr w) \<Longrightarrow> os_errno w \<noteq> EACCES \<Longrightarrow> \<forall>rq \<in> set (fst (session_of s)). fits rq \<Longrightarrow>
    \<exists>c' w'. attend env content c w = Some (Some (-1, c', w')) \<and> os_out w' = os_out w @ fst (session_with env rp s) \<and>
      os_fds w' = os_fds w \<and> os_log w' = os_log w @ snd (session_with env rp s)"
proof (induction s arbitrary: c w rule: session_of.induct)
  case (1 s)
  let ?j = "judge nothing_read (take HTTP_BUFSZ s)"
  note i = ready_idle [OF "1.prems"(1)]
  have ne: "os_in w \<noteq> []" using "1.prems"(5) by (auto simp: stays_open_def idle_tail_def)
  from receive_any [OF "1.prems"(1,2) ne "1.prems"(4,3)] obtain rc c1 w1 where
    r: "recv_all c w = Some (rc, c1, w1)" "taken ?j (length s) (drop HTTP_BUFSZ s) (rc, c1, w1)" by auto
  have ev: "os_kept w w1 \<and> (rc = 0 \<longrightarrow> idle_tail (os_in w) \<le> Suc (idle_tail (os_in w1)))"
    using run_all_events [OF i(2,4) "1.prems"(2)] r(1) i(6,7) by (simp add: recv_all_run_all)
  then have w1: "takes_heads rp hl s (os_wr w1)" "os_errno w1 \<noteq> EACCES" "os_out w1 = os_out w" "os_fds w1 = os_fds w" "os_log w1 = os_log w"
    "\<forall>ev \<in> set (os_in w1). quiet ev" using "1.prems"(6,7) by (simp_all add: os_kept_def)
  have away: ?case if f: "rc = -1" "refused st rd c1" "st \<in> recv_failures" "st \<noteq> HTTP_X_HANGUP" "session_of s = ([], Some (st, rd))" for st rd
  proof -
    obtain es where e: "taken_whole (length (rejection st rd)) (os_wr w1) = Some es" by (rule takes_refused [OF w1(1) f(5)])
    have "resp_status (ta c1) \<noteq> HTTP_X_HANGUP" using f(2,4) by (simp add: refused_def)
    with attend_received [OF r(1) i(4), of "at_prepare env content c1 w1" env content] f(1)
      rejection_replied [OF f(2-4) e w1(2), of env content "[]"] w1 session_refused [OF f(5)]
    show ?thesis by (auto simp: replied_def)
  qed
  show ?case
  proof (cases ?j)
    case (Refused st rd)
    have "st \<in> recv_failures" "st \<noteq> HTTP_X_HANGUP" using judge_refused [OF Refused] by (auto simp: recv_failures_def)
    with away [of st rd] Refused r(2) session_cases(2) [OF Refused] show ?thesis by simp
  next
    case (Unfinished rd)
    show ?thesis
    proof (cases "length s < HTTP_BUFSZ")
      case False
      with away [of HTTP_431_REQUEST_HEADER_FIELDS_TOO_LARGE rd] Unfinished r(2) session_cases(4) [OF Unfinished]
      show ?thesis by (simp add: recv_failures_def)
    next
      case True
      with Unfinished r(2) have f: "rc = -1" "resp_status (ta c1) = HTTP_X_HANGUP" by (simp_all add: refused_def)
      with attend_received [OF r(1) i(4), of "Some (Return (-1) c1 w1)" env content] w1
        session_nothing [OF session_cases(3) [OF Unfinished True]] show ?thesis by simp
    qed
  next
    case (Understood rq rest)
    note sc = session_cases(1) [OF Understood]
    from Understood r(2) obtain rest1 where f: "rc = 0" "received rq rest1 c1" "rest1 @ data_of (os_in w1) = rest @ drop HTTP_BUFSZ s" by auto
    obtain out l open' where rp: "rp rq = (out, l, open')" by (cases "rp rq")
    obtain es where e: "gone_out (hl rq) (length out - hl rq) (os_wr w1) = Some es"
      "open' \<longrightarrow> takes_heads rp hl (rest @ drop HTTP_BUFSZ s) es" by (rule takes_understood [OF w1(1) Understood rp])
    have "fits rq" using "1.prems"(8) sc by simp
    from serves [OF this f(2) _ w1(2), of es] e(1) rp obtain c2 w2 where
      a: "after_round env content (at_serve env content c1 w1) =
         after_round env content (Some (if open' then Again c2 w2 else Return (-1) c2 w2))"
        "os_out w2 = os_out w1 @ out" "os_fds w2 = os_fds w1" "os_log w2 = os_log w1 @ l"
        "open' \<longrightarrow> ready c2 \<and> req_headers c2 = rest1 \<and> os_in w2 = os_in w1 \<and> os_wr w2 = es \<and> os_errno w2 \<noteq> EACCES"
      by (auto simp: replied_def)
    have at: "attend env content c w = after_round env content (Some (if open' then Again c2 w2 else Return (-1) c2 w2))"
      using attend_received [OF r(1) i(4) refl, of env content] a(1) f(1) by simp
    show ?thesis
    proof (cases open')
      case False
      with a at w1 session_understood [OF Understood, of env rp] rp show ?thesis by simp
    next
      case True
      with a(5) w1 have c2: "ready c2" "\<forall>ev \<in> set (os_in w2). quiet ev"
        "takes_heads rp hl (rest @ drop HTTP_BUFSZ s) (os_wr w2)" "os_errno w2 \<noteq> EACCES"
        "req_headers c2 @ data_of (os_in w2) = rest @ drop HTTP_BUFSZ s" using f(3) e(2) True by simp_all
      have "payload_ok c1" "rest1 = drop (req_payload (ta c1)) (req_headers c1)"
        using f(2) request_static_ready(2) [of c1] by (auto simp: received_def)
      then have l: "length (req_headers c2) < HTTP_BUFSZ" using a(5) True by (auto simp: payload_ok_def)
      have t: "stays_open (os_in w2) (length (fst (session_of (rest @ drop HTTP_BUFSZ s))))"
        using "1.prems"(5) ev f(1) a(5) True sc by (simp add: stays_open_def)
      have "\<forall>rq \<in> set (fst (session_of (rest @ drop HTTP_BUFSZ s))). fits rq" using "1.prems"(8) sc by simp
      from "1.IH" [OF Understood c2(1,2,5) l t c2(3,4) this] a at w1 True rp session_understood [OF Understood, of env rp] show ?thesis
        by (auto split: prod.splits)
    qed
  qed
qed

end

interpretation static: answering env content "\<lambda>rq. tidy env content" "static_reply env content" "static_head env" for env content
  by unfold_locales (rule attended_serve)

text \<open>Well-formed requests make a session of their own.\<close>

lemma window_rest: "length p \<le> n \<Longrightarrow> take (n - length p) r @ drop n (p @ r) = r"
  by simp

lemma session_printed:
  "list_all plain_request rqs \<Longrightarrow> list_all (\<lambda>rq. length (print_request rq) \<le> HTTP_BUFSZ) rqs \<Longrightarrow>
   session_of (concat (map print_request rqs) @ s) = (rqs @ fst (session_of s), snd (session_of s))"
proof (induction rqs)
  case (Cons rq rqs)
  let ?rest = "concat (map print_request rqs) @ s"
  have "take HTTP_BUFSZ (print_request rq @ ?rest) =
      print_request rq @ take (HTTP_BUFSZ - length (print_request rq)) ?rest" using Cons.prems by simp
  then have "judge nothing_read (take HTTP_BUFSZ (print_request rq @ ?rest)) =
      Understood rq (take (HTTP_BUFSZ - length (print_request rq)) ?rest)" using Cons.prems judge_printed by simp
  from session_cases(1) [OF this] have "session_of (print_request rq @ ?rest) = (rq # fst (session_of ?rest), snd (session_of ?rest))"
    using window_rest [of "print_request rq" HTTP_BUFSZ ?rest] Cons.prems(2) by (simp only: list.pred_inject)
  with Cons show ?case by simp
qed simp

section \<open>Properties\<close>


text \<open>Two requests that are answered, and then one with a method that is not known.\<close>

definition sample_bytes :: string where
  "sample_bytes = concat (map print_request sample_requests) @ ''BREW /pot HTTP/1.1'' @ CRLF"

lemma sample_session: "session_of sample_bytes = (sample_requests, Some (HTTP_501_NOT_IMPLEMENTED, nothing_read\<lparr>rd_method := HTTP_GET\<rparr>))"
proof -
  have "session_of (''BREW /pot HTTP/1.1'' @ CRLF) = ([], Some (HTTP_501_NOT_IMPLEMENTED, nothing_read\<lparr>rd_method := HTTP_GET\<rparr>))"
    by (rule session_cases(2)) (simp add: judge_def split_at_def method_named_def HTTP_BUFSZ_def)
  moreover have "list_all (\<lambda>rq. length (print_request rq) \<le> HTTP_BUFSZ) sample_requests"
    by (simp add: sample_requests_def print_request_def method_name_def query_part_def print_field_def HTTP_BUFSZ_def)
  ultimately show ?thesis
    using session_printed [OF sample_server(2), of "''BREW /pot HTTP/1.1'' @ CRLF"] by (simp add: sample_bytes_def)
qed

text \<open>What is planned for the example: a part of the file that is there, and an error.\<close>

lemma sample_plans:
  "plan small_site (hd sample_requests) = Deliver HTTP_206_PARTIAL_CONTENT
      (''content-range: bytes 2-4/10'' @ CRLF @ ''content-type: text/html'' @ CRLF @ ''accept-ranges: bytes'' @ CRLF @
       ''last-modified: Thu, 01 Jan 1970 00:00:05 GMT'' @ CRLF) 3 (Some (''/w//a.html'', 2, 4))"
  "plan small_site (last sample_requests) = Refuse HTTP_404_NOT_FOUND [] False"
  "target_path (last sample_requests) = ''/b''"
proof -
  have n2: "dec_nat 2 = ''2''" "dec_nat 4 = ''4''" by code_simp+
  have r: "range_spec ''bytes=2-4'' = Some (2, 4)" using range_spec_dec(2) [of 2 4] by (simp add: n2)
  have d: "dec_int 2 = ''2''" "dec_int 3 = ''3''" "dec_int 4 = ''4''" "dec_int 10 = ''10''" by code_simp+
  have l: "last_field ''range'' [(''Range'', ''bytes=2-4'')] = Some ''bytes=2-4''"
    "last_field ''if-modified-since'' [(''Range'', ''bytes=2-4'')] = None" by code_simp+
  have m: "guess_mime_type (strrchr_dot ''/w//a.html'') = ''text/html''" by code_simp
  show "plan small_site (hd sample_requests) = Deliver HTTP_206_PARTIAL_CONTENT
      (''content-range: bytes 2-4/10'' @ CRLF @ ''content-type: text/html'' @ CRLF @ ''accept-ranges: bytes'' @ CRLF @
       ''last-modified: Thu, 01 Jan 1970 00:00:05 GMT'' @ CRLF) 3 (Some (''/w//a.html'', 2, 4))"
    by (simp add: plan_def plan_file_def sample_requests_def small_site_def r d l m Let_def target_path_def url_decoded.simps candidates_def
        asked_span_def span_bounds_def range_line_def file_lines_def PATH_MAX_def)
  show "plan small_site (last sample_requests) = Refuse HTTP_404_NOT_FOUND [] False"
    by code_simp
  show "target_path (last sample_requests) = ''/b''" by (simp add: sample_requests_def target_path_def url_decoded.simps)
qed

text \<open>A socket that takes the first answer in three writes, the file in two of them.\<close>

definition sample_writes :: "wr_event list" where
  "sample_writes = [WBlock, Takes 500, WBlock, Takes 2, WBlock, Takes 1, WBlock]"

lemma sample_takes:
  "takes_all (goes_out (static_reply small_site sample_content) (static_head small_site) sample_requests e) sample_writes"
proof -
  let ?a = "hd sample_requests" and ?b = "last sample_requests"
  have d: "dec_int 3 = ''3''" by code_simp
  have v: "rq_version ?a = HTTP_1_1" by (simp add: sample_requests_def)
  have f: "file_part small_site sample_content (Some (''/w//a.html'', 2, 4)) = ''234''" by code_simp
  have h: "static_head small_site ?a = 190"
    by (simp add: static_head_def sample_plans delivery_head_def v d closing_headers_def SERVER_NAME_def)
  have a: "length (fst (static_reply small_site sample_content ?a)) = 193" "snd (snd (static_reply small_site sample_content ?a))"
    by (simp_all add: static_reply_def answer_def sample_plans f v d closing_headers_def SERVER_NAME_def)
  then obtain out l where r: "static_reply small_site sample_content ?a = (out, l, True)" "length out = 193"
    by (cases "static_reply small_site sample_content ?a") auto
  have b: "\<not> snd (snd (static_reply small_site sample_content ?b))" by (simp add: static_reply_def answer_def sample_plans)
  then obtain out' l' where r': "static_reply small_site sample_content ?b = (out', l', False)"
    by (cases "static_reply small_site sample_content ?b") auto
  have s: "sample_requests = [?a, ?b]" by (simp add: sample_requests_def)
  show ?thesis by (subst s) (simp add: r r' h gone_out_def sample_writes_def)
qed


text \<open>
  For well-formed requests, each of which fits into the buffer, the answers are those of
  the requests that were printed.
\<close>

theorem static_server_specification:
  assumes "tidy env content" "ready c" "req_headers c = []" "list_all plain_request rqs"
    and "\<forall>ev \<in> set (os_in w). quiet ev" "data_of (os_in w) = concat (map print_request rqs)"
    and "list_all (\<lambda>rq. length (print_request rq) \<le> HTTP_BUFSZ) rqs" "stays_open (os_in w) (length rqs)"
    and "takes_all (goes_out (static_reply env content) (static_head env) rqs None) (os_wr w)" "os_errno w \<noteq> EACCES"
  shows "\<exists>c' w'. attend env content c w = Some (Some (-1, c', w')) \<and>
    os_out w' = os_out w @ fst (answers env content rqs) \<and> os_fds w' = os_fds w \<and>
    os_log w' = os_log w @ log_entries env content rqs"
proof -
  have "session_of [] = ([], None)"
    by (rule session_cases(3)) (simp_all add: judge_def split_at_def HTTP_BUFSZ_def)
  with session_printed [OF assms(4,7), of "[]"] assms(6) have s: "session_of (data_of (os_in w)) = (rqs, None)" by simp
  then have "session env content (data_of (os_in w)) = (fst (answers env content rqs), log_entries env content rqs)"
    by (simp add: session_def session_with_def static_conversation)
  moreover have "takes_heads (static_reply env content) (static_head env) (data_of (os_in w)) (os_wr w)"
    using assms(9) s by (simp add: takes_heads_def)
  ultimately show ?thesis
    using static.attend_session [where env = env and content = content, OF assms(2,5) refl, unfolded assms(3)] s assms(1,8,10)
    by (simp add: session_def HTTP_BUFSZ_def)
qed

lemma static_server_specification_witness:
  defines "d \<equiv> concat (map print_request sample_requests)"
  defines "w \<equiv> quiet_os\<lparr>os_in := [Chunk (take 7 d), Block, Chunk (drop 7 d), Block, Block, Block],
    os_wr := sample_writes\<rparr>"
  shows "\<exists>c' w'. attend small_site sample_content fresh_client w = Some (Some (-1, c', w')) \<and>
    os_out w' = os_out w @ fst (answers small_site sample_content sample_requests) \<and> os_fds w' = os_fds w \<and>
    os_log w' = os_log w @ log_entries small_site sample_content sample_requests"
proof (rule static_server_specification [OF sample_server(1,3) _ sample_server(2)])
  show "req_headers fresh_client = []" by (rule fresh_client_simps)
  show "\<forall>ev \<in> set (os_in w). quiet ev" "list_all (\<lambda>rq. length (print_request rq) \<le> HTTP_BUFSZ) sample_requests"
    by (simp_all add: w_def d_def sample_requests_def print_request_def method_name_def query_part_def print_field_def HTTP_BUFSZ_def)
  show "data_of (os_in w) = concat (map print_request sample_requests)" "os_errno w \<noteq> EACCES"
    by (simp_all add: w_def d_def quiet_os_def)
  show "stays_open (os_in w) (length sample_requests)" by (simp add: w_def stays_open_def idle_tail_def sample_requests_def)
  show "takes_all (goes_out (static_reply small_site sample_content) (static_head small_site) sample_requests None) (os_wr w)"
    using sample_takes by (simp add: w_def)
qed

lemma sample_answers:
  "fst (answers small_site sample_content sample_requests) =
     ''HTTP/1.1 206 Partial Content'' @ CRLF @ ''content-range: bytes 2-4/10'' @ CRLF @ ''content-type: text/html'' @ CRLF @
     ''accept-ranges: bytes'' @ CRLF @ ''last-modified: Thu, 01 Jan 1970 00:00:05 GMT'' @ CRLF @
     ''content-length: 3'' @ CRLF @ ''server: kitserv'' @ CRLF @ CRLF @ ''234'' @
     ''HTTP/1.1 404 Not Found'' @ CRLF @ ''content-type: text/plain'' @ CRLF @ ''content-length: 13'' @ CRLF @
     ''server: kitserv'' @ CRLF @ CRLF @ ''Not found: /b''"
proof -
  have d: "dec_int 3 = ''3''" "dec_int 13 = ''13''" by code_simp+
  have n: "int (length (refusal_text (last sample_requests) HTTP_404_NOT_FOUND)) = 13" by code_simp
  have s: "sample_requests = [hd sample_requests, last sample_requests]" by (simp add: sample_requests_def)
  have f: "file_part small_site sample_content (Some (''/w//a.html'', 2, 4)) = ''234''" by code_simp
  have v: "rq_version (hd sample_requests) = HTTP_1_1" "rq_version (last sample_requests) = HTTP_1_1"
    "rq_method (last sample_requests) = HTTP_GET" by (simp_all add: sample_requests_def)
  show ?thesis by (subst s) (simp add: answer_def sample_plans v f n d closing_headers_def SERVER_NAME_def refusal_text_def)
qed

text \<open>
  The log of the example, and of a request whose path holds an encoded line feed: decoded, it
  is printed as it is, and the client has written a line of the log of its own.
\<close>

lemma sample_log:
  "log_entries small_site sample_content sample_requests = [''[206] /a'' @ [LF], ''[404] /b'' @ [LF]]"
proof -
  have d: "dec_int 206 = ''206''" "dec_int 404 = ''404''" by code_simp+
  have t: "target_path (hd sample_requests) = ''/a''" "rq_version (hd sample_requests) = HTTP_1_1" "\<not> silent small_site"
    by (simp_all add: sample_requests_def target_path_def url_decoded.simps small_site_def)
  have s: "sample_requests = [hd sample_requests, last sample_requests]" by (simp add: sample_requests_def)
  show ?thesis
    by (subst s) (simp add: log_entry_def log_of_def log_line_def planned_status_def answer_def sample_plans t d)
qed

definition forging_request :: request where
  "forging_request = \<lparr>rq_method = HTTP_GET, rq_target = ''/x%0a[200]%20/b'', rq_query = None, rq_version = HTTP_1_1, rq_fields = []\<rparr>"

lemma log_line_forged:
  "plain_request forging_request \<and> log_entry small_site forging_request = [''[404] /x'' @ [LF] @ ''[200] /b'' @ [LF]]"
proof
  show "plain_request forging_request" by code_simp
  show "log_entry small_site forging_request = [''[404] /x'' @ [LF] @ ''[200] /b'' @ [LF]]" by code_simp
qed

end
