(* ===== verification/Static_Paths.thy ===== *)
theory Static_Paths
  imports Static_Stream
begin

text \<open>
  Which files a static server looks at. A path names a place in the tree of directories,
  reached component by component from the root of the file system; the places the server
  looks at lie below its own root directory, for every request that gets past the parser
  and the path of which has \<open>..\<close> in it at most once (with more the check can be got round,
  \<open>traversal_check_bypass\<close>).
\<close>

section \<open>Places\<close>

text \<open>Walking along the components, as a file system without symbolic links does.\<close>

fun walk :: "string list \<Rightarrow> string list \<Rightarrow> string list" where
  "walk at [] = at"
| "walk at (c # cs) = (if c = [] \<or> c = ''.'' then walk at cs
     else if c = ''..'' then walk (butlast at) cs else walk (at @ [c]) cs)"

definition place :: "string \<Rightarrow> string list" where
  "place path = walk [] (components path)"

lemma walk_append: "walk at (cs @ ds) = walk (walk at cs) ds"
  by (induction cs arbitrary: at) auto

lemma walk_down: "''..'' \<notin> set cs \<Longrightarrow> \<exists>below. walk at cs = at @ below"
proof (induction cs arbitrary: at)
  case (Cons c cs)
  then show ?case by (cases "c = [] \<or> c = ''.''") (auto, metis append.assoc)
qed simp

lemma place_below:
  assumes "\<not> has_dotdot rel"
  shows "\<exists>below. place (dir @ CHR ''/'' # rel) = place dir @ below"
  using walk_down [of "components rel" "place dir"] assms
  by (simp add: place_def has_dotdot_def components_append_slash walk_append)

lemma components_extend:
  "CHR ''/'' \<notin> set b \<Longrightarrow> components (a @ b) = butlast (components a) @ [last (components a) @ b]"
proof (induction a)
  case Nil
  then show ?case by (simp add: components_no_slash)
next
  case (Cons c a)
  then show ?case by (cases "components a") (auto split: list.splits)
qed

lemma has_dotdot_html: "has_dotdot (path @ ''.html'') \<Longrightarrow> has_dotdot path"
proof -
  have n: "CHR ''/'' \<notin> set ''.html''" by simp
  have "last (components path) @ ''.html'' \<noteq> ''..''"
  proof
    assume "last (components path) @ ''.html'' = ''..''"
    from arg_cong [OF this, of length] show False by simp
  qed
  then have "has_dotdot (path @ ''.html'') \<longleftrightarrow> ''..'' \<in> set (butlast (components path))"
    unfolding has_dotdot_def components_extend [OF n] by auto
  then show "has_dotdot (path @ ''.html'') \<Longrightarrow> has_dotdot path" by (auto simp: has_dotdot_def dest: in_set_butlastD)
qed

section \<open>The requests of a session\<close>

lemma session_plain: "rq \<in> set (fst (session_of s)) \<Longrightarrow> plain_request rq"
proof (induction s rule: session_of.induct)
  case (1 s)
  show ?case
  proof (cases "judge nothing_read (take HTTP_BUFSZ s)")
    case (Understood x rest)
    with "1.prems" session_cases(1) [OF Understood] judge_plain(1) [OF Understood] "1.IH" [OF Understood] show ?thesis by auto
  next
    case (Refused st rd)
    with "1.prems" session_cases(2) [OF Refused] show ?thesis by simp
  next
    case (Unfinished rd)
    with "1.prems" session_cases(3,4) [OF Unfinished] show ?thesis by (cases "length s < HTTP_BUFSZ") simp_all
  qed
qed

section \<open>The files of a path\<close>

lemma attempt_path_named: "attempt_path env c w f = (Path_Set f' st, c', w') \<Longrightarrow> f' = f"
  by (auto simp: attempt_path_def split: prod.splits option.splits if_splits)

lemma attempts_candidate: "attempts env c w fs = (Path_Set f st, c', w') \<Longrightarrow> f \<in> set fs"
proof (induction fs arbitrary: c w)
  case (Cons g gs)
  obtain a c1 w1 where a: "attempt_path env c w g = (a, c1, w1)" by (metis prod_cases3)
  with Cons.prems Cons.IH attempt_path_named [OF a [THEN trans]] show ?case by (cases a) auto
qed simp

lemma candidates_confined:
  assumes "plain_request rq" "f \<in> set (candidates ctx (target_path rq) (target_path rq))"
    and "\<forall>k. strstr_dotdot (target_path rq) = Some k \<longrightarrow> strstr_dotdot (drop (Suc k) (target_path rq)) = None"
    and "\<forall>p. root_fallback ctx = Some p \<or> fallback ctx = Some p \<longrightarrow> \<not> has_dotdot p"
  shows "\<exists>below. place f = place (root_dir ctx) @ below"
proof -
  have "\<not> attempted_path_traversal (target_path rq)" using assms(1) by (simp add: plain_request_def target_path_def)
  with traversal_exact [OF assms(3)] have p: "\<not> has_dotdot (target_path rq)" "\<not> has_dotdot (target_path rq @ ''.html'')"
    using has_dotdot_html by blast+
  from assms(2) obtain rel where "f = root_dir ctx @ CHR ''/'' # rel" "\<not> has_dotdot rel"
    using p assms(4) by (auto simp: candidates_def split: if_splits option.splits)
  with place_below show ?thesis by simp
qed

text \<open>A request that is received has a path that is the one of a well-formed request.\<close>

lemma received_path:
  assumes "ready c" "\<forall>ev \<in> set (os_in w). quiet ev" "os_in w \<noteq> []" "length (req_headers c) < HTTP_BUFSZ"
    and "recv_all c w = Some (0, c', w')" "req_path (ta c') = Some p" "cstr (req_headers c') p = Some path"
  obtains rq where "plain_request rq" "target_path rq = path"
proof -
  let ?s = "req_headers c @ data_of (os_in w)"
  have t: "taken (judge nothing_read (take HTTP_BUFSZ ?s)) (length ?s) (drop HTTP_BUFSZ ?s) (0, c', w')"
    using receive_any [OF assms(1-4) refl] assms(5) by auto
  then obtain rq rest where j: "judge nothing_read (take HTTP_BUFSZ ?s) = Understood rq rest"
    by (cases "judge nothing_read (take HTTP_BUFSZ ?s)") auto
  with t obtain rest1 where "asked rq c'" by (auto simp: received_def)
  from asked_strings(3) [OF this] assms(6,7) have "target_path rq = path" by auto
  with judge_plain(1) [OF j] that show thesis by blast
qed

section \<open>Properties\<close>

text \<open>
  C7: whatever bytes a peer sends and in whatever pieces, when they are received as a request
  the decoded path of which has \<open>..\<close> in it at most once, the file that is chosen for this path
  lies in or below the root directory of the server, provided the configured fall backs do.
\<close>

theorem served_files_confined:
  assumes "ready c" "\<forall>ev \<in> set (os_in w). quiet ev" "os_in w \<noteq> []" "length (req_headers c) < HTTP_BUFSZ"
    and "recv_all c w = Some (0, c', w')" "req_path (ta c') = Some p" "cstr (req_headers c') p = Some path"
    and "choose_path env ctx d v path path = (Path_Set f st, d', v')"
    and "\<forall>k. strstr_dotdot path = Some k \<longrightarrow> strstr_dotdot (drop (Suc k) path) = None"
    and "\<forall>fb. root_fallback ctx = Some fb \<or> fallback ctx = Some fb \<longrightarrow> \<not> has_dotdot fb"
  shows "\<exists>below. place f = place (root_dir ctx) @ below"
proof -
  obtain rq where rq: "plain_request rq" "target_path rq = path" by (rule received_path [OF assms(1-7)])
  have "f \<in> set (candidates ctx path path)" using assms(8) unfolding choose_path_attempts by (rule attempts_candidate)
  with candidates_confined [OF rq(1), unfolded rq(2)] assms(9,10) show ?thesis by blast
qed

lemma served_files_confined_witness:
  defines "b \<equiv> print_request (hd sample_requests)"
  defines "w \<equiv> quiet_os\<lparr>os_in := [Chunk (take 7 b), Block, Chunk (drop 7 b), Block]\<rparr>"
  shows "\<exists>c' w' p. recv_all fresh_client w = Some (0, c', w') \<and> req_path (ta c') = Some p \<and> cstr (req_headers c') p = Some ''/a'' \<and>
    (\<exists>below. place ''/w//a.html'' = place (root_dir (default_context small_site)) @ below)"
proof -
  let ?rq = "hd sample_requests"
  have t: "target_path ?rq = ''/a''" by (simp add: sample_requests_def target_path_def url_decoded.simps)
  have d: "req_headers fresh_client @ data_of (os_in w) = b" by (simp add: w_def fresh_client_simps)
  have b: "length b = 37" by (simp add: b_def sample_requests_def print_request_def method_name_def query_part_def print_field_def)
  have q: "\<forall>ev \<in> set (os_in w). quiet ev" "os_in w \<noteq> []" using b by (auto simp: w_def)
  have room: "length (req_headers fresh_client) < HTTP_BUFSZ" by (simp add: fresh_client_simps HTTP_BUFSZ_def)
  have "plain_request ?rq" using sample_server(2) by (simp add: sample_requests_def)
  from judge_printed [OF this, of nothing_read "[]"] have j: "judge nothing_read (take HTTP_BUFSZ b) = Understood ?rq []"
    using b by (simp add: b_def HTTP_BUFSZ_def)
  from receive_any [OF sample_server(3) q room d] j obtain rc c' w' rest where
    r: "recv_all fresh_client w = Some (0, c', w')" "asked ?rq c'" by (auto simp: received_def)
  from asked_strings(3) [OF r(2)] obtain p where p: "req_path (ta c') = Some p" "cstr (req_headers c') p = Some ''/a''"
    by (auto simp: t)
  have "choose_path small_site (default_context small_site) (static_client ''/a'') quiet_os ''/a'' ''/a'' =
      (Path_Set ''/w//a.html'' \<lparr>st_isreg = True, st_size = 10, st_mtime = 5\<rparr>, static_client ''/a'', quiet_os\<lparr>os_errno := EOTHER 2\<rparr>)"
    by code_simp
  from served_files_confined [OF sample_server(3) q room r(1) p this] r(1) p show ?thesis
    by (auto simp: small_site_def)
qed

end
