(* ===== verification/Http_Cookies.thy ===== *)
theory Http_Cookies
  imports Http_Util
begin

text \<open>
  Cookies (\<open>kitserv_http_parse_cookies\<close> of \<^verbatim>\<open>src/http.c\<close>, and the lookups of
  \<^verbatim>\<open>src/api.c\<close>). The parser splits the header value in place and records pointers;
  \<open>cookie_spec\<close> is the list of pairs it stands for.
\<close>

text \<open>\<open>req_cookies\<close> is an array of \<open>HTTP_MAX_COOKIES\<close> entries.\<close>

definition store_cookie :: "kitserv_client \<Rightarrow> nat \<Rightarrow> http_cookie \<Rightarrow> kitserv_client ub" where
  "store_cookie c i ck = (if i < length (req_cookies c)
     then Some (c\<lparr>req_cookies := (req_cookies c)[i := ck]\<rparr>) else None)"

definition cookies_finished :: "kitserv_client \<Rightarrow> nat \<Rightarrow> int \<times> kitserv_client" where
  "cookies_finished c i = (0, c\<lparr>ta := (ta c)\<lparr>req_num_cookies := i, req_fresh_cookies := None\<rparr>\<rparr>)"

lemma strchr_bound: "strchr m p x = Some (Some q) \<Longrightarrow> p \<le> q \<and> q < length m"
  using strchr_some by blast

function cookie_loop :: "kitserv_client \<Rightarrow> nat \<Rightarrow> nat \<Rightarrow> (int \<times> kitserv_client) ub" where
  "cookie_loop c p0 i =
     (let p = scan_until (\<lambda>x. x \<noteq> SP) (req_headers c) p0 in
      if p \<ge> length (req_headers c) then None
      else case strchr (req_headers c) p (CHR ''='') of
        None \<Rightarrow> None
      | Some None \<Rightarrow> Some (-1, c\<lparr>ta := (ta c)\<lparr>req_fresh_cookies := None\<rparr>\<rparr>)
      | Some (Some r) \<Rightarrow>
          (case strchr (req_headers c) r (CHR '';'') of
             None \<Rightarrow> None
           | Some q \<Rightarrow>
               let m = (case q of None \<Rightarrow> req_headers c | Some q \<Rightarrow> (req_headers c)[q := NUL]);
                   c = c\<lparr>req_headers := m[r := NUL]\<rparr> in
               if q \<noteq> Some (r + 1) \<and> \<not> i < HTTP_MAX_COOKIES then Some (cookies_finished c i)
               else (case (if q \<noteq> Some (r + 1)
                           then map_option (\<lambda>c. (c, i + 1))
                                  (store_cookie c i \<lparr>key = p, val = r + 1, keylen = int (r + 1) - int p - 1\<rparr>)
                           else Some (c, i)) of
                   None \<Rightarrow> None
                 | Some (c, i) \<Rightarrow>
                     (case q of
                        None \<Rightarrow> Some (cookies_finished c i)
                      | Some q \<Rightarrow> cookie_loop c (q + 1) i))))"
  by pat_completeness auto
termination
  by (relation "measure (\<lambda>(c, p, i). length (req_headers c) - p)")
    (auto simp: store_cookie_def split: if_splits dest!: strchr_bound
      dest: le_less_trans [OF le_trans [OF scan_until_ge]] intro!: diff_less_mono2)

declare cookie_loop.simps [simp del]

definition kitserv_http_parse_cookies :: "kitserv_client \<Rightarrow> (int \<times> kitserv_client) ub" where
  "kitserv_http_parse_cookies c = do {
     p \<leftarrow> req_fresh_cookies (ta c);
     cookie_loop c p 0 }"

section \<open>Lookup\<close>

text \<open>
  The key is a C string of the application (NULL is \<^term>\<open>None\<close>); the result is the
  pointer to the value, the client, and the \<^verbatim>\<open>errno\<close> that was set, if any.
\<close>

function find_cookie :: "kitserv_client \<Rightarrow> string \<Rightarrow> int \<Rightarrow> nat \<Rightarrow> nat option ub" where
  "find_cookie c k n i =
     (if i < req_num_cookies (ta c) then
        if i < length (req_cookies c) then
          (if n = keylen (req_cookies c ! i) then do {
             s \<leftarrow> cstr (req_headers c) (key (req_cookies c ! i));
             if s = k then Some (Some (val (req_cookies c ! i))) else find_cookie c k n (i + 1) }
           else find_cookie c k n (i + 1))
        else None
      else Some None)"
  by pat_completeness auto
termination by (relation "measure (\<lambda>(c, k, n, i). req_num_cookies (ta c) - i)") auto

declare find_cookie.simps [simp del]

definition kitserv_api_get_request_cookie_n ::
    "kitserv_client \<Rightarrow> string option \<Rightarrow> int \<Rightarrow> (nat option \<times> kitserv_client \<times> errno option) ub" where
  "kitserv_api_get_request_cookie_n c name n =
     (case name of
        None \<Rightarrow> Some (None, c, Some EINVAL)
      | Some k \<Rightarrow>
          if n \<le> 0 then Some (None, c, Some EINVAL)
          else do {
            c \<leftarrow> (if req_fresh_cookies (ta c) \<noteq> None then map_option snd (kitserv_http_parse_cookies c)
                  else Some c);
            r \<leftarrow> find_cookie c k n 0;
            Some (r, c, None) })"

definition kitserv_api_get_request_cookie ::
    "kitserv_client \<Rightarrow> string option \<Rightarrow> (nat option \<times> kitserv_client \<times> errno option) ub" where
  "kitserv_api_get_request_cookie c name =
     (case name of
        None \<Rightarrow> Some (None, c, Some EINVAL)
      | Some k \<Rightarrow> kitserv_api_get_request_cookie_n c (Some k) (int (length k)))"

section \<open>The pairs a header value stands for\<close>

function cookie_spec :: "nat \<Rightarrow> string \<Rightarrow> (string \<times> string) list option" where
  "cookie_spec n s =
     (let s1 = dropWhile (\<lambda>x. x = SP) s in
      case dropWhile (\<lambda>x. x \<noteq> CHR ''='') s1 of
        [] \<Rightarrow> None
      | eq # rest \<Rightarrow>
          (let a = takeWhile (\<lambda>x. x \<noteq> CHR ''='') s1; v = takeWhile (\<lambda>x. x \<noteq> CHR '';'') rest in
           case dropWhile (\<lambda>x. x \<noteq> CHR '';'') rest of
             [] \<Rightarrow> Some (if n = 0 then [] else [(a, v)])
           | semi # z \<Rightarrow>
               if v = [] then cookie_spec n z
               else if n = 0 then Some []
               else map_option (Cons (a, v)) (cookie_spec (n - 1) z)))"
  by pat_completeness auto
termination
proof (relation "measure (\<lambda>(n, s). length s)")
  fix n :: nat and s s1 rest z :: string and eq semi :: char
  assume s1: "s1 = dropWhile (\<lambda>x. x = SP) s" and eq: "dropWhile (\<lambda>x. x \<noteq> CHR ''='') s1 = eq # rest"
    and semi: "dropWhile (\<lambda>x. x \<noteq> CHR '';'') rest = semi # z"
  have "length (dropWhile P x) \<le> length x" for P and x :: string by (rule length_dropWhile_le)
  from this [of "\<lambda>x. x = SP" s] this [of "\<lambda>x. x \<noteq> CHR ''=''" s1] this [of "\<lambda>x. x \<noteq> CHR '';''" rest]
  have l: "length z < length s" using s1 eq semi by simp
  show "((n, z), (n, s)) \<in> measure (\<lambda>(n, s). length s)" using l by simp
  show "((n - 1, z), (n, s)) \<in> measure (\<lambda>(n, s). length s)" using l by simp
qed simp

declare cookie_spec.simps [simp del]

section \<open>The parser implements the specification\<close>

lemma strchr_cstr:
  "cstr m p = Some s \<Longrightarrow> strchr m p x = Some (case dropWhile (\<lambda>y. y \<noteq> x) s of
     [] \<Rightarrow> None | _ # _ \<Rightarrow> Some (p + length (takeWhile (\<lambda>y. y \<noteq> x) s)))"
proof -
  assume "cstr m p = Some s"
  moreover have "length s = length (takeWhile (\<lambda>y. y \<noteq> x) s) + length (dropWhile (\<lambda>y. y \<noteq> x) s)"
    by (metis length_append takeWhile_dropWhile_id)
  ultimately show ?thesis
    by (cases "dropWhile (\<lambda>y. y \<noteq> x) s") (simp_all add: strchr_def Let_def del: dropWhile_eq_Nil_conv)
qed

text \<open>An entry of the array stands for a pair of strings.\<close>

definition cookie_is :: "mem \<Rightarrow> http_cookie \<Rightarrow> string \<times> string \<Rightarrow> bool" where
  "cookie_is m ck kv \<longleftrightarrow> cstr m (key ck) = Some (fst kv) \<and> cstr m (val ck) = Some (snd kv) \<and>
     keylen ck = int (length (fst kv))"

definition cookies_are :: "kitserv_client \<Rightarrow> nat \<Rightarrow> (string \<times> string) list \<Rightarrow> bool" where
  "cookies_are c i kvs \<longleftrightarrow> (\<forall>j < length kvs. cookie_is (req_headers c) (req_cookies c ! (i + j)) (kvs ! j))"

text \<open>What a call promises, by the specification's answer for the rest of the value.\<close>

definition cookie_post ::
    "kitserv_client \<Rightarrow> nat \<Rightarrow> nat \<Rightarrow> (string \<times> string) list option \<Rightarrow> int \<Rightarrow> kitserv_client \<Rightarrow> bool" where
  "cookie_post c p i res rc c' \<longleftrightarrow>
     take p (req_headers c') = take p (req_headers c) \<and> length (req_headers c') = length (req_headers c) \<and>
     take i (req_cookies c') = take i (req_cookies c) \<and> length (req_cookies c') = length (req_cookies c) \<and>
     (case res of
        None \<Rightarrow> rc = -1 \<and> ta c' = (ta c)\<lparr>req_fresh_cookies := None\<rparr>
      | Some kvs \<Rightarrow> rc = 0 \<and> i + length kvs \<le> HTTP_MAX_COOKIES \<and> cookies_are c' i kvs \<and>
          ta c' = (ta c)\<lparr>req_num_cookies := i + length kvs, req_fresh_cookies := None\<rparr>)"

lemma take_nth_same: "take i xs = take i ys \<Longrightarrow> k < i \<Longrightarrow> xs ! k = ys ! k"
  by (metis nth_take)

lemma cookie_step_store:
  assumes "p1 = scan_until (\<lambda>x. x \<noteq> SP) (req_headers c) p" "p1 < length (req_headers c)"
    and "strchr (req_headers c) p1 (CHR ''='') = Some (Some r)"
    and "strchr (req_headers c) r (CHR '';'') = Some (Some q)"
    and "i < HTTP_MAX_COOKIES" "length (req_cookies c) = HTTP_MAX_COOKIES" "q \<noteq> Suc r"
  shows "cookie_loop c p i = cookie_loop (c\<lparr>req_headers := (req_headers c)[q := NUL, r := NUL],
    req_cookies := (req_cookies c)[i := \<lparr>key = p1, val = r + 1, keylen = int (r + 1) - int p1 - 1\<rparr>]\<rparr>)
    (Suc q) (Suc i)"
  using assms by (simp add: cookie_loop.simps [of c p i] store_cookie_def Let_def)

lemma cookie_loop_refines:
  "cstr (req_headers c) p = Some s \<Longrightarrow> length (req_cookies c) = HTTP_MAX_COOKIES \<Longrightarrow> i \<le> HTTP_MAX_COOKIES \<Longrightarrow>
   \<exists>rc c'. cookie_loop c p i = Some (rc, c') \<and> cookie_post c p i (cookie_spec (HTTP_MAX_COOKIES - i) s) rc c'"
proof (induction "length s" arbitrary: c p s i rule: less_induct)
  case less
  let ?m = "req_headers c" and ?k = "HTTP_MAX_COOKIES - i"
  define s1 p1 where "s1 = dropWhile (\<lambda>x. x = SP) s" and "p1 = scan_until (\<lambda>x. x \<noteq> SP) ?m p"
  define a where "a = takeWhile (\<lambda>x. x \<noteq> CHR ''='') s1"
  have p1: "p1 = p + length (takeWhile (\<lambda>x. x = SP) s)"
    using scan_cstr [OF less.prems(1), of "\<lambda>x. x \<noteq> SP"] by (simp add: p1_def)
  have s1d: "s1 = drop (length (takeWhile (\<lambda>x. x = SP) s)) s" by (simp add: s1_def dropWhile_eq_drop)
  have c1: "cstr ?m p1 = Some s1"
    using cstr_drop [OF less.prems(1)] by (simp add: p1 s1d length_takeWhile_le)
  note step = cookie_loop.simps [of c p i, folded p1_def, unfolded Let_def]
  note spec = cookie_spec.simps [of ?k s, folded s1_def, unfolded Let_def, folded a_def]
  have lt: "p1 < length ?m" using cstr_length [OF c1] by simp
  have pp: "p \<le> p1" by (simp add: p1)
  show ?case
  proof (cases "dropWhile (\<lambda>x. x \<noteq> CHR ''='') s1")
    case Nil
    with strchr_cstr [OF c1] have "strchr ?m p1 (CHR ''='') = Some None" by (simp del: dropWhile_eq_Nil_conv)
    with lt Nil show ?thesis by (simp add: step spec cookie_post_def del: dropWhile_eq_Nil_conv)
  next
    case (Cons eq rest)
    then have eq: "eq = CHR ''=''" using hd_dropWhile [of "\<lambda>x. x \<noteq> CHR ''=''" s1] by simp
    have s1: "s1 = a @ CHR ''='' # rest"
      using takeWhile_dropWhile_id [of "\<lambda>x. x \<noteq> CHR ''=''" s1] Cons eq by (simp add: a_def)
    let ?r = "p1 + length a"
    from strchr_cstr [OF c1] Cons have r: "strchr ?m p1 (CHR ''='') = Some (Some ?r)" by (simp add: a_def)
    note spr = cstr_split [OF c1 [unfolded s1]]
    have cr: "cstr ?m ?r = Some (CHR ''='' # rest)"
      using cstr_drop [OF c1, of "length a"] s1 by simp
    define v where "v = takeWhile (\<lambda>x. x \<noteq> CHR '';'') rest"
    have tr: "take p (m[k := x]) = take p m" if "p \<le> k" for m :: mem and k x using that by simp
    show ?thesis
    proof (cases "dropWhile (\<lambda>x. x \<noteq> CHR '';'') rest")
      case Nil
      with strchr_cstr [OF cr, of "CHR '';''"] have q: "strchr ?m ?r (CHR '';'') = Some None"
        by (simp del: dropWhile_eq_Nil_conv)
      let ?c = "c\<lparr>req_headers := ?m[?r := NUL]\<rparr>"
      have v: "v = rest" using Nil takeWhile_dropWhile_id [of "\<lambda>x. x \<noteq> CHR '';''" rest] by (simp add: v_def)
      show ?thesis
      proof (cases "i < HTTP_MAX_COOKIES")
        case True
        with q r lt Nil Cons less.prems(2) pp spr show ?thesis
          by (simp add: step spec cookie_post_def cookies_finished_def store_cookie_def cookies_are_def
              cookie_is_def v [unfolded v_def] del: dropWhile_eq_Nil_conv)
      next
        case False
        with less.prems(3) have iM: "i = HTTP_MAX_COOKIES" by simp
        from q r lt Nil Cons less.prems(2) pp show ?thesis
          by (simp add: step [unfolded iM] spec [unfolded iM diff_self_eq_0] iM cookie_post_def cookies_finished_def
              cookies_are_def del: dropWhile_eq_Nil_conv)
      qed
    next
      case semi: (Cons sc z)
      then have "sc = CHR '';''" using hd_dropWhile [of "\<lambda>x. x \<noteq> CHR '';''" rest] by simp
      then have rest: "rest = v @ CHR '';'' # z"
        using takeWhile_dropWhile_id [of "\<lambda>x. x \<noteq> CHR '';''" rest] semi by (simp add: v_def)
      let ?q = "Suc (p1 + (length a + length v))"
      define m2 where "m2 = ?m[?q := NUL, ?r := NUL]"
      let ?c2 = "c\<lparr>req_headers := m2\<rparr>"
      from strchr_cstr [OF cr, of "CHR '';''"] semi have q: "strchr ?m ?r (CHR '';'') = Some (Some ?q)"
        by (simp add: v_def add.assoc)
      have "s1 = (a @ CHR ''='' # v) @ CHR '';'' # z" using s1 rest by simp
      note spq = cstr_split [OF c1 [unfolded this], simplified]
      note sps = cstr_split [OF spq(4), simplified, folded m2_def]
      have z: "cstr m2 (Suc ?q) = Some z" using spq(6) by (simp add: m2_def cstr_update_below)
      have "length s1 \<le> length s" by (simp add: s1_def length_dropWhile_le)
      then have lz: "length z < length s" using s1 rest by simp
      have tk: "take p m2 = take p ?m" "length m2 = length ?m" using pp by (simp_all add: m2_def)
      have keep: "take p m' = take p ?m" if "take (Suc ?q) m' = take (Suc ?q) m2" for m'
      proof -
        from that have "take p (take (Suc ?q) m') = take p (take (Suc ?q) m2)" by simp
        with pp tk show ?thesis by (simp add: min_def)
      qed
      show ?thesis
      proof (cases "v = []")
        case True
        from less.hyps [OF lz, of ?c2 "Suc ?q" i] z less.prems obtain rc c' where ih:
          "cookie_loop ?c2 (Suc ?q) i = Some (rc, c')" "cookie_post ?c2 (Suc ?q) i (cookie_spec ?k z) rc c'" by auto
        have "cookie_loop c p i = Some (rc, c')" using q r lt ih(1) True by (simp add: step m2_def)
        moreover have "cookie_post c p i (cookie_spec ?k s) rc c'" using ih(2) keep tk True Cons semi
          by (simp add: spec cookie_post_def v_def split: option.splits)
        ultimately show ?thesis by blast
      next
        case False
        show ?thesis
        proof (cases "i < HTTP_MAX_COOKIES")
          case True
          define ck where "ck = \<lparr>key = p1, val = ?r + 1, keylen = int (?r + 1) - int p1 - 1\<rparr>"
          let ?c3 = "?c2\<lparr>req_cookies := (req_cookies c)[i := ck]\<rparr>"
          have kk: "HTTP_MAX_COOKIES - Suc i = ?k - 1" using True by simp
          from less.hyps [OF lz, of ?c3 "Suc ?q" "Suc i"] z less.prems True obtain rc c' where ih:
            "cookie_loop ?c3 (Suc ?q) (Suc i) = Some (rc, c')"
            "cookie_post ?c3 (Suc ?q) (Suc i) (cookie_spec (HTTP_MAX_COOKIES - Suc i) z) rc c'" by auto
          note ih = ih [unfolded kk]
          have "cookie_loop c p i = cookie_loop ?c3 (Suc ?q) (Suc i)" unfolding m2_def ck_def
            by (rule cookie_step_store [OF p1_def lt r q True less.prems(2)]) (use False in simp)
          with ih(1) have l: "cookie_loop c p i = Some (rc, c')" by simp
          from ih(2) have tm: "take (Suc ?q) (req_headers c') = take (Suc ?q) m2"
            and tc: "take (Suc i) (req_cookies c') = take (Suc i) ((req_cookies c)[i := ck])"
            by (simp_all add: cookie_post_def)
          have "cookie_is (req_headers c') ck (a, v)"
            using cstr_same_prefix [OF sps(4) _ tm] cstr_same_prefix [OF sps(6) _ tm] False
            by (simp add: cookie_is_def ck_def)
          moreover have "req_cookies c' ! i = ck"
            using take_nth_same [OF tc, of i] True less.prems(2) by simp
          ultimately have here: "cookie_is (req_headers c') (req_cookies c' ! i) (a, v)" by simp
          have ti: "take i (req_cookies c') = take i (req_cookies c)"
            using arg_cong [OF tc, of "take i"] by (simp add: min_def)
          have "cookies_are c' i ((a, v) # kvs)" if "cookies_are c' (Suc i) kvs" for kvs
            using that here by (auto simp: cookies_are_def nth_Cons split: nat.splits)
          moreover have "cookie_spec ?k s = map_option (Cons (a, v)) (cookie_spec (?k - 1) z)"
            unfolding spec Cons list.case v_def [symmetric] semi using False True by simp
          ultimately have "cookie_post c p i (cookie_spec ?k s) rc c'"
            using ih(2) keep [OF tm] tk ti
            by (cases "cookie_spec (?k - 1) z") (simp_all add: cookie_post_def)
          with l show ?thesis by blast
        next
          case iM: False
          with less.prems(3) have iM: "i = HTTP_MAX_COOKIES" by simp
          from q r lt False Cons semi less.prems(2) tk show ?thesis
            by (simp add: step [unfolded iM] spec [unfolded iM diff_self_eq_0] iM cookie_post_def cookies_finished_def
                cookies_are_def m2_def [symmetric] v_def [symmetric])
        qed
      qed
    qed
  qed
qed

text \<open>A lookup finds the first pair of the specification whose name is the key.\<close>

lemma find_cookie_from:
  assumes "cookies_are c i kvs" "req_num_cookies (ta c) = i + length kvs" "i + length kvs \<le> length (req_cookies c)"
  shows "find_cookie c k (int (length k)) i = Some (case dropWhile (\<lambda>kv. fst kv \<noteq> k) kvs of [] \<Rightarrow> None
     | _ # _ \<Rightarrow> Some (val (req_cookies c ! (i + length (takeWhile (\<lambda>kv. fst kv \<noteq> k) kvs)))))"
  using assms
proof (induction kvs arbitrary: i)
  case Nil
  then show ?case by (simp add: find_cookie.simps [of c k "int (length k)" i])
next
  case (Cons kv kvs)
  from Cons.prems(1) have h: "cookie_is (req_headers c) (req_cookies c ! i) kv"
    by (auto simp: cookies_are_def dest: spec [of _ 0])
  have "cookies_are c (Suc i) kvs"
    using Cons.prems(1) by (auto simp: cookies_are_def dest: spec [of _ "Suc _"])
  note ih = Cons.IH [OF this]
  show ?case
  proof (cases "fst kv = k")
    case True
    with Cons.prems h show ?thesis
      by (simp add: find_cookie.simps [of c k "int (length k)" i] cookie_is_def)
  next
    case False
    with Cons.prems h have "find_cookie c k (int (length k)) i = find_cookie c k (int (length k)) (Suc i)"
      by (simp add: find_cookie.simps [of c k "int (length k)" i] cookie_is_def)
    with ih Cons.prems False show ?thesis
      by (cases "dropWhile (\<lambda>kv. fst kv \<noteq> k) kvs") (simp_all del: dropWhile_eq_Nil_conv)
  qed
qed

text \<open>
  The lookup in a request whose header value is the string \<open>s\<close>: nothing for a value the
  parser rejects, else a pointer to the value of the first pair with that name among the
  first \<open>HTTP_MAX_COOKIES\<close>.
\<close>

theorem get_request_cookie_correct:
  assumes p: "req_fresh_cookies (ta c) = Some p" and s: "cstr (req_headers c) p = Some s"
    and l: "length (req_cookies c) = HTTP_MAX_COOKIES" "req_num_cookies (ta c) = 0" and k: "k \<noteq> []"
  shows "\<exists>r c'. kitserv_api_get_request_cookie c (Some k) = Some (r, c', None) \<and>
    req_fresh_cookies (ta c') = None \<and> take p (req_headers c') = take p (req_headers c) \<and>
    (case r of
       None \<Rightarrow> \<forall>kvs. cookie_spec HTTP_MAX_COOKIES s = Some kvs \<longrightarrow> k \<notin> fst ` set kvs
     | Some x \<Rightarrow> \<exists>kvs v. cookie_spec HTTP_MAX_COOKIES s = Some kvs \<and> map_of kvs k = Some v \<and>
         cstr (req_headers c') x = Some v)"
proof -
  from cookie_loop_refines [OF s l(1), of 0] obtain rc c' where
    loop: "cookie_loop c p 0 = Some (rc, c')" and post: "cookie_post c p 0 (cookie_spec HTTP_MAX_COOKIES s) rc c'"
    by auto
  have parse: "kitserv_http_parse_cookies c = Some (rc, c')" using p loop by (simp add: kitserv_http_parse_cookies_def)
  note unf = kitserv_api_get_request_cookie_def kitserv_api_get_request_cookie_n_def p parse
  show ?thesis
  proof (cases "cookie_spec HTTP_MAX_COOKIES s")
    case None
    with post have "ta c' = (ta c)\<lparr>req_fresh_cookies := None\<rparr>" by (simp add: cookie_post_def)
    with l(2) have "find_cookie c' k (int (length k)) 0 = Some None"
      by (simp add: find_cookie.simps [of c' k _ 0])
    with None post k show ?thesis by (simp add: unf cookie_post_def)
  next
    case (Some kvs)
    with post have are: "cookies_are c' 0 kvs" and n: "req_num_cookies (ta c') = length kvs"
      and le: "length kvs \<le> length (req_cookies c')" using l by (simp_all add: cookie_post_def)
    let ?j = "length (takeWhile (\<lambda>kv. fst kv \<noteq> k) kvs)"
    from find_cookie_from [OF are, of k, unfolded add_0] n le have f:
      "find_cookie c' k (int (length k)) 0 = Some (case dropWhile (\<lambda>kv. fst kv \<noteq> k) kvs of [] \<Rightarrow> None
         | _ # _ \<Rightarrow> Some (val (req_cookies c' ! ?j)))" by simp
    show ?thesis
    proof (cases "dropWhile (\<lambda>kv. fst kv \<noteq> k) kvs")
      case Nil
      then have "k \<notin> fst ` set kvs" by auto
      with f Nil Some post k show ?thesis by (simp add: unf cookie_post_def del: dropWhile_eq_Nil_conv)
    next
      case (Cons kv t)
      have kv: "fst kv = k" using Cons hd_dropWhile [of "\<lambda>kv. fst kv \<noteq> k" kvs] by simp
      have kvs: "kvs = takeWhile (\<lambda>kv. fst kv \<noteq> k) kvs @ kv # t"
        using Cons takeWhile_dropWhile_id [of "\<lambda>kv. fst kv \<noteq> k" kvs] by simp
      have "map_of (takeWhile (\<lambda>kv. fst kv \<noteq> k) kvs) k = None"
        by (auto simp: map_of_eq_None_iff dest: set_takeWhileD)
      then have m: "map_of kvs k = Some (snd kv)" using kv by (subst kvs) (simp add: map_add_def)
      have "?j < length kvs" "kvs ! ?j = kv" by (subst kvs, simp) (subst kvs, simp add: nth_append)
      with are have "cstr (req_headers c') (val (req_cookies c' ! ?j)) = Some (snd kv)"
        by (auto simp: cookies_are_def cookie_is_def)
      with f Cons Some post k m show ?thesis by (simp add: unf cookie_post_def)
    qed
  qed
qed

section \<open>Printed cookies\<close>

fun print_cookies :: "(string \<times> string) list \<Rightarrow> string" where
  "print_cookies [] = []"
| "print_cookies [(a, v)] = a @ ''='' @ v"
| "print_cookies ((a, v) # kvs) = a @ ''='' @ v @ ''; '' @ print_cookies kvs"

definition printable_cookie :: "string \<times> string \<Rightarrow> bool" where
  "printable_cookie kv \<longleftrightarrow> CHR ''='' \<notin> set (fst kv) \<and> SP \<notin> set (fst kv) \<and> snd kv \<noteq> [] \<and> CHR '';'' \<notin> set (snd kv)"

lemma cookie_spec_print:
  "kvs \<noteq> [] \<Longrightarrow> length kvs \<le> n \<Longrightarrow> list_all printable_cookie kvs \<Longrightarrow> cookie_spec n (print_cookies kvs) = Some kvs"
proof (induction kvs arbitrary: n)
  case (Cons kv kvs)
  obtain a v where kv: "kv = (a, v)" by (cases kv)
  from Cons.prems kv have p: "CHR ''='' \<notin> set a" "SP \<notin> set a" "v \<noteq> []" "CHR '';'' \<notin> set v" and n: "n \<noteq> 0"
    by (auto simp: printable_cookie_def)
  have sp: "dropWhile (\<lambda>x. x = SP) (a @ CHR ''='' # t) = a @ CHR ''='' # t" for t
    using p(2) by (cases a) auto
  have "\<forall>x \<in> set a. x \<noteq> CHR ''=''" "\<forall>x \<in> set v. x \<noteq> CHR '';''" using p(1,4) by auto
  then have eq: "takeWhile (\<lambda>x. x \<noteq> CHR ''='') (a @ CHR ''='' # t) = a"
      "dropWhile (\<lambda>x. x \<noteq> CHR ''='') (a @ CHR ''='' # t) = CHR ''='' # t"
      "takeWhile (\<lambda>x. x \<noteq> CHR '';'') (v @ CHR '';'' # t) = v"
      "dropWhile (\<lambda>x. x \<noteq> CHR '';'') (v @ CHR '';'' # t) = CHR '';'' # t"
      "takeWhile (\<lambda>x. x \<noteq> CHR '';'') v = v" "dropWhile (\<lambda>x. x \<noteq> CHR '';'') v = []" for t
    by (simp_all add: takeWhile_append dropWhile_append)
  show ?case
  proof (cases kvs)
    case Nil
    with kv n show ?thesis
      by (simp add: cookie_spec.simps [of n] sp eq del: takeWhile_eq_all_conv dropWhile_eq_Nil_conv)
  next
    case (Cons kv' kvs')
    have "cookie_spec (n - 1) (print_cookies kvs) = Some kvs"
      using Cons.IH [of "n - 1"] Cons.prems Cons by simp
    moreover have "cookie_spec k (SP # s) = cookie_spec k s" for k s by (simp add: cookie_spec.simps [of k])
    ultimately show ?thesis using kv n p(3) Cons
      by (simp add: cookie_spec.simps [of n] sp eq del: takeWhile_eq_all_conv dropWhile_eq_Nil_conv)
  qed
qed simp

section \<open>Properties\<close>

text \<open>
  C17: looking up a cookie of a request whose header value is the string \<open>s\<close>, which parses the
  value in place on the first lookup, gives nothing for a value the grammar rejects, and
  else a pointer to the value of the first pair with that name among the first
  \<open>HTTP_MAX_COOKIES\<close>; bytes before the header value are not touched.
\<close>

theorem cookie_lookup_correct:
  assumes "req_fresh_cookies (ta c) = Some p" "cstr (req_headers c) p = Some s"
    and "length (req_cookies c) = HTTP_MAX_COOKIES" "req_num_cookies (ta c) = 0" "k \<noteq> []"
  shows "\<exists>r c'. kitserv_api_get_request_cookie c (Some k) = Some (r, c', None) \<and>
    req_fresh_cookies (ta c') = None \<and> take p (req_headers c') = take p (req_headers c) \<and>
    (case r of
       None \<Rightarrow> \<forall>kvs. cookie_spec HTTP_MAX_COOKIES s = Some kvs \<longrightarrow> k \<notin> fst ` set kvs
     | Some x \<Rightarrow> \<exists>kvs v. cookie_spec HTTP_MAX_COOKIES s = Some kvs \<and> map_of kvs k = Some v \<and>
         cstr (req_headers c') x = Some v)"
  using assms by (rule get_request_cookie_correct)

definition cookie_client :: "string \<Rightarrow> kitserv_client" where
  "cookie_client s = \<lparr>req_headers = s @ [NUL], req_cookies = replicate HTTP_MAX_COOKIES \<lparr>key = 0, val = 0, keylen = 0\<rparr>,
     resp_start = [], resp_headers = [], resp_body = \<lparr>b_buf = [], b_len = 0, b_max = 4096, b_block = 4096\<rparr>,
     ta = zero_ta\<lparr>req_fresh_cookies := Some 0\<rparr>, sockfd = 3\<rparr>"

lemma cookie_lookup_correct_witness:
  "\<exists>r c'. kitserv_api_get_request_cookie (cookie_client ''a=1; b=2'') (Some ''b'') = Some (r, c', None) \<and>
    req_fresh_cookies (ta c') = None \<and> take 0 (req_headers c') = take 0 (req_headers (cookie_client ''a=1; b=2'')) \<and>
    (case r of
       None \<Rightarrow> \<forall>kvs. cookie_spec HTTP_MAX_COOKIES ''a=1; b=2'' = Some kvs \<longrightarrow> ''b'' \<notin> fst ` set kvs
     | Some x \<Rightarrow> \<exists>kvs v. cookie_spec HTTP_MAX_COOKIES ''a=1; b=2'' = Some kvs \<and> map_of kvs ''b'' = Some v \<and>
         cstr (req_headers c') x = Some v)"
  by (rule cookie_lookup_correct) (simp_all add: cookie_client_def zero_ta_def cstr_def)

text \<open>
  C31: cookies that were written as \<open>name=value; name=value\<close>, at most \<open>HTTP_MAX_COOKIES\<close> of
  them, are read back: the lookup of any name finds the value of its first pair, and
  finds nothing exactly when no pair has the name.
\<close>

theorem cookie_roundtrip:
  assumes "req_fresh_cookies (ta c) = Some p" "cstr (req_headers c) p = Some (print_cookies kvs)"
    and "length (req_cookies c) = HTTP_MAX_COOKIES" "req_num_cookies (ta c) = 0" "k \<noteq> []"
    and kvs: "kvs \<noteq> []" "length kvs \<le> HTTP_MAX_COOKIES" "list_all printable_cookie kvs"
  shows "\<exists>r c'. kitserv_api_get_request_cookie c (Some k) = Some (r, c', None) \<and>
    (case r of None \<Rightarrow> map_of kvs k = None
     | Some x \<Rightarrow> map_of kvs k \<noteq> None \<and> cstr (req_headers c') x = map_of kvs k)"
proof -
  note spec = cookie_spec_print [OF kvs]
  from get_request_cookie_correct [OF assms(1-5)] obtain r c' where
    "kitserv_api_get_request_cookie c (Some k) = Some (r, c', None)"
    "case r of None \<Rightarrow> k \<notin> fst ` set kvs | Some x \<Rightarrow> \<exists>v. map_of kvs k = Some v \<and> cstr (req_headers c') x = Some v"
    unfolding spec by (auto split: option.splits)
  then show ?thesis by (cases r) (force simp: map_of_eq_None_iff dest: map_of_SomeD)+
qed

lemma cookie_roundtrip_witness:
  "\<exists>r c'. kitserv_api_get_request_cookie (cookie_client ''a=1; b=2'') (Some ''b'') = Some (r, c', None) \<and>
    (case r of None \<Rightarrow> map_of [(''a'', ''1''), (''b'', ''2'')] ''b'' = None
     | Some x \<Rightarrow> map_of [(''a'', ''1''), (''b'', ''2'')] ''b'' \<noteq> None \<and>
         cstr (req_headers c') x = map_of [(''a'', ''1''), (''b'', ''2'')] ''b'')"
  by (rule cookie_roundtrip [where p = 0])
    (simp_all add: cookie_client_def zero_ta_def cstr_def HTTP_MAX_COOKIES_def printable_cookie_def)

end
