(* ===== verification/Api.thy ===== *)
theory Api
  imports Http_Serve Http_Cookies
begin

text \<open>
  What an API endpoint may call (\<^verbatim>\<open>src/api.c\<close>; the cookie getters are in
  \<open>Http_Cookies\<close>): reading the request and its payload, writing the response. Strings of the
  request are pointers into its buffer, as everywhere.
\<close>

section \<open>The request\<close>

definition kitserv_api_get_request_method :: "kitserv_client \<Rightarrow> http_method" where
  "kitserv_api_get_request_method c = req_method (ta c)"

definition kitserv_api_get_request_path :: "kitserv_client \<Rightarrow> nat option" where
  "kitserv_api_get_request_path c = req_path (ta c)"

definition kitserv_api_get_request_query :: "kitserv_client \<Rightarrow> nat option" where
  "kitserv_api_get_request_query c = req_query (ta c)"

definition kitserv_api_get_request_content_length :: "kitserv_client \<Rightarrow> int" where
  "kitserv_api_get_request_content_length c = req_content_len (ta c)"

definition kitserv_api_get_request_mime_type :: "kitserv_client \<Rightarrow> nat option" where
  "kitserv_api_get_request_mime_type c = req_mimetype (ta c)"

definition kitserv_api_get_request_disposition :: "kitserv_client \<Rightarrow> nat option" where
  "kitserv_api_get_request_disposition c = req_disposition (ta c)"

text \<open>The result code, and what is stored in the two arguments on success.\<close>

definition kitserv_api_get_request_range :: "kitserv_client \<Rightarrow> (int \<times> kitserv_client \<times> (int \<times> int) option) ub" where
  "kitserv_api_get_request_range c = do {
     (c, r) \<leftarrow> kitserv_http_parse_range c;
     Some (if r = None then -1 else 0, c, r) }"

text \<open>\<open>parse_date env\<close> is \<^verbatim>\<open>strptime\<close> with \<^verbatim>\<open>timegm\<close>; the difference is exact.\<close>

definition kitserv_api_get_request_modified_since_difference ::
    "env \<Rightarrow> kitserv_client \<Rightarrow> int \<Rightarrow> (int \<times> int option) ub" where
  "kitserv_api_get_request_modified_since_difference env c time =
     (case req_modified_since (ta c) of
        None \<Rightarrow> Some (-1, None)
      | Some p \<Rightarrow> do {
          s \<leftarrow> cstr (req_headers c) p;
          Some (case parse_date env s of None \<Rightarrow> (-1, None) | Some t \<Rightarrow> (0, Some (time - t))) })"

section \<open>The payload\<close>

lemma sock_read_bytes: "sock_read n evs = (Inr bs, evs') \<Longrightarrow> length bs \<le> n"
  by (induction n evs rule: sock_read.induct) (auto split: if_splits)

text \<open>
  The loop, with the bytes \<open>got\<close> so far and room for \<open>n\<close> more. The second component of the
  result is what the caller's buffer holds.
\<close>

function payload_loop :: "kitserv_client \<Rightarrow> string \<Rightarrow> nat \<Rightarrow> os \<Rightarrow> int \<times> string \<times> kitserv_client \<times> os" where
  "payload_loop c got n w =
     (let ret = (\<lambda>w. (if got \<noteq> [] then int (length got) else -1, got, c, w)) in
      if n = 0 then (int (length got), got, c, w)
      else (case sock_read n (os_in w) of
          (Inl e, evs) \<Rightarrow>
            let w = w\<lparr>os_in := evs, os_errno := e\<rparr> in
            if e = EAGAIN then ret w else (-1, got, set_status HTTP_X_HANGUP c, w)
        | (Inr [], evs) \<Rightarrow> ret (w\<lparr>os_in := evs\<rparr>)
        | (Inr (b # bs), evs) \<Rightarrow> payload_loop c (got @ b # bs) (n - length (b # bs)) (w\<lparr>os_in := evs\<rparr>)))"
  by pat_completeness auto
termination
  by (relation "measure (\<lambda>(c, got, n, w). n)") auto

declare payload_loop.simps [simp del]

text \<open>A negative size is a copy of a huge one, where something is buffered.\<close>

definition kitserv_api_read_payload ::
    "kitserv_client \<Rightarrow> int \<Rightarrow> os \<Rightarrow> (int \<times> string \<times> kitserv_client \<times> os) ub" where
  "kitserv_api_read_payload c nbytes w =
     (let rc = req_payload_len (ta c) - req_payload_pos (ta c) in
      if rc > 0 then
        (let written = (if nbytes > rc then rc else nbytes);
             from = int (req_payload (ta c)) + req_payload_pos (ta c) in
         if 0 \<le> written \<and> 0 \<le> from \<and> from + written \<le> int (length (req_headers c)) then
           (let got = take (nat written) (drop (nat from) (req_headers c));
                c = c\<lparr>ta := (ta c)\<lparr>req_payload_pos := req_payload_pos (ta c) + written\<rparr>\<rparr>
            in Some (payload_loop c got (nat (nbytes - written)) w))
         else None)
      else Some (payload_loop c [] (nat nbytes) w))"

section \<open>The response\<close>

definition kitserv_api_write_body :: "env \<Rightarrow> kitserv_client \<Rightarrow> string \<Rightarrow> int \<Rightarrow> os \<Rightarrow> (int \<times> kitserv_client \<times> os) ub" where
  "kitserv_api_write_body env c buf buflen w = do {
     let pre_sz = b_len (resp_body c);
     (rc, b) \<leftarrow> kitserv_buffer_append (alloc_ok env) (resp_body c) buf buflen;
     let c = c\<lparr>resp_body := b\<rparr>;
     if rc \<noteq> 0 then Some (-1, c, w\<lparr>os_errno := ENOMEM\<rparr>) else Some (b_len b - pre_sz, c, w) }"

text \<open>\<open>out\<close> is what the format renders, \<open>out2\<close> what a second rendering finds.\<close>

definition kitserv_api_write_body_fmt :: "env \<Rightarrow> kitserv_client \<Rightarrow> string \<Rightarrow> string \<Rightarrow> os \<Rightarrow> (int \<times> kitserv_client \<times> os) ub" where
  "kitserv_api_write_body_fmt env c out out2 w = do {
     let pre_sz = b_len (resp_body c);
     (rc, b) \<leftarrow> kitserv_buffer_appendva (alloc_ok env) (resp_body c) out out2;
     let c = c\<lparr>resp_body := b\<rparr>;
     if rc \<noteq> 0 then Some (-1, c, w\<lparr>os_errno := ENOMEM\<rparr>) else Some (b_len b - pre_sz, c, w) }"

definition kitserv_api_reset_headers :: "kitserv_client \<Rightarrow> kitserv_client" where
  "kitserv_api_reset_headers c = c\<lparr>ta := (ta c)\<lparr>resp_buf1 := (resp_buf1 (ta c))\<lparr>iov_len := 0\<rparr>\<rparr>\<rparr>"

definition kitserv_api_reset_body :: "env \<Rightarrow> kitserv_client \<Rightarrow> kitserv_client" where
  "kitserv_api_reset_body env c = c\<lparr>resp_body := kitserv_buffer_reset (alloc_ok env) (resp_body c) (int HTTP_BUFSZ)\<rparr>"

definition kitserv_api_send_file :: "kitserv_client \<Rightarrow> int \<Rightarrow> int \<Rightarrow> os \<Rightarrow> int \<times> kitserv_client \<times> os" where
  "kitserv_api_send_file c fd filesize w =
     (let w = (if resp_fd (ta c) > 0 then w\<lparr>os_fds := remove1 (resp_fd (ta c)) (os_fds w)\<rparr> else w);
          c = c\<lparr>ta := (ta c)\<lparr>resp_fd := fd, resp_body_pos := 0\<rparr>\<rparr>;
          c = (if fd \<noteq> KITSERV_FD_DISABLE then c\<lparr>ta := (ta c)\<lparr>resp_body_end := filesize - 1\<rparr>\<rparr> else c)
      in (0, c, w))"

definition kitserv_api_set_send_range :: "kitserv_client \<Rightarrow> int \<Rightarrow> int \<Rightarrow> os \<Rightarrow> int \<times> kitserv_client \<times> os" where
  "kitserv_api_set_send_range c from to_pos w =
     (if from < 0 \<or> to_pos < 0 then (-1, c, w\<lparr>os_errno := EINVAL\<rparr>)
      else (0, c\<lparr>ta := (ta c)\<lparr>resp_body_pos := from, resp_body_end := to_pos\<rparr>\<rparr>, w))"

definition kitserv_api_set_preserve_headers_on_error :: "kitserv_client \<Rightarrow> bool \<Rightarrow> kitserv_client" where
  "kitserv_api_set_preserve_headers_on_error c preserve_enabled = c\<lparr>ta := (ta c)\<lparr>preserve_headers_on_error := preserve_enabled\<rparr>\<rparr>"

definition kitserv_api_set_preserve_body_on_error :: "kitserv_client \<Rightarrow> bool \<Rightarrow> kitserv_client" where
  "kitserv_api_set_preserve_body_on_error c preserve_enabled = c\<lparr>ta := (ta c)\<lparr>preserve_body_on_error := preserve_enabled\<rparr>\<rparr>"

definition kitserv_api_set_response_status :: "kitserv_client \<Rightarrow> http_status \<Rightarrow> kitserv_client" where
  "kitserv_api_set_response_status c status = c\<lparr>ta := (ta c)\<lparr>resp_status := status\<rparr>\<rparr>"

definition kitserv_api_save_state :: "kitserv_client \<Rightarrow> nat option \<Rightarrow> kitserv_client" where
  "kitserv_api_save_state c data = c\<lparr>ta := (ta c)\<lparr>api_internal_data := data\<rparr>\<rparr>"

section \<open>The payload as a stream\<close>

text \<open>
  What an endpoint has still to read: the buffered rest, then what arrives up to an error of
  the connection.
\<close>

fun arriving :: "rd_event list \<Rightarrow> string" where
  "arriving [] = []"
| "arriving (Chunk bs # evs) = bs @ arriving evs"
| "arriving (Block # evs) = arriving evs"
| "arriving (Err e # evs) = (if e = EAGAIN then arriving evs else [])"

definition buffered :: "kitserv_client \<Rightarrow> string" where
  "buffered c = take (nat (req_payload_len (ta c) - req_payload_pos (ta c)))
     (drop (nat (int (req_payload (ta c)) + req_payload_pos (ta c))) (req_headers c))"

definition payload_stream :: "kitserv_client \<Rightarrow> os \<Rightarrow> string" where
  "payload_stream c w = buffered c @ arriving (os_in w)"

definition payload_inside :: "kitserv_client \<Rightarrow> bool" where
  "payload_inside c \<longleftrightarrow> 0 \<le> req_payload_pos (ta c) \<and> req_payload_pos (ta c) \<le> req_payload_len (ta c) \<and>
     int (req_payload (ta c)) + req_payload_len (ta c) \<le> int (length (req_headers c))"

lemma sock_read_arriving: "sock_read n evs = (Inr bs, evs') \<Longrightarrow> 0 < n \<Longrightarrow> bs @ arriving evs' = arriving evs"
proof (induction n evs rule: sock_read.induct)
  case (2 n b evs)
  consider "b = []" | "b \<noteq> []" "length b \<le> n" | "b \<noteq> []" "n < length b" by linarith
  then show ?case
  proof cases
    case 1
    with "2.IH" "2.prems" show ?thesis by simp
  next
    case 2
    with "2.prems" show ?thesis by auto
  next
    case 3
    with "2.prems" have "bs = take n b" "evs' = Chunk (drop n b) # evs" by auto
    then show ?thesis by simp
  qed
qed (auto split: if_splits)

lemma sock_read_blocked: "sock_read n evs = (Inl EAGAIN, evs') \<Longrightarrow> arriving evs' = arriving evs"
  by (induction n evs rule: sock_read.induct) (auto split: if_splits)

text \<open>What the loop returns, unless the connection breaks.\<close>

lemma payload_loop_stream:
  "payload_loop c got n w = (rc, bytes, c', w') \<Longrightarrow> resp_status (ta c') \<noteq> HTTP_X_HANGUP \<Longrightarrow>
   bytes @ arriving (os_in w') = got @ arriving (os_in w) \<and> c' = c \<and> length bytes \<le> length got + n \<and>
   (rc = int (length bytes) \<or> rc = -1 \<and> bytes = []) \<and> (0 < n \<and> os_in w = [] \<longrightarrow> bytes = got \<and> os_errno w' = os_errno w)"
proof (induction c got n w rule: payload_loop.induct)
  case (1 c got n w)
  note step = payload_loop.simps [of c got n w]
  show ?case
  proof (cases "n = 0")
    case True
    with "1.prems"(1) show ?thesis by (auto simp: payload_loop.simps [of c got 0 w] Let_def)
  next
    case False
    obtain res evs where sr: "sock_read n (os_in w) = (res, evs)" by (cases "sock_read n (os_in w)")
    show ?thesis
    proof (cases res)
      case (Inl e)
      show ?thesis
      proof (cases "e = EAGAIN")
        case True
        with sr Inl have "arriving evs = arriving (os_in w)" by (auto intro: sock_read_blocked)
        moreover have "os_in w \<noteq> []" using sr Inl by auto
        ultimately show ?thesis using "1.prems" False sr Inl True by (auto simp: step Let_def split: if_splits)
      next
        case e: False
        with "1.prems" False sr Inl have "resp_status (ta c') = HTTP_X_HANGUP" by (auto simp: step Let_def)
        with "1.prems"(2) show ?thesis by simp
      qed
    next
      case (Inr bs)
      with sr False have a: "bs @ arriving evs = arriving (os_in w)" using sock_read_arriving [of n "os_in w" bs evs] by simp
      show ?thesis
      proof (cases bs)
        case Nil
        with a "1.prems" False sr Inr show ?thesis by (auto simp: step Let_def split: if_splits)
      next
        case (Cons b rest)
        have l: "length (b # rest) \<le> n" using sock_read_bytes [of n "os_in w" "b # rest" evs] sr Inr Cons by simp
        have ne: "os_in w \<noteq> []" using sr Inr Cons by auto
        have "payload_loop c (got @ b # rest) (n - length (b # rest)) (w\<lparr>os_in := evs\<rparr>) = (rc, bytes, c', w')"
          using "1.prems"(1) False sr Inr Cons by (simp add: step Let_def)
        from "1.IH" [OF refl False sr [symmetric] Inr Cons this "1.prems"(2)] a Cons l ne show ?thesis by auto
      qed
    qed
  qed
qed

section \<open>Properties\<close>

text \<open>
  C22: reading the payload loses and invents nothing: as long as the connection does not break,
  the bytes given to the endpoint followed by what it has still to read are what it had to
  read before, in order, across the buffered bytes and any number of calls; the result is
  the number of bytes, or -1 for none.
\<close>

theorem payload_is_a_stream:
  assumes "payload_inside c" "0 \<le> nbytes" "kitserv_api_read_payload c nbytes w = Some (rc, bytes, c', w')"
    "resp_status (ta c') \<noteq> HTTP_X_HANGUP"
  shows "bytes @ payload_stream c' w' = payload_stream c w \<and> payload_inside c' \<and>
    length bytes \<le> nat nbytes \<and> (rc = int (length bytes) \<or> rc = -1 \<and> bytes = [])"
proof -
  let ?rc = "req_payload_len (ta c) - req_payload_pos (ta c)" and ?from = "int (req_payload (ta c)) + req_payload_pos (ta c)"
  from assms(1) have i: "0 \<le> req_payload_pos (ta c)" "req_payload_pos (ta c) \<le> req_payload_len (ta c)"
    "int (req_payload (ta c)) + req_payload_len (ta c) \<le> int (length (req_headers c))" by (simp_all add: payload_inside_def)
  show ?thesis
  proof (cases "?rc > 0")
    case False
    with assms(3) have l: "payload_loop c [] (nat nbytes) w = (rc, bytes, c', w')" by (simp add: kitserv_api_read_payload_def)
    from payload_loop_stream [OF l assms(4)] False assms(1) show ?thesis by (auto simp: payload_stream_def buffered_def)
  next
    case True
    define n where "n = min nbytes ?rc"
    have n: "0 \<le> n" "n \<le> ?rc" "n \<le> nbytes" "?from + n \<le> int (length (req_headers c))" using True assms(2) i by (auto simp: n_def)
    let ?got = "take (nat n) (drop (nat ?from) (req_headers c))"
      and ?c = "c\<lparr>ta := (ta c)\<lparr>req_payload_pos := req_payload_pos (ta c) + n\<rparr>\<rparr>"
    have w: "(if nbytes > ?rc then ?rc else nbytes) = n" by (simp add: n_def)
    from assms(3) True n i(1) have l: "payload_loop ?c ?got (nat (nbytes - n)) w = (rc, bytes, c', w')"
      by (simp add: kitserv_api_read_payload_def Let_def w)
    note q = payload_loop_stream [OF l assms(4)]
    have c': "c' = ?c" using q by blast
    have s: "nat ?rc = nat n + nat (?rc - n)" "nat (int (req_payload (ta c)) + (req_payload_pos (ta c) + n)) = nat n + nat ?from"
      using n i by simp_all
    have d: "req_payload_len (ta c) - (req_payload_pos (ta c) + n) = ?rc - n" by simp
    have b: "?got @ buffered ?c = buffered c"
      unfolding buffered_def s(1) take_add drop_drop by (simp add: s(2) d)
    have "length ?got = nat n" using n i by simp
    with q n have "length bytes \<le> nat nbytes" by auto
    moreover have "bytes @ payload_stream c' w' = payload_stream c w" if "nat (nbytes - n) = 0 \<or> buffered ?c = []"
      using that
    proof
      assume "nat (nbytes - n) = 0"
      then have "bytes = ?got" "w' = w" using l by (simp_all add: payload_loop.simps Let_def)
      with b c' show ?thesis unfolding payload_stream_def by (metis append.assoc)
    next
      assume e: "buffered ?c = []"
      with q b c' show ?thesis unfolding payload_stream_def by simp
    qed
    moreover have "nat (nbytes - n) = 0 \<or> buffered ?c = []" using n d by (auto simp: n_def buffered_def min_def)
    moreover have "payload_inside c'" using assms(1) c' n by (auto simp: payload_inside_def)
    ultimately show ?thesis using q by blast
  qed
qed

definition payload_client :: kitserv_client where
  "payload_client = fresh_client\<lparr>req_headers := ''POST...abc'', ta := zero_ta\<lparr>req_payload := 7, req_payload_len := 3\<rparr>\<rparr>"

lemma payload_is_a_stream_witness:
  "\<exists>rc bytes c' w'. kitserv_api_read_payload payload_client 5 (quiet_os\<lparr>os_in := [Chunk ''defg'', Block]\<rparr>) = Some (rc, bytes, c', w') \<and>
    bytes @ payload_stream c' w' = ''abcdefg'' \<and> rc = 5"
proof -
  have r: "kitserv_api_read_payload payload_client 5 (quiet_os\<lparr>os_in := [Chunk ''defg'', Block]\<rparr>) =
    Some (5, ''abcde'', payload_client\<lparr>ta := (ta payload_client)\<lparr>req_payload_pos := 3\<rparr>\<rparr>, quiet_os\<lparr>os_in := [Chunk ''fg'', Block]\<rparr>)"
    by (simp add: kitserv_api_read_payload_def payload_client_def zero_ta_def payload_loop.simps quiet_os_def Let_def)
  have i: "payload_inside payload_client" by (simp add: payload_inside_def payload_client_def zero_ta_def)
  have h: "resp_status (ta (payload_client\<lparr>ta := (ta payload_client)\<lparr>req_payload_pos := 3\<rparr>\<rparr>)) \<noteq> HTTP_X_HANGUP"
    by (simp add: payload_client_def zero_ta_def)
  have "payload_stream payload_client (quiet_os\<lparr>os_in := [Chunk ''defg'', Block]\<rparr>) = ''abcdefg''"
    by (simp add: payload_stream_def buffered_def payload_client_def zero_ta_def quiet_os_def)
  with payload_is_a_stream [OF i _ r h] r show ?thesis by auto
qed

text \<open>
  An endpoint that reads on after the peer has closed its end is told -1 with \<^verbatim>\<open>errno\<close>
  as it was, so that a stale \<^verbatim>\<open>EAGAIN\<close> makes the end look like a pause.
\<close>

theorem payload_end_keeps_errno:
  assumes "req_payload_len (ta c) \<le> req_payload_pos (ta c)" "0 < nbytes" "os_in w = []"
  shows "kitserv_api_read_payload c nbytes w = Some (-1, [], c, w)"
  using assms by (simp add: kitserv_api_read_payload_def payload_loop.simps Let_def)

lemma payload_end_keeps_errno_witness:
  "kitserv_api_read_payload fresh_client 5 (quiet_os\<lparr>os_errno := EAGAIN\<rparr>) = Some (-1, [], fresh_client, quiet_os\<lparr>os_errno := EAGAIN\<rparr>)"
  by (rule payload_end_keeps_errno) (simp_all add: fresh_client_def zero_ta_def quiet_os_def)

text \<open>
  What an endpoint writes into a body that has room is appended, by a copy and by a format
  alike, and the number of bytes is returned.
\<close>

theorem write_body_appends:
  assumes "buffer_ok (resp_body c)" "b_len (resp_body c) + int (length s) < b_max (resp_body c)"
  shows "(\<exists>c'. kitserv_api_write_body env c s (int (length s)) w = Some (int (length s), c', w) \<and>
      contents (resp_body c') = contents (resp_body c) @ s \<and> buffer_ok (resp_body c') \<and> ta c' = ta c) \<and>
    (\<exists>c'. kitserv_api_write_body_fmt env c s s2 w = Some (int (length s), c', w) \<and>
      contents (resp_body c') = contents (resp_body c) @ s \<and> buffer_ok (resp_body c') \<and> ta c' = ta c)"
  using buffer_append_fits [OF assms, of "alloc_ok env"] buffer_appendva_fits [OF assms, of "alloc_ok env" s2]
  by (auto simp: kitserv_api_write_body_def kitserv_api_write_body_fmt_def)

lemma write_body_appends_witness:
  "(\<exists>c'. kitserv_api_write_body sample_env fresh_client ''hello'' (int (length ''hello'')) quiet_os = Some (int (length ''hello''), c', quiet_os) \<and>
      contents (resp_body c') = contents (resp_body fresh_client) @ ''hello'' \<and> buffer_ok (resp_body c') \<and> ta c' = ta fresh_client) \<and>
    (\<exists>c'. kitserv_api_write_body_fmt sample_env fresh_client ''hello'' [] quiet_os = Some (int (length ''hello''), c', quiet_os) \<and>
      contents (resp_body c') = contents (resp_body fresh_client) @ ''hello'' \<and> buffer_ok (resp_body c') \<and> ta c' = ta fresh_client)"
  by (rule write_body_appends) (simp_all add: fresh_client_def buffer_ok_def)

text \<open>
  C23: an endpoint that sends a file and names a range inside it gets just that: over a socket
  that keeps taking, the peer receives exactly the bytes of the range, as many as the
  content-length announces, and the file is closed.
\<close>

theorem sent_range_delivered:
  assumes "0 < fd" "int (length (content fd)) = filesize" "0 \<le> from" "from \<le> to_pos" "to_pos < filesize" "to_pos < 2 ^ 62"
    and "req_method (ta c) \<noteq> HTTP_HEAD" "taking w"
    and "kitserv_api_send_file c fd filesize w0 = (rc1, c1, w1)" "kitserv_api_set_send_range c1 from to_pos w1 = (rc2, c2, w2)"
  shows "\<exists>rc c' w'. kitserv_http_send_response_file content c2 w = (rc, c', w') \<and>
    os_out w' = os_out w @ take (nat (to_pos - from + 1)) (drop (nat from) (content fd)) \<and>
    response_length c2 = int (length (take (nat (to_pos - from + 1)) (drop (nat from) (content fd)))) \<and>
    os_fds w' = remove1 fd (os_fds w) \<and> resp_fd (ta c') = 0 \<and> state (ta c') = HTTP_STATE_DONE"
proof -
  have c2: "resp_fd (ta c2) = fd" "resp_body_pos (ta c2) = from" "resp_body_end (ta c2) = to_pos" "req_method (ta c2) = req_method (ta c)"
    using assms(3,4,9,10) by (auto simp: kitserv_api_send_file_def kitserv_api_set_send_range_def Let_def split: if_splits)
  have e: "to_pos < int (length (content fd))" using assms(2,5) by simp
  from sendfile_whole [OF assms(8,3,4) _ assms(6), where content = content and fd = fd, OF e] obtain n w' where
    l: "sendfile_loop content fd from to_pos w = (n, to_pos + 1, w')" "os_fds w' = os_fds w"
      "os_out w' = os_out w @ take (nat (to_pos - from + 1)) (drop (nat from) (content fd))" by metis
  have len: "response_length c2 = int (length (take (nat (to_pos - from + 1)) (drop (nat from) (content fd))))"
    using c2 assms(1,3,4) e by (simp add: response_length_def)
  from l c2 assms(1,7) show ?thesis unfolding len
    by (auto simp: kitserv_http_send_response_file_def Let_def close_fd_to_zero_def)
qed

lemma sent_range_delivered_witness:
  "\<exists>rc c' w'. kitserv_http_send_response_file (\<lambda>fd. ''0123456789'')
      (fst (snd (kitserv_api_set_send_range (fst (snd (kitserv_api_send_file fresh_client 7 10 quiet_os))) 2 4 quiet_os)))
      (quiet_os\<lparr>os_wr := [Takes 1], os_fds := [7]\<rparr>) = (rc, c', w') \<and> os_out w' = ''234''"
proof -
  define c1 where "c1 = fst (snd (kitserv_api_send_file fresh_client 7 10 quiet_os))"
  define c2 where "c2 = fst (snd (kitserv_api_set_send_range c1 2 4 quiet_os))"
  have s: "kitserv_api_send_file fresh_client 7 10 quiet_os = (0, c1, quiet_os)"
    by (simp add: c1_def kitserv_api_send_file_def fresh_client_def zero_ta_def Let_def)
  have r: "kitserv_api_set_send_range c1 2 4 quiet_os = (0, c2, quiet_os)"
    by (simp add: c2_def kitserv_api_set_send_range_def)
  have m: "req_method (ta fresh_client) \<noteq> HTTP_HEAD" by (simp add: fresh_client_def zero_ta_def)
  have t: "taking (quiet_os\<lparr>os_wr := [Takes 1], os_fds := [7]\<rparr>)" by (simp add: taking_def)
  from sent_range_delivered [of 7 "\<lambda>fd. ''0123456789''" 10 2 4, OF _ _ _ _ _ _ m t s r] show ?thesis
    unfolding c1_def [symmetric] c2_def [symmetric] by (auto simp: quiet_os_def)
qed

text \<open>
  A range that starts behind the end of the body is accepted all the same; the length
  announced is then negative, and what is sent reaches outside the body.
\<close>

theorem range_beyond_body_accepted:
  assumes "resp_fd (ta c) = 0" "req_method (ta c) \<noteq> HTTP_HEAD" "buffer_ok (resp_body c)"
    and "b_len (resp_body c) < from" "from < 2 ^ 62" "0 \<le> to_pos"
  shows "\<exists>c'. kitserv_api_set_send_range c from to_pos w = (0, c', w) \<and> response_length c' < 0 \<and>
    response_bytes (set_bases c') = None"
proof -
  let ?c = "c\<lparr>ta := (ta c)\<lparr>resp_body_pos := from, resp_body_end := to_pos\<rparr>\<rparr>"
  have b: "0 \<le> b_len (resp_body c)" "length (b_buf (resp_body c)) < 2 ^ 63"
    using assms(3) by (auto simp: buffer_ok_def)
  have "2 ^ 63 \<le> size_t_of (b_len (resp_body c) - from)" by (rule size_t_of_negative) (use b(1) assms(4,5) in simp_all)
  then have "vec_bytes (b_buf (resp_body c)) \<lparr>iov_base = nat from, iov_len = size_t_of (b_len (resp_body c) - from)\<rparr> = None"
    using b(2) by (simp add: vec_bytes_def)
  then have n: "vec_bytes (b_buf (resp_body (set_bases ?c))) (resp_buf2 (ta (set_bases ?c))) = None"
    using assms(1,2) by (simp add: set_bases_def Let_def)
  have "response_bytes (set_bases ?c) = None" unfolding response_bytes_def n by (simp split: Option.bind_splits)
  with assms(1,4,6) b(1) show ?thesis
    by (intro exI [of _ ?c]) (simp add: kitserv_api_set_send_range_def response_length_def)
qed

lemma range_beyond_body_accepted_witness:
  "\<exists>c'. kitserv_api_set_send_range fresh_client 1 1 quiet_os = (0, c', quiet_os) \<and> response_length c' < 0 \<and>
    response_bytes (set_bases c') = None"
  by (rule range_beyond_body_accepted)
    (simp_all add: fresh_client_def zero_ta_def buffer_ok_def)

end
