(* ===== verification/Application.thy ===== *)
theory Application
  imports Static_Stream Api
begin

text \<open>
  A server with an API: what is sent on a connection when some requests are answered by the
  endpoints of an application and the others from the files. The endpoints are a parameter;
  \<open>endpoints_answer\<close> is what is asked of them: called with a request, an endpoint writes a
  status, headers and a body, which may depend on the request, and leaves the rest of the
  client alone. The documented routing then decides who answers.
\<close>

section \<open>The specification\<close>

record endpoint_reply =
  er_status :: http_status
  er_headers :: string
  er_body :: string

definition refusal_reply :: "env \<Rightarrow> request \<Rightarrow> http_status \<Rightarrow> string \<Rightarrow> reply" where
  "refusal_reply env rq s h = (refusal_bytes rq s h False, log_of env s (target_path rq), False)"

definition endpoint_says :: "env \<Rightarrow> request \<Rightarrow> endpoint_reply \<Rightarrow> reply" where
  "endpoint_says env rq r =
     (if status_is_error (er_status r) then refusal_reply env rq (er_status r) []
      else (get_version_string (rq_version rq) @ get_status_string (er_status r) @ er_headers r @
              closing_headers (int (length (er_body r))) @ (if rq_method rq = HTTP_HEAD then [] else er_body r),
            log_of env (er_status r) (target_path rq), rq_version rq = HTTP_1_1))"

definition allow_line :: "http_method \<Rightarrow> string" where
  "allow_line fl = ''allow: '' @ join '', '' (allow_list fl) @ CRLF"

definition route_path :: "request \<Rightarrow> string" where
  "route_path rq = dropWhile (\<lambda>x. x = CHR ''/'') (target_path rq)"

definition app_reply :: "env \<Rightarrow> (int \<Rightarrow> string) \<Rightarrow> (nat \<Rightarrow> request \<Rightarrow> endpoint_reply) \<Rightarrow> request \<Rightarrow> reply" where
  "app_reply env content f rq =
     (case api_tree env of
        None \<Rightarrow> static_reply env content rq
      | Some tree \<Rightarrow>
          (case doc_route (rq_method rq) tree (route_path rq) of
             Hit h \<Rightarrow> endpoint_says env rq (f h rq)
           | Wrong_Method fl \<Rightarrow> refusal_reply env rq HTTP_405_METHOD_NOT_ALLOWED (allow_line fl)
           | No_Match \<Rightarrow> static_reply env content rq))"

text \<open>How much of a reply goes out before the file, if there is one.\<close>

definition app_head :: "env \<Rightarrow> (int \<Rightarrow> string) \<Rightarrow> (nat \<Rightarrow> request \<Rightarrow> endpoint_reply) \<Rightarrow> request \<Rightarrow> nat" where
  "app_head env content f rq =
     (case api_tree env of
        None \<Rightarrow> static_head env rq
      | Some tree \<Rightarrow>
          (case doc_route (rq_method rq) tree (route_path rq) of
             No_Match \<Rightarrow> static_head env rq
           | _ \<Rightarrow> length (fst (app_reply env content f rq))))"

text \<open>The requests for whose paths the search does what is documented.\<close>

definition routable :: "env \<Rightarrow> request \<Rightarrow> bool" where
  "routable env rq \<longleftrightarrow> (case api_tree env of None \<Rightarrow> True | Some tree \<Rightarrow> clear_path tree (route_path rq))"

text \<open>What an endpoint is asked to do, and for which client it is called.\<close>

definition called :: "nat \<Rightarrow> request \<Rightarrow> string \<Rightarrow> kitserv_client \<Rightarrow> bool" where
  "called h rq rest c \<longleftrightarrow> (\<exists>c0 fl. received rq rest c0 \<and>
     c = c0\<lparr>ta := (ta c0)\<lparr>api_allow_flags := fl, api_endpoint_hit := Some h\<rparr>\<rparr>)"

definition wrote :: "endpoint_reply \<Rightarrow> kitserv_client \<Rightarrow> kitserv_client \<Rightarrow> bool" where
  "wrote r c c' \<longleftrightarrow> request_part c' = request_part c \<and> memory_ok c' \<and> resp_fd (ta c') = 0 \<and> resp_body_pos (ta c') = 0 \<and>
     resp_status (ta c') = er_status r \<and> hdr_content c' = er_headers r \<and> contents (resp_body c') = er_body r"

definition reply_ok :: "endpoint_reply \<Rightarrow> bool" where
  "reply_ok r \<longleftrightarrow> status_code (er_status r) \<noteq> 0 \<and> er_status r \<noteq> HTTP_X_HANGUP \<and> er_status r \<noteq> HTTP_405_METHOD_NOT_ALLOWED \<and>
     length (er_headers r) \<le> 1000 \<and> length (er_body r) \<le> HTTP_BUFSZ"

definition endpoints_answer :: "env \<Rightarrow> (nat \<Rightarrow> request \<Rightarrow> endpoint_reply) \<Rightarrow> bool" where
  "endpoints_answer env f \<longleftrightarrow> (\<forall>h rq rest c w. called h rq rest c \<and> os_errno w \<noteq> EACCES \<longrightarrow> reply_ok (f h rq) \<and>
     (\<exists>c' w'. call_handler env h None c w = Some (c', w') \<and> wrote (f h rq) c c' \<and> os_same w w' \<and> os_errno w' \<noteq> EACCES))"

definition app_ready :: "env \<Rightarrow> (int \<Rightarrow> string) \<Rightarrow> (nat \<Rightarrow> request \<Rightarrow> endpoint_reply) \<Rightarrow> bool" where
  "app_ready env content f \<longleftrightarrow> tidy_files env content \<and>
     (case api_tree env of None \<Rightarrow> True | Some tree \<Rightarrow> proper_tree tree \<and> endpoints_answer env f)"

section \<open>Who answers\<close>

lemma methods_at_allow:
  "\<forall>e \<in> set es. emethod e = 0 \<or> allow_list (emethod e) \<noteq> [] \<Longrightarrow> methods_at s es \<noteq> 0 \<Longrightarrow> allow_list (methods_at s es) \<noteq> []"
proof (induction es)
  case (Cons e es)
  show ?case
  proof (cases "entry_matches s e")
    case True
    then have m: "methods_at s (e # es) = emethod e OR methods_at s es" by (simp add: methods_at_def)
    show ?thesis
    proof (cases "emethod e = 0")
      case True
      with m Cons show ?thesis by simp
    next
      case False
      with Cons.prems(1) allow_list_or [of "emethod e"] show ?thesis unfolding m by simp
    qed
  next
    case False
    then have "methods_at s (e # es) = methods_at s es" by (simp add: methods_at_def)
    with Cons show ?thesis by simp
  qed
qed (simp add: methods_at_def)

lemma level_method_allow:
  assumes "proper_tree tree" "level_route m tree s = Wrong_Method fl"
  shows "allow_list fl \<noteq> []"
proof -
  have leaf: "allow_list fl \<noteq> []" if t: "t \<in> set (subtrees tree)" "level_route m t s' = Wrong_Method fl" for t s'
  proof -
    have "subtrees t = []" "\<forall>e \<in> set (entries t). emethod e = 0 \<or> allow_list (emethod e) \<noteq> []"
      using assms(1) t(1) by (simp_all add: proper_tree_def)
    with t(2) methods_at_allow show ?thesis by (auto simp: level_route.simps [of m t s'] split: option.splits if_splits)
  qed
  have "\<forall>e \<in> set (entries tree). emethod e = 0 \<or> allow_list (emethod e) \<noteq> []" using assms(1) by (simp add: proper_tree_def)
  with assms(2) methods_at_allow show ?thesis
    by (auto simp: level_route.simps [of m tree s] split: option.splits if_splits dest!: find_in leaf)
qed

lemma wrong_method_allow:
  assumes "proper_tree tree" "clear_path tree s" "doc_route m tree s = Wrong_Method fl"
  shows "allow_list fl \<noteq> []"
proof -
  have "\<forall>t \<in> set (subtrees tree). subtrees t = []" using assms(1) by (simp add: proper_tree_def)
  from level_route_documented [OF this assms(2), of m] assms(3) have "level_route m tree s = Wrong_Method fl" by simp
  from level_method_allow [OF assms(1) this] show ?thesis .
qed

text \<open>The search starts behind the slashes of the path.\<close>

lemma received_routed:
  assumes "received rq rest c" "api_tree env = Some tree" "proper_tree tree" "routable env rq"
  obtains p q out where "req_path (ta c) = Some p" "q = scan_until (\<lambda>x. x \<noteq> CHR ''/'') (req_headers c) p"
    "\<exists>x. peek (req_headers c) q = Some x" "parse_api_tree tree c q tree = Some out"
    "route_result c (doc_route (rq_method rq) tree (route_path rq)) out"
proof -
  have a: "asked rq c" and i: "api_allow_flags (ta c) = 0" "api_endpoint_hit (ta c) = None"
    using assms(1) by (simp_all add: received_def asked_def)
  from asked_strings(3) [OF a] obtain p where p: "req_path (ta c) = Some p" "cstr (req_headers c) p = Some (target_path rq)" by blast
  let ?q = "scan_until (\<lambda>x. x \<noteq> CHR ''/'') (req_headers c) p"
  have q: "?q = p + length (takeWhile (\<lambda>x. x = CHR ''/'') (target_path rq))"
    using scan_cstr [OF p(2), of "\<lambda>x. x \<noteq> CHR ''/''"] by simp
  have s: "cstr (req_headers c) ?q = Some (route_path rq)"
    using cstr_drop [OF p(2)] unfolding q by (simp add: route_path_def length_takeWhile_le dropWhile_eq_drop)
  have "\<forall>t \<in> set (subtrees tree). subtrees t = []" "clear_path tree (route_path rq)"
    using assms(2-4) by (simp_all add: proper_tree_def routable_def)
  from routing_documented [OF s i this] asked_strings(1) [OF a] obtain out where
    "parse_api_tree tree c ?q tree = Some out" "route_result c (doc_route (rq_method rq) tree (route_path rq)) out" by auto
  with that [OF p(1) refl] cstr_next [OF s] show thesis by blast
qed

section \<open>They answer\<close>

lemma replied_same: "os_same w w' \<Longrightarrow> replied env content w' rest es rd rep = replied env content w rest es rd rep"
proof -
  assume "os_same w w'"
  note io = os_sameD [OF this]
  show ?thesis unfolding replied_def io ..
qed

text \<open>The bytes of what an endpoint has written, and of the refusal when the method is wrong.\<close>

lemma written_in_memory:
  assumes c: "called h rq rest c" and r: "reply_ok r" and wr: "wrote r c c'"
  shows "in_memory c'" "log_path env c' = Some (target_path rq)" "payload_ok c'"
    "unread c' = rest"
    "endpoint_says env rq r = (outcome c', log_of env (resp_status (ta c')) (target_path rq),
       \<not> status_is_error (resp_status (ta c')) \<and> req_version (ta c') = HTTP_1_1)"
proof -
  obtain c0 fl where c0: "received rq rest c0" "c = c0\<lparr>ta := (ta c0)\<lparr>api_allow_flags := fl, api_endpoint_hit := Some h\<rparr>\<rparr>"
    using c by (auto simp: called_def)
  have a: "asked rq c0" and i: "idle c0" and rd: "request_ready c0" using c0(1) by (simp_all add: received_def)
  define g where "g c = (req_headers c, req_path (ta c), req_version (ta c), req_method (ta c), req_payload (ta c),
    req_payload_pos (ta c), req_payload_len (ta c), preserve_headers_on_error (ta c), preserve_body_on_error (ta c))" for c :: kitserv_client
  have "g (request_part c) = g c" for c by (simp add: g_def request_part_def)
  then have "g c' = g c" using wr unfolding wrote_def by metis
  then have g: "req_headers c' = req_headers c0" "req_path (ta c') = req_path (ta c0)" "req_version (ta c') = rq_version rq"
    "req_method (ta c') = rq_method rq" "req_payload (ta c') = req_payload (ta c0)" "req_payload_pos (ta c') = req_payload_pos (ta c0)" "\<not> preserve_headers_on_error (ta c')"
    "\<not> preserve_body_on_error (ta c')" "payload_ok c' = payload_ok c0"
    using c0(2) a i asked_strings(1,2) [OF a] by (simp_all add: g_def asked_def idle_def payload_ok_def)
  from asked_strings(3) [OF a] obtain p where p: "req_path (ta c0) = Some p" "cstr (req_headers c0) p = Some (target_path rq)" by blast
  have l: "length (target_path rq) \<le> 4083" using request_static_ready(3) [OF i rd] p by auto
  from wr r have s: "resp_status (ta c') = er_status r" "er_status r \<noteq> HTTP_405_METHOD_NOT_ALLOWED" "resp_fd (ta c') = 0"
    "hdr_content c' = er_headers r" "contents (resp_body c') = er_body r" by (simp_all add: wrote_def reply_ok_def)
  show "in_memory c'" using wr r g p l s
    by (simp add: wrote_def reply_ok_def in_memory_def error_ready_def)
  show "log_path env c' = Some (target_path rq)" using g p by (simp add: log_path_def)
  show "payload_ok c'" using g request_static_ready(2) [OF i rd] by simp
  show "unread c' = rest" using g received_unread [OF c0(1)] by (simp add: unread_def)
  have "error_body c' = refusal_text rq (er_status r)" "error_allow c' = []"
    using s g p by (simp_all add: error_body_def error_path_def refusal_text_def error_allow_def)
  then show "endpoint_says env rq r = (outcome c', log_of env (resp_status (ta c')) (target_path rq),
       \<not> status_is_error (resp_status (ta c')) \<and> req_version (ta c') = HTTP_1_1)"
    using s g by (simp add: endpoint_says_def refusal_reply_def refusal_bytes_def outcome_def head_lines_def body_bytes_def start_line_def)
qed

lemma wrong_method_in_memory:
  assumes r: "received rq rest c" and fl: "allow_list fl \<noteq> []"
  defines "c' \<equiv> set_status HTTP_405_METHOD_NOT_ALLOWED (c\<lparr>ta := (ta c)\<lparr>api_allow_flags := fl\<rparr>\<rparr>)"
  shows "in_memory c'" "log_path env c' = Some (target_path rq)"
    "refusal_reply env rq HTTP_405_METHOD_NOT_ALLOWED (allow_line fl) = (outcome c', log_of env HTTP_405_METHOD_NOT_ALLOWED (target_path rq), False)"
proof -
  have a: "asked rq c" and i: "idle c" using r by (simp_all add: received_def)
  have z: "fl \<noteq> 0" using fl by (auto simp: allow_list_def)
  from asked_strings(3) [OF a] obtain p where p: "req_path (ta c) = Some p" "cstr (req_headers c) p = Some (target_path rq)" by blast
  have "hdr_content c' = []" using a by (simp add: c'_def asked_def hdr_content_def)
  then show "in_memory c'" using i a fl
    by (simp add: c'_def in_memory_def error_ready_def idle_def asked_def memory_ok_def hdr_ok_def body_ok_def contents_def)
  show "log_path env c' = Some (target_path rq)" using p by (simp add: c'_def log_path_def)
  show "refusal_reply env rq HTTP_405_METHOD_NOT_ALLOWED (allow_line fl) =
      (outcome c', log_of env HTTP_405_METHOD_NOT_ALLOWED (target_path rq), False)"
    using asked_strings(1,2) [OF a] z
    by (simp add: c'_def refusal_reply_def refusal_bytes_def outcome_def head_lines_def body_bytes_def start_line_def status_is_error_def
        error_body_def error_allow_def allow_line_def refusal_text_def)
qed

text \<open>The reply to a request that has been received.\<close>

lemma application_serves:
  assumes ok: "app_ready env content f" and fit: "routable env rq" and r: "received rq rest c" and w: "os_errno w \<noteq> EACCES"
    and g: "gone_out (app_head env content f rq) (length (fst (app_reply env content f rq)) - app_head env content f rq) (os_wr w) = Some es"
  shows "replied env content w rest es (at_serve env content c w) (app_reply env content f rq)"
proof (cases "api_tree env")
  case None
  with attended_serve [OF _ r w] ok g show ?thesis by (simp add: tidy_def app_ready_def app_reply_def app_head_def)
next
  case (Some tree)
  from ok Some have t: "proper_tree tree" "endpoints_answer env f" "tidy_files env content" by (simp_all add: app_ready_def)
  have i: "asked rq c" "api_allow_flags (ta c) = 0" "api_endpoint_hit (ta c) = None" "api_internal_data (ta c) = None"
    using r by (simp_all add: received_def asked_def)
  obtain p q rc c1 where q: "req_path (ta c) = Some p" "q = scan_until (\<lambda>x. x \<noteq> CHR ''/'') (req_headers c) p"
    "\<exists>x. peek (req_headers c) q = Some x" "parse_api_tree tree c q tree = Some (rc, c1)"
    "route_result c (doc_route (rq_method rq) tree (route_path rq)) (rc, c1)"
    by (rule received_routed [OF r Some t(1) fit]) auto
  from q(3) obtain x where x: "peek (req_headers c) q = Some x" by blast
  have srv: "kitserv_http_serve_request env c w = (if rc \<noteq> 0 then Some (to_prepare c1 w) else serve_endpoint env c1 w)"
    using i(2-4) Some by (simp add: kitserv_http_serve_request_def Let_def q(1,4) q(2) [symmetric] x)
  show ?thesis
  proof (cases "doc_route (rq_method rq) tree (route_path rq)")
    case (Hit h)
    with q(5) obtain fl where c1: "rc = 0" "c1 = c\<lparr>ta := (ta c)\<lparr>api_allow_flags := fl, api_endpoint_hit := Some h\<rparr>\<rparr>"
      by (auto simp: route_result_def)
    with r have cl: "called h rq rest c1" by (auto simp: called_def)
    with t(2) w obtain c2 w2 where e: "reply_ok (f h rq)" "call_handler env h None c1 w = Some (c2, w2)" "wrote (f h rq) c1 c2"
      "os_same w w2" "os_errno w2 \<noteq> EACCES" unfolding endpoints_answer_def by blast
    note m = written_in_memory [OF cl e(1,3)]
    let ?c = "set_state HTTP_STATE_PREPARE_RESPONSE c2"
    have "status_code (resp_status (ta c2)) \<noteq> 0" using e(1,3) by (simp add: wrote_def reply_ok_def)
    then have "at_serve env content c w = at_prepare env content ?c w2"
      using srv c1 e(2) i(4) by (simp add: at_serve_def serve_endpoint_def to_prepare_def)
    also have "\<dots> = at_prepare env content c2 w2" by (simp add: at_prepare_def)
    finally have at: "at_serve env content c w = at_prepare env content c2 w2" .
    have "taken_whole (length (outcome c2)) (os_wr w2) = Some es"
      using g m(5) [of env] os_sameD [OF e(4)] by (simp add: app_head_def app_reply_def Some Hit)
    from memory_replied [OF m(1,2) this e(5) m(3), of env content] m(4) m(5) [of env] at replied_same [OF e(4)]
    show ?thesis by (simp add: app_reply_def Some Hit)
  next
    case (Wrong_Method fl)
    let ?c = "set_status HTTP_405_METHOD_NOT_ALLOWED (c\<lparr>ta := (ta c)\<lparr>api_allow_flags := fl\<rparr>\<rparr>)"
    from Wrong_Method q(5) have c1: "rc = -1" "c1 = ?c" by (simp_all add: route_result_def)
    have "clear_path tree (route_path rq)" using fit Some by (simp add: routable_def)
    note m = wrong_method_in_memory [OF r wrong_method_allow [OF t(1) this Wrong_Method]]
    have "at_serve env content c w = at_prepare env content (set_state HTTP_STATE_PREPARE_RESPONSE ?c) w"
      using srv c1 by (simp add: at_serve_def to_prepare_def)
    also have "\<dots> = at_prepare env content ?c w" by (simp add: at_prepare_def)
    finally have at: "at_serve env content c w = at_prepare env content ?c w" .
    have "taken_whole (length (outcome ?c)) (os_wr w) = Some es"
      using g m(3) [of env] by (simp add: app_head_def app_reply_def Some Wrong_Method)
    from memory_replied [OF m(1,2) this w, of env content] at show ?thesis using m(3) [of env]
      by (simp add: app_reply_def Some Wrong_Method replied_def status_is_error_def)
  next
    case No_Match
    with q(5) have c1: "rc = 0" "c1 = c" by (simp_all add: route_result_def)
    have "gone_out (static_head env rq) (static_file env content rq) (os_wr w) = Some es"
      using g by (simp add: app_head_def app_reply_def Some No_Match)
    from attended_static [OF t(3) r w this] obtain rc2 c2 w2 where
      h: "kitserv_http_handle_static_path env c w (target_path rq) None = Some (rc2, c2, w2)"
      "replied env content w rest es (at_prepare env content (set_state HTTP_STATE_PREPARE_RESPONSE c2) w2) (static_reply env content rq)" by blast
    from asked_strings(3) [OF i(1)] obtain p' where "req_path (ta c) = Some p'" "cstr (req_headers c) p' = Some (target_path rq)" by blast
    then have "at_serve env content c w = at_prepare env content (set_state HTTP_STATE_PREPARE_RESPONSE c2) w2"
      using srv c1 h(1) i(3) by (simp add: at_serve_def serve_endpoint_def serve_internal_def to_prepare_def)
    with h(2) show ?thesis by (simp add: app_reply_def Some No_Match)
  qed
qed

interpretation app: answering env content "\<lambda>rq. app_ready env content f \<and> routable env rq" "app_reply env content f" "app_head env content f" for env content f
  by unfold_locales (rule application_serves; simp)

section \<open>An application\<close>

text \<open>
  An endpoint, as an application would write it with the operations of \<^verbatim>\<open>src/api.c\<close>: it
  answers with the path it was asked for.
\<close>

definition echo_endpoint :: "env \<Rightarrow> kitserv_client \<Rightarrow> os \<Rightarrow> (kitserv_client \<times> os) ub" where
  "echo_endpoint env c w = do {
     p \<leftarrow> kitserv_api_get_request_path c;
     path \<leftarrow> cstr (req_headers c) p;
     (rc, c, e) \<leftarrow> kitserv_http_header_add_content_type c (os_errno w) ''text/plain'';
     (rc, c, w) \<leftarrow> kitserv_api_write_body env c path (int (length path)) (w\<lparr>os_errno := e\<rparr>);
     Some (kitserv_api_set_response_status c HTTP_200_OK, w) }"

definition echo_reply :: "nat \<Rightarrow> request \<Rightarrow> endpoint_reply" where
  "echo_reply h rq = \<lparr>er_status = HTTP_200_OK, er_headers = ''content-type: text/plain'' @ CRLF, er_body = target_path rq\<rparr>"

definition echo_site :: env where
  "echo_site = small_site\<lparr>api_tree := Some sample_tree, call_handler := (\<lambda>h d. echo_endpoint small_site)\<rparr>"

lemma echo_answers: "endpoints_answer echo_site echo_reply"
  unfolding endpoints_answer_def
proof (intro allI impI)
  fix h rq rest c and w :: os
  assume a: "called h rq rest c \<and> os_errno w \<noteq> EACCES"
  then obtain c0 fl where c0: "received rq rest c0" "c = c0\<lparr>ta := (ta c0)\<lparr>api_allow_flags := fl, api_endpoint_hit := Some h\<rparr>\<rparr>"
    by (auto simp: called_def)
  then have k: "asked rq c0" "idle c0" "request_ready c0" by (simp_all add: received_def)
  from asked_strings(3) [OF k(1)] obtain p where p: "req_path (ta c) = Some p" "cstr (req_headers c) p = Some (target_path rq)"
    using c0(2) by auto
  have l: "length (target_path rq) \<le> 4083" using request_static_ready(3) [OF k(2,3)] p c0(2) by auto
  have m: "memory_ok c" "hdr_content c = []" "b_len (resp_body c) = 0" "resp_fd (ta c) = 0" "resp_body_pos (ta c) = 0"
    using k(1,2) c0(2) by (auto simp: idle_def asked_def memory_ok_def hdr_ok_def body_ok_def hdr_content_def)
  then have b: "buffer_ok (resp_body c)" "4096 \<le> b_max (resp_body c)" "hdr_ok c" by (simp_all add: memory_ok_def body_ok_def)
  obtain x n where hd: "kitserv_http_header_add c (os_errno w) ''content-type'' ''text/plain'' = Some (0, hdr_set c x n, os_errno w)"
    "hdr_ok (hdr_set c x n)" "hdr_content (hdr_set c x n) = hdr_content c @ ''content-type'' @ '': '' @ ''text/plain'' @ CRLF"
    by (rule header_add_short [OF b(3), of "''content-type''" "''text/plain''" "os_errno w"]) (use m(2) in \<open>simp add: HTTP_BUFSZ_def\<close>)
  have "b_len (resp_body c) + int (length (target_path rq)) < b_max (resp_body c)" using l m(3) b(2) by simp
  from buffer_append_fits [OF b(1) this, of "alloc_ok small_site"] obtain bd where
    bd: "kitserv_buffer_append (alloc_ok small_site) (resp_body c) (target_path rq) (int (length (target_path rq))) = Some (0, bd)"
    "buffer_ok bd" "contents bd = contents (resp_body c) @ target_path rq" "b_max bd = b_max (resp_body c)" by blast
  let ?c = "kitserv_api_set_response_status ((hdr_set c x n)\<lparr>resp_body := bd\<rparr>) HTTP_200_OK"
  have w: "w\<lparr>os_errno := os_errno w\<rparr> = w" by simp
  have "echo_endpoint small_site c w = Some (?c, w)"
    using p hd(1) bd(1) by (simp add: echo_endpoint_def kitserv_api_get_request_path_def kitserv_http_header_add_content_type_def
        kitserv_api_write_body_def w)
  moreover have "wrote (echo_reply h rq) c ?c"
    using m b hd(2,3) bd(2-4)
    by (simp add: wrote_def echo_reply_def kitserv_api_set_response_status_def request_part_def memory_ok_def body_ok_def hdr_ok_def
        hdr_content_def contents_def)
  moreover have "reply_ok (echo_reply h rq)" using l by (simp add: reply_ok_def echo_reply_def HTTP_BUFSZ_def)
  ultimately show "reply_ok (echo_reply h rq) \<and>
      (\<exists>c' w'. call_handler echo_site h None c w = Some (c', w') \<and> wrote (echo_reply h rq) c c' \<and> os_same w w' \<and> os_errno w' \<noteq> EACCES)"
    using a by (auto simp: echo_site_def)
qed

lemma echo_ready: "app_ready echo_site sample_content echo_reply"
proof -
  have "tidy_files echo_site sample_content = tidy_files small_site sample_content"
    unfolding tidy_files_def echo_site_def by simp
  then have "tidy_files echo_site sample_content" using sample_server(1) by (simp add: tidy_def)
  moreover have "api_tree echo_site = Some sample_tree" by (simp add: echo_site_def)
  moreover have "proper_tree sample_tree" by code_simp
  ultimately show ?thesis using echo_answers by (simp add: app_ready_def)
qed

definition app_requests :: "request list" where
  "app_requests = [\<lparr>rq_method = HTTP_GET, rq_target = ''/api/get/me'', rq_query = Some ''x'', rq_version = HTTP_1_1, rq_fields = []\<rparr>,
     hd sample_requests,
     \<lparr>rq_method = HTTP_POST, rq_target = ''/login'', rq_query = None, rq_version = HTTP_1_1, rq_fields = []\<rparr>]"

lemma app_requests_plain: "list_all plain_request app_requests" "list_all (\<lambda>rq. length (print_request rq) \<le> HTTP_BUFSZ) app_requests"
  "list_all (routable echo_site) app_requests"
  by code_simp+

text \<open>What the example sends: the endpoint, a part of a file, and a method that is not allowed.\<close>

lemma app_routes:
  "doc_route HTTP_GET sample_tree (route_path (app_requests ! 0)) = Hit 1"
  "doc_route HTTP_GET sample_tree (route_path (app_requests ! 1)) = No_Match"
  "doc_route HTTP_POST sample_tree (route_path (app_requests ! 2)) = Wrong_Method HTTP_GET"
  by code_simp+

lemma app_sample_replies:
  "fst (app_reply echo_site sample_content echo_reply (app_requests ! 0)) =
     ''HTTP/1.1 200 OK'' @ CRLF @ ''content-type: text/plain'' @ CRLF @ ''content-length: 11'' @ CRLF @
     ''server: kitserv'' @ CRLF @ CRLF @ ''/api/get/me''"
  "fst (app_reply echo_site sample_content echo_reply (app_requests ! 2)) =
     ''HTTP/1.1 405 Method Not Allowed'' @ CRLF @ ''allow: GET, HEAD'' @ CRLF @ ''content-type: text/plain'' @ CRLF @
     ''content-length: 19'' @ CRLF @ ''server: kitserv'' @ CRLF @ CRLF @ ''Method not allowed.''"
  by code_simp+

text \<open>A socket that takes all of the first answer, and the second in four writes, the file in three of them.\<close>

definition app_writes :: "wr_event list" where
  "app_writes = [WBlock, Takes 500, Takes 190, WBlock, Takes 1, WBlock, Takes 1, Takes 1, WBlock]"

lemma echo_pick: "pick echo_site cs = pick small_site cs"
  by (induction cs) (auto simp: echo_site_def split: sum.splits)

lemma echo_plan_file: "plan_file echo_site rq f fs = plan_file small_site rq f fs"
proof -
  have e: "open_file echo_site = open_file small_site" "date echo_site = date small_site" "parse_date echo_site = parse_date small_site"
    by (simp_all add: echo_site_def)
  show ?thesis unfolding plan_file_def e ..
qed

lemma app_takes:
  "takes_all (goes_out (app_reply echo_site sample_content echo_reply) (app_head echo_site sample_content echo_reply)
     app_requests None) app_writes"
proof -
  let ?rp = "app_reply echo_site sample_content echo_reply" and ?hl = "app_head echo_site sample_content echo_reply"
  let ?a = "app_requests ! 0" and ?b = "app_requests ! 1" and ?c = "app_requests ! 2"
  have l: "app_requests = [?a, ?b, ?c]" by (simp add: app_requests_def)
  have m: "rq_method ?a = HTTP_GET" "rq_method ?b = HTTP_GET" "rq_method ?c = HTTP_POST" "rq_version ?a = HTTP_1_1" "?b = hd sample_requests"
    by (simp_all add: app_requests_def sample_requests_def)
  have t: "api_tree echo_site = Some sample_tree" by (simp add: echo_site_def)
  have len: "length (fst (?rp ?a)) = 93" unfolding app_sample_replies(1) by simp
  have "snd (snd (?rp ?a))"
    using m(1,4) app_routes(1) by (simp add: app_reply_def t endpoint_says_def echo_reply_def status_is_error_def)
  then obtain out l' where a: "?rp ?a = (out, l', True)" "length out = 93" using len by (cases "?rp ?a") simp
  have ha: "?hl ?a = 93" using len m(1) app_routes(1) by (simp add: app_head_def t)
  have d: "dec_int 3 = ''3''" by code_simp
  have v: "rq_version (hd sample_requests) = HTTP_1_1" by (simp add: sample_requests_def)
  have p: "plan echo_site (hd sample_requests) = plan small_site (hd sample_requests)"
  proof -
    have "default_context echo_site = default_context small_site" by (simp add: echo_site_def)
    then show ?thesis unfolding plan_def echo_pick echo_plan_file by simp
  qed
  have f: "file_part echo_site sample_content (Some (''/w//a.html'', 2, 4)) = ''234''" by code_simp
  have "static_head echo_site ?b = 190"
    unfolding m(5) by (simp add: static_head_def p sample_plans delivery_head_def v d closing_headers_def SERVER_NAME_def)
  then have hb: "?hl ?b = 190" using app_routes(2) m(2) by (simp add: app_head_def t)
  have "length (fst (static_reply echo_site sample_content ?b)) = 193" "snd (snd (static_reply echo_site sample_content ?b))"
    unfolding m(5) by (simp_all add: static_reply_def answer_def p sample_plans f v d closing_headers_def SERVER_NAME_def)
  then obtain out1 l1 where b: "?rp ?b = (out1, l1, True)" "length out1 = 193"
    using app_routes(2) m(2) by (cases "static_reply echo_site sample_content ?b") (auto simp: app_reply_def t)
  obtain out2 l2 where c: "?rp ?c = (out2, l2, False)"
    using app_routes(3) m(3) by (cases "?rp ?c") (simp add: app_reply_def t refusal_reply_def)
  show ?thesis by (subst l) (simp add: a ha b [unfolded One_nat_def] c hb [unfolded One_nat_def] gone_out_def app_writes_def)
qed

section \<open>Properties\<close>



end
