(* ===== verification/Endpoints.thy ===== *)
theory Endpoints
  imports Api Http_Serve_Safety
begin

text \<open>
  An endpoint that reads the payload the way \<^verbatim>\<open>include/kitserv.h\<close> says, and why it is one that
  the server can rely on (\<open>endpoints_behave\<close>): when the read would block it saves its state and
  returns without a status; otherwise it answers. At the end of the connection the read leaves
  \<^verbatim>\<open>errno\<close> as it was, so the endpoint has to clear it first.
\<close>

section \<open>Reading keeps the client in order\<close>

lemma payload_loop_keeps:
  "payload_loop c got n w = (rc, got', c', w') \<Longrightarrow>
     (c' = c \<or> c' = set_status HTTP_X_HANGUP c \<and> os_errno w' \<noteq> EAGAIN) \<and> in_size w' \<le> in_size w \<and> (calm w \<longrightarrow> calm w') \<and>
     (rc = -1 \<and> os_errno w' = EAGAIN \<and> os_errno w \<noteq> EAGAIN \<longrightarrow> \<not> calm w)"
proof (induction c got n w rule: payload_loop.induct)
  case (1 c got n w)
  note step = payload_loop.simps [of c got n w]
  obtain res evs where sr: "sock_read n (os_in w) = (res, evs)" by (cases "sock_read n (os_in w)")
  have cm: "calm w \<Longrightarrow> res \<noteq> Inl EAGAIN" using sock_read_calm [OF sr] by (simp add: calm_def)
  have io: "in_size x \<le> in_size w" "calm w \<longrightarrow> calm x" if "os_in x = evs" "os_wr x = os_wr w" for x
    using sock_read_size [OF sr] sock_read_calm [OF sr] taking_cong [OF that(2)] that(1) by (simp_all add: in_size_def calm_def)
  show ?case
  proof (cases "n = 0")
    case True
    with "1.prems" show ?thesis by (auto simp: payload_loop.simps [of c got 0 w])
  next
    case n: False
    show ?thesis
    proof (cases res)
      case (Inl e)
      let ?w = "w\<lparr>os_in := evs, os_errno := e\<rparr>"
      have w: "w' = ?w" "c' = (if e = EAGAIN then c else set_status HTTP_X_HANGUP c)"
        using "1.prems" n sr Inl by (simp_all add: step Let_def split: if_splits)
      have "in_size w' \<le> in_size w \<and> (calm w \<longrightarrow> calm w')" using io [of ?w] w(1) by simp
      moreover have "e = EAGAIN \<Longrightarrow> \<not> calm w" using cm Inl by blast
      ultimately show ?thesis using w by simp
    next
      case (Inr bs)
      let ?w = "w\<lparr>os_in := evs\<rparr>"
      have k: "in_size ?w \<le> in_size w" "calm w \<longrightarrow> calm ?w" using io [of ?w] by simp_all
      show ?thesis
      proof (cases bs)
        case Nil
        have w: "w' = ?w" "c' = c" using "1.prems" n sr Inr Nil by (simp_all add: step Let_def)
        then show ?thesis using k by simp
      next
        case (Cons b bs')
        have "payload_loop c (got @ b # bs') (n - length (b # bs')) ?w = (rc, got', c', w')"
          using "1.prems" n sr Inr Cons by (simp add: step)
        from "1.IH" [OF refl n sr [unfolded Inr Cons, symmetric] refl refl this] k show ?thesis by auto
      qed
    qed
  qed
qed

lemma read_payload_keeps:
  assumes "payload_ok c" "0 \<le> n" "os_errno w \<noteq> EAGAIN"
  obtains rc got pos c' w' where "kitserv_api_read_payload c n w = Some (rc, got, c', w')"
    "payload_ok (c\<lparr>ta := (ta c)\<lparr>req_payload_pos := pos\<rparr>\<rparr>)"
    "c' = c\<lparr>ta := (ta c)\<lparr>req_payload_pos := pos\<rparr>\<rparr> \<or>
     c' = set_status HTTP_X_HANGUP (c\<lparr>ta := (ta c)\<lparr>req_payload_pos := pos\<rparr>\<rparr>) \<and> os_errno w' \<noteq> EAGAIN"
    "in_size w' \<le> in_size w" "calm w \<longrightarrow> calm w'" "rc = -1 \<and> os_errno w' = EAGAIN \<longrightarrow> \<not> calm w"
proof -
  have "\<exists>pos got m. kitserv_api_read_payload c n w = Some (payload_loop (c\<lparr>ta := (ta c)\<lparr>req_payload_pos := pos\<rparr>\<rparr>) got m w) \<and>
      payload_ok (c\<lparr>ta := (ta c)\<lparr>req_payload_pos := pos\<rparr>\<rparr>)"
  proof (cases "req_payload_len (ta c) - req_payload_pos (ta c) > 0")
    case False
    with assms(1) show ?thesis
      by (intro exI [of _ "req_payload_pos (ta c)"] exI [of _ "[]"] exI [of _ "nat n"]) (simp add: kitserv_api_read_payload_def)
  next
    case True
    let ?rc = "req_payload_len (ta c) - req_payload_pos (ta c)"
    define k where "k = (if n > ?rc then ?rc else n)"
    have k: "0 \<le> k" "k \<le> ?rc" using assms(2) True by (simp_all add: k_def)
    from assms(1) k have p: "payload_ok (c\<lparr>ta := (ta c)\<lparr>req_payload_pos := req_payload_pos (ta c) + k\<rparr>\<rparr>)"
      "0 \<le> int (req_payload (ta c)) + req_payload_pos (ta c)"
      "int (req_payload (ta c)) + req_payload_pos (ta c) + k \<le> int (length (req_headers c))"
      by (auto simp: payload_ok_def)
    show ?thesis using True p k(1)
      by (intro exI [of _ "req_payload_pos (ta c) + k"] exI) (simp add: kitserv_api_read_payload_def Let_def flip: k_def)
  qed
  then obtain pos got m where r: "kitserv_api_read_payload c n w = Some (payload_loop (c\<lparr>ta := (ta c)\<lparr>req_payload_pos := pos\<rparr>\<rparr>) got m w)"
    "payload_ok (c\<lparr>ta := (ta c)\<lparr>req_payload_pos := pos\<rparr>\<rparr>)" by blast
  obtain rc got' c' w' where l: "payload_loop (c\<lparr>ta := (ta c)\<lparr>req_payload_pos := pos\<rparr>\<rparr>) got m w = (rc, got', c', w')"
    by (cases "payload_loop (c\<lparr>ta := (ta c)\<lparr>req_payload_pos := pos\<rparr>\<rparr>) got m w")
  from payload_loop_keeps [OF l] have k: "c' = c\<lparr>ta := (ta c)\<lparr>req_payload_pos := pos\<rparr>\<rparr> \<or>
     c' = set_status HTTP_X_HANGUP (c\<lparr>ta := (ta c)\<lparr>req_payload_pos := pos\<rparr>\<rparr>) \<and> os_errno w' \<noteq> EAGAIN"
    "in_size w' \<le> in_size w" "calm w \<longrightarrow> calm w'" "rc = -1 \<and> os_errno w' = EAGAIN \<longrightarrow> \<not> calm w" using assms(3) by blast+
  from r(1) l have "kitserv_api_read_payload c n w = Some (rc, got', c', w')" by simp
  from that [OF this r(2) k] show thesis .
qed

section \<open>The endpoint\<close>

definition upload_endpoint :: "kitserv_client \<Rightarrow> os \<Rightarrow> (kitserv_client \<times> os) ub" where
  "upload_endpoint c w = do {
     (rc, got, c, w) \<leftarrow> kitserv_api_read_payload c 1000 (w\<lparr>os_errno := ENONE\<rparr>);
     Some (if rc = -1 \<and> os_errno w = EAGAIN then (kitserv_api_save_state c (Some 1), w)
           else if resp_status (ta c) = HTTP_X_HANGUP then (c, w)
           else (kitserv_api_set_response_status c HTTP_204_NO_CONTENT, w)) }"

definition upload_env :: env where
  "upload_env = sample_env\<lparr>api_tree := Some sample_tree, call_handler := (\<lambda>h d. upload_endpoint)\<rparr>"

text \<open>A client in service is so wherever its payload has been read to, and whatever state is saved.\<close>

lemma in_service_read:
  assumes "in_service c" "payload_ok (c\<lparr>ta := (ta c)\<lparr>req_payload_pos := pos\<rparr>\<rparr>)"
  shows "in_service (c\<lparr>ta := (ta c)\<lparr>req_payload_pos := pos\<rparr>\<rparr>)"
    "in_service (kitserv_api_save_state (c\<lparr>ta := (ta c)\<lparr>req_payload_pos := pos\<rparr>\<rparr>) d)"
  using assms
  by (simp_all add: in_service_def in_front_def static_ready_def memory_ok_def hdr_ok_def body_ok_def payload_ok_def body_start_ok_def
      kitserv_api_save_state_def)

lemma answered_handled:
  assumes "in_service c" "s = HTTP_200_OK \<or> s = HTTP_204_NO_CONTENT" "in_size w' \<le> in_size w" "calm w \<longrightarrow> calm w'"
    and "sockfd c = sockfd c0" "length (req_headers c) = length (req_headers c0)"
  shows "handled c0 w (kitserv_api_set_response_status c s) w'"
  using assms
  by (auto simp: handled_def kitserv_api_set_response_status_def in_service_def in_front_def memory_ok_def hdr_ok_def body_ok_def error_ready_def
      path_seen_def body_start_ok_def payload_ok_def)

lemma upload_handled:
  assumes i: "in_service c" and st: "state (ta c) = HTTP_STATE_SERVE"
  shows "\<exists>c' w'. upload_endpoint c w = Some (c', w') \<and> handled c w c' w'"
proof -
  let ?w = "w\<lparr>os_errno := ENONE\<rparr>"
  have p: "payload_ok c" using i by (simp add: in_service_def in_front_def)
  obtain rc got pos c1 w1 where
    r: "kitserv_api_read_payload c 1000 ?w = Some (rc, got, c1, w1)" "payload_ok (c\<lparr>ta := (ta c)\<lparr>req_payload_pos := pos\<rparr>\<rparr>)"
      "c1 = c\<lparr>ta := (ta c)\<lparr>req_payload_pos := pos\<rparr>\<rparr> \<or>
       c1 = set_status HTTP_X_HANGUP (c\<lparr>ta := (ta c)\<lparr>req_payload_pos := pos\<rparr>\<rparr>) \<and> os_errno w1 \<noteq> EAGAIN"
      "in_size w1 \<le> in_size ?w" "calm ?w \<longrightarrow> calm w1" "rc = -1 \<and> os_errno w1 = EAGAIN \<longrightarrow> \<not> calm ?w"
    by (rule read_payload_keeps [OF p, of 1000 ?w]) simp_all
  let ?c = "c\<lparr>ta := (ta c)\<lparr>req_payload_pos := pos\<rparr>\<rparr>"
  have w: "in_size ?w = in_size w" "calm ?w = calm w" by (simp_all add: in_size_def calm_def taking_def)
  note s = in_service_read [OF i r(2)]
  have u: "resp_status (ta c) = HTTP_X_RESP_STATUS_UNSET" "body_ok c"
    using i by (simp_all add: in_service_def in_front_def static_ready_def memory_ok_def)
  consider (wait) "rc = -1" "os_errno w1 = EAGAIN" "c1 = ?c" | (answer) "\<not> (rc = -1 \<and> os_errno w1 = EAGAIN)" "c1 = ?c"
    | (gone) "os_errno w1 \<noteq> EAGAIN" "c1 = set_status HTTP_X_HANGUP ?c" using r(3) by blast
  then show ?thesis
  proof cases
    case wait
    then have "upload_endpoint c w = Some (kitserv_api_save_state ?c (Some 1), w1)" using r(1) by (simp add: upload_endpoint_def)
    moreover have "handled c w (kitserv_api_save_state ?c (Some 1)) w1"
      using wait r(4-6) w u st s(2) [of "Some 1"] by (simp add: handled_def) (simp add: kitserv_api_save_state_def body_ok_def)
    ultimately show ?thesis by blast
  next
    case answer
    then have "upload_endpoint c w = Some (kitserv_api_set_response_status ?c HTTP_204_NO_CONTENT, w1)" using r(1) u by (auto simp: upload_endpoint_def)
    moreover have "handled c w (kitserv_api_set_response_status ?c HTTP_204_NO_CONTENT) w1"
      by (rule answered_handled [OF s(1)]) (use r(4,5) w in simp_all)
    ultimately show ?thesis by blast
  next
    case gone
    then have "upload_endpoint c w = Some (set_status HTTP_X_HANGUP ?c, w1)" using r(1) by (simp add: upload_endpoint_def)
    moreover have "handled c w (set_status HTTP_X_HANGUP ?c) w1" using r(4,5) w u by (simp add: handled_def body_ok_def)
    ultimately show ?thesis by blast
  qed
qed

lemma upload_able: "able_server upload_env"
proof -
  have "proper_tree sample_tree" by code_simp
  with upload_handled sample_ready(1) show ?thesis
    by (simp add: able_server_def static_server_def upload_env_def endpoints_behave_def)
qed

end
