(* ===== verification/Sendfile_Emulation.thy ===== *)
theory Sendfile_Emulation
  imports Http_Send
begin

text \<open>
  The stand-in for \<^verbatim>\<open>sendfile\<close> on systems without it (\<open>sendfile_emulation\<close> of
  \<^verbatim>\<open>src/http.c\<close>), and how far it agrees with the call it stands for.
\<close>

definition SFE_BUFSZ :: nat where "SFE_BUFSZ = 4096"

text \<open>The inner loop: it writes the buffer from its start until one write takes all of it.\<close>

function write_all :: "string \<Rightarrow> os \<Rightarrow> int \<times> os" where
  "write_all buf w =
     (case os_put buf w of
        (sent, w) \<Rightarrow> if sent < 0 then (sent, w) else if sent < int (length buf) then write_all buf w else (sent, w))"
  by pat_completeness auto
termination
  by (relation "measure (\<lambda>(buf, w). length (os_wr w))") (auto dest!: sym [where t = "os_put _ _"] intro: os_put_less)

declare write_all.simps [simp del]

text \<open>
  The outer loop, with what is left to send; it need not end. The result is the number of
  bytes sent, or -1 for an error before any, with the new offset.
\<close>

definition sfe_result :: "nat \<Rightarrow> nat \<Rightarrow> int \<Rightarrow> os \<Rightarrow> int \<times> int \<times> os" where
  "sfe_result count remaining offset w =
     (if count - remaining > 0 then int (count - remaining) else -1, offset, w)"

partial_function (option) sfe_loop ::
    "(int \<Rightarrow> string) \<Rightarrow> int \<Rightarrow> nat \<Rightarrow> nat \<Rightarrow> int \<Rightarrow> os \<Rightarrow> (int \<times> int \<times> os) option" where
  "sfe_loop content in_fd count remaining offset w =
     (if offset < 0 then Some (sfe_result count remaining offset (w\<lparr>os_errno := EINVAL\<rparr>))
      else (case write_all (take (min SFE_BUFSZ remaining) (drop (nat offset) (content in_fd))) w of
          (sent, w) \<Rightarrow>
            if sent < 0 then Some (sfe_result count remaining offset w)
            else if remaining - nat sent > 0
                 then sfe_loop content in_fd count (remaining - nat sent) (offset + sent) w
                 else Some (int (count - (remaining - nat sent)), offset + sent, w)))"

definition sendfile_emulation :: "(int \<Rightarrow> string) \<Rightarrow> int \<Rightarrow> int \<Rightarrow> nat \<Rightarrow> os \<Rightarrow> (int \<times> int \<times> os) option" where
  "sendfile_emulation content in_fd offset count w =
     (let count = min count 0x7ffff000 in sfe_loop content in_fd count count offset w)"

section \<open>How it runs\<close>

lemma write_all_open: "os_wr w = [] \<Longrightarrow> write_all buf w = (int (length buf), w\<lparr>os_out := os_out w @ buf\<rparr>)"
  by (simp add: write_all.simps [of buf w] os_put_def)

lemma sfe_loop_open:
  "os_wr w = [] \<Longrightarrow> 0 \<le> offset \<Longrightarrow> nat offset + remaining \<le> length (content fd) \<Longrightarrow> remaining \<le> count \<Longrightarrow>
   sfe_loop content fd count remaining offset w =
     Some (int count, offset + int remaining, w\<lparr>os_out := os_out w @ take remaining (drop (nat offset) (content fd))\<rparr>)"
proof (induction remaining arbitrary: offset w rule: less_induct)
  case (less remaining)
  let ?n = "min SFE_BUFSZ remaining"
  let ?buf = "take ?n (drop (nat offset) (content fd))"
  have n: "length ?buf = ?n" using less.prems(3) by simp
  let ?w = "w\<lparr>os_out := os_out w @ ?buf\<rparr>"
  have step: "sfe_loop content fd count remaining offset w =
      (if remaining - ?n > 0 then sfe_loop content fd count (remaining - ?n) (offset + int ?n) ?w
       else Some (int (count - (remaining - ?n)), offset + int ?n, ?w))"
    using less.prems(1,2) write_all_open [OF less.prems(1), of ?buf] n by (simp add: sfe_loop.simps [of content fd count remaining])
  show ?case
  proof (cases "remaining - ?n > 0")
    case False
    then have "?n = remaining" by simp
    with step less.prems(4) show ?thesis by simp
  next
    case True
    then have e: "?n = SFE_BUFSZ" by simp
    have s: "SFE_BUFSZ > 0" by (simp add: SFE_BUFSZ_def)
    have o: "nat (offset + int SFE_BUFSZ) = SFE_BUFSZ + nat offset" using less.prems(2) by simp
    have "sfe_loop content fd count (remaining - ?n) (offset + int ?n) ?w =
        Some (int count, offset + int ?n + int (remaining - ?n),
          ?w\<lparr>os_out := os_out ?w @ take (remaining - ?n) (drop (nat (offset + int ?n)) (content fd))\<rparr>)"
      by (rule less.IH) (use True e s o less.prems in auto)
    moreover have "take remaining (drop (nat offset) (content fd)) =
        ?buf @ take (remaining - ?n) (drop (nat (offset + int ?n)) (content fd))"
      using take_add [of ?n "remaining - ?n" "drop (nat offset) (content fd)"] True e o by simp
    ultimately show ?thesis using step True e by simp
  qed
qed

text \<open>Nothing left in the file, and still something to send.\<close>

definition stuck :: "(int \<Rightarrow> string) \<Rightarrow> int \<Rightarrow> nat \<Rightarrow> int \<Rightarrow> os \<Rightarrow> bool" where
  "stuck content fd remaining offset w \<longleftrightarrow> os_wr w = [] \<and> 0 < remaining \<and> 0 \<le> offset \<and> length (content fd) \<le> nat offset"

lemma sfe_loop_stuck:
  assumes "sfe_loop content fd count remaining offset w = Some r"
  shows "\<not> stuck content fd remaining offset w"
proof (rule sfe_loop.raw_induct [of "\<lambda>content fd count remaining offset w r. \<not> stuck content fd remaining offset w", OF _ assms])
  fix loop and content :: "int \<Rightarrow> string" and fd count remaining offset w r
  assume ih: "\<And>content fd count remaining offset w r. loop content fd count remaining offset w = Some r \<Longrightarrow>
      \<not> stuck content fd remaining offset w"
    and run: "(if offset < 0 then Some (sfe_result count remaining offset (w\<lparr>os_errno := EINVAL\<rparr>))
      else (case write_all (take (min SFE_BUFSZ remaining) (drop (nat offset) (content fd))) w of
          (sent, w) \<Rightarrow>
            if sent < 0 then Some (sfe_result count remaining offset w)
            else if remaining - nat sent > 0
                 then loop content fd count (remaining - nat sent) (offset + sent) w
                 else Some (int (count - (remaining - nat sent)), offset + sent, w))) = Some r"
  show "\<not> stuck content fd remaining offset w"
  proof
    assume s: "stuck content fd remaining offset w"
    then have "write_all [] w = (0, w)" using write_all_open [of w "[]"] by (simp add: stuck_def)
    with run s have "loop content fd count remaining offset w = Some r" by (simp add: stuck_def)
    from ih [OF this] s show False by simp
  qed
qed

section \<open>Properties\<close>

text \<open>
  C33: over a socket that takes all it is given, and for a stretch inside the file, the
  stand-in does what \<^verbatim>\<open>sendfile\<close> does: the same bytes, the same result, the same offset.
\<close>

theorem emulation_agrees:
  assumes "os_wr w = []" "0 \<le> offset" "0 < count" "count \<le> 0x7ffff000" "nat offset + count \<le> length (content fd)"
  shows "sendfile_emulation content fd offset count w = Some (sendfile content fd offset count w)"
proof -
  have e: "take count (drop (nat offset) (content fd)) \<noteq> []" using assms(3,5) by simp
  have "length (take count (drop (nat offset) (content fd))) = count" using assms(5) by simp
  then have "sendfile content fd offset count w =
      (int count, offset + int count, w\<lparr>os_out := os_out w @ take count (drop (nat offset) (content fd))\<rparr>)"
    using assms(1-4) e by (simp add: sendfile_def os_put_def)
  moreover have "sendfile_emulation content fd offset count w =
      Some (int count, offset + int count, w\<lparr>os_out := os_out w @ take count (drop (nat offset) (content fd))\<rparr>)"
    using sfe_loop_open [OF assms(1,2), of count content fd count] assms(4,5) by (simp add: sendfile_emulation_def)
  ultimately show ?thesis by simp
qed

lemma emulation_agrees_witness:
  "sendfile_emulation (\<lambda>fd. ''0123456789'') 7 2 5 quiet_os = Some (sendfile (\<lambda>fd. ''0123456789'') 7 2 5 quiet_os)"
  by (rule emulation_agrees) (simp_all add: quiet_os_def)

text \<open>
  After a write that was cut short the stand-in sends the same buffer again from its
  start: the peer gets the first bytes twice, and the result does not show it.
\<close>

theorem emulation_repeats_bytes:
  assumes "os_wr w = [Takes n]" "0 < n" "n < count" "count \<le> SFE_BUFSZ" "0 \<le> offset" "nat offset + count \<le> length (content fd)"
  shows "sendfile_emulation content fd offset count w = Some (int count, offset + int count,
    w\<lparr>os_wr := [], os_out := os_out w @ take n (drop (nat offset) (content fd)) @ take count (drop (nat offset) (content fd))\<rparr>)"
proof -
  let ?buf = "take count (drop (nat offset) (content fd))"
  have l: "length ?buf = count" "?buf \<noteq> []" using assms(2,3,6) by auto
  have "write_all ?buf w = write_all ?buf (w\<lparr>os_wr := [], os_out := os_out w @ take n ?buf\<rparr>)"
    using assms(1-3) l by (simp add: write_all.simps [of ?buf w] os_put_def)
  also have "\<dots> = (int count, w\<lparr>os_wr := [], os_out := os_out w @ take n ?buf @ ?buf\<rparr>)"
    using write_all_open [of "w\<lparr>os_wr := [], os_out := os_out w @ take n ?buf\<rparr>" ?buf] l by simp
  finally have w: "write_all ?buf w = (int count, w\<lparr>os_wr := [], os_out := os_out w @ take n ?buf @ ?buf\<rparr>)" .
  have m: "min SFE_BUFSZ count = count" "min count 0x7ffff000 = count" using assms(4) by (simp_all add: SFE_BUFSZ_def)
  from assms(3,5) w m have "sfe_loop content fd count count offset w =
      Some (int count, offset + int count, w\<lparr>os_wr := [], os_out := os_out w @ take n ?buf @ ?buf\<rparr>)"
    by (simp add: sfe_loop.simps [of content fd count count])
  moreover have "take n ?buf = take n (drop (nat offset) (content fd))" using assms(3) by simp
  ultimately show ?thesis using m(2) by (simp add: sendfile_emulation_def)
qed

lemma emulation_repeats_bytes_witness:
  "\<exists>w'. sendfile_emulation (\<lambda>fd. ''0123456789'') 7 2 5 (quiet_os\<lparr>os_wr := [Takes 2]\<rparr>) = Some (5, 7, w') \<and> os_out w' = ''2323456''"
  using emulation_repeats_bytes [of "quiet_os\<lparr>os_wr := [Takes 2]\<rparr>" 2 5 2 "\<lambda>fd. ''0123456789''" 7]
  by (simp add: quiet_os_def SFE_BUFSZ_def)

text \<open>
  When the file ends before the stretch does (it was truncated after it was measured), the
  stand-in never returns, where \<^verbatim>\<open>sendfile\<close> returns 0.
\<close>

theorem emulation_hangs_at_end:
  assumes "os_wr w = []" "0 < count" "0 \<le> offset" "length (content fd) \<le> nat offset"
  shows "sendfile_emulation content fd offset count w = None \<and> sendfile content fd offset count w = (0, offset, w)"
proof -
  have "sfe_loop content fd (min count 0x7ffff000) (min count 0x7ffff000) offset w \<noteq> Some r" for r
    using sfe_loop_stuck [of content fd "min count 0x7ffff000" "min count 0x7ffff000" offset w r] assms
    by (auto simp: stuck_def)
  then have "sfe_loop content fd (min count 0x7ffff000) (min count 0x7ffff000) offset w = None" by blast
  with assms(3,4) show ?thesis by (simp add: sendfile_emulation_def sendfile_def os_put_def Let_def)
qed

lemma emulation_hangs_at_end_witness:
  "sendfile_emulation (\<lambda>fd. ''0123'') 7 4 5 quiet_os = None \<and> sendfile (\<lambda>fd. ''0123'') 7 4 5 quiet_os = (0, 4, quiet_os)"
  by (rule emulation_hangs_at_end) (simp_all add: quiet_os_def)

end
