(* ===== verification/Spec2Isabelle.thy ===== *)
theory Spec2Isabelle
  imports Program_Life Static_Paths Application Endpoints Sendfile_Emulation
begin

text \<open>
  Kitserv, an HTTP/1.1 server in C for static files and API endpoints.

  The program. \<^verbatim>\<open>src/main.c\<close> reads the command line and calls \<^verbatim>\<open>kitserv_server_start\<close>
  (\<^verbatim>\<open>src/kitserv.c\<close>), which binds the listening sockets (\<^verbatim>\<open>src/socket.c\<close>), starts worker
  threads, each with an array of connections and an epoll queue (\<^verbatim>\<open>src/queue.c\<close>), and
  accepter threads, which hand every new socket to the worker with the most free
  connections. A worker waits for edge-triggered events and calls
  \<^verbatim>\<open>kitserv_http_serve_client\<close> (\<^verbatim>\<open>src/http.c\<close>) for each; that runs the state machine of a
  transaction (read, serve, prepare the response, send, send a file) until a call would
  block or the connection ends. The bytes of the response body are kept in a growing buffer
  (\<^verbatim>\<open>src/buffer.c\<close>). An application embeds the server and answers requests in endpoints,
  which use \<^verbatim>\<open>src/api.c\<close>.

  The model. Memory is a list of bytes that is as long as what has been written; a pointer
  into the request buffer is an index; reading or writing outside, a failed assertion and
  \<^verbatim>\<open>abort()\<close> are \<^term>\<open>None\<close> of the type \<open>'a ub\<close> (an option), so that a theorem with
  \<^term>\<open>Some\<close> says that the code stays within defined behaviour. Records have the fields of
  the structs. The kernel is explicit: what the peer sends, what the socket takes, and which
  calls fail are scripts in the records \<open>os\<close> (one connection) and \<open>sockets\<close> (the listening
  side), or arguments; the file system, the calendar, the endpoints and the allocator are
  the fields of \<open>env\<close>. All are arbitrary in the theorems.

  The theories, bottom up:

  \<^item> \<open>Prelude\<close>: the option monad for undefined behaviour, bytes and C strings, decimal
    numbers. \<open>Resumable\<close>: the locale of a parser that can stop for want of input at any point
    and goes on when there is more, with the theorem that the pieces do not matter.
  \<^item> \<open>Buffer\<close>: \<^verbatim>\<open>src/buffer.c\<close>; \<open>Http_Types\<close>: the structs, the statuses, the kernel of one
    connection.
  \<^item> \<open>Http_Util\<close>, \<open>Http_Url\<close>: the helpers of \<^verbatim>\<open>src/http.c\<close> (numbers, traversal check, mime
    types, appending to a fixed buffer as the locale \<open>sink\<close>, URL decoding).
  \<^item> \<open>Http_Parse\<close>, \<open>Http_Parse_Laws\<close>, \<open>Http_Recv\<close>, \<open>Http_Recv_Safety\<close>, \<open>Http_Recv_Spec\<close>,
    \<open>Http_Recv_Chunks\<close>: \<^verbatim>\<open>kitserv_http_recv_request\<close>. The parser is a machine with a step for
    each label of the \<^verbatim>\<open>switch\<close>; it is an interpretation of \<open>resumable\<close>, from which follows
    that the way a request is cut into pieces has no influence; the other theories show that
    no step leaves the bytes received and what a complete request looks like.
    \<open>Http_Grammar\<close> says what a string of bytes means as a request, without pointers
    (\<open>judge\<close>), and \<open>Http_Judge\<close> shows that the parser gives this judgement on every string.
    \<open>Http_Recv_Window\<close>: a call sees no more of the stream than there is room for.
    \<open>Http_Request\<close>: what is received is judged by the first \<^verbatim>\<open>HTTP_BUFSZ\<close> bytes; and a
    printer of requests, what it prints is judged to be the request.
  \<^item> \<open>Http_Cookies\<close>, \<open>Http_Range\<close>: the parsers that run on demand, each equal to a grammar.
  \<^item> \<open>Http_Headers\<close>, \<open>Http_Response\<close>, \<open>Http_Prepare_Laws\<close>: adding headers (an interpretation
    of \<open>sink\<close>) and preparing responses and error responses.
  \<^item> \<open>Http_Static\<close>, \<open>Http_Route\<close>: static files, and the search for an endpoint with the routing
    that the header file documents as its specification (\<open>doc_route\<close>), which it meets on the paths
    that are clear in the tree.
  \<^item> \<open>Http_Send\<close>, \<open>Sendfile_Emulation\<close>: sending the vectors and the file.
  \<^item> \<open>Http_Serve\<close>, \<open>Http_Serve_Safety\<close>: the life of a client and the state machine; the
    invariant \<open>serve_inv\<close> under which a call is defined, returns, keeps the invariant, and
    stops only for what would block, with static files and with endpoints that behave. The
    line of the log is part of the state machine.
  \<^item> \<open>Static_Answer\<close>, \<open>Static_Pipeline\<close>, \<open>Static_Attend\<close>, \<open>Static_Session\<close>,
    \<open>Static_Stream\<close>, \<open>Static_Paths\<close>: the specification of a static server and the proof that the
    code meets it. \<open>answer\<close> says which bytes a request gets and whether the connection stays
    open, in terms of the files alone, \<open>answers\<close> and \<open>log_entries\<close> do so for a list of requests,
    and \<open>session\<close> says what is sent and logged on a connection for whatever bytes arrive.
    Static_Answer: the handler of static paths decides as \<open>plan\<close> says. Static_Pipeline: one
    call turns what is in the buffer into the answers. Static_Attend: a worker that calls
    again whenever the socket was not ready sends the same. Static_Session: what is no request
    is refused as specified. Static_Stream: so it goes for a stream of any length in any
    pieces, for every server that is an \<open>answering\<close> one (a locale: what it replies to each
    request that it has received); the static server is an interpretation. Static_Paths: the
    files that are looked at lie below the root.
  \<^item> \<open>Memory_Reply\<close>: answers the body of which is in memory, from the preparation until they
    have been sent. \<open>Application\<close>: a server with an API, another interpretation of
    \<open>answering\<close>: \<open>app_reply\<close> says which endpoint, error or file answers a request.
  \<^item> \<open>Api\<close>: \<^verbatim>\<open>src/api.c\<close>. \<open>Endpoints\<close>: an endpoint that reads its payload as the header file
    says, saving its state when it has to wait, behaves.
  \<^item> \<open>Queue\<close>, \<open>Socket\<close>: \<^verbatim>\<open>src/queue.c\<close> and \<^verbatim>\<open>src/socket.c\<close> over small models of epoll and
    of the socket calls.
  \<^item> \<open>Connection\<close>: the connections of a worker as an interpretation of the locale
    \<open>slot_pool\<close>; \<open>Server\<close>: the threads as a step relation with one step for what happens
    between two points where threads can interfere; \<open>Server_Safety\<close>: its invariant, and that a
    worker comes back to its queue whatever its peers and the other threads do.
  \<^item> \<open>Server_Start\<close>, \<open>Main_Program\<close>: the start with its signal mask, and the command line with
    its messages. \<open>Program_Life\<close>: the process, with the threads of \<open>Server\<close> running next to the
    main thread, signals arriving at any time, and the ways it can end.

  Loops and fuel. Loops that consume input, output or a list are functions with a proof of
  termination (the measures are the unread events and bytes, or the script of writes). The
  loop of \<^verbatim>\<open>kitserv_http_serve_client\<close> and the stand-in for \<^verbatim>\<open>sendfile\<close> are partial functions
  into an option, since an endpoint may keep the first and a truncated file keeps the second
  running for ever; that they do return is proved where it holds. There is no fuel.

  Assumptions that the theorems name. For a server (\<open>able_server\<close>) a web root is set, opened
  files have positive descriptors, and if there is an API tree it has two levels and its
  endpoints behave (\<open>endpoints_behave\<close>: what they leave can be sent, and they wait only when
  something would block); a server of static files (\<open>static_server\<close>) has no tree. Of the
  running server (\<open>initial\<close>) nothing is assumed but that its start came through: the last
  pointers of the free lists, which the code does not set, are what \<^verbatim>\<open>malloc\<close> had found
  there, and where one of them is not NULL a worker whose connections are all taken may fail
  (\<open>overrun\<close>, and \<open>full_container\<close>), in no other way. For the specification of a
  connection, which is for any bytes that arrive: no read and no write fails; the size of a
  file is that of its content (\<open>tidy\<close>); the socket takes the head of each response in one
  piece, and the files in any pieces (\<open>takes_heads\<close>), because bytes of a head that is cut are
  lost (\<open>partial_write_loses\<close>); the peer leaves its side open until it has been answered
  (\<open>stays_open\<close>), because what is in the buffer is dropped when it does not
  (\<open>half_close_drops_requests\<close>); and \<^verbatim>\<open>errno\<close> is not left at \<^verbatim>\<open>EACCES\<close>
  (\<open>stale_errno_forbids\<close>). For an application (\<open>app_ready\<close>): the tree has two levels, each
  endpoint, called with a request, writes a reply that fits into the buffers, without waiting
  and without reading the payload (\<open>echo_endpoint\<close>, built from the operations of
  \<^verbatim>\<open>src/api.c\<close>, is one that does); and the paths asked for are clear in the tree
  (\<open>routable\<close>: they do not end in the name of a subtree, and no subtree has the name of an
  entry), because others are not routed as documented (\<open>method_hides_subtree\<close>,
  \<open>query_reaches_endpoint\<close>).

  Two things that the C standard leaves undefined are given the meaning they have in
  practice: \<^verbatim>\<open>printf\<close> with a NULL string writes a text of the C library (\<open>null_text\<close>; the GNU
  library documents \<^verbatim>\<open>(null)\<close>), and the difference of a NULL pointer and the start of a
  buffer is negative (\<open>ptr_past_end\<close>).

  Not modelled: the messages that go to the standard error of a running server, and the
  line with the address of an accepted peer. The lines the workers log are modelled for each
  connection, in the order of its requests, but not how the lines of all workers and the
  messages of the main thread (\<open>main_output\<close>) follow each other on the standard output. The
  time functions, \<^verbatim>\<open>stat\<close> and \<^verbatim>\<open>open\<close> and the endpoints are arguments; the example of an
  application and the manual pages are not code of the server. Formatted output is given by
  what the format renders. Threads are interleaved at system calls and locks, which the
  weak memory of C would not promise without the locks the code has.
\<close>

section \<open>Properties\<close>

text \<open>
  C4: a server that a program has started with a configuration of its own fails in one
  situation only: with static files, or with a tree of two levels whose endpoints behave, no
  interleaving of the threads and nothing that peers, sockets, files, queues or the endpoints'
  waiting do leads to a failed assertion or to undefined behaviour, except that an accepter
  takes a connection from a worker that has none left, where the memory that \<^verbatim>\<open>malloc\<close> had
  found for the worker held no NULL in the last \<^verbatim>\<open>next_conn\<close>, a pointer the start does not
  set. So it never fails on memory where these pointers are NULL. (A NULL string is printed as
  \<^verbatim>\<open>(null)\<close>, as the GNU C library documents.) The example has an endpoint that reads its payload.
\<close>

theorem started_server_never_fails:
  assumes "kitserv_server_start cfg sys net env k = Some (Started r, k')" "\<forall>f fd. open_file env f = Inr fd \<longrightarrow> 0 < fd"
    and "case http_api_tree cfg of None \<Rightarrow> True | Some tree \<Rightarrow> proper_tree tree \<and> endpoints_behave env"
    and "launched r s" "steps (http_env r) content s s'" "step (http_env r) content s' x"
  shows "(x = None \<longrightarrow> overrun (last_pointers s) s') \<and> (set (last_pointers s) = {None} \<longrightarrow> x \<noteq> None)"
proof -
  note able = started_able [OF assms(1-3)]
  have "server_ok (last_pointers s) s" using assms(4) initial_ok by (simp add: launched_def)
  note ok = steps_ok [OF assms(5) able this]
  have n: "length (workers s') = length (last_pointers s)" using steps_length [OF assms(5)] by (simp add: last_pointers_def)
  have "x = None \<longrightarrow> overrun (last_pointers s) s'" using step_ok [OF able ok assms(6)] by auto
  moreover have "set (last_pointers s) = {None} \<longrightarrow> \<not> overrun (last_pointers s) s'"
    by (auto simp: overrun_def n dest!: nth_mem)
  ultimately show ?thesis by blast
qed

lemma started_server_never_fails_witness:
  "\<exists>r k' s'. kitserv_server_start endpoint_config all_well dual_stack upload_env (quiet_socks []) = Some (Started r, k') \<and>
     step (http_env r) (\<lambda>fd. []) small_server (Some s') \<and> \<not> step (http_env r) (\<lambda>fd. []) small_server None"
proof -
  have "\<exists>r k'. kitserv_server_start endpoint_config all_well dual_stack upload_env (quiet_socks []) = Some (Started r, k') \<and>
      worker_threads r = 1 \<and> slots_each r = 2 \<and> length (accept_fds r) = 2"
    by (simp add: endpoint_config_def sample_config_def sample_env_def kitserv_server_start_def check_config_def share_slots_def kitserv_http_init_def
      all_well_def bind_v6_def bind_v4_def start_threads_def block_signals_def kitserv_socket_prepare_def find_and_bind_socket_def dual_stack_def
      AF_INET_def AF_INET6_def bind_address_def sys_new_socket_def sys_call_def sys_listen_def quiet_socks_def Let_def fresh_fd_def
      upto.simps freeaddrinfo_def)
  then obtain r k' where p: "kitserv_server_start endpoint_config all_well dual_stack upload_env (quiet_socks []) = Some (Started r, k')"
    "launched r small_server" using small_launched by blast
  have f: "\<forall>f fd. open_file upload_env f = Inr fd \<longrightarrow> 0 < fd"
    "case http_api_tree endpoint_config of None \<Rightarrow> True | Some tree \<Rightarrow> proper_tree tree \<and> endpoints_behave upload_env"
    using upload_able by (simp_all add: able_server_def endpoint_config_def upload_env_def)
  have "set (last_pointers small_server) = {None}" using small_pointers by simp
  with started_server_never_fails [OF p(1) f p(2) rtranclp.rtrancl_refl] have "\<not> step (http_env r) (\<lambda>fd. []) small_server None" by blast
  moreover have "step (http_env r) (\<lambda>fd. []) small_server (Some (accept_conn 0 3 small_server))"
    by (rule step.accepting) (simp_all add: small_server_def)
  ultimately show ?thesis using p(1) by blast
qed

text \<open>
  C26: at the start every slot is free, and there are as many as were asked for: the free
  connections of all workers together are at least the configured number, and fewer than
  one per worker more.
\<close>

theorem all_slots_available:
  assumes "kitserv_server_start config sys net env k = Some (Started r, k')" "launched r s"
  shows "num_slots config \<le> sum_list (map (\<lambda>w. freelist_count (conn_container w)) (workers s)) \<and>
    sum_list (map (\<lambda>w. freelist_count (conn_container w)) (workers s)) < num_slots config + num_workers config"
proof -
  have "\<forall>w \<in> set (workers s). freelist_count (conn_container w) = slots_each r"
    using assms(2) initial_full [of s] by (auto simp: launched_def)
  then have "map (\<lambda>w. freelist_count (conn_container w)) (workers s) = replicate (worker_threads r) (slots_each r)"
    using assms(2) by (simp add: launched_def map_replicate_const cong: map_cong)
  then have "sum_list (map (\<lambda>w. freelist_count (conn_container w)) (workers s)) = slots_each r * int (worker_threads r)"
    by (simp add: sum_list_replicate mult.commute)
  with slots_shared [OF assms(1)] show ?thesis by auto
qed

lemma all_slots_available_witness:
  "2 \<le> sum_list (map (\<lambda>w. freelist_count (conn_container w)) (workers small_server)) \<and>
   sum_list (map (\<lambda>w. freelist_count (conn_container w)) (workers small_server)) < 2 + 1"
proof -
  obtain r k' where p: "main_program small_command all_well dual_stack sample_env (quiet_socks []) = Some (Started r, k')"
    "launched r small_server" using small_program by blast
  then obtain cfg where c: "main_config small_command = Inr cfg" "kitserv_server_start cfg all_well dual_stack sample_env (quiet_socks []) = Some (Started r, k')"
    by (auto simp: main_program_def split: sum.splits)
  have "num_slots cfg = 2 \<and> num_workers cfg = 1" using c(1)
    by (auto simp: small_command_def main_config_def option_step_def atoi_def strtoll_def isspace_def isdigit_def digits_val_def
        digit_val_def default_config_def on_context_def Let_def)
  with all_slots_available [OF c(2) p(2)] show ?thesis by simp
qed

end
